(* ===== verification/Prelude.thy ===== *)
theory Prelude
  imports Main "HOL-Library.Word"
begin

unbundle bit_operations_syntax

text \<open>
  Shared ground of the development: names for the machine types of the RV64
  target, the error codes of \<^verbatim>\<open>include/kern/lib/errors.h\<close>, the
  \<^verbatim>\<open>catch_e\<close>/\<^verbatim>\<open>panic_e\<close> discipline of \<^verbatim>\<open>include/kern/lib/debug.h\<close>, byte
  memory with reads and writes of ranges, and the generic word and list lemmas
  the component theories rely on.
\<close>

section \<open>Machine types\<close>

type_synonym u8 = "8 word"
type_synonym u32 = "32 word"
type_synonym u64 = "64 word"

text \<open>Byte-addressed memory, and pointers to kernel objects (indices of an object table).\<close>

type_synonym mem = "u64 \<Rightarrow> u8"
type_synonym ptr = nat

text \<open>Signed 64-bit values (\<^verbatim>\<open>intmax_t\<close>, \<^verbatim>\<open>sys_time_t\<close>) are integers; sums and products wrap.\<close>

definition swrap64 :: "int \<Rightarrow> int" where
  "swrap64 x = sint (word_of_int x :: u64)"

lemma swrap64_id [simp]: "- (2 ^ 63) \<le> x \<Longrightarrow> x < 2 ^ 63 \<Longrightarrow> swrap64 x = x"
  by (simp add: swrap64_def int_word_sint)

named_theorems layout_simps \<open>numeric values of the layout constants\<close>
named_theorems mem_simps \<open>reads of memory after writes\<close>

section \<open>Kernel error codes and error handling\<close>

datatype ker_err =
    KER_ARG_ER | KER_LOCK_ER | KER_DTB_ER | KER_ELF_ER | KER_DEV_ER | KER_MEM_ER
  | KER_CTX_ER | KER_INT_ER | KER_SRL_ER | KER_ASID_ER | KER_PART_ER | KER_PROC_ER
  | KER_SCHED_ER | KER_PORT_ER | KER_CHAN_ER | KER_BUF_ER

text \<open>
  A kernel function returns \<open>KER_SUCCESS\<close> (with its out-parameters), a negated
  error code, or does not return because \<open>fatal\<close> was called.
\<close>

datatype 'a result = OK 'a | ERR ker_err | PANIC

definition catch_e :: "'a result \<Rightarrow> ('a \<Rightarrow> 'b result) \<Rightarrow> 'b result" where
  "catch_e r f = (case r of OK x \<Rightarrow> f x | ERR e \<Rightarrow> ERR e | PANIC \<Rightarrow> PANIC)"

definition panic_e :: "'a result \<Rightarrow> ('a \<Rightarrow> 'b result) \<Rightarrow> 'b result" where
  "panic_e r f = (case r of OK x \<Rightarrow> f x | ERR e \<Rightarrow> PANIC | PANIC \<Rightarrow> PANIC)"

lemma catch_e_simps [simp]:
  "catch_e (OK x) f = f x" "catch_e (ERR e) f = ERR e" "catch_e PANIC f = PANIC"
  by (simp_all add: catch_e_def)

lemma panic_e_simps [simp]:
  "panic_e (OK x) f = f x" "panic_e (ERR e) f = PANIC" "panic_e PANIC f = PANIC"
  by (simp_all add: panic_e_def)

lemma catch_e_eq_OK: "catch_e r f = OK y \<longleftrightarrow> (\<exists>x. r = OK x \<and> f x = OK y)"
  by (cases r) auto

lemma panic_e_eq_OK: "panic_e r f = OK y \<longleftrightarrow> (\<exists>x. r = OK x \<and> f x = OK y)"
  by (cases r) auto

section \<open>Byte memory\<close>

definition mem_read :: "mem \<Rightarrow> u64 \<Rightarrow> nat \<Rightarrow> u8 list" where
  "mem_read m a n = map (\<lambda>i. m (a + of_nat i)) [0..<n]"

definition mem_write :: "mem \<Rightarrow> u64 \<Rightarrow> u8 list \<Rightarrow> mem" where
  "mem_write m a bs = (\<lambda>x. if unat (x - a) < length bs then bs ! unat (x - a) else m x)"

lemma unat_lt64: "unat (x :: u64) < 2 ^ 64"
  using unsigned_less [of x, where 'a = nat] by simp

lemma unat_ucast_up:
  "LENGTH('a) \<le> LENGTH('b) \<Longrightarrow> unat (ucast (w :: 'a :: len word) :: 'b :: len word) = unat w"
proof -
  assume "LENGTH('a) \<le> LENGTH('b)"
  then have "(2 :: nat) ^ LENGTH('a) \<le> 2 ^ LENGTH('b)" by simp
  then have "unat w < 2 ^ LENGTH('b)" using unsigned_less [of w, where 'a = nat] by linarith
  then show ?thesis by (simp add: unsigned_ucast_eq take_bit_nat_eq_self)
qed

text \<open>Two address ranges that share no byte, and a set of addresses a range stays within.\<close>

definition range_of :: "u64 \<Rightarrow> nat \<Rightarrow> u64 set" where
  "range_of a n = {x. unat (x - a) < n}"

lemma range_of_code [code]: "range_of a n = (\<lambda>i. a + of_nat i) ` {0..<min n (2 ^ 64)}"
proof (intro equalityI subsetI)
  fix x assume "x \<in> range_of a n"
  then have "unat (x - a) < min n (2 ^ 64)"
    using unat_lt64 [of "x - a"] by (simp add: range_of_def)
  moreover have "x = a + of_nat (unat (x - a))" by simp
  ultimately show "x \<in> (\<lambda>i. a + of_nat i) ` {0..<min n (2 ^ 64)}"
    by (metis atLeastLessThan_iff imageI zero_le)
next
  fix x assume "x \<in> (\<lambda>i. a + of_nat i) ` {0..<min n (2 ^ 64)}"
  then obtain i where "i < n" "i < 2 ^ 64" "x = a + of_nat i" by auto
  then show "x \<in> range_of a n"
    by (simp add: range_of_def unat_of_nat)
qed

lemma range_of_upt: "n \<le> 2 ^ 64 \<Longrightarrow> range_of a n = set (map (\<lambda>i. a + of_nat i) [0..<n])"
  by (simp add: range_of_code)

lemma length_mem_read [simp]: "length (mem_read m a n) = n"
  by (simp add: mem_read_def)

lemma mem_read_0 [simp]: "mem_read m a 0 = []"
  by (simp add: mem_read_def)

lemma unat_of_nat_lt64 [simp]: "i < 2 ^ 64 \<Longrightarrow> unat (of_nat i :: u64) = i"
  by (simp add: unat_of_nat)

lemma of_nat_eq_0_small64: "d < 2 ^ 64 \<Longrightarrow> (of_nat d :: u64) = 0 \<longleftrightarrow> d = 0"
  unfolding unat_eq_zero [symmetric] by (simp only: unat_of_nat_lt64)

lemma mem_read_write_same [mem_simps]:
  assumes "length bs = n" "n \<le> 2 ^ 64"
  shows "mem_read (mem_write m a bs) a n = bs"
proof (rule nth_equalityI)
  show "length (mem_read (mem_write m a bs) a n) = length bs" using assms by simp
next
  fix i assume "i < length (mem_read (mem_write m a bs) a n)"
  with assms show "mem_read (mem_write m a bs) a n ! i = bs ! i"
    by (simp add: mem_read_def mem_write_def)
qed

lemma mem_write_outside [mem_simps]:
  "x \<notin> range_of a (length bs) \<Longrightarrow> mem_write m a bs x = m x"
  by (simp add: mem_write_def range_of_def)

lemma mem_read_write_other [mem_simps]:
  assumes "range_of a n \<inter> range_of b (length bs) = {}" "n \<le> 2 ^ 64"
  shows "mem_read (mem_write m b bs) a n = mem_read m a n"
proof -
  have "mem_write m b bs (a + of_nat i) = m (a + of_nat i)" if "i < n" for i
  proof -
    have "a + of_nat i \<in> range_of a n"
      using that assms(2) by (simp add: range_of_def)
    with assms(1) show ?thesis by (auto intro: mem_write_outside)
  qed
  then show ?thesis by (simp add: mem_read_def)
qed

lemma mem_read_cong:
  assumes "\<And>x. x \<in> range_of a n \<Longrightarrow> m x = m' x" "n \<le> 2 ^ 64"
  shows "mem_read m a n = mem_read m' a n"
  using assms by (simp add: mem_read_def range_of_def)

lemma mem_read_append:
  "mem_read m a (n + k) = mem_read m a n @ mem_read m (a + of_nat n) k"
  by (rule nth_equalityI) (auto simp: mem_read_def nth_append algebra_simps)

lemma mem_write_append:
  assumes "length bs + length cs \<le> 2 ^ 64"
  shows "mem_write (mem_write m a bs) (a + of_nat (length bs)) cs = mem_write m a (bs @ cs)"
proof
  fix x
  let ?n = "length bs"
  have shift: "unat (x - (a + of_nat ?n)) = unat (x - a) - ?n" if "?n \<le> unat (x - a)"
  proof -
    have "unat (x - a - of_nat ?n) = unat (x - a) - unat (of_nat ?n :: u64)"
      using that assms unat_lt64 [of "x - a"]
      by (intro unat_sub) (simp add: word_le_nat_alt)
    moreover have "unat (of_nat ?n :: u64) = ?n"
      using that unat_lt64 [of "x - a"] by simp
    ultimately show ?thesis by (simp add: diff_diff_eq)
  qed
  have wrap: "\<not> unat (x - (a + of_nat ?n)) < length cs" if "unat (x - a) < ?n"
  proof (cases "cs = []")
    case False
    with assms have n: "?n < 2 ^ 64" by (cases cs) auto
    have "unat (x - a - of_nat ?n) = unat (x - a) + 2 ^ 64 - ?n"
      using that n by (subst unat_sub_if_size) (simp add: word_size)
    then show ?thesis using assms n that by (simp add: diff_diff_eq)
  qed simp
  show "mem_write (mem_write m a bs) (a + of_nat ?n) cs x = mem_write m a (bs @ cs) x"
  proof (cases "unat (x - a) < ?n")
    case True
    then show ?thesis using wrap by (simp add: mem_write_def nth_append)
  next
    case False
    then show ?thesis using shift by (auto simp: mem_write_def nth_append)
  qed
qed

lemma range_of_append:
  assumes "n + k \<le> 2 ^ 64"
  shows "range_of a (n + k) = range_of a n \<union> range_of (a + of_nat n) k"
proof -
  have "mem_write (mem_write (\<lambda>_. 0) a (replicate n 1)) (a + of_nat n) (replicate k 1)
      = mem_write (\<lambda>_. 0) a (replicate n 1 @ replicate k 1)"
    using mem_write_append [of "replicate n 1" "replicate k 1" "\<lambda>_. 0" a] assms by simp
  then have "(unat (x - (a + of_nat n)) < k \<or> unat (x - a) < n) = (unat (x - a) < n + k)" for x
    by (auto dest!: fun_cong [where x = x] simp: mem_write_def nth_append split: if_splits)
  then show ?thesis by (auto simp: range_of_def)
qed

section \<open>Little-endian byte encodings\<close>

fun bytes_of :: "nat \<Rightarrow> u64 \<Rightarrow> u8 list" where
  "bytes_of 0 w = []"
| "bytes_of (Suc n) w = ucast w # bytes_of n (drop_bit 8 w)"

fun word_of :: "u8 list \<Rightarrow> u64" where
  "word_of [] = 0"
| "word_of (b # bs) = ucast b OR push_bit 8 (word_of bs)"

lemma length_bytes_of [simp]: "length (bytes_of n w) = n"
  by (induction n arbitrary: w) auto

lemma word_of_bytes_of: "word_of (bytes_of n w) = take_bit (8 * n) w"
proof (induction n arbitrary: w)
  case (Suc n)
  show ?case
    by (rule bit_eqI) (auto simp: Suc bit_simps)
qed simp

lemma word_of_bytes_of_8 [simp]: "word_of (bytes_of 8 w) = w"
  by (simp add: word_of_bytes_of take_bit_word_eq_self)

end
