(* ===== verification/Linked_List.thy ===== *)
theory Linked_List
  imports Prelude
begin

text \<open>
  The intrusive lists of \<^verbatim>\<open>include/list.h\<close> at pointer level. A
  \<^verbatim>\<open>linked_node\<close> has a \<^verbatim>\<open>next\<close> pointer and a \<^verbatim>\<open>prev\<close> pointer to the slot
  that points to it: the \<^verbatim>\<open>l_first\<close>/\<^verbatim>\<open>h_first\<close> field of a head or the
  \<^verbatim>\<open>next\<close> field of another node. The operations are refined to operations on
  HOL lists, which is what the rest of the development uses for a \<^verbatim>\<open>list_head\<close>.
\<close>

section \<open>Heap of list nodes\<close>

type_synonym node = nat
type_synonym head = nat

datatype slot = L_First head | H_First head | N_Next node

record lheap =
  n_next :: "node \<Rightarrow> node option"
  n_prev :: "node \<Rightarrow> slot"
  l_first :: "head \<Rightarrow> node option"
  l_last :: "head \<Rightarrow> slot"
  h_first :: "head \<Rightarrow> node option"

fun read_slot :: "lheap \<Rightarrow> slot \<Rightarrow> node option" where
  "read_slot hp (L_First h) = l_first hp h"
| "read_slot hp (H_First h) = h_first hp h"
| "read_slot hp (N_Next n) = n_next hp n"

fun write_slot :: "lheap \<Rightarrow> slot \<Rightarrow> node option \<Rightarrow> lheap" where
  "write_slot hp (L_First h) v = hp\<lparr>l_first := (l_first hp)(h := v)\<rparr>"
| "write_slot hp (H_First h) v = hp\<lparr>h_first := (h_first hp)(h := v)\<rparr>"
| "write_slot hp (N_Next n) v = hp\<lparr>n_next := (n_next hp)(n := v)\<rparr>"

definition set_prev :: "lheap \<Rightarrow> node \<Rightarrow> slot \<Rightarrow> lheap" where
  "set_prev hp n s = hp\<lparr>n_prev := (n_prev hp)(n := s)\<rparr>"

definition set_next :: "lheap \<Rightarrow> node \<Rightarrow> node option \<Rightarrow> lheap" where
  "set_next hp n v = hp\<lparr>n_next := (n_next hp)(n := v)\<rparr>"

definition set_last :: "lheap \<Rightarrow> head \<Rightarrow> slot \<Rightarrow> lheap" where
  "set_last hp h s = hp\<lparr>l_last := (l_last hp)(h := s)\<rparr>"

section \<open>Operations\<close>

definition list_init :: "lheap \<Rightarrow> head \<Rightarrow> lheap" where
  "list_init hp h = set_last (hp\<lparr>l_first := (l_first hp)(h := None)\<rparr>) h (L_First h)"

definition list_empty :: "lheap \<Rightarrow> head \<Rightarrow> bool" where
  "list_empty hp h = (l_first hp h = None)"

definition list_first :: "lheap \<Rightarrow> head \<Rightarrow> node option" where
  "list_first hp h = l_first hp h"

definition list_last :: "lheap \<Rightarrow> head \<Rightarrow> node option" where
  "list_last hp h = (case l_last hp h of N_Next n \<Rightarrow> Some n | _ \<Rightarrow> None)"

definition list_insert_head :: "lheap \<Rightarrow> head \<Rightarrow> node \<Rightarrow> lheap" where
  "list_insert_head hp h n =
     (let hp1 = set_next hp n (l_first hp h);
          hp2 = (case n_next hp1 n of
                   Some m \<Rightarrow> set_prev hp1 m (N_Next n)
                 | None \<Rightarrow> set_last hp1 h (N_Next n));
          hp3 = hp2\<lparr>l_first := (l_first hp2)(h := Some n)\<rparr>
      in set_prev hp3 n (L_First h))"

definition list_insert_tail :: "lheap \<Rightarrow> head \<Rightarrow> node \<Rightarrow> lheap" where
  "list_insert_tail hp h n =
     (let hp1 = set_next hp n None;
          hp2 = set_prev hp1 n (l_last hp1 h);
          hp3 = write_slot hp2 (l_last hp2 h) (Some n)
      in set_last hp3 h (N_Next n))"

definition list_insert_before :: "lheap \<Rightarrow> node \<Rightarrow> node \<Rightarrow> lheap" where
  "list_insert_before hp listnode n =
     (let hp1 = set_next hp n (Some listnode);
          hp2 = set_prev hp1 n (n_prev hp1 listnode);
          hp3 = write_slot hp2 (n_prev hp2 listnode) (Some n)
      in set_prev hp3 listnode (N_Next n))"

definition list_remove_node :: "lheap \<Rightarrow> head \<Rightarrow> node \<Rightarrow> lheap" where
  "list_remove_node hp h n =
     (let hp1 = (case n_next hp n of
                   Some m \<Rightarrow> set_prev hp m (n_prev hp n)
                 | None \<Rightarrow> set_last hp h (n_prev hp n))
      in write_slot hp1 (n_prev hp1 n) (n_next hp1 n))"

definition hlist_init :: "lheap \<Rightarrow> head \<Rightarrow> lheap" where
  "hlist_init hp h = hp\<lparr>h_first := (h_first hp)(h := None)\<rparr>"

definition hlist_empty :: "lheap \<Rightarrow> head \<Rightarrow> bool" where
  "hlist_empty hp h = (h_first hp h = None)"

definition hlist_first :: "lheap \<Rightarrow> head \<Rightarrow> node option" where
  "hlist_first hp h = h_first hp h"

definition hlist_insert_head :: "lheap \<Rightarrow> head \<Rightarrow> node \<Rightarrow> lheap" where
  "hlist_insert_head hp h n =
     (let hp1 = set_next hp n (h_first hp h);
          hp2 = (case n_next hp1 n of Some m \<Rightarrow> set_prev hp1 m (N_Next n) | None \<Rightarrow> hp1);
          hp3 = hp2\<lparr>h_first := (h_first hp2)(h := Some n)\<rparr>
      in set_prev hp3 n (H_First h))"

definition hlist_remove_node :: "lheap \<Rightarrow> node \<Rightarrow> lheap" where
  "hlist_remove_node hp n =
     (let hp1 = (case n_next hp n of Some m \<Rightarrow> set_prev hp m (n_prev hp n) | None \<Rightarrow> hp)
      in write_slot hp1 (n_prev hp1 n) (n_next hp1 n))"

text \<open>\<open>LINKED_NODE_ITER\<close>: the nodes met from a pointer on, within \<open>fuel\<close> steps.\<close>

fun node_iter :: "nat \<Rightarrow> lheap \<Rightarrow> node option \<Rightarrow> node list option" where
  "node_iter fuel hp None = Some []"
| "node_iter 0 hp (Some n) = None"
| "node_iter (Suc fuel) hp (Some n) = map_option ((#) n) (node_iter fuel hp (n_next hp n))"

section \<open>Representation\<close>

text \<open>
  \<open>linked hp s ns\<close>: from slot \<open>s\<close> the nodes \<open>ns\<close> are linked in order and each
  \<^verbatim>\<open>prev\<close> points back to the slot that holds the node; \<open>end_slot s ns\<close> is the
  slot after the last of them, which holds \<^verbatim>\<open>NULL\<close> in a list.
\<close>

fun end_slot :: "slot \<Rightarrow> node list \<Rightarrow> slot" where
  "end_slot s [] = s"
| "end_slot s (n # ns) = end_slot (N_Next n) ns"

primrec linked :: "lheap \<Rightarrow> slot \<Rightarrow> node list \<Rightarrow> bool" where
  "linked hp s [] \<longleftrightarrow> True"
| "linked hp s (n # ns) \<longleftrightarrow> read_slot hp s = Some n \<and> n_prev hp n = s \<and> linked hp (N_Next n) ns"

definition is_chain :: "lheap \<Rightarrow> slot \<Rightarrow> node list \<Rightarrow> bool" where
  "is_chain hp s ns \<longleftrightarrow> linked hp s ns \<and> read_slot hp (end_slot s ns) = None \<and> distinct ns"

definition is_list :: "lheap \<Rightarrow> head \<Rightarrow> node list \<Rightarrow> bool" where
  "is_list hp h ns \<longleftrightarrow> is_chain hp (L_First h) ns \<and> l_last hp h = end_slot (L_First h) ns"

definition is_hlist :: "lheap \<Rightarrow> head \<Rightarrow> node list \<Rightarrow> bool" where
  "is_hlist hp h ns \<longleftrightarrow> is_chain hp (H_First h) ns"

lemma set_fields [simp]:
  "n_next (set_prev hp n s) = n_next hp" "n_next (set_last hp h s) = n_next hp"
  "n_next (set_next hp n v) = (n_next hp)(n := v)"
  "n_prev (set_prev hp n s) = (n_prev hp)(n := s)"
  "n_prev (set_last hp h s) = n_prev hp" "n_prev (set_next hp n v) = n_prev hp"
  "l_first (set_prev hp n s) = l_first hp" "l_first (set_last hp h s) = l_first hp"
  "l_first (set_next hp n v) = l_first hp"
  "h_first (set_prev hp n s) = h_first hp" "h_first (set_last hp h s) = h_first hp"
  "h_first (set_next hp n v) = h_first hp"
  "l_last (set_prev hp n s) = l_last hp" "l_last (set_last hp h s) = (l_last hp)(h := s)"
  "l_last (set_next hp n v) = l_last hp"
  by (simp_all add: set_prev_def set_last_def set_next_def)

lemma write_slot_fields [simp]:
  "n_prev (write_slot hp s v) = n_prev hp" "l_last (write_slot hp s v) = l_last hp"
  "read_slot (write_slot hp s v) s' = (if s' = s then v else read_slot hp s')"
  by (cases s; cases s'; auto)+

lemma read_slot_upd [simp]:
  "read_slot (set_prev hp n q) s = read_slot hp s"
  "read_slot (set_last hp h q) s = read_slot hp s"
  "read_slot (set_next hp n v) s = (if s = N_Next n then v else read_slot hp s)"
  by (cases s; auto)+

lemma end_slot_append [simp]: "end_slot s (as @ bs) = end_slot (end_slot s as) bs"
  by (induction as arbitrary: s) auto

lemma end_slot_in: "end_slot s ns \<in> insert s (N_Next ` set ns)"
  by (induction ns arbitrary: s) auto

lemma linked_append [simp]:
  "linked hp s (as @ bs) \<longleftrightarrow> linked hp s as \<and> linked hp (end_slot s as) bs"
  by (induction as arbitrary: s) auto

lemma end_slot_neq: "q \<noteq> s \<Longrightarrow> q \<notin> N_Next ` set ns \<Longrightarrow> end_slot s ns \<noteq> q"
  using end_slot_in [of s ns] by auto

lemma read_end_slot: "linked hp s (as @ n # bs) \<Longrightarrow> read_slot hp (end_slot s as) = Some n"
  by simp

text \<open>
  What a linked segment depends on: the \<^verbatim>\<open>prev\<close> fields of its nodes and every slot of
  it but the final one.
\<close>

lemma linked_cong:
  assumes "linked hp s ns" "distinct ns" "s \<notin> N_Next ` set ns"
    "\<And>q. q \<in> insert s (N_Next ` set ns) \<Longrightarrow> q \<noteq> end_slot s ns \<Longrightarrow> read_slot hp' q = read_slot hp q"
    "\<And>n. n \<in> set ns \<Longrightarrow> n_prev hp' n = n_prev hp n"
  shows "linked hp' s ns"
  using assms
proof (induction ns arbitrary: s)
  case (Cons n ns)
  have "end_slot (N_Next n) ns \<noteq> s"
    using Cons.prems(3) by (intro end_slot_neq) auto
  then have "read_slot hp' s = read_slot hp s"
    using Cons.prems(4) [of s] by auto
  moreover have "linked hp' (N_Next n) ns"
    using Cons.prems by (intro Cons.IH) auto
  ultimately show ?case using Cons.prems(1,5) by simp
qed simp

lemmas op_defs = list_insert_head_def list_insert_tail_def list_insert_before_def
  list_remove_node_def hlist_insert_head_def hlist_remove_node_def

section \<open>Every operation implements its list counterpart\<close>

lemma list_init_is_list: "is_list (list_init hp h) h []"
  by (simp add: is_list_def is_chain_def list_init_def)

lemma list_empty_iff: "is_list hp h ns \<Longrightarrow> list_empty hp h \<longleftrightarrow> ns = []"
  by (cases ns) (auto simp: is_list_def is_chain_def list_empty_def)

lemma list_first_eq: "is_list hp h ns \<Longrightarrow> list_first hp h = (case ns of [] \<Rightarrow> None | n # _ \<Rightarrow> Some n)"
  by (cases ns) (auto simp: is_list_def is_chain_def list_first_def)

lemma list_last_eq: "is_list hp h ns \<Longrightarrow> list_last hp h = (if ns = [] then None else Some (last ns))"
  by (cases ns rule: rev_cases) (auto simp: is_list_def list_last_def)

lemma linked_set_last [simp]: "linked (set_last hp h q) s ns = linked hp s ns"
  by (induction ns arbitrary: s) auto

lemma is_chain_set_last [simp]: "is_chain (set_last hp h q) s ns = is_chain hp s ns"
  by (simp add: is_chain_def)

lemma end_slot_head:
  assumes "\<And>k. s \<noteq> N_Next k" "n \<notin> set ns"
  shows "end_slot s ns \<noteq> N_Next n"
  using assms by (intro end_slot_neq) auto

text \<open>
  Pointer surgery on a chain: a heap that agrees with the old one on the slots and back
  pointers of the two outer segments, and links \<open>xs\<close> between them in place of \<open>ys\<close>.
\<close>

lemma is_chain_splice:
  assumes ch: "is_chain hp s (as @ ys @ bs)" and s: "\<And>k. s \<noteq> N_Next k"
    and q0: "\<And>q. q \<in> insert s (N_Next ` set as) \<Longrightarrow> q \<noteq> end_slot s as \<Longrightarrow> read_slot hp' q = read_slot hp q"
    and p0: "\<And>k. k \<in> set as \<Longrightarrow> n_prev hp' k = n_prev hp k"
    and mid: "linked hp' (end_slot s as) xs" "distinct (as @ xs @ bs)"
    and join: "read_slot hp' (end_slot s (as @ xs)) = (case bs of [] \<Rightarrow> None | b # _ \<Rightarrow> Some b)"
    and p1: "bs \<noteq> [] \<Longrightarrow> n_prev hp' (hd bs) = end_slot s (as @ xs)"
    and q2: "\<And>k. k \<in> set bs \<Longrightarrow> n_next hp' k = n_next hp k"
    and p2: "\<And>k. k \<in> set (tl bs) \<Longrightarrow> n_prev hp' k = n_prev hp k"
  shows "is_chain hp' s (as @ xs @ bs)"
proof -
  have "linked hp' s as"
  proof (rule linked_cong [of hp s as])
    show "linked hp s as" "distinct as" using ch by (simp_all add: is_chain_def)
    show "s \<notin> N_Next ` set as" using s by blast
  qed (fact q0 p0)+
  moreover have "linked hp' (end_slot s (as @ xs)) bs \<and> read_slot hp' (end_slot s (as @ xs @ bs)) = None"
  proof (cases bs)
    case Nil
    then show ?thesis using join by simp
  next
    case (Cons b cs)
    have "linked hp' (N_Next b) cs"
    proof (rule linked_cong [of hp "N_Next b" cs])
      show "linked hp (N_Next b) cs" "distinct cs" "N_Next b \<notin> N_Next ` set cs"
        using ch Cons by (auto simp: is_chain_def)
    qed (use q2 p2 Cons in auto)
    moreover have "end_slot (N_Next b) cs \<in> N_Next ` set bs"
      using end_slot_in [of "N_Next b" cs] Cons by auto
    then have "read_slot hp' (end_slot (N_Next b) cs) = None"
      using ch q2 Cons by (auto simp: is_chain_def)
    ultimately show ?thesis using join p1 Cons by simp
  qed
  ultimately show ?thesis using mid by (simp add: is_chain_def)
qed

lemma list_insert_tail_is_list:
  assumes "is_list hp h ns" "n \<notin> set ns"
  shows "is_list (list_insert_tail hp h n) h (ns @ [n])"
proof -
  let ?s = "L_First h" and ?hp = "list_insert_tail hp h n"
  have l: "l_last hp h = end_slot ?s ns" "is_chain hp ?s ns" using assms(1) by (auto simp: is_list_def)
  have e: "end_slot ?s ns \<noteq> N_Next n" using assms(2) by (intro end_slot_head) auto
  have rd: "read_slot ?hp q = (if q = end_slot ?s ns then Some n else if q = N_Next n then None else read_slot hp q)" for q
    using l e by (simp add: list_insert_tail_def Let_def)
  have pv: "n_prev ?hp k = (if k = n then end_slot ?s ns else n_prev hp k)" for k
    using l by (simp add: list_insert_tail_def Let_def)
  have nx: "n_next ?hp n = None" using rd [of "N_Next n"] e by auto
  have "is_chain ?hp ?s (ns @ [n] @ [])"
  proof (rule is_chain_splice [of hp _ _ "[]"])
    show "is_chain hp ?s (ns @ [] @ [])" using l by simp
    show "distinct (ns @ [n] @ [])" using l assms(2) by (simp add: is_chain_def)
    show "read_slot ?hp q = read_slot hp q" if "q \<in> insert ?s (N_Next ` set ns)" "q \<noteq> end_slot ?s ns" for q
      using rd [of q] that assms(2) by auto
    show "n_prev ?hp k = n_prev hp k" if "k \<in> set ns" for k
      using pv [of k] that assms(2) by auto
  qed (simp_all add: rd pv nx)
  moreover have "l_last ?hp h = N_Next n" by (simp add: list_insert_tail_def Let_def)
  ultimately show ?thesis by (simp add: is_list_def)
qed

text \<open>Inserting at the head, for both kinds of list.\<close>

lemma chain_insert_head:
  assumes ch: "is_chain hp s ns" and n: "n \<notin> set ns" and s: "\<And>k. s \<noteq> N_Next k"
    and rd: "\<And>q. read_slot hp' q = (if q = s then Some n else if q = N_Next n then read_slot hp s else read_slot hp q)"
    and pv: "\<And>k. n_prev hp' k = (if k = n then s else if read_slot hp s = Some k then N_Next n else n_prev hp k)"
  shows "is_chain hp' s (n # ns)"
proof -
  have nx: "n_next hp' k = (if k = n then read_slot hp s else n_next hp k)" for k
    using rd [of "N_Next k"] s [of k] by auto
  have first: "read_slot hp s = (case ns of [] \<Rightarrow> None | m # _ \<Rightarrow> Some m)"
    using ch by (auto simp: is_chain_def split: list.splits)
  have "is_chain hp' s ([] @ [n] @ ns)"
  proof (rule is_chain_splice [of hp _ _ "[]"])
    show "is_chain hp s ([] @ [] @ ns)" using ch by simp
    show "linked hp' (end_slot s []) [n]" "distinct ([] @ [n] @ ns)"
      using rd [of s] pv [of n] n ch by (simp_all add: is_chain_def)
    show "read_slot hp' (end_slot s ([] @ [n])) = (case ns of [] \<Rightarrow> None | b # _ \<Rightarrow> Some b)"
      using nx [of n] first by simp
    show "n_prev hp' (hd ns) = end_slot s ([] @ [n])" if "ns \<noteq> []"
      using that first pv [of "hd ns"] n by (cases ns) auto
    show "n_prev hp' k = n_prev hp k" if "k \<in> set (tl ns)" for k
    proof -
      have "k \<noteq> n" "read_slot hp s \<noteq> Some k"
        using that n ch first by (cases ns; auto simp: is_chain_def)+
      then show ?thesis by (simp add: pv)
    qed
    show "n_next hp' k = n_next hp k" if "k \<in> set ns" for k
      using that n nx by auto
  qed (use s in auto)
  then show ?thesis by simp
qed

lemma list_insert_head_is_list:
  assumes "is_list hp h ns" "n \<notin> set ns"
  shows "is_list (list_insert_head hp h n) h (n # ns)"
proof -
  let ?s = "L_First h" and ?hp = "list_insert_head hp h n"
  have l: "l_last hp h = end_slot ?s ns" "is_chain hp ?s ns" using assms(1) by (auto simp: is_list_def)
  have first: "l_first hp h = (case ns of [] \<Rightarrow> None | m # _ \<Rightarrow> Some m)"
    using l(2) by (auto simp: is_chain_def split: list.splits)
  have rd: "read_slot ?hp q = (if q = ?s then Some n else if q = N_Next n then read_slot hp ?s else read_slot hp q)" for q
    by (cases q) (auto simp: list_insert_head_def Let_def split: option.splits)
  have pv: "n_prev ?hp k = (if k = n then ?s else if read_slot hp ?s = Some k then N_Next n else n_prev hp k)" for k
    by (auto simp: list_insert_head_def Let_def split: option.splits)
  have "is_chain ?hp ?s (n # ns)"
    using chain_insert_head [OF l(2) assms(2) _ rd pv] by simp
  moreover have "l_last ?hp h = end_slot ?s (n # ns)"
    using l(1) first by (cases ns) (simp_all add: list_insert_head_def Let_def)
  ultimately show ?thesis by (simp add: is_list_def)
qed

lemma hlist_insert_head_is_hlist:
  assumes "is_hlist hp h ns" "n \<notin> set ns"
  shows "is_hlist (hlist_insert_head hp h n) h (n # ns)"
proof -
  let ?s = "H_First h" and ?hp = "hlist_insert_head hp h n"
  have rd: "read_slot ?hp q = (if q = ?s then Some n else if q = N_Next n then read_slot hp ?s else read_slot hp q)" for q
    by (cases q) (auto simp: hlist_insert_head_def Let_def split: option.splits)
  have pv: "n_prev ?hp k = (if k = n then ?s else if read_slot hp ?s = Some k then N_Next n else n_prev hp k)" for k
    by (auto simp: hlist_insert_head_def Let_def split: option.splits)
  show ?thesis
    using chain_insert_head [OF _ assms(2) _ rd pv] assms(1) by (simp add: is_hlist_def)
qed

text \<open>Inserting before a member.\<close>

lemma list_insert_before_is_list:
  assumes "is_list hp h (as @ m # bs)" "n \<notin> set (as @ m # bs)"
  shows "is_list (list_insert_before hp m n) h (as @ n # m # bs)"
proof -
  let ?s = "L_First h" and ?hp = "list_insert_before hp m n" and ?e = "end_slot (L_First h) as"
  have ch: "is_chain hp ?s (as @ m # bs)" using assms(1) by (simp add: is_list_def)
  have e: "n_prev hp m = ?e" "?e \<noteq> N_Next n" "\<And>k. k \<in> set (m # bs) \<Longrightarrow> ?e \<noteq> N_Next k"
  proof -
    show "n_prev hp m = ?e" using ch by (simp add: is_chain_def)
    show "?e \<noteq> N_Next n" using assms(2) by (intro end_slot_head) auto
    show "?e \<noteq> N_Next k" if "k \<in> set (m # bs)" for k
      using ch that by (intro end_slot_head) (auto simp: is_chain_def)
  qed
  have rd: "read_slot ?hp q = (if q = ?e then Some n else if q = N_Next n then Some m else read_slot hp q)" for q
    using e(1,2) assms(2) by (auto simp: list_insert_before_def Let_def)
  have pv: "n_prev ?hp k = (if k = m then N_Next n else if k = n then ?e else n_prev hp k)" for k
    using e(1) assms(2) by (auto simp: list_insert_before_def Let_def)
  have nx: "n_next ?hp k = (if N_Next k = ?e then Some n else if k = n then Some m else n_next hp k)" for k
    using rd [of "N_Next k"] by simp
  have "is_chain ?hp ?s (as @ [n] @ (m # bs))"
  proof (rule is_chain_splice [of hp _ _ "[]"])
    show "is_chain hp ?s (as @ [] @ m # bs)" using ch by simp
    show "linked ?hp ?e [n]" "distinct (as @ [n] @ m # bs)"
      using assms(2) ch rd [of ?e] pv [of n] by (auto simp: is_chain_def)
    show "read_slot ?hp (end_slot ?s (as @ [n])) = (case m # bs of [] \<Rightarrow> None | b # _ \<Rightarrow> Some b)"
      using nx [of n] e(2) by auto
    show "n_next ?hp k = n_next hp k" if "k \<in> set (m # bs)" for k
      using nx [of k] e(3) [OF that] that assms(2) by auto
    show "n_prev ?hp k = n_prev hp k" if "k \<in> set as" for k
      using pv [of k] that ch assms(2) by (auto simp: is_chain_def)
    show "n_prev ?hp k = n_prev hp k" if "k \<in> set (tl (m # bs))" for k
      using pv [of k] that ch assms(2) by (auto simp: is_chain_def)
    show "read_slot ?hp q = read_slot hp q" if "q \<in> insert ?s (N_Next ` set as)" "q \<noteq> ?e" for q
      using rd [of q] that assms(2) by auto
  qed (simp_all add: pv)
  moreover have "l_last ?hp = l_last hp" by (simp add: list_insert_before_def Let_def)
  ultimately show ?thesis using assms(1) by (simp add: is_list_def)
qed

text \<open>Unlinking a member, for both kinds of list.\<close>

lemma chain_remove:
  assumes ch: "is_chain hp s (as @ n # bs)" and s: "\<And>k. s \<noteq> N_Next k"
    and rd: "\<And>q. read_slot hp' q = (if q = end_slot s as then n_next hp n else read_slot hp q)"
    and pv: "\<And>k. n_prev hp' k = (if n_next hp n = Some k then end_slot s as else n_prev hp k)"
  shows "is_chain hp' s (as @ bs)"
proof -
  have nxt: "n_next hp n = (case bs of [] \<Rightarrow> None | b # _ \<Rightarrow> Some b)"
    using ch by (auto simp: is_chain_def split: list.splits)
  have nx: "n_next hp' k = (if N_Next k = end_slot s as then n_next hp n else n_next hp k)" for k
    using rd [of "N_Next k"] by simp
  have ends: "end_slot s as \<noteq> N_Next k" if "k \<in> set (n # bs)" for k
    using that ch s by (intro end_slot_head) (auto simp: is_chain_def)
  have "is_chain hp' s (as @ [] @ bs)"
  proof (rule is_chain_splice [of hp s as "[n]"])
    show "is_chain hp s (as @ [n] @ bs)" using ch by simp
    show "distinct (as @ [] @ bs)" using ch by (simp add: is_chain_def)
    show "read_slot hp' (end_slot s (as @ [])) = (case bs of [] \<Rightarrow> None | b # _ \<Rightarrow> Some b)"
      using rd [of "end_slot s as"] nxt by simp
    show "n_prev hp' (hd bs) = end_slot s (as @ [])" if "bs \<noteq> []"
      using that nxt pv [of "hd bs"] by (cases bs) auto
    show "n_next hp' k = n_next hp k" if "k \<in> set bs" for k
      using nx [of k] ends [of k] that by auto
    show "n_prev hp' k = n_prev hp k" if "k \<in> set as" for k
      using pv [of k] nxt ch that by (cases bs) (auto simp: is_chain_def)
    show "n_prev hp' k = n_prev hp k" if "k \<in> set (tl bs)" for k
      using pv [of k] nxt ch that by (cases bs) (auto simp: is_chain_def)
    show "read_slot hp' q = read_slot hp q" if "q \<noteq> end_slot s as" for q
      using rd [of q] that by simp
  qed (use s in auto)
  then show ?thesis by simp
qed

lemma list_remove_node_is_list:
  assumes "is_list hp h (as @ n # bs)"
  shows "is_list (list_remove_node hp h n) h (as @ bs)"
proof -
  let ?s = "L_First h" and ?hp = "list_remove_node hp h n" and ?e = "end_slot (L_First h) as"
  have ch: "is_chain hp ?s (as @ n # bs)" using assms by (simp add: is_list_def)
  have e: "n_prev hp n = ?e" using ch by (simp add: is_chain_def)
  have nxt: "n_next hp n = (case bs of [] \<Rightarrow> None | b # _ \<Rightarrow> Some b)"
    using ch by (auto simp: is_chain_def split: list.splits)
  have neq: "n_next hp n \<noteq> Some n" using ch nxt by (cases bs) (auto simp: is_chain_def)
  have rd: "read_slot ?hp q = (if q = ?e then n_next hp n else read_slot hp q)" for q
    using e neq by (auto simp: list_remove_node_def Let_def split: option.splits)
  have pv: "n_prev ?hp k = (if n_next hp n = Some k then ?e else n_prev hp k)" for k
    using e neq by (auto simp: list_remove_node_def Let_def split: option.splits)
  have "is_chain ?hp ?s (as @ bs)" by (rule chain_remove [OF ch _ rd pv]) simp
  moreover have "l_last ?hp h = end_slot ?s (as @ bs)"
    using assms nxt e by (cases bs) (auto simp: is_list_def list_remove_node_def Let_def)
  ultimately show ?thesis by (simp add: is_list_def)
qed

lemma hlist_remove_node_is_hlist:
  assumes "is_hlist hp h (as @ n # bs)"
  shows "is_hlist (hlist_remove_node hp n) h (as @ bs)"
proof -
  let ?s = "H_First h" and ?hp = "hlist_remove_node hp n" and ?e = "end_slot (H_First h) as"
  have ch: "is_chain hp ?s (as @ n # bs)" using assms by (simp add: is_hlist_def)
  have e: "n_prev hp n = ?e" using ch by (simp add: is_chain_def)
  have neq: "n_next hp n \<noteq> Some n"
    using ch by (cases bs) (auto simp: is_chain_def)
  have rd: "read_slot ?hp q = (if q = ?e then n_next hp n else read_slot hp q)" for q
    using e neq by (auto simp: hlist_remove_node_def Let_def split: option.splits)
  have pv: "n_prev ?hp k = (if n_next hp n = Some k then ?e else n_prev hp k)" for k
    using e neq by (auto simp: hlist_remove_node_def Let_def split: option.splits)
  have "is_chain ?hp ?s (as @ bs)" by (rule chain_remove [OF ch _ rd pv]) simp
  then show ?thesis by (simp add: is_hlist_def)
qed

text \<open>Iteration visits the nodes in order and ends, with one unit of fuel per node.\<close>

lemma node_iter_linked:
  assumes "linked hp s ns" "read_slot hp (end_slot s ns) = None" "length ns \<le> fuel"
  shows "node_iter fuel hp (read_slot hp s) = Some ns"
  using assms
proof (induction ns arbitrary: s fuel)
  case (Cons n ns)
  then obtain f where "fuel = Suc f" by (cases fuel) auto
  with Cons.prems Cons.IH [of "N_Next n" f] show ?case by simp
qed simp

lemma node_iter_is_list:
  "is_list hp h ns \<Longrightarrow> length ns \<le> fuel \<Longrightarrow> node_iter fuel hp (l_first hp h) = Some ns"
  using node_iter_linked [of hp "L_First h" ns fuel] by (simp add: is_list_def is_chain_def)

lemma node_iter_is_hlist:
  "is_hlist hp h ns \<Longrightarrow> length ns \<le> fuel \<Longrightarrow> node_iter fuel hp (h_first hp h) = Some ns"
  using node_iter_linked [of hp "H_First h" ns fuel] by (simp add: is_hlist_def is_chain_def)

section \<open>The interface\<close>

text \<open>
  What a client of a list head relies on: the represented list is a function of the
  heap, and each operation acts on it as named. The client lemmas show the use the
  kernel makes of it: a tail queue drained from the front is first-in first-out.
\<close>

locale node_queue =
  fixes repr :: "'s \<Rightarrow> head \<Rightarrow> node list \<Rightarrow> bool"
    and first :: "'s \<Rightarrow> head \<Rightarrow> node option"
    and push_back :: "'s \<Rightarrow> head \<Rightarrow> node \<Rightarrow> 's"
    and unlink :: "'s \<Rightarrow> head \<Rightarrow> node \<Rightarrow> 's"
  assumes first_repr: "repr s h ns \<Longrightarrow> first s h = (case ns of [] \<Rightarrow> None | n # _ \<Rightarrow> Some n)"
    and push_back_repr: "repr s h ns \<Longrightarrow> n \<notin> set ns \<Longrightarrow> repr (push_back s h n) h (ns @ [n])"
    and unlink_repr: "repr s h (as @ n # bs) \<Longrightarrow> repr (unlink s h n) h (as @ bs)"
    and distinct_repr: "repr s h ns \<Longrightarrow> distinct ns"
begin

lemma push_all_repr:
  assumes "repr s h ns" "distinct (ns @ xs)"
  shows "repr (foldl (\<lambda>s. push_back s h) s xs) h (ns @ xs)"
  using assms
proof (induction xs arbitrary: s ns)
  case (Cons x xs)
  then have "repr (push_back s h x) h (ns @ [x])" by (intro push_back_repr) auto
  then show ?case using Cons.IH [of "push_back s h x" "ns @ [x]"] Cons.prems by simp
qed simp

lemma drain_repr:
  assumes "repr s h (xs @ ns)"
  shows "repr (foldl (\<lambda>s. unlink s h) s xs) h ns"
  using assms
proof (induction xs arbitrary: s)
  case (Cons x xs)
  then show ?case using unlink_repr [of s h "[]" x "xs @ ns"] by simp
qed simp

lemma fifo:
  assumes "repr s h []" "distinct (xs @ ys)"
  shows "first (foldl (\<lambda>s. unlink s h) (foldl (\<lambda>s. push_back s h) s (xs @ ys)) xs) h
    = (case ys of [] \<Rightarrow> None | y # _ \<Rightarrow> Some y)"
  using first_repr [OF drain_repr [OF push_all_repr [OF assms(1), of "xs @ ys", simplified, OF assms(2)[simplified]]]]
  by simp

end

interpretation lq: node_queue is_list list_first list_insert_tail list_remove_node
  by unfold_locales
    (simp_all add: list_first_eq list_insert_tail_is_list list_remove_node_is_list, simp add: is_list_def is_chain_def)

section \<open>Properties\<close>

text \<open>
  C28 (refinement). The pointer code of \<^verbatim>\<open>list.h\<close> implements a first-in first-out queue: append
  the distinct nodes \<open>xs @ ys\<close> to an empty list with \<open>list_insert_tail\<close>, remove the nodes \<open>xs\<close>
  from it with \<open>list_remove_node\<close>; the list head then represents exactly \<open>ys\<close>, its first node is
  the first of \<open>ys\<close>, and iteration visits \<open>ys\<close> in order.
\<close>

theorem list_tail_queue:
  assumes "is_list hp h []" "distinct (xs @ ys)"
  shows "let hp' = foldl (\<lambda>s. list_remove_node s h) (foldl (\<lambda>s. list_insert_tail s h) hp (xs @ ys)) xs
    in is_list hp' h ys \<and> list_first hp' h = (case ys of [] \<Rightarrow> None | y # _ \<Rightarrow> Some y)
      \<and> node_iter (length ys) hp' (l_first hp' h) = Some ys"
proof -
  have all: "is_list (foldl (\<lambda>s. list_insert_tail s h) hp (xs @ ys)) h (xs @ ys)"
    using lq.push_all_repr [OF assms(1), of "xs @ ys"] assms(2) by simp
  show ?thesis
    using lq.drain_repr [OF all] lq.fifo [OF assms] node_iter_is_list by (simp add: Let_def)
qed

text \<open>A heap with no list in it.\<close>

definition lheap0 :: lheap where
  "lheap0 = \<lparr>n_next = (\<lambda>_. None), n_prev = (\<lambda>_. L_First 0), l_first = (\<lambda>_. None), l_last = L_First, h_first = (\<lambda>_. None)\<rparr>"

theorem list_tail_queue_witness:
  "let hp' = foldl (\<lambda>s. list_remove_node s 0) (foldl (\<lambda>s. list_insert_tail s 0) (list_init lheap0 0) [1, 2, 3]) [1]
   in is_list hp' 0 [2, 3] \<and> list_first hp' 0 = Some 2"
  using list_tail_queue [OF list_init_is_list [of lheap0 0], of "[1]" "[2, 3]"] by (simp add: Let_def)

text \<open>
  Removing any node, not just the first, from a list and inserting a node before
  another one act on the represented list as expected; this is what the time-event queue and the
  waiting queues rely on.
\<close>

theorem list_splice:
  assumes "is_list hp h (as @ n # bs)" "x \<notin> set (as @ n # bs)"
  shows "is_list (list_remove_node hp h n) h (as @ bs) \<and> is_list (list_insert_before hp n x) h (as @ x # n # bs)"
  using list_remove_node_is_list [OF assms(1)] list_insert_before_is_list [OF assms] by blast

theorem list_splice_witness:
  "let hp = list_insert_tail (list_insert_tail (list_init lheap0 0) 0 1) 0 2
   in is_list (list_remove_node hp 0 1) 0 [2] \<and> is_list (list_insert_before hp 1 5) 0 [5, 1, 2]"
proof -
  have "is_list (list_insert_tail (list_insert_tail (list_init lheap0 0) 0 1) 0 2) 0 ([] @ 1 # [2])"
    using list_insert_tail_is_list [OF list_insert_tail_is_list [OF list_init_is_list]] by simp
  from list_splice [OF this, of 5] show ?thesis by (simp add: Let_def)
qed

end
