(* ===== verification/Lock.thy ===== *)
theory Lock
  imports Prelude
begin

unbundle bit_operations_syntax

text \<open>
  Interrupt nesting (\<open>intp_enable\<close>, \<open>intp_disable\<close>, \<open>intp_push\<close>, \<open>intp_pop\<close> of
  \<^verbatim>\<open>kern/traps/traps.c\<close>) and the locks of \<^verbatim>\<open>kern/lock/lock.c\<close> and
  \<^verbatim>\<open>kern/lock/spinlock.c\<close>. The harts run concurrently: \<open>lk_acquire\<close> and \<open>lk_release\<close> are
  cut at every access to the shared lock, and a step relation interleaves the
  pieces of all harts. Loads and stores are taken in program order; the fences of the
  code are what makes that hold on the machine.
\<close>

section \<open>Interrupt nesting\<close>

record hart =
  csr_sstatus :: u64
  intp_layer :: u64
  retained_intp :: bool

definition SSTATUS_SIE :: u64 where
  "SSTATUS_SIE = 2"

definition sie_of :: "u64 \<Rightarrow> bool" where
  "sie_of sstatus \<longleftrightarrow> bit sstatus 1"

definition intp_enable :: "hart \<Rightarrow> hart \<times> u64" where
  "intp_enable c = (c\<lparr>csr_sstatus := csr_sstatus c OR SSTATUS_SIE\<rparr>, csr_sstatus c)"

definition intp_disable :: "hart \<Rightarrow> hart \<times> u64" where
  "intp_disable c = (c\<lparr>csr_sstatus := csr_sstatus c AND NOT SSTATUS_SIE\<rparr>, csr_sstatus c)"

text \<open>Both do nothing before \<open>cpus_intp_layer\<close> is set up at boot; these are the bodies after that.\<close>

definition intp_push :: "hart \<Rightarrow> hart" where
  "intp_push c =
     (let (c1, sstatus) = intp_disable c;
          c2 = (if intp_layer c1 = 0 then c1\<lparr>retained_intp := sie_of sstatus\<rparr> else c1)
      in c2\<lparr>intp_layer := intp_layer c2 + 1\<rparr>)"

definition intp_pop :: "hart \<Rightarrow> hart" where
  "intp_pop c =
     (let c1 = c\<lparr>intp_layer := intp_layer c - 1\<rparr>
      in if intp_layer c1 = 0 \<and> retained_intp c1 then fst (intp_enable c1) else c1)"

fun intp_run :: "hart \<Rightarrow> bool list \<Rightarrow> hart" where
  "intp_run c [] = c"
| "intp_run c (push # ops) = intp_run (if push then intp_push c else intp_pop c) ops"

text \<open>Never more pops than pushes, starting \<open>d\<close> levels deep; the depth at the end.\<close>

fun nested :: "nat \<Rightarrow> bool list \<Rightarrow> nat option" where
  "nested d [] = Some d"
| "nested d (True # ops) = nested (Suc d) ops"
| "nested d (False # ops) = (case d of 0 \<Rightarrow> None | Suc d' \<Rightarrow> nested d' ops)"

text \<open>What holds \<open>d\<close> levels deep when the outermost level found \<open>s\<close> in \<open>sstatus\<close>.\<close>

definition intp_inv :: "u64 \<Rightarrow> nat \<Rightarrow> hart \<Rightarrow> bool" where
  "intp_inv s d c \<longleftrightarrow> intp_layer c = of_nat d
     \<and> (if d = 0 then csr_sstatus c = s
        else csr_sstatus c = s AND NOT SSTATUS_SIE \<and> retained_intp c = sie_of s)"

lemma sie_disable: "\<not> sie_of (s AND NOT SSTATUS_SIE)"
  by (simp add: sie_of_def SSTATUS_SIE_def bit_simps flip: push_bit_eq_mult)

lemma sstatus_restore:
  "(if sie_of s then (s AND NOT SSTATUS_SIE) OR SSTATUS_SIE else s AND NOT SSTATUS_SIE) = s"
proof (rule bit_word_eqI)
  fix i assume "i < LENGTH(64)"
  then have i: "i < 64" by simp
  have "bit (2 :: u64) i \<longleftrightarrow> i = 1" using bit_2_iff [of i, where 'a = "64 word"] by simp
  then show "bit (if sie_of s then (s AND NOT SSTATUS_SIE) OR SSTATUS_SIE else s AND NOT SSTATUS_SIE) i = bit s i"
    using i by (auto simp: sie_of_def SSTATUS_SIE_def bit_simps)
qed

lemma and_not_idem: "(s AND NOT m) AND NOT m = (s AND NOT m :: u64)"
  by (rule bit_word_eqI) (auto simp: bit_simps)

lemma intp_push_inv: "intp_inv s d c \<Longrightarrow> Suc d < 2 ^ 64 \<Longrightarrow> intp_inv s (Suc d) (intp_push c)"
  using of_nat_eq_0_small64 [of d]
  by (cases "d = 0") (simp_all add: intp_inv_def intp_push_def intp_disable_def and_not_idem add.commute)

lemma intp_pop_inv: "intp_inv s (Suc d) c \<Longrightarrow> d < 2 ^ 64 \<Longrightarrow> intp_inv s d (intp_pop c)"
  using sstatus_restore [of s] of_nat_eq_0_small64 [of d]
  by (cases "d = 0"; cases "sie_of s") (simp_all add: intp_inv_def intp_pop_def intp_enable_def Let_def)

lemma nested_bound: "nested d ops = Some e \<Longrightarrow> e \<le> d + length ops"
  by (induction d ops rule: nested.induct) (auto split: nat.splits)

lemma intp_run_inv:
  "intp_inv s d c \<Longrightarrow> nested d ops = Some e \<Longrightarrow> d + length ops < 2 ^ 64 \<Longrightarrow> intp_inv s e (intp_run c ops)"
proof (induction ops arbitrary: d c)
  case (Cons p ops)
  show ?case
  proof (cases p)
    case True
    then show ?thesis using Cons.IH [of "Suc d" "intp_push c"] Cons.prems intp_push_inv by simp
  next
    case False
    then obtain d' where "d = Suc d'" using Cons.prems(2) by (cases d) auto
    then show ?thesis using Cons.IH [of d' "intp_pop c"] Cons.prems intp_pop_inv False by simp
  qed
qed simp

section \<open>Spin locks over interleaved harts\<close>

datatype lock_state_t = LK_UNLOCKED | LK_LOCKED

record lock =
  lk_state :: lock_state_t
  lk_hartid :: u64
  lk_type :: string

definition HARTID_MAX :: u64 where
  "HARTID_MAX = - 1"

definition SPINLOCK_TYPE :: string where
  "SPINLOCK_TYPE = ''spin''"

definition spinlock_init :: lock where
  "spinlock_init = \<lparr>lk_state = LK_UNLOCKED, lk_hartid = HARTID_MAX, lk_type = SPINLOCK_TYPE\<rparr>"

text \<open>The table of implementations is the linker section \<^verbatim>\<open>.ksec.lock_impl\<close>, searched by type name.\<close>

fun lk_match_type :: "string list \<Rightarrow> string \<Rightarrow> bool" where
  "lk_match_type [] type = False"
| "lk_match_type (impl # impls) type = (impl = type \<or> lk_match_type impls type)"

text \<open>
  Where a hart stands. The flag of the entry points records whether the caller's last
  \<open>lk_acquire\<close> succeeded and was not yet released; the code does not read it.
\<close>

datatype lk_pc =
    Idle bool
  | AqState bool  \<comment> \<open>about to read \<open>lk_state\<close> in \<open>lk_acquire\<close>\<close>
  | AqHart bool   \<comment> \<open>about to compare \<open>lk_hartid\<close>\<close>
  | AqPush        \<comment> \<open>about to run \<open>intp_push\<close> in \<open>spnlk_acquire\<close>\<close>
  | AqSpin        \<comment> \<open>about to run \<open>amoswap\<close>\<close>
  | AqOwn         \<comment> \<open>about to store \<open>lk_hartid\<close>\<close>
  | RlState bool
  | RlHart bool
  | RlDisown      \<comment> \<open>about to store \<open>HARTID_MAX\<close>\<close>
  | RlSwap        \<comment> \<open>about to run the releasing \<open>amoswap\<close>\<close>
  | RlPop         \<comment> \<open>about to run \<open>intp_pop\<close>\<close>

datatype lk_event = Tau | AqOK u64 | AqErr u64 | RlOK u64 | RlErr u64

record lk_sys =
  sys_lock :: lock
  sys_pc :: "u64 \<Rightarrow> lk_pc"
  sys_hart :: "u64 \<Rightarrow> hart"

definition set_pc :: "lk_sys \<Rightarrow> u64 \<Rightarrow> lk_pc \<Rightarrow> lk_sys" where
  "set_pc s h p = s\<lparr>sys_pc := (sys_pc s)(h := p)\<rparr>"

definition upd_hart :: "lk_sys \<Rightarrow> u64 \<Rightarrow> (hart \<Rightarrow> hart) \<Rightarrow> lk_sys" where
  "upd_hart s h f = s\<lparr>sys_hart := (sys_hart s)(h := f (sys_hart s h))\<rparr>"

definition upd_lock :: "lk_sys \<Rightarrow> (lock \<Rightarrow> lock) \<Rightarrow> lk_sys" where
  "upd_lock s f = s\<lparr>sys_lock := f (sys_lock s)\<rparr>"

text \<open>
  One step of hart \<open>h\<close>. \<open>lk_exec impls s h\<close> is the code from the hart's position to its
  next access of the shared lock; at \<open>Idle\<close> the caller chooses a call (\<open>lk_call\<close>).
\<close>

fun lk_exec :: "string list \<Rightarrow> lk_sys \<Rightarrow> u64 \<Rightarrow> lk_pc \<Rightarrow> lk_sys \<times> lk_event" where
  "lk_exec impls s h (Idle b) = (s, Tau)"
| "lk_exec impls s h (AqState b) =
     (if lk_state (sys_lock s) = LK_LOCKED then (set_pc s h (AqHart b), Tau)
      else if lk_match_type impls (lk_type (sys_lock s)) then (set_pc s h AqPush, Tau)
      else (set_pc s h (Idle b), AqErr h))"
| "lk_exec impls s h (AqHart b) =
     (if lk_hartid (sys_lock s) = h then (set_pc s h (Idle b), AqErr h)
      else if lk_match_type impls (lk_type (sys_lock s)) then (set_pc s h AqPush, Tau)
      else (set_pc s h (Idle b), AqErr h))"
| "lk_exec impls s h AqPush = (set_pc (upd_hart s h intp_push) h AqSpin, Tau)"
| "lk_exec impls s h AqSpin =
     (let wait = lk_state (sys_lock s) = LK_LOCKED;
          s1 = upd_lock s (lk_state_update (\<lambda>_. LK_LOCKED))
      in (if wait then s1 else set_pc s1 h AqOwn, Tau))"
| "lk_exec impls s h AqOwn = (set_pc (upd_lock s (lk_hartid_update (\<lambda>_. h))) h (Idle True), AqOK h)"
| "lk_exec impls s h (RlState b) =
     (if lk_state (sys_lock s) = LK_UNLOCKED then (set_pc s h (Idle b), RlErr h)
      else (set_pc s h (RlHart b), Tau))"
| "lk_exec impls s h (RlHart b) =
     (if lk_hartid (sys_lock s) \<noteq> h then (set_pc s h (Idle b), RlErr h)
      else (set_pc s h RlDisown, Tau))"
| "lk_exec impls s h RlDisown =
     (let s1 = upd_lock s (lk_hartid_update (\<lambda>_. HARTID_MAX))
      in if lk_match_type impls (lk_type (sys_lock s1)) then (set_pc s1 h RlSwap, Tau)
         else (set_pc s1 h (Idle False), RlErr h))"
| "lk_exec impls s h RlSwap = (set_pc (upd_lock s (lk_state_update (\<lambda>_. LK_UNLOCKED))) h RlPop, Tau)"
| "lk_exec impls s h RlPop = (set_pc (upd_hart s h intp_pop) h (Idle False), RlOK h)"

inductive lk_step :: "string list \<Rightarrow> lk_sys \<Rightarrow> lk_event \<Rightarrow> lk_sys \<Rightarrow> bool" for impls where
  call_acquire: "h \<noteq> HARTID_MAX \<Longrightarrow> sys_pc s h = Idle b \<Longrightarrow> lk_step impls s Tau (set_pc s h (AqState b))"
| call_release: "h \<noteq> HARTID_MAX \<Longrightarrow> sys_pc s h = Idle b \<Longrightarrow> lk_step impls s Tau (set_pc s h (RlState b))"
| exec: "h \<noteq> HARTID_MAX \<Longrightarrow> lk_exec impls s h (sys_pc s h) = (s', e) \<Longrightarrow> lk_step impls s e s'"

inductive lk_reach :: "string list \<Rightarrow> lk_sys \<Rightarrow> lk_sys \<Rightarrow> bool" for impls s0 where
  start: "lk_reach impls s0 s0"
| step: "lk_reach impls s0 s \<Longrightarrow> lk_step impls s e s' \<Longrightarrow> lk_reach impls s0 s'"

text \<open>The lock is taken from the successful \<open>amoswap\<close> of \<open>lk_acquire\<close> to that of \<open>lk_release\<close>.\<close>

fun holds :: "lk_pc \<Rightarrow> bool" where
  "holds (Idle b) = b" | "holds (AqState b) = b" | "holds (AqHart b) = b"
| "holds (RlState b) = b" | "holds (RlHart b) = b"
| "holds AqOwn = True" | "holds RlDisown = True" | "holds RlSwap = True"
| "holds AqPush = False" | "holds AqSpin = False" | "holds RlPop = False"

fun named :: "lk_pc \<Rightarrow> bool" where
  "named AqOwn = False" | "named RlSwap = False" | "named p = holds p"

fun masked :: "lk_pc \<Rightarrow> bool" where
  "masked AqSpin = True" | "masked RlPop = True" | "masked p = holds p"

definition lk_inv :: "lk_sys \<Rightarrow> lk_sys \<Rightarrow> bool" where
  "lk_inv s0 s \<longleftrightarrow> lk_type (sys_lock s) = SPINLOCK_TYPE
     \<and> (\<forall>h h'. holds (sys_pc s h) \<and> holds (sys_pc s h') \<longrightarrow> h = h')
     \<and> (\<forall>h. holds (sys_pc s h) \<longrightarrow> lk_state (sys_lock s) = LK_LOCKED)
     \<and> (\<forall>h. named (sys_pc s h) \<longrightarrow> lk_hartid (sys_lock s) = h)
     \<and> (\<forall>h. h \<noteq> HARTID_MAX \<and> lk_hartid (sys_lock s) = h \<longrightarrow> named (sys_pc s h))
     \<and> (\<forall>h. intp_inv (csr_sstatus (sys_hart s0 h)) (if masked (sys_pc s h) then 1 else 0) (sys_hart s h))"

definition lk_initial :: "lk_sys \<Rightarrow> bool" where
  "lk_initial s \<longleftrightarrow> sys_lock s = spinlock_init
     \<and> (\<forall>h. sys_pc s h = Idle False \<and> intp_layer (sys_hart s h) = 0)"

lemma lk_inv_initial: "lk_initial s \<Longrightarrow> lk_inv s s"
  by (auto simp: lk_initial_def lk_inv_def spinlock_init_def intp_inv_def)

lemmas lk_upd_defs = set_pc_def upd_hart_def upd_lock_def

inductive_cases lk_stepE: "lk_step impls s e s'"

lemma lk_invD:
  assumes "lk_inv s0 s"
  shows "lk_type (sys_lock s) = SPINLOCK_TYPE"
    and "holds (sys_pc s h) \<Longrightarrow> holds (sys_pc s h') \<Longrightarrow> h = h'"
    and "holds (sys_pc s h) \<Longrightarrow> lk_state (sys_lock s) = LK_LOCKED"
    and "named (sys_pc s h) \<Longrightarrow> lk_hartid (sys_lock s) = h"
    and "h \<noteq> HARTID_MAX \<Longrightarrow> lk_hartid (sys_lock s) = h \<Longrightarrow> named (sys_pc s h)"
    and "intp_inv (csr_sstatus (sys_hart s0 h)) (if masked (sys_pc s h) then 1 else 0) (sys_hart s h)"
  using assms unfolding lk_inv_def by blast+

lemma named_holds: "named p \<Longrightarrow> holds p"
  by (cases p) auto

text \<open>A step of one hart: what its new position, its interrupt state and the lock have to satisfy.\<close>

lemma lk_inv_upd:
  assumes inv: "lk_inv s0 s"
    and s': "sys_pc s' = (sys_pc s)(h := p)" "\<And>k. k \<noteq> h \<Longrightarrow> sys_hart s' k = sys_hart s k"
    and ty: "lk_type (sys_lock s') = lk_type (sys_lock s)"
    and excl: "\<And>k. holds p \<Longrightarrow> k \<noteq> h \<Longrightarrow> \<not> holds (sys_pc s k)"
    and state: "holds p \<Longrightarrow> lk_state (sys_lock s') = LK_LOCKED"
    and rest: "\<And>k. k \<noteq> h \<Longrightarrow> holds (sys_pc s k) \<Longrightarrow>
      lk_state (sys_lock s') = LK_LOCKED \<and> lk_hartid (sys_lock s') = lk_hartid (sys_lock s)"
    and owner: "named p \<Longrightarrow> lk_hartid (sys_lock s') = h"
    and conv: "\<And>k. lk_hartid (sys_lock s') = k \<Longrightarrow> k \<noteq> HARTID_MAX \<Longrightarrow>
      (if k = h then named p else lk_hartid (sys_lock s) = k)"
    and mask: "intp_inv (csr_sstatus (sys_hart s0 h)) (if masked p then 1 else 0) (sys_hart s' h)"
  shows "lk_inv s0 s'"
  unfolding lk_inv_def
proof (intro conjI allI impI)
  show "lk_type (sys_lock s') = SPINLOCK_TYPE" using ty lk_invD(1) [OF inv] by simp
  show "k = k'" if "holds (sys_pc s' k) \<and> holds (sys_pc s' k')" for k k'
    using that excl lk_invD(2) [OF inv, of k k'] by (auto simp: s' split: if_splits)
  show "lk_state (sys_lock s') = LK_LOCKED" if "holds (sys_pc s' k)" for k
    using that state rest [of k] by (auto simp: s' split: if_splits)
  show "lk_hartid (sys_lock s') = k" if "named (sys_pc s' k)" for k
    using that owner rest [of k] lk_invD(4) [OF inv, of k] named_holds by (auto simp: s' split: if_splits)
  show "named (sys_pc s' k)" if "k \<noteq> HARTID_MAX \<and> lk_hartid (sys_lock s') = k" for k
    using that conv [of k] lk_invD(5) [OF inv, of k] by (auto simp: s' split: if_splits)
  show "intp_inv (csr_sstatus (sys_hart s0 k)) (if masked (sys_pc s' k) then 1 else 0) (sys_hart s' k)" for k
    using mask lk_invD(6) [OF inv, of k] s'(2) [of k] by (cases "k = h") (simp_all only: s'(1) fun_upd_apply if_True if_False simp_thms)
qed

lemma lk_inv_set_pc:
  assumes inv: "lk_inv s0 s" and p: "holds p = holds (sys_pc s h)" "named p = named (sys_pc s h)" "masked p = masked (sys_pc s h)"
  shows "lk_inv s0 (set_pc s h p)"
proof (rule lk_inv_upd [OF inv, where h = h and p = p])
  show "\<not> holds (sys_pc s k)" if "holds p" "k \<noteq> h" for k
    using lk_invD(2) [OF inv, of k h] that p by blast
  show "intp_inv (csr_sstatus (sys_hart s0 h)) (if masked p then 1 else 0) (sys_hart (set_pc s h p) h)"
    using lk_invD(6) [OF inv, of h] p by (simp add: set_pc_def)
  show "lk_state (sys_lock (set_pc s h p)) = LK_LOCKED" if "holds p"
    using lk_invD(3) [OF inv, of h] that p by (simp add: set_pc_def)
  show "lk_state (sys_lock (set_pc s h p)) = LK_LOCKED
      \<and> lk_hartid (sys_lock (set_pc s h p)) = lk_hartid (sys_lock s)" if "holds (sys_pc s k)" for k
    using lk_invD(3) [OF inv, of k] that by (simp add: set_pc_def)
  show "lk_hartid (sys_lock (set_pc s h p)) = h" if "named p"
    using lk_invD(4) [OF inv, of h] that p by (simp add: set_pc_def)
  show "if k = h then named p else lk_hartid (sys_lock s) = k"
    if "lk_hartid (sys_lock (set_pc s h p)) = k" "k \<noteq> HARTID_MAX" for k
    using lk_invD(5) [OF inv, of h] that p by (simp add: set_pc_def)
qed (simp_all add: set_pc_def)

text \<open>Steps that keep the interrupt level and touch the lock, one lemma each.\<close>

lemma lk_inv_swap_free:
  assumes inv: "lk_inv s0 s" and pc: "sys_pc s h = AqSpin" and free: "lk_state (sys_lock s) = LK_UNLOCKED"
  shows "lk_inv s0 (set_pc (upd_lock s (lk_state_update (\<lambda>_. LK_LOCKED))) h AqOwn)"
proof (rule lk_inv_upd [OF inv, where h = h and p = AqOwn])
  show "\<not> holds (sys_pc s k)" for k using lk_invD(3) [OF inv, of k] free by auto
  show "if k = h then named AqOwn else lk_hartid (sys_lock s) = k"
    if "lk_hartid (sys_lock (set_pc (upd_lock s (lk_state_update (\<lambda>_. LK_LOCKED))) h AqOwn)) = k" "k \<noteq> HARTID_MAX" for k
    using lk_invD(5) [OF inv, of h] that pc by (auto simp: lk_upd_defs)
qed (use lk_invD(6) [OF inv, of h] lk_invD(3) [OF inv] pc in \<open>simp_all add: lk_upd_defs\<close>)

lemma lk_inv_swap_held:
  assumes inv: "lk_inv s0 s" and pc: "lk_state (sys_lock s) = LK_LOCKED"
  shows "lk_inv s0 (upd_lock s (lk_state_update (\<lambda>_. LK_LOCKED)))"
proof -
  have "upd_lock s (lk_state_update (\<lambda>_. LK_LOCKED)) = s" using pc by (simp add: upd_lock_def)
  then show ?thesis using inv by simp
qed

lemma lk_inv_cs_upd:
  assumes inv: "lk_inv s0 s" and pc: "holds (sys_pc s h)" and p: "masked p"
    and hart: "named p \<longleftrightarrow> lk_hartid (f (sys_lock s)) = h" "named p \<or> lk_hartid (f (sys_lock s)) = HARTID_MAX"
    and st: "holds p \<Longrightarrow> lk_state (f (sys_lock s)) = LK_LOCKED" and ty: "lk_type (f (sys_lock s)) = lk_type (sys_lock s)"
  shows "lk_inv s0 (set_pc (upd_lock s f) h p)"
proof (rule lk_inv_upd [OF inv, where h = h and p = p])
  have alone: "\<not> holds (sys_pc s k)" if "k \<noteq> h" for k using lk_invD(2) [OF inv, of k h] pc that by blast
  then show "\<not> holds (sys_pc s k)" if "k \<noteq> h" for k using that .
  show "lk_state (sys_lock (set_pc (upd_lock s f) h p)) = LK_LOCKED
      \<and> lk_hartid (sys_lock (set_pc (upd_lock s f) h p)) = lk_hartid (sys_lock s)" if "k \<noteq> h" "holds (sys_pc s k)" for k
    using alone that by blast
  have "masked (sys_pc s h)" using pc by (cases "sys_pc s h") auto
  then show "intp_inv (csr_sstatus (sys_hart s0 h)) (if masked p then 1 else 0) (sys_hart (set_pc (upd_lock s f) h p) h)"
    using lk_invD(6) [OF inv, of h] p by (simp add: lk_upd_defs)
qed (use hart st ty in \<open>auto simp: lk_upd_defs\<close>)

lemma lk_inv_hart_upd:
  assumes inv: "lk_inv s0 s" and pc: "\<not> holds (sys_pc s h)" and p: "\<not> holds p"
    and intp: "intp_inv (csr_sstatus (sys_hart s0 h)) (if masked p then 1 else 0) (f (sys_hart s h))"
  shows "lk_inv s0 (set_pc (upd_hart s h f) h p)"
proof (rule lk_inv_upd [OF inv, where h = h and p = p])
  show "if k = h then named p else lk_hartid (sys_lock s) = k"
    if "lk_hartid (sys_lock (set_pc (upd_hart s h f) h p)) = k" "k \<noteq> HARTID_MAX" for k
    using lk_invD(5) [OF inv, of h] named_holds [of "sys_pc s h"] pc that by (auto simp: lk_upd_defs)
qed (use intp p named_holds [of p] lk_invD(3) [OF inv] in \<open>auto simp: lk_upd_defs\<close>)

lemma lk_exec_inv:
  assumes inv: "lk_inv s0 s" and impls: "lk_match_type impls SPINLOCK_TYPE"
    and h: "h \<noteq> HARTID_MAX" and ex: "lk_exec impls s h (sys_pc s h) = (s', e)"
  shows "lk_inv s0 s'"
proof -
  note D = lk_invD [OF inv]
  show ?thesis
  proof (cases "sys_pc s h")
    case (AqState b)
    then show ?thesis using ex D(1) D(3) [of h] impls by (auto intro!: lk_inv_set_pc [OF inv] split: if_splits)
  next
    case (AqHart b)
    then show ?thesis using ex D(1) D(4) [of h] impls by (auto intro!: lk_inv_set_pc [OF inv] split: if_splits)
  next
    case AqPush
    have "intp_inv (csr_sstatus (sys_hart s0 h)) (Suc 0) (intp_push (sys_hart s h))"
      using D(6) [of h] AqPush by (intro intp_push_inv) simp_all
    then show ?thesis using ex AqPush by (auto intro!: lk_inv_hart_upd [OF inv])
  next
    case AqSpin
    then show ?thesis
      using ex lk_inv_swap_free [OF inv AqSpin] lk_inv_swap_held [OF inv]
      by (cases "lk_state (sys_lock s)") (auto simp: Let_def)
  next
    case AqOwn
    then show ?thesis using ex D(3) [of h] by (auto intro!: lk_inv_cs_upd [OF inv])
  next
    case (RlState b)
    then show ?thesis using ex D(3) [of h] by (auto intro!: lk_inv_set_pc [OF inv] split: if_splits)
  next
    case (RlHart b)
    then show ?thesis using ex D(4,5) [of h] h by (auto intro!: lk_inv_set_pc [OF inv] split: if_splits)
  next
    case RlDisown
    have "lk_type (sys_lock (upd_lock s (lk_hartid_update (\<lambda>_. HARTID_MAX)))) = SPINLOCK_TYPE"
      using D(1) by (simp add: upd_lock_def)
    then have "s' = set_pc (upd_lock s (lk_hartid_update (\<lambda>_. HARTID_MAX))) h RlSwap"
      using ex RlDisown impls by (simp add: Let_def)
    then show ?thesis using RlDisown D(3) [of h] h by (auto intro!: lk_inv_cs_upd [OF inv])
  next
    case RlSwap
    have "lk_hartid (sys_lock s) \<noteq> h" using D(5) [of h] RlSwap h by auto
    moreover have "lk_hartid (sys_lock s) = HARTID_MAX"
      using D(2,5) [of h] D(2) [of h "lk_hartid (sys_lock s)"] D(5) [of "lk_hartid (sys_lock s)"]
        named_holds RlSwap calculation by fastforce
    ultimately show ?thesis using ex RlSwap by (auto intro!: lk_inv_cs_upd [OF inv])
  next
    case RlPop
    have "intp_inv (csr_sstatus (sys_hart s0 h)) 0 (intp_pop (sys_hart s h))"
      using D(6) [of h] RlPop by (intro intp_pop_inv) simp_all
    then show ?thesis using ex RlPop by (auto intro!: lk_inv_hart_upd [OF inv])
  qed (use ex inv in simp)
qed

lemma lk_step_inv:
  "lk_step impls s e s' \<Longrightarrow> lk_inv s0 s \<Longrightarrow> lk_match_type impls SPINLOCK_TYPE \<Longrightarrow> lk_inv s0 s'"
  by (elim lk_stepE) (auto intro!: lk_inv_set_pc intro: lk_exec_inv)

lemma lk_reach_inv:
  assumes "lk_reach impls s0 s" "lk_initial s0" "lk_match_type impls SPINLOCK_TYPE"
  shows "lk_inv s0 s"
  using assms by (induction rule: lk_reach.induct) (auto intro: lk_inv_initial lk_step_inv)

lemma lk_exec_error:
  assumes inv: "lk_inv s0 s" and impls: "lk_match_type impls SPINLOCK_TYPE"
    and h: "h \<noteq> HARTID_MAX" and ex: "lk_exec impls s h (sys_pc s h) = (s', e)"
  shows "(e = AqErr k \<longrightarrow> k = h \<and> holds (sys_pc s h)) \<and> (e = RlErr k \<longrightarrow> k = h \<and> \<not> holds (sys_pc s h))"
proof (cases "sys_pc s h")
  case (AqState b)
  then show ?thesis using ex impls lk_invD(1) [OF inv] by (auto split: if_splits)
next
  case (AqHart b)
  then show ?thesis using ex impls lk_invD(1) [OF inv] lk_invD(5) [OF inv, of h] h by (auto split: if_splits)
next
  case (RlState b)
  then show ?thesis using ex lk_invD(3) [OF inv, of h] by (auto split: if_splits)
next
  case (RlHart b)
  then show ?thesis using ex lk_invD(4) [OF inv, of h] by (auto split: if_splits)
next
  case RlDisown
  then show ?thesis using ex impls lk_invD(1) [OF inv] by (auto simp: Let_def upd_lock_def split: if_splits)
qed (use ex in \<open>auto simp: Let_def split: if_splits\<close>)

text \<open>One step of a given hart, for concrete schedules.\<close>

definition lk_do :: "string list \<Rightarrow> u64 \<Rightarrow> lk_sys \<Rightarrow> lk_sys" where
  "lk_do impls h s = fst (lk_exec impls s h (sys_pc s h))"

lemma lk_reach_do: "lk_reach impls s0 s \<Longrightarrow> h \<noteq> HARTID_MAX \<Longrightarrow> lk_reach impls s0 (lk_do impls h s)"
  using lk_reach.step lk_step.exec [of h impls s] unfolding lk_do_def by (metis prod.collapse)

lemma lk_reach_acquire:
  "lk_reach impls s0 s \<Longrightarrow> h \<noteq> HARTID_MAX \<Longrightarrow> sys_pc s h = Idle b \<Longrightarrow> lk_reach impls s0 (set_pc s h (AqState b))"
  by (rule lk_reach.step) (auto intro: lk_step.call_acquire)

definition lk_sys0 :: lk_sys where
  "lk_sys0 = \<lparr>sys_lock = spinlock_init, sys_pc = (\<lambda>_. Idle False),
     sys_hart = (\<lambda>_. \<lparr>csr_sstatus = 2, intp_layer = 0, retained_intp = False\<rparr>)\<rparr>"

definition lk_sys1 :: lk_sys where
  "lk_sys1 = ((lk_do [SPINLOCK_TYPE] 0) ^^ 4) (set_pc lk_sys0 0 (AqState False))"

lemma lk_sys0_initial: "lk_initial lk_sys0"
  by (simp add: lk_initial_def lk_sys0_def)

lemma lk_sys1_reach: "lk_reach [SPINLOCK_TYPE] lk_sys0 lk_sys1"
proof -
  have "lk_reach [SPINLOCK_TYPE] lk_sys0 (set_pc lk_sys0 0 (AqState False))"
    by (rule lk_reach_acquire) (auto intro: lk_reach.start simp: lk_sys0_def HARTID_MAX_def)
  then have "lk_reach [SPINLOCK_TYPE] lk_sys0 (((lk_do [SPINLOCK_TYPE] 0) ^^ n) (set_pc lk_sys0 0 (AqState False)))" for n
    by (induction n) (auto intro: lk_reach_do simp: HARTID_MAX_def)
  then show ?thesis by (simp add: lk_sys1_def)
qed

lemma lk_sys1_holds: "sys_pc lk_sys1 0 = Idle True"
  by (simp add: lk_sys1_def lk_sys0_def lk_do_def lk_upd_defs spinlock_init_def numeral_eq_Suc Let_def)

text \<open>The same hart calls \<open>lk_acquire\<close> again while it holds the lock.\<close>

definition lk_sys2 :: lk_sys where
  "lk_sys2 = lk_do [SPINLOCK_TYPE] 0 (set_pc lk_sys1 0 (AqState True))"

lemma lk_sys2_reach: "lk_reach [SPINLOCK_TYPE] lk_sys0 lk_sys2"
  unfolding lk_sys2_def by (intro lk_reach_do lk_reach_acquire lk_sys1_reach) (auto simp: lk_sys1_holds HARTID_MAX_def)

section \<open>Properties\<close>

text \<open>
  C7 (safety). Mutual exclusion of the kernel's spin locks: from the state \<open>spinlock_init\<close>
  leaves, whatever the interleaving of the harts' calls to \<open>lk_acquire\<close> and \<open>lk_release\<close>,
  nested and unmatched ones included, at most one hart is between its acquiring and its
  releasing \<open>amoswap\<close>, and that hart runs with interrupts disabled.
\<close>

theorem spinlock_mutual_exclusion:
  assumes "lk_initial s0" "lk_match_type impls SPINLOCK_TYPE" "lk_reach impls s0 s"
    and "holds (sys_pc s h)"
  shows "\<not> sie_of (csr_sstatus (sys_hart s h)) \<and> (holds (sys_pc s h') \<longrightarrow> h' = h)"
proof -
  have inv: "lk_inv s0 s" using lk_reach_inv assms by blast
  have "masked (sys_pc s h)" using assms(4) by (cases "sys_pc s h") auto
  then have "\<not> sie_of (csr_sstatus (sys_hart s h))"
    using lk_invD(6) [OF inv, of h] by (simp add: intp_inv_def sie_disable)
  then show ?thesis using lk_invD(2) [OF inv, of h' h] assms(4) by blast
qed

theorem spinlock_mutual_exclusion_witness:
  "lk_reach [SPINLOCK_TYPE] lk_sys0 lk_sys1 \<and> holds (sys_pc lk_sys1 0)
    \<and> \<not> sie_of (csr_sstatus (sys_hart lk_sys1 0)) \<and> \<not> holds (sys_pc lk_sys1 1)"
proof -
  have "holds (sys_pc lk_sys1 0)" by (simp add: lk_sys1_holds)
  moreover have "\<not> sie_of (csr_sstatus (sys_hart lk_sys1 0)) \<and> (holds (sys_pc lk_sys1 1) \<longrightarrow> (1 :: u64) = 0)"
    by (rule spinlock_mutual_exclusion [OF lk_sys0_initial _ lk_sys1_reach calculation]) simp
  ultimately show ?thesis using lk_sys1_reach by simp
qed

text \<open>
  The error returns of the lock are exactly the misuses: \<open>lk_acquire\<close> returns
  \<open>-KER_LOCK_ER\<close> only to a hart that already holds the lock, \<open>lk_release\<close> only to one that
  does not, although both read \<open>lk_state\<close> and \<open>lk_hartid\<close> without synchronisation.
\<close>

theorem spinlock_errors_are_misuse:
  assumes "lk_initial s0" "lk_match_type impls SPINLOCK_TYPE" "lk_reach impls s0 s" "lk_step impls s e s'"
  shows "(e = AqErr h \<longrightarrow> holds (sys_pc s h)) \<and> (e = RlErr h \<longrightarrow> \<not> holds (sys_pc s h))"
  using assms(4) lk_exec_error [OF lk_reach_inv [OF assms(3,1,2)] assms(2), of _ s' e h]
  by (elim lk_stepE) blast+

theorem spinlock_errors_are_misuse_witness:
  "\<exists>s'. lk_step [SPINLOCK_TYPE] lk_sys2 (AqErr 0) s' \<and> holds (sys_pc lk_sys2 0)"
proof -
  have "\<exists>s'. lk_exec [SPINLOCK_TYPE] lk_sys2 0 (sys_pc lk_sys2 0) = (s', AqErr 0)"
    by (simp add: lk_sys2_def lk_sys1_def lk_sys0_def lk_do_def lk_upd_defs spinlock_init_def numeral_eq_Suc Let_def)
  then obtain s' where st: "lk_step [SPINLOCK_TYPE] lk_sys2 (AqErr 0) s'"
    using lk_step.exec [of 0 "[SPINLOCK_TYPE]" lk_sys2] by (auto simp: HARTID_MAX_def)
  then have "holds (sys_pc lk_sys2 0)"
    using spinlock_errors_are_misuse [OF lk_sys0_initial _ lk_sys2_reach st] by simp
  with st show ?thesis by blast
qed

text \<open>
  Interrupt masking nests: after any well-nested sequence of \<open>intp_push\<close>
  and \<open>intp_pop\<close> calls the hart has, at depth 0, its initial \<open>sstatus\<close>, and at any other
  depth interrupts disabled.
\<close>

theorem intp_push_pop_nest:
  assumes "intp_layer c = 0" "nested 0 ops = Some d" "length ops < 2 ^ 64"
  shows "(d = 0 \<longrightarrow> csr_sstatus (intp_run c ops) = csr_sstatus c)
    \<and> (d \<noteq> 0 \<longrightarrow> \<not> sie_of (csr_sstatus (intp_run c ops)))"
proof -
  have "intp_inv (csr_sstatus c) d (intp_run c ops)"
    using assms by (intro intp_run_inv) (auto simp: intp_inv_def)
  then show ?thesis by (auto simp: intp_inv_def sie_disable)
qed

theorem intp_push_pop_nest_witness:
  "(let c = \<lparr>csr_sstatus = 2, intp_layer = 0, retained_intp = False\<rparr>; ops = [True, True, False, False]
    in intp_layer c = 0 \<and> nested 0 ops = Some 0 \<and> csr_sstatus (intp_run c ops) = csr_sstatus c)"
  using intp_push_pop_nest [of "\<lparr>csr_sstatus = 2, intp_layer = 0, retained_intp = False\<rparr>"
      "[True, True, False, False]" 0]
  by (simp add: Let_def)

end
