(* ===== verification/Cstring.thy ===== *)
theory Cstring
  imports Prelude
begin

unbundle bit_operations_syntax

text \<open>
  \<^verbatim>\<open>lib/string.c\<close> over byte memory. Loops whose pointer arithmetic could wrap take
  fuel; the theorems say that the fuel given by the caller is enough whenever the
  object does not run past the end of the address space, which is what C requires of it.
\<close>

section \<open>memcpy and memset\<close>

text \<open>\<open>while (dst < mx) *dst++ = *src++\<close>\<close>

fun copy_bytes :: "nat \<Rightarrow> mem \<Rightarrow> u64 \<Rightarrow> u64 \<Rightarrow> u64 \<Rightarrow> (mem \<times> u64 \<times> u64) option" where
  "copy_bytes 0 m dst src mx = None"
| "copy_bytes (Suc fuel) m dst src mx =
     (if dst < mx then copy_bytes fuel (m(dst := m src)) (dst + 1) (src + 1) mx
      else Some (m, dst, src))"

text \<open>\<open>while (dst % sizeof(uint32_t) && dst < mx) *dst++ = *src++\<close>\<close>

fun copy_align :: "nat \<Rightarrow> mem \<Rightarrow> u64 \<Rightarrow> u64 \<Rightarrow> u64 \<Rightarrow> (mem \<times> u64 \<times> u64) option" where
  "copy_align 0 m dst src mx = None"
| "copy_align (Suc fuel) m dst src mx =
     (if dst mod 4 \<noteq> 0 \<and> dst < mx then copy_align fuel (m(dst := m src)) (dst + 1) (src + 1) mx
      else Some (m, dst, src))"

text \<open>\<open>while (dst + sizeof(uint32_t) <= mx)\<close>, one 32-bit load and store per turn\<close>

fun copy_words :: "nat \<Rightarrow> mem \<Rightarrow> u64 \<Rightarrow> u64 \<Rightarrow> u64 \<Rightarrow> (mem \<times> u64 \<times> u64) option" where
  "copy_words 0 m dst src mx = None"
| "copy_words (Suc fuel) m dst src mx =
     (if dst + 4 \<le> mx then copy_words fuel (mem_write m dst (mem_read m src 4)) (dst + 4) (src + 4) mx
      else Some (m, dst, src))"

definition memcpy :: "mem \<Rightarrow> u64 \<Rightarrow> u64 \<Rightarrow> u64 \<Rightarrow> mem option" where
  "memcpy m dst src n =
     (let mx = dst + n; fuel = Suc (unat n) in
      if src mod 4 \<noteq> dst mod 4
      then map_option fst (copy_bytes fuel m dst src mx)
      else Option.bind (copy_align fuel m dst src mx) (\<lambda>(m1, dst1, src1).
           Option.bind (copy_words fuel m1 dst1 src1 mx) (\<lambda>(m2, dst2, src2).
           map_option fst (copy_bytes fuel m2 dst2 src2 mx))))"

text \<open>The stores of \<open>memset\<close>: a byte, or a word built from four copies of it.\<close>

definition memset_word :: "u8 \<Rightarrow> u32" where
  "memset_word b = ucast b OR push_bit 8 (ucast b) OR push_bit 16 (ucast b) OR push_bit 24 (ucast b)"

fun set_bytes :: "nat \<Rightarrow> bool \<Rightarrow> mem \<Rightarrow> u64 \<Rightarrow> u8 \<Rightarrow> u64 \<Rightarrow> (mem \<times> u64) option" where
  "set_bytes 0 aligning m dst b mx = None"
| "set_bytes (Suc fuel) aligning m dst b mx =
     (if (aligning \<longrightarrow> dst mod 4 \<noteq> 0) \<and> dst < mx then set_bytes fuel aligning (m(dst := b)) (dst + 1) b mx
      else Some (m, dst))"

fun set_words :: "nat \<Rightarrow> mem \<Rightarrow> u64 \<Rightarrow> u32 \<Rightarrow> u64 \<Rightarrow> (mem \<times> u64) option" where
  "set_words 0 m dst w mx = None"
| "set_words (Suc fuel) m dst w mx =
     (if dst + 4 \<le> mx then set_words fuel (mem_write m dst (bytes_of 4 (ucast w))) (dst + 4) w mx
      else Some (m, dst))"

definition memset :: "mem \<Rightarrow> u64 \<Rightarrow> int \<Rightarrow> u64 \<Rightarrow> mem option" where
  "memset m dst c n =
     (let mx = dst + n; fuel = Suc (unat n);
          byte = (word_of_int c :: u8) AND 0xff; word = memset_word byte in
      Option.bind (set_bytes fuel True m dst byte mx) (\<lambda>(m1, dst1).
      Option.bind (set_words fuel m1 dst1 word mx) (\<lambda>(m2, dst2).
      map_option fst (set_bytes fuel False m2 dst2 byte mx))))"

section \<open>Strings\<close>

text \<open>\<open>cstr m a s\<close>: the bytes \<open>s\<close>, none of them NUL, lie at \<open>a\<close> and a NUL follows.\<close>

definition cstr :: "mem \<Rightarrow> u64 \<Rightarrow> u8 list \<Rightarrow> bool" where
  "cstr m a s \<longleftrightarrow> mem_read m a (length s) = s \<and> 0 \<notin> set s \<and> m (a + of_nat (length s)) = 0
     \<and> length s < 2 ^ 31"

fun strlen_loop :: "nat \<Rightarrow> mem \<Rightarrow> u64 \<Rightarrow> u32 \<Rightarrow> u32 option" where
  "strlen_loop 0 m s n = None"
| "strlen_loop (Suc fuel) m s n = (if m s \<noteq> 0 then strlen_loop fuel m (s + 1) (n + 1) else Some n)"

text \<open>The counter is a C \<^verbatim>\<open>int\<close>; the result is sign-extended to \<^verbatim>\<open>size_t\<close>.\<close>

definition strlen :: "nat \<Rightarrow> mem \<Rightarrow> u64 \<Rightarrow> u64 option" where
  "strlen fuel m s = map_option (\<lambda>n. scast n) (strlen_loop fuel m s 0)"

fun strcpy :: "nat \<Rightarrow> mem \<Rightarrow> u64 \<Rightarrow> u64 \<Rightarrow> mem option" where
  "strcpy 0 m dst src = None"
| "strcpy (Suc fuel) m dst src =
     (let c = m src; m' = m(dst := c) in
      if c \<noteq> 0 then strcpy fuel m' (dst + 1) (src + 1) else Some m')"

fun strchr :: "nat \<Rightarrow> mem \<Rightarrow> u64 \<Rightarrow> int \<Rightarrow> u64 option" where
  "strchr 0 m s c = None"
| "strchr (Suc fuel) m s c =
     (if m s = 0 then Some 0 else if uint (m s) = c then Some s else strchr fuel m (s + 1) c)"

fun strcmp :: "nat \<Rightarrow> mem \<Rightarrow> u64 \<Rightarrow> u64 \<Rightarrow> int option" where
  "strcmp 0 m p q = None"
| "strcmp (Suc fuel) m p q =
     (if m p \<noteq> 0 \<and> m p = m q then strcmp fuel m (p + 1) (q + 1)
      else if m p < m q then Some (- 1) else if m p > m q then Some 1 else Some 0)"

fun strtol_sign :: "nat \<Rightarrow> mem \<Rightarrow> u64 \<Rightarrow> int \<Rightarrow> (u64 \<times> int) option" where
  "strtol_sign 0 m s sign = None"
| "strtol_sign (Suc fuel) m s sign =
     (if m s = 0x2d \<or> m s = 0x2b then strtol_sign fuel m (s + 1) (if m s = 0x2d then - sign else sign)
      else Some (s, sign))"

fun strtol_digits :: "nat \<Rightarrow> mem \<Rightarrow> u64 \<Rightarrow> int \<Rightarrow> int option" where
  "strtol_digits 0 m s res = None"
| "strtol_digits (Suc fuel) m s res =
     (if m s \<noteq> 0 then strtol_digits fuel m (s + 1) (swrap64 (swrap64 (res * 10) + uint (m s) - 0x30))
      else Some res)"

definition strtol :: "nat \<Rightarrow> mem \<Rightarrow> u64 \<Rightarrow> int option" where
  "strtol fuel m s =
     Option.bind (strtol_sign fuel m s 1) (\<lambda>(s', sign).
       map_option (\<lambda>res. swrap64 (sign * res)) (strtol_digits fuel m s' 0))"

definition atoi :: "nat \<Rightarrow> mem \<Rightarrow> u64 \<Rightarrow> int option" where
  "atoi fuel m s = map_option (\<lambda>r. sint (word_of_int r :: u32)) (strtol fuel m s)"

section \<open>memcpy copies\<close>

lemma unat_plus_small: "unat (a :: u64) + n < 2 ^ 64 \<Longrightarrow> unat (a + of_nat n) = unat a + n"
  by (simp add: unat_word_ariths unat_of_nat)

lemma fun_upd_mem_write: "m(a := b) = mem_write m a [b]"
  by (auto simp: mem_write_def fun_eq_iff unat_eq_zero)

text \<open>
  What each copy loop leaves: the first \<open>k\<close> bytes copied and both pointers moved by
  \<open>k\<close>. \<open>copied\<close> is the loop invariant of all three.
\<close>

definition copied :: "mem \<Rightarrow> u64 \<Rightarrow> u64 \<Rightarrow> nat \<Rightarrow> mem \<times> u64 \<times> u64 \<Rightarrow> bool" where
  "copied m dst src k st \<longleftrightarrow> st = (mem_write m dst (mem_read m src k), dst + of_nat k, src + of_nat k)"

lemma copied_0: "copied m dst src 0 (m, dst, src)"
  by (simp add: copied_def mem_write_def)

lemma copied_step:
  assumes "copied m dst src k (m1, d1, s1)" "copied m1 d1 s1 j st"
    "range_of dst (k + j) \<inter> range_of src (k + j) = {}" "k + j < 2 ^ 64"
  shows "copied m dst src (k + j) st"
proof -
  have "range_of (src + of_nat k) j \<inter> range_of dst k = {}"
    using assms(3,4) by (auto simp: range_of_append)
  then have "mem_read (mem_write m dst (mem_read m src k)) (src + of_nat k) j = mem_read m (src + of_nat k) j"
    using assms(4) by (intro mem_read_write_other) auto
  then show ?thesis
    using assms mem_write_append [of "mem_read m src k" "mem_read m (src + of_nat k) j" m dst]
    by (simp add: copied_def mem_read_append add.assoc)
qed

lemma copied_1: "copied m dst src 1 (m(dst := m src), dst + 1, src + 1)"
  by (simp add: copied_def mem_read_def fun_upd_mem_write)

lemma copied_4: "copied m dst src 4 (mem_write m dst (mem_read m src 4), dst + 4, src + 4)"
  by (simp add: copied_def)

lemma range_of_mono: "j \<le> k \<Longrightarrow> range_of a j \<subseteq> range_of a k"
  by (auto simp: range_of_def)

lemma less_plus_of_nat:
  "unat (dst :: u64) + k < 2 ^ 64 \<Longrightarrow> dst < dst + of_nat k \<longleftrightarrow> 0 < k"
  by (simp add: word_less_nat_alt unat_plus_small)

lemma disjoint_tail:
  assumes "range_of dst (j + k) \<inter> range_of src (j + k) = {}" "j + k < 2 ^ 64"
  shows "range_of (dst + of_nat j) k \<inter> range_of (src + of_nat j) k = {}"
  using assms by (auto simp: range_of_append)

text \<open>One turn that copies \<open>j\<close> bytes, then the rest: the step all copy loops share.\<close>

lemma copied_turn:
  assumes turn: "copied m dst src j (m1, dst + of_nat j, src + of_nat j)"
    and rest: "range_of (dst + of_nat j) k \<inter> range_of (src + of_nat j) k = {} \<Longrightarrow>
      \<exists>i \<le> k. \<exists>st. r = Some st \<and> copied m1 (dst + of_nat j) (src + of_nat j) i st \<and> P i"
    and disj: "range_of dst (j + k) \<inter> range_of src (j + k) = {}" "j + k < 2 ^ 64"
  shows "\<exists>i \<le> j + k. \<exists>st. r = Some st \<and> copied m dst src i st \<and> (\<exists>i'. i = j + i' \<and> P i')"
proof -
  obtain i st where i: "i \<le> k" "r = Some st" "copied m1 (dst + of_nat j) (src + of_nat j) i st" "P i"
    using rest [OF disjoint_tail [OF disj]] by blast
  have "range_of dst (j + i) \<inter> range_of src (j + i) = {}"
    using disj(1) range_of_mono [of "j + i" "j + k" dst] range_of_mono [of "j + i" "j + k" src] i(1) by auto
  then have "copied m dst src (j + i) st"
    using copied_step [OF turn i(3)] disj(2) i(1) by simp
  with i show ?thesis by (intro exI [of _ "j + i"]) auto
qed

lemma copy_bytes_spec:
  assumes "unat dst + k < 2 ^ 64" "k < fuel" "range_of dst k \<inter> range_of src k = {}"
  shows "\<exists>i \<le> k. \<exists>st. copy_bytes fuel m dst src (dst + of_nat k) = Some st \<and> copied m dst src i st \<and> i = k"
  using assms
proof (induction k arbitrary: fuel m dst src)
  case 0
  then show ?case by (cases fuel) (auto simp: copied_0)
next
  case (Suc k)
  then obtain f where f: "fuel = Suc f" "k < f" by (cases fuel) auto
  have u: "unat (dst + 1) = unat dst + 1" using unat_plus_small [of dst 1] Suc.prems(1) by simp
  have unfold: "copy_bytes fuel m dst src (dst + of_nat (Suc k))
      = copy_bytes f (m(dst := m src)) (dst + of_nat 1) (src + of_nat 1) (dst + of_nat 1 + of_nat k)"
    using less_plus_of_nat [OF Suc.prems(1)] f by (simp add: add.assoc)
  have "\<exists>i \<le> 1 + k. \<exists>st. copy_bytes fuel m dst src (dst + of_nat (Suc k)) = Some st
      \<and> copied m dst src i st \<and> (\<exists>i'. i = 1 + i' \<and> i' = k)"
    unfolding unfold
  proof (rule copied_turn [where ?m1.0 = "m(dst := m src)"])
    show "copied m dst src 1 (m(dst := m src), dst + of_nat 1, src + of_nat 1)"
      using copied_1 [of m dst src] by simp
    assume "range_of (dst + of_nat 1) k \<inter> range_of (src + of_nat 1) k = {}"
    then show "\<exists>i\<le>k. \<exists>st. copy_bytes f (m(dst := m src)) (dst + of_nat 1) (src + of_nat 1)
        (dst + of_nat 1 + of_nat k) = Some st
        \<and> copied (m(dst := m src)) (dst + of_nat 1) (src + of_nat 1) i st \<and> i = k"
      by (intro Suc.IH) (use Suc.prems f u in auto)
  qed (use Suc.prems in auto)
  then show ?case by auto
qed

lemma copy_align_spec:
  assumes "unat dst + k < 2 ^ 64" "k < fuel" "range_of dst k \<inter> range_of src k = {}"
  shows "\<exists>i \<le> k. \<exists>st. copy_align fuel m dst src (dst + of_nat k) = Some st \<and> copied m dst src i st \<and> True"
  using assms
proof (induction k arbitrary: fuel m dst src)
  case 0
  then show ?case by (cases fuel) (auto simp: copied_0)
next
  case (Suc k)
  then obtain f where f: "fuel = Suc f" "k < f" by (cases fuel) auto
  have u: "unat (dst + 1) = unat dst + 1" using unat_plus_small [of dst 1] Suc.prems(1) by simp
  show ?case
  proof (cases "dst mod 4 = 0")
    case True
    then show ?thesis using f by (intro exI [of _ 0]) (auto simp: copied_0)
  next
    case False
    have unfold: "copy_align fuel m dst src (dst + of_nat (Suc k))
        = copy_align f (m(dst := m src)) (dst + of_nat 1) (src + of_nat 1) (dst + of_nat 1 + of_nat k)"
      using less_plus_of_nat [OF Suc.prems(1)] f False by (simp add: add.assoc)
    have "\<exists>i \<le> 1 + k. \<exists>st. copy_align fuel m dst src (dst + of_nat (Suc k)) = Some st
        \<and> copied m dst src i st \<and> (\<exists>i'. i = 1 + i' \<and> True)"
      unfolding unfold
    proof (rule copied_turn [where ?m1.0 = "m(dst := m src)"])
      show "copied m dst src 1 (m(dst := m src), dst + of_nat 1, src + of_nat 1)"
        using copied_1 [of m dst src] by simp
      assume "range_of (dst + of_nat 1) k \<inter> range_of (src + of_nat 1) k = {}"
      then show "\<exists>i\<le>k. \<exists>st. copy_align f (m(dst := m src)) (dst + of_nat 1) (src + of_nat 1)
          (dst + of_nat 1 + of_nat k) = Some st
          \<and> copied (m(dst := m src)) (dst + of_nat 1) (src + of_nat 1) i st \<and> True"
        by (intro Suc.IH) (use Suc.prems f u in auto)
    qed (use Suc.prems in auto)
    then show ?thesis by auto
  qed
qed

lemma copy_words_spec:
  assumes "unat dst + k + 4 < 2 ^ 64" "k < fuel" "range_of dst k \<inter> range_of src k = {}"
  shows "\<exists>i \<le> k. \<exists>st. copy_words fuel m dst src (dst + of_nat k) = Some st \<and> copied m dst src i st \<and> True"
  using assms
proof (induction k arbitrary: fuel m dst src rule: less_induct)
  case (less k)
  then obtain f where f: "fuel = Suc f" by (cases fuel) auto
  show ?case
  proof (cases "k < 4")
    case True
    have "\<not> dst + 4 \<le> dst + of_nat k"
    proof (cases "unat dst + 4 < 2 ^ 64")
      case True
      then have "unat (dst + 4) = unat dst + 4" using unat_plus_small [of dst 4] by simp
      then show ?thesis using \<open>k < 4\<close> True by (simp add: word_le_nat_alt unat_plus_small)
    qed (use less.prems(1) in auto)
    then show ?thesis using f by (intro exI [of _ 0]) (auto simp: copied_0)
  next
    case False
    then obtain j where j: "k = 4 + j" by (metis le_add_diff_inverse linorder_not_less)
    have u: "unat (dst + 4) = unat dst + 4" using unat_plus_small [of dst 4] less.prems(1) j by simp
    have "unat (dst + of_nat k) = unat dst + k" using less.prems(1) by (intro unat_plus_small) simp
    then have "dst + 4 \<le> dst + of_nat k" using u j by (simp add: word_le_nat_alt)
    then have unfold: "copy_words fuel m dst src (dst + of_nat k)
        = copy_words f (mem_write m dst (mem_read m src 4)) (dst + of_nat 4) (src + of_nat 4)
            (dst + of_nat 4 + of_nat j)"
      using f j by (simp add: add.assoc)
    have "\<exists>i \<le> 4 + j. \<exists>st. copy_words fuel m dst src (dst + of_nat k) = Some st
        \<and> copied m dst src i st \<and> (\<exists>i'. i = 4 + i' \<and> True)"
      unfolding unfold
    proof (rule copied_turn [where ?m1.0 = "mem_write m dst (mem_read m src 4)"])
      show "copied m dst src 4 (mem_write m dst (mem_read m src 4), dst + of_nat 4, src + of_nat 4)"
        using copied_4 [of m dst src] by simp
      assume "range_of (dst + of_nat 4) j \<inter> range_of (src + of_nat 4) j = {}"
      then show "\<exists>i\<le>j. \<exists>st. copy_words f (mem_write m dst (mem_read m src 4)) (dst + of_nat 4)
          (src + of_nat 4) (dst + of_nat 4 + of_nat j) = Some st
          \<and> copied (mem_write m dst (mem_read m src 4)) (dst + of_nat 4) (src + of_nat 4) i st \<and> True"
        by (intro less.IH) (use less.prems f j u in auto)
    qed (use less.prems j in auto)
    then show ?thesis using j by auto
  qed
qed

lemma memcpy_correct:
  assumes len: "unat dst + unat n + 4 < 2 ^ 64"
    and disj: "range_of dst (unat n) \<inter> range_of src (unat n) = {}"
  shows "memcpy m dst src n = Some (mem_write m dst (mem_read m src (unat n)))"
proof -
  let ?k = "unat n"
  define f where "f = Suc (unat n)"
  have n: "of_nat ?k = n" and f: "\<And>i. ?k - i < f" by (simp_all add: f_def)
  have f0: "?k < f" by (simp add: f_def)
  have sub: "range_of (dst + of_nat j) (?k - j) \<inter> range_of (src + of_nat j) (?k - j) = {}"
    and len': "unat (dst + of_nat j) + (?k - j) + 4 < 2 ^ 64"
    and mx: "dst + of_nat j + of_nat (?k - j) = dst + n" if "j \<le> ?k" for j
  proof -
    show "range_of (dst + of_nat j) (?k - j) \<inter> range_of (src + of_nat j) (?k - j) = {}"
      using disjoint_tail [of dst j "?k - j" src] disj len that by simp
    show "unat (dst + of_nat j) + (?k - j) + 4 < 2 ^ 64"
      using len that by (subst unat_plus_small) auto
    show "dst + of_nat j + of_nat (?k - j) = dst + n" using that by (simp add: of_nat_diff)
  qed
  have glue: "copied m dst src (i + j) st"
    if "copied m dst src i (m1, dst + of_nat i, src + of_nat i)"
      "copied m1 (dst + of_nat i) (src + of_nat i) j st" "i + j \<le> ?k" for i j m1 st
    using that copied_step [of m dst src i m1 "dst + of_nat i" "src + of_nat i" j st] disj len
      range_of_mono [of "i + j" ?k dst] range_of_mono [of "i + j" ?k src] by fastforce
  show ?thesis
  proof (cases "src mod 4 = dst mod 4")
    case False
    then show ?thesis
      using copy_bytes_spec [of dst ?k f src m] len disj f0 n by (auto simp: memcpy_def copied_def Let_def f_def [symmetric])
  next
    case True
    obtain i st1 where 1: "i \<le> ?k" "copy_align f m dst src (dst + n) = Some st1" "copied m dst src i st1"
      using copy_align_spec [of dst ?k f src m] len disj n f0 by auto
    then obtain m1 where m1: "st1 = (m1, dst + of_nat i, src + of_nat i)" by (simp add: copied_def)
    obtain j st2 where 2: "j \<le> ?k - i" "copied m1 (dst + of_nat i) (src + of_nat i) j st2"
      "copy_words f m1 (dst + of_nat i) (src + of_nat i) (dst + n) = Some st2"
      using copy_words_spec [of "dst + of_nat i" "?k - i" f "src + of_nat i" m1] sub [OF 1(1)] len' [OF 1(1)] mx [OF 1(1)]
        f [of i] by auto
    define l where "l = i + j"
    have l: "copied m dst src l st2" "l \<le> ?k" using glue 1 2 m1 by (simp_all add: l_def)
    then obtain m2 where m2: "st2 = (m2, dst + of_nat l, src + of_nat l)" by (simp add: copied_def)
    have "\<exists>i \<le> ?k - l. \<exists>st. copy_bytes f m2 (dst + of_nat l) (src + of_nat l) (dst + n) = Some st
        \<and> copied m2 (dst + of_nat l) (src + of_nat l) i st \<and> i = ?k - l"
      using copy_bytes_spec [of "dst + of_nat l" "?k - l" f "src + of_nat l" m2]
        sub [OF l(2)] len' [OF l(2)] f [of l] unfolding mx [OF l(2)] by simp
    then obtain st3 where 3: "copied m2 (dst + of_nat l) (src + of_nat l) (?k - l) st3"
      "copy_bytes f m2 (dst + of_nat l) (src + of_nat l) (dst + n) = Some st3" by auto
    have "copied m dst src ?k st3"
      using glue [of l m2 "?k - l" st3] l m2 3(1) by simp
    then show ?thesis
      using True 1(2) 2(3) 3(2) m1 m2 by (simp add: memcpy_def Let_def copied_def f_def [symmetric])
  qed
qed

section \<open>memset fills\<close>

lemma set_bytes_spec:
  assumes "unat dst + k < 2 ^ 64" "k < fuel"
  shows "\<exists>i \<le> k. set_bytes fuel al m dst b (dst + of_nat k)
      = Some (mem_write m dst (replicate i b), dst + of_nat i) \<and> (\<not> al \<longrightarrow> i = k)"
  using assms
proof (induction k arbitrary: fuel m dst)
  case 0
  then show ?case by (cases fuel) (auto simp: mem_write_def)
next
  case (Suc k)
  then obtain f where f: "fuel = Suc f" "k < f" by (cases fuel) auto
  show ?case
  proof (cases "al \<and> dst mod 4 = 0")
    case True
    then show ?thesis using f by (intro exI [of _ 0]) (auto simp: mem_write_def)
  next
    case False
    have u: "unat (dst + 1) = unat dst + 1" using unat_plus_small [of dst 1] Suc.prems(1) by simp
    have "dst < dst + of_nat (Suc k)" using less_plus_of_nat [OF Suc.prems(1)] by simp
    then have unfold: "set_bytes fuel al m dst b (dst + of_nat (Suc k))
        = set_bytes f al (m(dst := b)) (dst + 1) b (dst + 1 + of_nat k)"
      using f False by (auto simp: add.assoc)
    obtain i where i: "i \<le> k" "\<not> al \<longrightarrow> i = k"
      "set_bytes f al (m(dst := b)) (dst + 1) b (dst + 1 + of_nat k)
        = Some (mem_write (m(dst := b)) (dst + 1) (replicate i b), dst + 1 + of_nat i)"
      using Suc.IH [of "dst + 1" f "m(dst := b)"] Suc.prems f u that by (auto simp del: fun_upd_apply)
    have "mem_write (m(dst := b)) (dst + 1) (replicate i b) = mem_write m dst (replicate (Suc i) b)"
      using mem_write_append [of "[b]" "replicate i b" m dst] i(1) Suc.prems(1)
      by (simp add: fun_upd_mem_write)
    then show ?thesis using i unfold by (intro exI [of _ "Suc i"]) (auto simp: add.assoc)
  qed
qed

lemma bytes_of_memset_word: "bytes_of 4 (ucast (memset_word b)) = replicate 4 b"
proof -
  have *: "ucast (drop_bit (8 * i) (ucast (memset_word b) :: u64)) = b" if "i \<in> {0, 1, 2, 3}" for i
  proof (rule bit_word_eqI)
    fix n assume n: "n < LENGTH(8)"
    have "\<not> bit b k" if "8 \<le> k" for k using that bit_imp_le_length [of b k] by auto
    then show "bit (ucast (drop_bit (8 * i) (ucast (memset_word b) :: u64)) :: u8) n = bit b n"
      using that n by (elim insertE emptyE) (simp_all add: memset_word_def bit_simps)
  qed
  have four: "(4 :: nat) = Suc (Suc (Suc (Suc 0)))" by simp
  have "bytes_of 4 w = map (\<lambda>i. ucast (drop_bit (8 * i) w)) [0, 1, 2, 3]" for w
    by (simp add: four drop_bit_drop_bit)
  moreover have "replicate 4 b = map (\<lambda>_. b) [0 :: nat, 1, 2, 3]" by (simp add: four)
  ultimately show ?thesis using * [of 0] * [of 1] * [of 2] * [of 3] by simp
qed

lemma set_words_spec:
  assumes "unat dst + k + 4 < 2 ^ 64" "k < fuel"
  shows "\<exists>i \<le> k. set_words fuel m dst (memset_word b) (dst + of_nat k)
      = Some (mem_write m dst (replicate i b), dst + of_nat i)"
  using assms
proof (induction k arbitrary: fuel m dst rule: less_induct)
  case (less k)
  then obtain f where f: "fuel = Suc f" by (cases fuel) auto
  have u: "unat (dst + 4) = unat dst + 4" using unat_plus_small [of dst 4] less.prems(1) by simp
  have uk: "unat (dst + of_nat k) = unat dst + k" using less.prems(1) by (intro unat_plus_small) simp
  show ?case
  proof (cases "k < 4")
    case True
    then have "\<not> dst + 4 \<le> dst + of_nat k" using u uk by (simp add: word_le_nat_alt)
    then show ?thesis using f by (intro exI [of _ 0]) (auto simp: mem_write_def)
  next
    case False
    then obtain j where j: "k = 4 + j" by (metis le_add_diff_inverse linorder_not_less)
    have "dst + 4 \<le> dst + of_nat k" using u uk j by (simp add: word_le_nat_alt)
    then have unfold: "set_words fuel m dst (memset_word b) (dst + of_nat k)
        = set_words f (mem_write m dst (replicate 4 b)) (dst + 4) (memset_word b) (dst + 4 + of_nat j)"
      using f j by (simp add: add.assoc bytes_of_memset_word)
    obtain i where i: "i \<le> j" "set_words f (mem_write m dst (replicate 4 b)) (dst + 4) (memset_word b) (dst + 4 + of_nat j)
        = Some (mem_write (mem_write m dst (replicate 4 b)) (dst + 4) (replicate i b), dst + 4 + of_nat i)"
      using less.IH [of j "dst + 4" f "mem_write m dst (replicate 4 b)"] less.prems f j u by auto
    have "mem_write (mem_write m dst (replicate 4 b)) (dst + 4) (replicate i b) = mem_write m dst (replicate (4 + i) b)"
      using mem_write_append [of "replicate 4 b" "replicate i b" m dst] i(1) less.prems(1) j
      by (simp only: length_replicate replicate_add) simp
    then show ?thesis using i unfold j by (intro exI [of _ "4 + i"]) (auto simp: add.assoc)
  qed
qed

lemma memset_correct:
  assumes len: "unat dst + unat n + 4 < 2 ^ 64"
  shows "memset m dst c n = Some (mem_write m dst (replicate (unat n) (word_of_int c)))"
proof -
  define k where "k = unat n"
  define b where "b = (word_of_int c :: u8)"
  define f where "f = Suc k"
  have n: "n = of_nat k" by (simp add: k_def)
  have b: "b AND 0xff = b" 
  proof (rule bit_word_eqI)
    fix i assume "i < LENGTH(8)"
    then show "bit (b AND 0xff) i = bit b i" by (auto simp: bit_simps less_Suc_eq numeral_eq_Suc)
  qed
  have len': "unat dst + k + 4 < 2 ^ 64" using len by (simp add: k_def)
  have off: "unat (dst + of_nat i) = unat dst + i" if "i \<le> k" for i
    using that len' by (intro unat_plus_small) simp
  have glue: "mem_write (mem_write m' dst (replicate i b)) (dst + of_nat i) (replicate j b)
      = mem_write m' dst (replicate (i + j) b)" if "i + j \<le> k" for i j m'
    using mem_write_append [of "replicate i b" "replicate j b" m' dst] that len' by (simp add: replicate_add)
  have split: "dst + of_nat k = dst + of_nat i + of_nat (k - i)" if "i \<le> k" for i
    using that by (simp add: add.assoc flip: of_nat_add)
  have kf: "k - i < f" for i by (simp add: f_def)
  obtain i where i: "i \<le> k" "set_bytes f True m dst b (dst + of_nat k)
      = Some (mem_write m dst (replicate i b), dst + of_nat i)"
    using set_bytes_spec [of dst k f True m b] len' kf [of 0] by auto
  have "\<exists>j \<le> k - i. set_words f (mem_write m dst (replicate i b)) (dst + of_nat i) (memset_word b)
      (dst + of_nat k) = Some (mem_write (mem_write m dst (replicate i b)) (dst + of_nat i) (replicate j b),
        dst + of_nat i + of_nat j)"
    unfolding split [OF i(1)] using len' i off [OF i(1)] kf [of i] by (intro set_words_spec) simp_all
  then obtain j where j: "j \<le> k - i"
    "set_words f (mem_write m dst (replicate i b)) (dst + of_nat i) (memset_word b)
      (dst + of_nat k) = Some (mem_write m dst (replicate (i + j) b), dst + of_nat (i + j))"
    using glue [of i] i(1) by (auto simp: add.assoc)
  have ij: "i + j \<le> k" using i j by simp
  have "\<exists>l \<le> k - (i + j). set_bytes f False (mem_write m dst (replicate (i + j) b)) (dst + of_nat (i + j)) b
      (dst + of_nat (i + j) + of_nat (k - (i + j))) = Some (mem_write (mem_write m dst (replicate (i + j) b))
        (dst + of_nat (i + j)) (replicate l b), dst + of_nat (i + j) + of_nat l) \<and> (\<not> False \<longrightarrow> l = k - (i + j))"
    using len' off [OF ij] kf [of "i + j"] ij by (intro set_bytes_spec) simp_all
  then have "set_bytes f False (mem_write m dst (replicate (i + j) b)) (dst + of_nat (i + j)) b
      (dst + of_nat k) = Some (mem_write m dst (replicate k b), dst + of_nat k)"
    using glue [of "i + j" "k - (i + j)" m] ij unfolding split [OF ij, symmetric] by auto
  with i j show ?thesis
    unfolding memset_def Let_def n b_def [symmetric] b using len' by (simp add: f_def [symmetric])
qed

section \<open>Strings\<close>

lemma mem_read_Suc: "mem_read m a (Suc n) = m a # mem_read m (a + 1) n"
  using mem_read_append [of m a 1 n] by (simp add: mem_read_def)

lemma cstr_Nil [simp]: "cstr m a [] \<longleftrightarrow> m a = 0"
  by (simp add: cstr_def)

lemma cstr_Cons: "cstr m a (c # s) \<longleftrightarrow> m a = c \<and> c \<noteq> 0 \<and> cstr m (a + 1) s \<and> Suc (length s) < 2 ^ 31"
  by (auto simp: cstr_def mem_read_Suc add.assoc)

lemma strlen_loop_cstr:
  "cstr m a s \<Longrightarrow> length s < fuel \<Longrightarrow> strlen_loop fuel m a n = Some (n + of_nat (length s))"
proof (induction s arbitrary: a n fuel)
  case Nil
  then show ?case by (cases fuel) auto
next
  case (Cons c s)
  then obtain f where "fuel = Suc f" by (cases fuel) auto
  with Cons show ?case by (simp add: cstr_Cons add.assoc)
qed

lemma strlen_correct:
  assumes "cstr m a s" "length s < fuel"
  shows "strlen fuel m a = Some (of_nat (length s))"
proof -
  have "length s < 2 ^ 31" using assms(1) by (simp add: cstr_def)
  then have "sint (of_nat (length s) :: u32) = int (length s)"
    using int_word_sint [where x = "int (length s)" and 'a = 32] by simp
  then have "scast (of_nat (length s) :: u32) = (of_nat (length s) :: u64)"
    by (simp add: scast_eq)
  then show ?thesis using strlen_loop_cstr [OF assms, of 0] by (simp add: strlen_def)
qed

lemma strcmp_correct:
  assumes "cstr m p s" "cstr m q t" "length s < fuel"
  shows "\<exists>r. strcmp fuel m p q = Some r \<and> (r = 0 \<longleftrightarrow> s = t)"
  using assms
proof (induction s arbitrary: p q t fuel)
  case Nil
  then show ?case by (cases fuel; cases t) (auto simp: cstr_Cons word_gt_0)
next
  case (Cons c s)
  then obtain f where f: "fuel = Suc f" by (cases fuel) auto
  show ?case
  proof (cases t)
    case Nil
    with Cons f show ?thesis by (auto simp: cstr_Cons word_gt_0)
  next
    case (Cons d t')
    then show ?thesis
      using Cons.IH [of "p + 1" "q + 1" t' f] Cons.prems f by (auto simp: cstr_Cons)
  qed
qed

lemma strcpy_correct:
  assumes "cstr m src s" "length s < fuel"
    "range_of dst (Suc (length s)) \<inter> range_of src (Suc (length s)) = {}"
  shows "strcpy fuel m dst src = Some (mem_write m dst (s @ [0]))"
  using assms
proof (induction s arbitrary: m dst src fuel)
  case Nil
  then show ?case by (cases fuel) (auto simp: fun_upd_mem_write)
next
  case (Cons c s)
  then obtain f where f: "fuel = Suc f" "length s < f" by (cases fuel) auto
  have len: "Suc (Suc (length s)) < 2 ^ 64" using Cons.prems(1) by (simp add: cstr_def)
  have disj: "range_of (dst + 1) (Suc (length s)) \<inter> range_of (src + 1) (Suc (length s)) = {}"
    "dst \<notin> range_of (src + 1) (Suc (length s))"
  proof -
    have "range_of a (Suc (Suc (length s))) = range_of a 1 \<union> range_of (a + 1) (Suc (length s))" for a
      using range_of_append [of 1 "Suc (length s)" a] len by simp
    moreover have "dst \<in> range_of dst 1" by (simp add: range_of_def)
    ultimately show "range_of (dst + 1) (Suc (length s)) \<inter> range_of (src + 1) (Suc (length s)) = {}"
      "dst \<notin> range_of (src + 1) (Suc (length s))" using Cons.prems(3) by auto
  qed
  have keep: "(m(dst := c)) x = m x" if "x \<in> range_of (src + 1) (Suc (length s))" for x
    using that disj(2) by auto
  have "mem_read (m(dst := c)) (src + 1) (Suc (length s)) = mem_read m (src + 1) (Suc (length s))"
    using keep len by (intro mem_read_cong) auto
  then have eq: "mem_read (m(dst := c)) (src + 1) (length s) = mem_read m (src + 1) (length s)
      \<and> (m(dst := c)) (src + 1 + of_nat (length s)) = m (src + 1 + of_nat (length s))"
    using mem_read_append [of _ "src + 1" "length s" 1] by (auto simp: mem_read_def)
  have "cstr (m(dst := c)) (src + 1) s"
    using Cons.prems(1) eq unfolding cstr_Cons by (simp add: cstr_def)
  then have "strcpy f (m(dst := c)) (dst + 1) (src + 1) = Some (mem_write (m(dst := c)) (dst + 1) (s @ [0]))"
    using f disj(1) by (intro Cons.IH)
  moreover have "mem_write (m(dst := c)) (dst + 1) (s @ [0]) = mem_write m dst ((c # s) @ [0])"
    using mem_write_append [of "[c]" "s @ [0]" m dst] len by (simp add: fun_upd_mem_write)
  ultimately show ?case
    using f Cons.prems(1) by (simp add: cstr_Cons Let_def)
qed

section \<open>Properties\<close>

text \<open>
  \<open>memcpy\<close>, with its byte, word and tail loops, terminates and copies:
  for buffers that do not overlap (the \<open>restrict\<close> of its signature) and whose end does not
  wrap, the destination then holds the source bytes and no other byte has changed.
\<close>

theorem memcpy_copies:
  assumes "unat dst + unat n + 4 < 2 ^ 64" "range_of dst (unat n) \<inter> range_of src (unat n) = {}"
  shows "\<exists>m'. memcpy m dst src n = Some m' \<and> mem_read m' dst (unat n) = mem_read m src (unat n)
    \<and> (\<forall>x. x \<notin> range_of dst (unat n) \<longrightarrow> m' x = m x)"
proof -
  have "unat n \<le> 2 ^ 64" using unat_lt64 [of n] by simp
  then show ?thesis
    using memcpy_correct [OF assms, of m] by (auto simp: mem_read_write_same mem_write_outside)
qed

theorem memcpy_copies_witness:
  "\<exists>m'. memcpy (\<lambda>x. ucast x) 0x1001 0x2000 5 = Some m' \<and> mem_read m' 0x1001 5 = [0, 1, 2, 3, 4] \<and> m' 0x1006 = 6"
proof -
  have "range_of 0x1001 (unat (5 :: u64)) \<inter> range_of 0x2000 (unat (5 :: u64)) = {}"
    by (simp add: range_of_upt upt_conv_Cons)
  moreover have "mem_read (\<lambda>x. ucast x) 0x2000 5 = [0, 1, 2, 3, 4]"
    by (simp add: mem_read_def upt_conv_Cons)
  ultimately show ?thesis
    using memcpy_copies [of "0x1001" 5 "0x2000" "\<lambda>x. ucast x"] by (auto simp: range_of_def)
qed

text \<open>
  \<open>memset\<close> terminates and fills exactly \<open>n\<close> bytes with the low byte of \<open>c\<close>,
  whatever the alignment of the buffer and whatever \<open>n\<close>.
\<close>

theorem memset_fills:
  assumes "unat dst + unat n + 4 < 2 ^ 64"
  shows "\<exists>m'. memset m dst c n = Some m' \<and> (\<forall>x. m' x = (if x \<in> range_of dst (unat n) then word_of_int c else m x))"
  using memset_correct [OF assms, of m c] by (auto simp: mem_write_def range_of_def)

theorem memset_fills_witness:
  "\<exists>m'. memset (\<lambda>_. 9) 0x1003 0x1ff 7 = Some m' \<and> m' 0x1003 = 0xff \<and> m' 0x1009 = 0xff \<and> m' 0x100a = 9"
  using memset_fills [of "0x1003" 7 "\<lambda>_. 9" "0x1ff"] by (auto simp: range_of_def)

end
