(* ===== verification/Hashmap.thy ===== *)
theory Hashmap
  imports Cstring
begin

unbundle bit_operations_syntax

text \<open>
  \<^verbatim>\<open>lib/hashmap.c\<close>: the chained hash table through which the kernel finds
  partitions, processes, buffers, blackboards and ports by identifier or by name.
  A node is whatever the table links (the kernel objects); \<open>h_key\<close>, \<open>h_code\<close> and
  \<open>h_equals\<close> are arguments, as they are function pointers in the struct. A bucket
  (an \<^verbatim>\<open>hlist_head\<close>) is the list of its nodes, head first; \<open>Linked_List\<close> shows that the
  pointer operations implement the list operations used here.
\<close>

section \<open>The code\<close>

record 'n hashmap =
  h_cap :: u64
  h_num :: u64
  h_array :: "'n list list"

definition hashmap_init :: "'n hashmap \<Rightarrow> 'n hashmap" where
  "hashmap_init hm = hm\<lparr>h_array := replicate (unat (h_cap hm)) []\<rparr>"

text \<open>\<open>HASHMAP_ALLOC\<close> over a zeroed array, and the statically initialised tables.\<close>

definition HASHMAP_ALLOC :: "u64 \<Rightarrow> 'n hashmap" where
  "HASHMAP_ALLOC cap = \<lparr>h_cap = cap, h_num = 0, h_array = replicate (unat cap) []\<rparr>"

text \<open>The loop of \<open>hashmap_put\<close> and \<open>hashmap_remove\<close> that unlinks the nodes with the key.\<close>

fun hashmap_unlink :: "('k \<Rightarrow> 'k \<Rightarrow> bool) \<Rightarrow> ('n \<Rightarrow> 'k) \<Rightarrow> 'k \<Rightarrow> 'n list \<Rightarrow> u64 \<Rightarrow> 'n list \<times> u64" where
  "hashmap_unlink h_equals h_key key [] num = ([], num)"
| "hashmap_unlink h_equals h_key key (p # ps) num =
     (if h_equals key (h_key p) then hashmap_unlink h_equals h_key key ps (num - 1)
      else let (qs, num') = hashmap_unlink h_equals h_key key ps num in (p # qs, num'))"

definition hashmap_index :: "('k \<Rightarrow> u64) \<Rightarrow> 'n hashmap \<Rightarrow> 'k \<Rightarrow> nat" where
  "hashmap_index h_code hm key = unat (h_code key mod h_cap hm)"

definition hashmap_put :: "('k \<Rightarrow> u64) \<Rightarrow> ('k \<Rightarrow> 'k \<Rightarrow> bool) \<Rightarrow> ('n \<Rightarrow> 'k) \<Rightarrow> 'n hashmap \<Rightarrow> 'n \<Rightarrow> 'n hashmap" where
  "hashmap_put h_code h_equals h_key hm node =
     (let node_key = h_key node;
          index = hashmap_index h_code hm node_key;
          (bucket, num) = hashmap_unlink h_equals h_key node_key (h_array hm ! index) (h_num hm)
      in hm\<lparr>h_array := (h_array hm)[index := node # bucket], h_num := num + 1\<rparr>)"

definition hashmap_remove :: "('k \<Rightarrow> u64) \<Rightarrow> ('k \<Rightarrow> 'k \<Rightarrow> bool) \<Rightarrow> ('n \<Rightarrow> 'k) \<Rightarrow> 'n hashmap \<Rightarrow> 'k \<Rightarrow> 'n hashmap" where
  "hashmap_remove h_code h_equals h_key hm key =
     (let index = hashmap_index h_code hm key;
          (bucket, num) = hashmap_unlink h_equals h_key key (h_array hm ! index) (h_num hm)
      in hm\<lparr>h_array := (h_array hm)[index := bucket], h_num := num\<rparr>)"

fun hashmap_find :: "('k \<Rightarrow> 'k \<Rightarrow> bool) \<Rightarrow> ('n \<Rightarrow> 'k) \<Rightarrow> 'k \<Rightarrow> 'n list \<Rightarrow> 'n option" where
  "hashmap_find h_equals h_key key [] = None"
| "hashmap_find h_equals h_key key (p # ps) =
     (if h_equals key (h_key p) then Some p else hashmap_find h_equals h_key key ps)"

definition hashmap_get :: "('k \<Rightarrow> u64) \<Rightarrow> ('k \<Rightarrow> 'k \<Rightarrow> bool) \<Rightarrow> ('n \<Rightarrow> 'k) \<Rightarrow> 'n hashmap \<Rightarrow> 'k \<Rightarrow> 'n option" where
  "hashmap_get h_code h_equals h_key hm key =
     hashmap_find h_equals h_key key (h_array hm ! hashmap_index h_code hm key)"

text \<open>\<open>HASHMAP_ITER\<close>: the nodes in bucket order.\<close>

definition hashmap_nodes :: "'n hashmap \<Rightarrow> 'n list" where
  "hashmap_nodes hm = concat (h_array hm)"

subsection \<open>Hash functions and key comparisons\<close>

fun hash_str_loop :: "string \<Rightarrow> u64 \<Rightarrow> u64 \<Rightarrow> u64" where
  "hash_str_loop [] val pow = val"
| "hash_str_loop (c # cs) val pow =
     hash_str_loop cs ((val + (of_char c - 0x61 + 1) * pow) mod 1000000009) ((pow * 31) mod 1000000009)"

definition hash_code_str :: "string \<Rightarrow> u64" where
  "hash_code_str key = hash_str_loop key 0 1"

text \<open>\<open>strcmp\<close> on the characters before the terminating NUL.\<close>

fun strcmp_str :: "string \<Rightarrow> string \<Rightarrow> int" where
  "strcmp_str [] [] = 0"
| "strcmp_str [] (d # ds) = - 1"
| "strcmp_str (c # cs) [] = 1"
| "strcmp_str (c # cs) (d # ds) =
     (if c = d then strcmp_str cs ds else if (of_char c :: u8) < of_char d then - 1 else 1)"

definition hash_eq_str :: "string \<Rightarrow> string \<Rightarrow> bool" where
  "hash_eq_str key1 key2 \<longleftrightarrow> strcmp_str key1 key2 = 0"

definition hash_code_uint32 :: "u32 \<Rightarrow> u64" where
  "hash_code_uint32 key =
     (let num = key;
          num = (drop_bit 16 num XOR num) * 0x119de1f3;
          num = (drop_bit 16 num XOR num) * 0x119de1f3;
          num = drop_bit 16 num XOR num
      in ucast num)"

definition hash_eq_uint32 :: "u32 \<Rightarrow> u32 \<Rightarrow> bool" where
  "hash_eq_uint32 num1 num2 \<longleftrightarrow> num1 = num2"

definition hash_code_uint64 :: "u64 \<Rightarrow> u64" where
  "hash_code_uint64 key =
     (let num = key;
          num = (num XOR drop_bit 30 num) * 0xbf58476d1ce4e5b9;
          num = (num XOR drop_bit 27 num) * 0x94d049bb133111eb;
          num = num XOR drop_bit 31 num
      in num)"

definition hash_eq_uint64 :: "u64 \<Rightarrow> u64 \<Rightarrow> bool" where
  "hash_eq_uint64 num1 num2 \<longleftrightarrow> num1 = num2"

section \<open>Well-formed tables\<close>

text \<open>
  Every node sits in the bucket of its key, no two nodes of the table share a key, and
  \<open>h_num\<close> counts the nodes (modulo 2^64).
\<close>

definition hashmap_ok :: "('k \<Rightarrow> u64) \<Rightarrow> ('n \<Rightarrow> 'k) \<Rightarrow> 'n hashmap \<Rightarrow> bool" where
  "hashmap_ok h_code h_key hm \<longleftrightarrow> 0 < h_cap hm \<and> length (h_array hm) = unat (h_cap hm)
     \<and> (\<forall>i < length (h_array hm). (\<forall>p \<in> set (h_array hm ! i). hashmap_index h_code hm (h_key p) = i)
          \<and> distinct (map h_key (h_array hm ! i)))
     \<and> h_num hm = of_nat (length (concat (h_array hm)))"

lemma hashmap_index_bound:
  "0 < h_cap hm \<Longrightarrow> hashmap_index h_code hm key < unat (h_cap hm)"
  by (simp add: hashmap_index_def unat_mono word_mod_less_divisor)

lemma HASHMAP_ALLOC_ok: "0 < cap \<Longrightarrow> hashmap_ok h_code h_key (HASHMAP_ALLOC cap)"
  by (auto simp: hashmap_ok_def HASHMAP_ALLOC_def)

lemma hashmap_unlink_filter:
  "hashmap_unlink h_equals h_key key ps num
    = (filter (\<lambda>p. \<not> h_equals key (h_key p)) ps, num - of_nat (length (filter (\<lambda>p. h_equals key (h_key p)) ps)))"
  by (induction ps arbitrary: num) (auto simp: Let_def)

lemma length_concat_update:
  "i < length xss \<Longrightarrow> length (concat (xss[i := ys])) + length (xss ! i) = length (concat xss) + length ys"
  by (induction xss arbitrary: i) (auto simp: nth_Cons' less_Suc_eq_0_disj split: nat.splits)

lemma hashmap_find_Some: "hashmap_find (=) h_key key ps = Some p \<Longrightarrow> p \<in> set ps \<and> h_key p = key"
  by (induction ps) (auto split: if_splits)

lemma hashmap_find_None: "hashmap_find (=) h_key key ps = None \<longleftrightarrow> key \<notin> h_key ` set ps"
  by (induction ps) auto

lemma hashmap_find_unlink:
  "hashmap_find (=) h_key key (filter (\<lambda>p. key' \<noteq> h_key p) ps)
    = (if key = key' then None else hashmap_find (=) h_key key ps)"
  by (induction ps) auto

section \<open>The contract of a keyed table\<close>

locale keyed_map =
  fixes ok :: "'m \<Rightarrow> bool"
    and key :: "'n \<Rightarrow> 'k"
    and lookup :: "'m \<Rightarrow> 'k \<Rightarrow> 'n option"
    and put :: "'m \<Rightarrow> 'n \<Rightarrow> 'm"
    and remove :: "'m \<Rightarrow> 'k \<Rightarrow> 'm"
  assumes put_ok: "ok m \<Longrightarrow> ok (put m n)"
    and remove_ok: "ok m \<Longrightarrow> ok (remove m k)"
    and lookup_put: "ok m \<Longrightarrow> lookup (put m n) k = (if k = key n then Some n else lookup m k)"
    and lookup_remove: "ok m \<Longrightarrow> lookup (remove m k') k = (if k = k' then None else lookup m k)"
    and lookup_key: "ok m \<Longrightarrow> lookup m k = Some n \<Longrightarrow> key n = k"
begin

text \<open>The table after a sequence of insertions: the last node inserted with a key wins.\<close>

lemma fold_put_ok: "ok m \<Longrightarrow> ok (fold (\<lambda>n m. put m n) ns m)"
  by (induction ns arbitrary: m) (auto simp: put_ok)

lemma lookup_fold_put:
  "ok m \<Longrightarrow> lookup (fold (\<lambda>n m. put m n) ns m) k
    = (case find (\<lambda>n. key n = k) (rev ns) of Some n \<Rightarrow> Some n | None \<Rightarrow> lookup m k)"
proof (induction ns rule: rev_induct)
  case (snoc n ns)
  then show ?case by (auto simp: lookup_put fold_put_ok)
qed simp

lemma lookup_put_fresh:
  assumes "ok m" "lookup m (key n) = None"
  shows "lookup (remove (put m n) (key n)) k = lookup m k"
  using assms by (simp add: lookup_put lookup_remove put_ok)

end

text \<open>The laws hold for any code function, as long as \<open>h_equals\<close> is equality of keys.\<close>

locale hash_keys =
  fixes h_code :: "'k \<Rightarrow> u64"
    and h_equals :: "'k \<Rightarrow> 'k \<Rightarrow> bool"
    and h_key :: "'n \<Rightarrow> 'k"
  assumes equals_law: "h_equals a b \<longleftrightarrow> a = b"
begin

lemma equals_eq: "h_equals = (=)"
  by (simp add: fun_eq_iff equals_law)

lemma index_update:
  "hashmap_index h_code (hm\<lparr>h_array := arr, h_num := num\<rparr>) k = hashmap_index h_code hm k"
  by (simp add: hashmap_index_def)

lemma replace_bucket_ok:
  assumes ok: "hashmap_ok h_code h_key hm" and i: "i < length (h_array hm)"
    and own: "\<And>p. p \<in> set b \<Longrightarrow> hashmap_index h_code hm (h_key p) = i"
    and dist: "distinct (map h_key b)"
    and num: "num + of_nat (length (h_array hm ! i)) = h_num hm + of_nat (length b)"
  shows "hashmap_ok h_code h_key (hm\<lparr>h_array := (h_array hm)[i := b], h_num := num\<rparr>)"
proof -
  have "of_nat (length (concat ((h_array hm)[i := b]))) + of_nat (length (h_array hm ! i))
      = (of_nat (length (concat (h_array hm))) + of_nat (length b) :: u64)"
    using length_concat_update [OF i, of b] by (simp flip: of_nat_add)
  then have "num = of_nat (length (concat ((h_array hm)[i := b])))"
    using num ok by (metis add_right_imp_eq hashmap_ok_def)
  then show ?thesis
    using ok own dist i by (auto simp: hashmap_ok_def index_update nth_list_update)
qed

lemma index_bound: "hashmap_ok h_code h_key hm \<Longrightarrow> hashmap_index h_code hm k < length (h_array hm)"
  by (simp add: hashmap_ok_def hashmap_index_bound)

lemma bucket_ok:
  assumes "hashmap_ok h_code h_key hm" "i < length (h_array hm)"
  shows "p \<in> set (h_array hm ! i) \<Longrightarrow> hashmap_index h_code hm (h_key p) = i"
    "distinct (map h_key (h_array hm ! i))"
  using assms by (auto simp: hashmap_ok_def)

lemma unlinked_count:
  "(of_nat (length (filter (\<lambda>p. \<not> P p) ps)) + of_nat (length (filter P ps)) :: u64) = of_nat (length ps)"
  by (simp add: sum_length_filter_compl add.commute flip: of_nat_add)

lemma hashmap_put_ok:
  assumes "hashmap_ok h_code h_key hm"
  shows "hashmap_ok h_code h_key (hashmap_put h_code h_equals h_key hm n)"
proof -
  define i where "i = hashmap_index h_code hm (h_key n)"
  have i: "i < length (h_array hm)" using index_bound [OF assms] by (simp add: i_def)
  let ?bs = "filter (\<lambda>p. h_key n \<noteq> h_key p) (h_array hm ! i)"
  show ?thesis
    unfolding hashmap_put_def Let_def i_def [symmetric] hashmap_unlink_filter prod.case equals_eq
  proof (rule replace_bucket_ok [OF assms i])
    show "distinct (map h_key (n # ?bs))" using bucket_ok [OF assms i] by (auto simp: distinct_map_filter)
    show "h_num hm - of_nat (length (filter (\<lambda>p. h_key n = h_key p) (h_array hm ! i))) + 1
        + of_nat (length (h_array hm ! i)) = h_num hm + of_nat (length (n # ?bs))"
      using unlinked_count [of "\<lambda>p. h_key n = h_key p" "h_array hm ! i"] by (simp add: algebra_simps)
  qed (use bucket_ok [OF assms i] in \<open>auto simp: i_def\<close>)
qed

lemma hashmap_remove_ok:
  assumes "hashmap_ok h_code h_key hm"
  shows "hashmap_ok h_code h_key (hashmap_remove h_code h_equals h_key hm k)"
proof -
  define i where "i = hashmap_index h_code hm k"
  have i: "i < length (h_array hm)" using index_bound [OF assms] by (simp add: i_def)
  show ?thesis
    unfolding hashmap_remove_def Let_def i_def [symmetric] hashmap_unlink_filter prod.case equals_eq
  proof (rule replace_bucket_ok [OF assms i])
    show "h_num hm - of_nat (length (filter (\<lambda>p. k = h_key p) (h_array hm ! i))) + of_nat (length (h_array hm ! i))
        = h_num hm + of_nat (length (filter (\<lambda>p. k \<noteq> h_key p) (h_array hm ! i)))"
      using unlinked_count [of "\<lambda>p. k = h_key p" "h_array hm ! i"] by (simp add: algebra_simps)
  qed (use bucket_ok [OF assms i] in \<open>auto simp: distinct_map_filter\<close>)
qed

lemma hashmap_get_put:
  assumes "hashmap_ok h_code h_key hm"
  shows "hashmap_get h_code h_equals h_key (hashmap_put h_code h_equals h_key hm n) k
    = (if k = h_key n then Some n else hashmap_get h_code h_equals h_key hm k)"
  using index_bound [OF assms]
  by (auto simp: hashmap_get_def hashmap_put_def Let_def hashmap_unlink_filter equals_eq index_update nth_list_update
      hashmap_find_unlink)

lemma hashmap_get_remove:
  assumes "hashmap_ok h_code h_key hm"
  shows "hashmap_get h_code h_equals h_key (hashmap_remove h_code h_equals h_key hm k') k
    = (if k = k' then None else hashmap_get h_code h_equals h_key hm k)"
  using index_bound [OF assms]
  by (auto simp: hashmap_get_def hashmap_remove_def Let_def hashmap_unlink_filter equals_eq index_update nth_list_update
      hashmap_find_unlink)

lemma hashmap_get_node:
  assumes "hashmap_ok h_code h_key hm" "hashmap_get h_code h_equals h_key hm k = Some n"
  shows "h_key n = k" "n \<in> set (hashmap_nodes hm)"
  using hashmap_find_Some [of h_key k] assms(2) nth_mem [OF index_bound [OF assms(1), of k]]
  by (auto simp: hashmap_get_def equals_eq hashmap_nodes_def)

end

sublocale hash_keys \<subseteq> keyed_map "hashmap_ok h_code h_key" h_key "hashmap_get h_code h_equals h_key"
  "hashmap_put h_code h_equals h_key" "hashmap_remove h_code h_equals h_key"
  by unfold_locales
    (simp_all add: hashmap_put_ok hashmap_remove_ok hashmap_get_put hashmap_get_remove hashmap_get_node)

subsection \<open>The three kinds of keys\<close>

lemma unat_of_char: "unat (of_char c :: u8) = of_char c"
proof -
  have "(of_char c :: nat) < 256" using mod_less_divisor [of 256 "of_char c :: nat"] by simp
  then have "unat (of_nat (of_char c) :: u8) = of_char c" by (simp add: unat_of_nat)
  then show ?thesis by (simp only: of_nat_of_char)
qed

lemma of_char_u8_inject: "(of_char c :: u8) = of_char d \<longleftrightarrow> c = d"
proof
  assume "(of_char c :: u8) = of_char d"
  then have "unat (of_char c :: u8) = unat (of_char d :: u8)" by simp
  then show "c = d" by (simp only: unat_of_char of_char_eq_iff)
qed simp

lemma strcmp_str_eq_0: "strcmp_str s t = 0 \<longleftrightarrow> s = t"
  by (induction s t rule: strcmp_str.induct) auto

interpretation hm64: hash_keys hash_code_uint64 hash_eq_uint64 h_key for h_key :: "'n \<Rightarrow> u64"
  by unfold_locales (simp add: hash_eq_uint64_def)

interpretation hm32: hash_keys hash_code_uint32 hash_eq_uint32 h_key for h_key :: "'n \<Rightarrow> u32"
  by unfold_locales (simp add: hash_eq_uint32_def)

interpretation hmstr: hash_keys hash_code_str hash_eq_str h_key for h_key :: "'n \<Rightarrow> string"
  by unfold_locales (simp add: hash_eq_str_def strcmp_str_eq_0)

text \<open>The comparison of names is what \<open>strcmp\<close> computes on their bytes in memory.\<close>

lemma strcmp_bytes:
  assumes "cstr m p (map of_char s)" "cstr m q (map of_char t)" "length s < fuel"
  shows "strcmp fuel m p q = Some (strcmp_str s t)"
  using assms
proof (induction s t arbitrary: p q fuel rule: strcmp_str.induct)
  case 1
  then show ?case by (cases fuel) auto
next
  case (2 d ds)
  then show ?case by (cases fuel) (auto simp: cstr_Cons word_gt_0)
next
  case (3 c cs)
  then show ?case by (cases fuel) (auto simp: cstr_Cons word_gt_0)
next
  case (4 c cs d ds)
  then obtain f where f: "fuel = Suc f" by (cases fuel) auto
  show ?case
  proof (cases "c = d")
    case True
    then show ?thesis using 4 f by (auto simp: cstr_Cons)
  next
    case False
    then have "(of_char c :: u8) \<noteq> of_char d" by (simp add: of_char_u8_inject)
    then show ?thesis using 4 f False by (auto simp: cstr_Cons)
  qed
qed

section \<open>Tables as finite maps\<close>

datatype ('n, 'k) table_op = Ins 'n | Del 'k

fun table_run :: "('m \<Rightarrow> 'n \<Rightarrow> 'm) \<Rightarrow> ('m \<Rightarrow> 'k \<Rightarrow> 'm) \<Rightarrow> ('n, 'k) table_op list \<Rightarrow> 'm \<Rightarrow> 'm" where
  "table_run put remove [] m = m"
| "table_run put remove (Ins n # ops) m = table_run put remove ops (put m n)"
| "table_run put remove (Del k # ops) m = table_run put remove ops (remove m k)"

text \<open>The specification: the same operations on a partial function.\<close>

definition map_run :: "('n \<Rightarrow> 'k) \<Rightarrow> ('n, 'k) table_op list \<Rightarrow> ('k \<Rightarrow> 'n option) \<Rightarrow> 'k \<Rightarrow> 'n option" where
  "map_run key = table_run (\<lambda>f n. f(key n := Some n)) (\<lambda>f k. f(k := None))"

lemma map_run_simps [simp]: "map_run key [] f = f" "map_run key (Ins n # ops) f = map_run key ops (f(key n := Some n))"
  "map_run key (Del k # ops) f = map_run key ops (f(k := None))"
  by (simp_all add: map_run_def)

context keyed_map begin

lemma table_run_refines: "ok m \<Longrightarrow> ok (table_run put remove ops m) \<and> lookup (table_run put remove ops m) = map_run key ops (lookup m)"
proof (induction ops arbitrary: m)
  case (Cons op ops)
  show ?case
  proof (cases op)
    case (Ins n)
    have "lookup (put m n) = (lookup m)(key n := Some n)" using Cons.prems by (auto simp: lookup_put)
    then show ?thesis
      using Cons.IH [OF put_ok [OF Cons.prems, of n]] unfolding Ins by (simp only: table_run.simps map_run_simps)
  next
    case (Del k)
    have "lookup (remove m k) = (lookup m)(k := None)" using Cons.prems by (auto simp: lookup_remove)
    then show ?thesis
      using Cons.IH [OF remove_ok [OF Cons.prems, of k]] unfolding Del by (simp only: table_run.simps map_run_simps)
  qed
qed simp

end

lemma HASHMAP_ALLOC_get:
  fixes h_key :: "'n \<Rightarrow> 'k"
  assumes "0 < cap"
  shows "hashmap_get h_code h_equals h_key (HASHMAP_ALLOC cap) = (\<lambda>_. None)"
proof
  fix k
  have "hashmap_index h_code (HASHMAP_ALLOC cap :: 'n hashmap) k < unat cap"
    using hashmap_index_bound [of "HASHMAP_ALLOC cap :: 'n hashmap" h_code k] assms by (simp add: HASHMAP_ALLOC_def)
  then show "hashmap_get h_code h_equals h_key (HASHMAP_ALLOC cap) k = None"
    unfolding hashmap_get_def by (simp add: HASHMAP_ALLOC_def)
qed

subsection \<open>Keys that are read from changing objects\<close>

text \<open>
  The kernel's tables link objects whose key is a field of the object; such a table keeps its
  meaning as long as the keys of the linked objects do.
\<close>

lemma hashmap_find_cong: "(\<And>p. p \<in> set ps \<Longrightarrow> key p = key' p) \<Longrightarrow> hashmap_find eq key k ps = hashmap_find eq key' k ps"
  by (induction ps) auto

lemma hashmap_ok_cong:
  assumes "hashmap_ok h_code key hm" "\<And>p. p \<in> set (hashmap_nodes hm) \<Longrightarrow> key' p = key p"
  shows "hashmap_ok h_code key' hm"
proof -
  have "map key' (h_array hm ! i) = map key (h_array hm ! i)" "\<forall>p \<in> set (h_array hm ! i). key' p = key p"
    if "i < length (h_array hm)" for i
    using assms(2) nth_mem [OF that] by (auto simp: hashmap_nodes_def)
  then show ?thesis using assms(1) unfolding hashmap_ok_def by metis
qed

lemma hashmap_get_cong:
  assumes "hashmap_ok h_code key hm" "\<And>p. p \<in> set (hashmap_nodes hm) \<Longrightarrow> key' p = key p"
  shows "hashmap_get h_code eq key' hm = hashmap_get h_code eq key hm"
proof
  fix k
  have "hashmap_index h_code hm k < length (h_array hm)" using assms(1) by (simp add: hashmap_ok_def hashmap_index_bound)
  then show "hashmap_get h_code eq key' hm k = hashmap_get h_code eq key hm k"
    unfolding hashmap_get_def using assms(2) by (intro hashmap_find_cong) (auto simp: hashmap_nodes_def dest: nth_mem)
qed

lemma hashmap_nodes_put: "set (hashmap_nodes (hashmap_put h_code eq key hm n)) \<subseteq> insert n (set (hashmap_nodes hm))"
proof -
  define i where "i = hashmap_index h_code hm (key n)"
  have "set (concat (xss[i := n # filter P (xss ! i)])) \<subseteq> insert n (set (concat xss))" for xss :: "'a list list" and P
  proof (cases "i < length xss")
    case True
    then show ?thesis by (auto simp: in_set_conv_nth [of _ "xss[i := _]"] nth_list_update split: if_splits)
  qed (auto simp: list_update_beyond)
  then show ?thesis by (simp add: hashmap_nodes_def hashmap_put_def Let_def hashmap_unlink_filter i_def)
qed

lemma HASHMAP_ALLOC_nodes [simp]: "set (hashmap_nodes (HASHMAP_ALLOC cap)) = {}"
  by (auto simp: hashmap_nodes_def HASHMAP_ALLOC_def)

section \<open>Properties\<close>

text \<open>
  C27 (refinement). The hash tables of the kernel (identifiers and names to objects) are finite
  maps: after any sequence of \<open>hashmap_put\<close> and \<open>hashmap_remove\<close> on a new table of any positive
  capacity, \<open>hashmap_get\<close> answers as the map updated in the same order, the count of nodes is
  right and every node is in the bucket of its key; for identifiers and for names.
\<close>

theorem hashmap_is_map:
  assumes "0 < cap"
  shows "(let hm = table_run (hashmap_put hash_code_uint64 hash_eq_uint64 idkey) (hashmap_remove hash_code_uint64 hash_eq_uint64 idkey)
            ops (HASHMAP_ALLOC cap)
          in hashmap_ok hash_code_uint64 idkey hm
            \<and> hashmap_get hash_code_uint64 hash_eq_uint64 idkey hm = map_run idkey ops (\<lambda>_. None))
    \<and> (let hm = table_run (hashmap_put hash_code_str hash_eq_str namekey) (hashmap_remove hash_code_str hash_eq_str namekey)
            ops' (HASHMAP_ALLOC cap)
          in hashmap_ok hash_code_str namekey hm
            \<and> hashmap_get hash_code_str hash_eq_str namekey hm = map_run namekey ops' (\<lambda>_. None))"
  using hm64.table_run_refines [OF HASHMAP_ALLOC_ok [OF assms], of idkey ops]
    hmstr.table_run_refines [OF HASHMAP_ALLOC_ok [OF assms], of namekey ops']
  by (simp add: Let_def HASHMAP_ALLOC_get [OF assms])

theorem hashmap_is_map_witness:
  "hashmap_get hash_code_uint64 hash_eq_uint64 fst
     (table_run (hashmap_put hash_code_uint64 hash_eq_uint64 fst) (hashmap_remove hash_code_uint64 hash_eq_uint64 fst)
        [Ins (7, True), Ins (9, True), Ins (7, False), Del 9] (HASHMAP_ALLOC 2)) = [7 \<mapsto> (7 :: u64, False)]"
  using hashmap_is_map [where cap = 2 and idkey = fst and ops = "[Ins (7, True), Ins (9, True), Ins (7, False), Del 9]"
      and namekey = "fst :: string \<times> unit \<Rightarrow> string" and ops' = "[]"]
  by (simp add: Let_def)

text \<open>
  Names are compared byte by byte in memory: \<open>strcmp\<close> on two NUL-terminated
  strings returns, and its result is 0 exactly for equal strings, which is what makes \<open>hash_eq_str\<close>
  equality of names.
\<close>

theorem strcmp_decides_names:
  assumes "cstr m p (map of_char s)" "cstr m q (map of_char t)" "length s < fuel"
  shows "\<exists>r. strcmp fuel m p q = Some r \<and> (r = 0 \<longleftrightarrow> hash_eq_str s t) \<and> (hash_eq_str s t \<longleftrightarrow> s = t)"
  using strcmp_bytes [OF assms] by (simp add: hash_eq_str_def strcmp_str_eq_0)

theorem strcmp_decides_names_witness:
  "\<exists>r. strcmp 9 (mem_write (\<lambda>_. 0) 0x100 (map of_char ''ab'')) 0x100 0x101 = Some r \<and> r \<noteq> 0"
proof -
  have "cstr (mem_write (\<lambda>_. 0) 0x100 (map of_char ''ab'')) 0x100 (map of_char ''ab'')"
    "cstr (mem_write (\<lambda>_. 0) 0x100 (map of_char ''ab'')) 0x101 (map of_char ''b'')"
    by (simp_all add: cstr_Cons) (simp_all add: cstr_def mem_write_def)
  then show ?thesis using strcmp_decides_names [of _ "0x100" "''ab''" "0x101" "''b''" 9] by auto
qed

end
