(* ===== verification/Argparser.thy ===== *)
theory Argparser
  imports Hashmap "HOL-Library.Monad_Syntax"
begin

text \<open>
  The option parser \<^verbatim>\<open>lib/argparser.c\<close>. The arguments are pointers into one buffer of characters; a
  pointer is the position in the buffer, a read outside the buffer is \<open>None\<close>. A target of an option is the
  update it makes to the variables \<open>'v\<close> of the program.
\<close>

section \<open>Strings in a buffer\<close>

definition NUL :: char where "NUL = CHR 0x00"

definition char_at :: "string \<Rightarrow> nat \<Rightarrow> char option" where
  "char_at raw i = (if i < length raw then Some (raw ! i) else None)"

fun cstr_of :: "string \<Rightarrow> string option" where
  "cstr_of [] = None"
| "cstr_of (c # cs) = (if c = NUL then Some [] else map_option ((#) c) (cstr_of cs))"

text \<open>The string at a position, and the position behind its end.\<close>

definition str_from :: "string \<Rightarrow> nat \<Rightarrow> string option" where
  "str_from raw q = cstr_of (drop q raw)"

definition skip_str :: "string \<Rightarrow> nat \<Rightarrow> nat option" where
  "skip_str raw q = map_option (\<lambda>s. q + length s + 1) (str_from raw q)"

text \<open>A string copied into the buffer.\<close>

definition put_at :: "string \<Rightarrow> nat \<Rightarrow> string \<Rightarrow> string" where
  "put_at raw a v = take a raw @ v @ drop (a + length v) raw"

text \<open>\<open>atoi\<close> on the characters of a string.\<close>

fun strtol_sign_of :: "string \<Rightarrow> int \<Rightarrow> string \<times> int" where
  "strtol_sign_of [] sign = ([], sign)"
| "strtol_sign_of (c # cs) sign =
     (if c = CHR ''-'' \<or> c = CHR ''+'' then strtol_sign_of cs (if c = CHR ''-'' then - sign else sign) else (c # cs, sign))"

fun strtol_digits_of :: "string \<Rightarrow> int \<Rightarrow> int" where
  "strtol_digits_of [] res = res"
| "strtol_digits_of (c # cs) res = strtol_digits_of cs (swrap64 (swrap64 (res * 10) + int (of_char c) - 0x30))"

definition atoi_of :: "string \<Rightarrow> int" where
  "atoi_of s = (let (t, sign) = strtol_sign_of s 1 in sint (word_of_int (swrap64 (sign * strtol_digits_of t 0)) :: u32))"

section \<open>The code\<close>

datatype arg_opt_t = ARG_END | ARG_BOOLEAN | ARG_INTEGER | ARG_STRING
datatype arg_error_t = ARGP_SUCCESS | ARGP_UNKNOWN_ARG | ARGP_MISSING_VAL | ARGP_PANIC

datatype arg_val = IntVal int | StrVal nat

record 'v arg_opt =
  arg_type :: arg_opt_t
  arg_short_name :: char
  arg_long_name :: string
  arg_target :: "arg_val \<Rightarrow> 'v \<Rightarrow> 'v"

record parse_ret_t =
  pr_error :: arg_error_t
  pr_value :: u64

text \<open>
  The result, the variables and \<open>*pos_push\<close> (\<open>None\<close>: not assigned). \<open>nxt\<close> is \<open>None\<close> for \<^verbatim>\<open>NULL\<close>. Type
  \<open>ARG_END\<close> falls under \<open>default\<close>.
\<close>

definition args_assign :: "string \<Rightarrow> 'v arg_opt \<Rightarrow> nat option \<Rightarrow> u64 \<Rightarrow> 'v \<Rightarrow> (parse_ret_t \<times> 'v \<times> u64 option) option" where
  "args_assign raw opt nxt pos v =
     (let ret = \<lparr>pr_error = ARGP_SUCCESS, pr_value = 0\<rparr>; missing = \<lparr>pr_error = ARGP_MISSING_VAL, pr_value = pos\<rparr>
      in case arg_type opt of
           ARG_BOOLEAN \<Rightarrow> Some (ret, arg_target opt (IntVal 1) v, Some 0)
         | ARG_INTEGER \<Rightarrow>
             (case nxt of
                None \<Rightarrow> Some (missing, v, Some 1)
              | Some a \<Rightarrow> do { s \<leftarrow> str_from raw a; Some (ret, arg_target opt (IntVal (atoi_of s)) v, Some 1) })
         | ARG_STRING \<Rightarrow>
             (case nxt of
                None \<Rightarrow> Some (missing, v, Some 1)
              | Some a \<Rightarrow> Some (ret, arg_target opt (StrVal a) v, Some 1))
         | ARG_END \<Rightarrow> Some (\<lparr>pr_error = ARGP_PANIC, pr_value = pos\<rparr>, v, None))"

fun args_parse_short_arg_name :: "'v arg_opt list \<Rightarrow> char \<Rightarrow> 'v arg_opt option" where
  "args_parse_short_arg_name [] name = None"
| "args_parse_short_arg_name (p # ps) name =
     (if arg_type p = ARG_END then None
      else if arg_short_name p = name then Some p else args_parse_short_arg_name ps name)"

fun args_parse_long_arg_name :: "'v arg_opt list \<Rightarrow> string \<Rightarrow> 'v arg_opt option" where
  "args_parse_long_arg_name [] name = None"
| "args_parse_long_arg_name (p # ps) name =
     (if arg_type p = ARG_END then None
      else if arg_long_name p = name then Some p else args_parse_long_arg_name ps name)"

definition next_arg :: "nat list \<Rightarrow> u64 \<Rightarrow> nat option" where
  "next_arg argv pos = (if unat pos + 1 < length argv then Some (argv ! (unat pos + 1)) else None)"

definition args_parse_short_arg :: "string \<Rightarrow> 'v arg_opt list \<Rightarrow> nat list \<Rightarrow> u64 \<Rightarrow> 'v \<Rightarrow> (parse_ret_t \<times> 'v \<times> u64 option) option" where
  "args_parse_short_arg raw opts argv pos v =
     do {
       name \<leftarrow> char_at raw (argv ! unat pos + 1);
       case args_parse_short_arg_name opts name of
         None \<Rightarrow> Some (\<lparr>pr_error = ARGP_UNKNOWN_ARG, pr_value = pos\<rparr>, v, None)
       | Some opt \<Rightarrow> args_assign raw opt (next_arg argv pos) pos v
     }"

definition args_parse_long_arg :: "string \<Rightarrow> 'v arg_opt list \<Rightarrow> nat list \<Rightarrow> u64 \<Rightarrow> 'v \<Rightarrow> (parse_ret_t \<times> 'v \<times> u64 option) option" where
  "args_parse_long_arg raw opts argv pos v =
     do {
       name \<leftarrow> str_from raw (argv ! unat pos + 2);
       case args_parse_long_arg_name opts name of
         None \<Rightarrow> Some (\<lparr>pr_error = ARGP_UNKNOWN_ARG, pr_value = pos\<rparr>, v, None)
       | Some opt \<Rightarrow> args_assign raw opt (next_arg argv pos) pos v
     }"

text \<open>
  One argument: the result and \<open>pos_push\<close>. The third character is read whenever the first is a dash, even
  behind the end of the word. An argument of neither form is passed over with \<open>pos_push\<close> unassigned.
\<close>

definition args_parse_one :: "string \<Rightarrow> 'v arg_opt list \<Rightarrow> nat list \<Rightarrow> u64 \<Rightarrow> 'v \<Rightarrow> (parse_ret_t \<times> 'v \<times> u64 option) option" where
  "args_parse_one raw opts argv i v =
     (let arg = argv ! unat i
      in do {
        c0 \<leftarrow> char_at raw arg;
        if c0 \<noteq> CHR ''-'' then Some (\<lparr>pr_error = ARGP_UNKNOWN_ARG, pr_value = i\<rparr>, v, None)
        else do {
          c1 \<leftarrow> char_at raw (arg + 1);
          c2 \<leftarrow> char_at raw (arg + 2);
          if c1 \<noteq> CHR ''-'' \<and> c2 = NUL then args_parse_short_arg raw opts argv i v
          else if c1 = CHR ''-'' \<and> c2 \<noteq> NUL then args_parse_long_arg raw opts argv i v
          else Some (\<lparr>pr_error = ARGP_SUCCESS, pr_value = 0\<rparr>, v, None)
        }
      })"

text \<open>
  The loop of \<open>args_parse\<close>. \<open>junk i\<close> is what the uninitialised \<open>pos_push\<close> of round \<open>i\<close> holds; the index is a
  \<^verbatim>\<open>size_t\<close> that such a value may move anywhere.
\<close>

partial_function (option) args_loop ::
    "string \<Rightarrow> 'v arg_opt list \<Rightarrow> nat list \<Rightarrow> (u64 \<Rightarrow> u64) \<Rightarrow> u64 \<Rightarrow> 'v \<Rightarrow> (parse_ret_t \<times> 'v) option" where
  "args_loop raw opts argv junk i v =
     (if i < of_nat (length argv)
      then do {
        (ret, v', push) \<leftarrow> args_parse_one raw opts argv i v;
        if pr_error ret \<noteq> ARGP_SUCCESS then Some (ret, v')
        else args_loop raw opts argv junk (i + (case push of Some p \<Rightarrow> p | None \<Rightarrow> junk i) + 1) v'
      }
      else Some (\<lparr>pr_error = ARGP_SUCCESS, pr_value = 0\<rparr>, v))"

definition args_parse :: "string \<Rightarrow> 'v arg_opt list \<Rightarrow> nat list \<Rightarrow> (u64 \<Rightarrow> u64) \<Rightarrow> 'v \<Rightarrow> (parse_ret_t \<times> 'v) option" where
  "args_parse raw opts argv junk v = args_loop raw opts argv junk 0 v"

section \<open>Strings and numbers\<close>

lemma cstr_of_append: "NUL \<notin> set s \<Longrightarrow> cstr_of (s @ NUL # t) = Some s"
  by (induction s) auto

lemma str_from_append: "length pre = q \<Longrightarrow> NUL \<notin> set s \<Longrightarrow> str_from (pre @ s @ NUL # t) q = Some s"
  by (simp add: str_from_def cstr_of_append)

lemma skip_str_append: "length pre = q \<Longrightarrow> NUL \<notin> set s \<Longrightarrow> skip_str (pre @ s @ NUL # t) q = Some (q + length s + 1)"
  by (simp add: skip_str_def str_from_append)

text \<open>The list functions agree with the byte loops of \<^verbatim>\<open>lib/string.c\<close>.\<close>

lemma char_byte: "(of_char c = (0x2d :: u8)) = (c = CHR ''-'')" "(of_char c = (0x2b :: u8)) = (c = CHR ''+'')"
proof -
  have "of_char (CHR ''-'') = (0x2d :: u8)" "of_char (CHR ''+'') = (0x2b :: u8)" by (simp_all add: of_char_def)
  then show "(of_char c = (0x2d :: u8)) = (c = CHR ''-'')" "(of_char c = (0x2b :: u8)) = (c = CHR ''+'')"
    by (metis of_char_u8_inject)+
qed

lemma strtol_sign_cstr:
  "cstr m a (map of_char s) \<Longrightarrow> length s < fuel \<Longrightarrow>
     \<exists>b t sign'. strtol_sign_of s sign = (t, sign') \<and> strtol_sign fuel m a sign = Some (b, sign') \<and> cstr m b (map of_char t) \<and> length t \<le> length s"
proof (induction s arbitrary: a sign fuel)
  case Nil
  then show ?case by (cases fuel) auto
next
  case (Cons c s)
  obtain f where f: "fuel = Suc f" "length s < f" using Cons.prems(2) by (cases fuel) auto
  have m: "m a = of_char c" "cstr m (a + 1) (map of_char s)" using Cons.prems(1) by (simp_all add: cstr_Cons)
  show ?case
  proof (cases "c = CHR ''-'' \<or> c = CHR ''+''")
    case True
    then show ?thesis
      using Cons.IH [OF m(2) f(2), of "if c = CHR ''-'' then - sign else sign"] by (auto simp: f(1) m(1) char_byte)
  next
    case False
    then show ?thesis using Cons.prems(1) by (auto simp: f(1) m(1) char_byte)
  qed
qed

lemma strtol_digits_cstr:
  "cstr m a (map of_char s) \<Longrightarrow> length s < fuel \<Longrightarrow> strtol_digits fuel m a res = Some (strtol_digits_of s res)"
proof (induction s arbitrary: a res fuel)
  case Nil
  then show ?case by (cases fuel) auto
next
  case (Cons c s)
  obtain f where f: "fuel = Suc f" "length s < f" using Cons.prems(2) by (cases fuel) auto
  have m: "m a = of_char c" "m a \<noteq> 0" "cstr m (a + 1) (map of_char s)" using Cons.prems(1) by (simp_all add: cstr_Cons)
  have "uint (m a) = int (of_char c)" unfolding m(1) uint_nat unat_of_char by simp
  then show ?case using Cons.IH [OF m(3) f(2)] m(2) by (simp add: f(1))
qed

lemma atoi_cstr:
  assumes "cstr m a (map of_char s)" "length s < fuel"
  shows "atoi fuel m a = Some (atoi_of s)"
proof -
  obtain b t sign where "strtol_sign_of s 1 = (t, sign)" "strtol_sign fuel m a 1 = Some (b, sign)" "cstr m b (map of_char t)" "length t \<le> length s"
    using strtol_sign_cstr [OF assms] by blast
  moreover from this have "strtol_digits fuel m b 0 = Some (strtol_digits_of t 0)" using strtol_digits_cstr assms(2) by simp
  ultimately show ?thesis by (simp add: atoi_def strtol_def atoi_of_def)
qed

text \<open>Decimal numbers are read back.\<close>

fun dec :: "nat \<Rightarrow> string" where
  "dec n = (if n < 10 then [char_of (48 + n)] else dec (n div 10) @ [char_of (48 + n mod 10)])"

declare dec.simps [simp del]

lemma dec_chars: "c \<in> set (dec n) \<Longrightarrow> \<exists>d < 10. c = char_of (48 + d :: nat)"
proof (induction n rule: dec.induct)
  case (1 n)
  have d: "n mod 10 < 10" by simp
  consider "n < 10" "c = char_of (48 + n)" | "\<not> n < 10" "c \<in> set (dec (n div 10))" | "c = char_of (48 + n mod 10)"
    using 1(2) by (subst (asm) dec.simps) (auto split: if_splits)
  then show ?case using 1(1) d by cases blast+
qed

lemma digits_append: "strtol_digits_of (s @ t) res = strtol_digits_of t (strtol_digits_of s res)"
  by (induction s arbitrary: res) auto

lemma digits_dec: "n < 2 ^ 32 \<Longrightarrow> strtol_digits_of (dec n) 0 = int n"
proof (induction n rule: dec.induct)
  case (1 n)
  have step: "strtol_digits_of [char_of (48 + d)] (int k) = int (10 * k + d)" if "d < 10" "k < 2 ^ 32" for d k
    using that by simp
  show ?case
  proof (cases "n < 10")
    case True
    then show ?thesis using step [of n 0] by (subst dec.simps) simp
  next
    case False
    then have "strtol_digits_of (dec (n div 10)) 0 = int (n div 10)" using 1 by simp
    then show ?thesis using False step [of "n mod 10" "n div 10"] 1(2) by (subst dec.simps) (simp add: digits_append)
  qed
qed

lemma atoi_dec:
  assumes "n < 2 ^ 31"
  shows "atoi_of (dec n) = int n"
proof -
  have "dec n \<noteq> []" by (subst dec.simps) simp
  then obtain c cs where d: "dec n = c # cs" by (cases "dec n") auto
  then obtain k where k: "k < 10" "c = char_of (48 + k :: nat)" using dec_chars [of c n] by auto
  have "of_char c = 48 + k" using k by simp
  then have "c \<noteq> CHR ''-''" "c \<noteq> CHR ''+''" by auto
  then have "strtol_sign_of (dec n) 1 = (dec n, 1)" by (simp add: d)
  moreover have "sint (word_of_int (int n) :: u32) = int n" 
    using assms int_word_sint [where x = "int n" and 'a = 32] by simp
  ultimately show ?thesis using digits_dec [of n] assms by (simp add: atoi_of_def)
qed

end
