(* ===== verification/Bits.thy ===== *)
theory Bits
  imports Prelude
begin

unbundle bit_operations_syntax

text \<open>
  Bit and word utilities: \<^verbatim>\<open>include/aligns.h\<close>, \<^verbatim>\<open>include/bitset.h\<close>
  (find-first-set), \<^verbatim>\<open>include/bitmap.h\<close>, \<^verbatim>\<open>include/endian.h\<close> and
  \<^verbatim>\<open>lib/arithmetic.c\<close>.
\<close>

section \<open>Alignment\<close>

definition align_down :: "u64 \<Rightarrow> u64 \<Rightarrow> u64" where
  "align_down x align = x - (x mod align)"

definition align_up :: "u64 \<Rightarrow> u64 \<Rightarrow> u64" where
  "align_up x align = align_down (x + align - 1) align"

section \<open>Find first set\<close>

text \<open>The 256-entry table of \<open>ffs32\<close>; its runs are 1, 1, 2, 4, 8, 16, 32, 64 and 128 long.\<close>

definition ffs_table :: "nat list" where
  "ffs_table = [0, 1] @ replicate 2 2 @ replicate 4 3 @ replicate 8 4 @ replicate 16 5
     @ replicate 32 6 @ replicate 64 7 @ replicate 128 8"

definition ffs32 :: "u32 \<Rightarrow> nat" where
  "ffs32 i = (let j = i AND (- i);
                  k = (if j \<le> 0xffff then (if j \<le> 0xff then 0 else 8)
                       else (if j \<le> 0xffffff then 16 else 24))
              in ffs_table ! unat (drop_bit k j) + k)"

definition ffs64 :: "u64 \<Rightarrow> nat" where
  "ffs64 i = (let j = i AND (- i)
              in if j \<le> 0xffffffff then ffs32 (ucast i) else ffs32 (ucast (drop_bit 32 i)) + 32)"

section \<open>Bitmaps\<close>

definition BIT_MASK :: "nat \<Rightarrow> u64" where
  "BIT_MASK i = push_bit (i mod 64) 1"

definition BIT_WORD :: "nat \<Rightarrow> nat" where
  "BIT_WORD i = i div 64"

definition BITMAP_SIZE :: "nat \<Rightarrow> nat" where
  "BITMAP_SIZE nr = (nr - 1) div 64 + 1"

definition bitmap_set_bit :: "u64 list \<Rightarrow> nat \<Rightarrow> u64 list" where
  "bitmap_set_bit bm i = bm[BIT_WORD i := bm ! BIT_WORD i OR BIT_MASK i]"

definition bitmap_clr_bit :: "u64 list \<Rightarrow> nat \<Rightarrow> u64 list" where
  "bitmap_clr_bit bm i = bm[BIT_WORD i := bm ! BIT_WORD i AND NOT (BIT_MASK i)]"

definition bitmap_get_bit :: "u64 list \<Rightarrow> nat \<Rightarrow> bool" where
  "bitmap_get_bit bm i = (bm ! BIT_WORD i AND BIT_MASK i \<noteq> 0)"

text \<open>
  The scan loop stops at the first word with a zero bit or at \<open>nr\<close>. At \<open>nr\<close> the
  code reads one word past the array; \<open>past\<close> is the value found there.
\<close>

function bitmap_scan :: "u64 list \<Rightarrow> nat \<Rightarrow> nat \<Rightarrow> nat" where
  "bitmap_scan bm nr i = (if i < nr \<and> NOT (bm ! i) = 0 then bitmap_scan bm nr (Suc i) else i)"
  by pat_completeness auto
termination
  by (relation "measure (\<lambda>(bm, nr, i). nr - i)") auto

declare bitmap_scan.simps [simp del]

definition bitmap_find_first_zero_bit :: "u64 list \<Rightarrow> nat \<Rightarrow> u64 \<Rightarrow> u32" where
  "bitmap_find_first_zero_bit bm nr past =
     (let i = bitmap_scan bm nr 0;
          w = (if i < nr then bm ! i else past);
          j = ffs64 (NOT w)
      in if j \<noteq> 0 then ucast ((of_nat i * 64 + (of_nat j - 1)) :: u64) else ucast (- 1 :: u64))"

section \<open>Byte order\<close>

definition byte_at :: "nat \<Rightarrow> 'a::len word \<Rightarrow> 'a word" where
  "byte_at n x = drop_bit (8 * n) x AND 0xff"

definition bswap32 :: "u32 \<Rightarrow> u32" where
  "bswap32 x = push_bit 24 (byte_at 0 x) OR push_bit 16 (byte_at 1 x)
     OR push_bit 8 (byte_at 2 x) OR byte_at 3 x"

definition bswap64 :: "u64 \<Rightarrow> u64" where
  "bswap64 x = push_bit 56 (byte_at 0 x) OR push_bit 48 (byte_at 1 x)
     OR push_bit 40 (byte_at 2 x) OR push_bit 32 (byte_at 3 x)
     OR push_bit 24 (byte_at 4 x) OR push_bit 16 (byte_at 5 x)
     OR push_bit 8 (byte_at 6 x) OR byte_at 7 x"

section \<open>Greatest common divisor and least common multiple\<close>

text \<open>
  C's remainder truncates towards zero; on RV64 a remainder by zero is the dividend
  and a quotient by zero is -1. \<open>gcd_loop\<close> is the \<open>while ((a %= b) && (b %= a))\<close> loop.
\<close>

definition c_rem :: "int \<Rightarrow> int \<Rightarrow> int" where
  "c_rem a b = (if b = 0 then a else sgn a * (\<bar>a\<bar> mod \<bar>b\<bar>))"

definition c_div :: "int \<Rightarrow> int \<Rightarrow> int" where
  "c_div a b = (if b = 0 then -1 else sgn a * sgn b * (\<bar>a\<bar> div \<bar>b\<bar>))"

lemma abs_c_rem: "b \<noteq> 0 \<Longrightarrow> \<bar>c_rem a b\<bar> = \<bar>a\<bar> mod \<bar>b\<bar>"
  by (auto simp: c_rem_def abs_mult sgn_if)

lemma abs_c_rem_less: "b \<noteq> 0 \<Longrightarrow> \<bar>c_rem a b\<bar> < \<bar>b\<bar>"
  by (simp add: abs_c_rem)

function gcd_loop :: "int \<Rightarrow> int \<Rightarrow> int \<times> int" where
  "gcd_loop a b =
     (if b = 0 then (a, b)
      else let a' = c_rem a b in
        if a' = 0 then (a', b)
        else let b' = c_rem b a' in
          if b' = 0 then (a', b') else gcd_loop a' b')"
  by pat_completeness auto

termination
proof (relation "measure (\<lambda>(a, b). nat \<bar>b\<bar>)", simp)
  fix a b a' b' :: int
  assume h: "b \<noteq> 0" "a' = c_rem a b" "a' \<noteq> 0" "b' = c_rem b a'" "b' \<noteq> 0"
  then have "\<bar>b'\<bar> < \<bar>a'\<bar>" "\<bar>a'\<bar> < \<bar>b\<bar>" by (simp_all add: abs_c_rem_less)
  then show "((a', b'), a, b) \<in> measure (\<lambda>(a, b). nat \<bar>b\<bar>)" by simp
qed

declare gcd_loop.simps [simp del]

definition gcd_c :: "int \<Rightarrow> int \<Rightarrow> int" where
  "gcd_c a b = (case gcd_loop a b of (a', b') \<Rightarrow> a' + b')"

definition lcm_c :: "int \<Rightarrow> int \<Rightarrow> int" where
  "lcm_c a b = c_div (swrap64 (a * b)) (gcd_c a b)"

section \<open>Properties\<close>

subsection \<open>Alignment\<close>

lemma align_down_dvd: "unat (align_down x a) = unat x - unat x mod unat a"
  by (simp add: align_down_def unat_sub word_le_nat_alt unat_mod)

lemma align_down_le: "align_down x a \<le> x"
  by (simp add: word_le_nat_alt align_down_dvd)

lemma unat_align_up:
  assumes "0 < a" "unat x + unat a - 1 < 2 ^ 64"
  shows "unat (align_up x a) = (unat x + unat a - 1) div unat a * unat a"
proof -
  have a: "0 < unat a" using assms(1) by (simp add: word_less_nat_alt)
  have "unat (x + a - 1) = unat x + unat a - 1"
  proof (cases "unat x + unat a < 2 ^ 64")
    case True
    then have *: "unat (x + a) = unat x + unat a" by (simp add: unat_word_ariths)
    then show ?thesis using a by (subst unat_sub) (auto simp: word_le_nat_alt)
  next
    case False
    with assms(2) a have "unat x + unat a = 2 ^ 64" by simp
    then have "unat (x + a) = 0" by (simp add: unat_word_ariths)
    then have "x + a - 1 = - 1" by (simp add: unat_eq_zero)
    moreover have "unat (- 1 :: u64) = 2 ^ 64 - 1" by (simp add: unsigned_minus_1_eq_mask mask_eq_exp_minus_1)
    ultimately show ?thesis using \<open>unat x + unat a = 2 ^ 64\<close> by simp
  qed
  then show ?thesis
    by (simp add: align_up_def align_down_dvd minus_mod_eq_div_mult [symmetric])
qed

subsection \<open>Lowest set bit\<close>

lemma and_minus_lowest:
  fixes i :: "'a::len word"
  assumes n: "bit i n" and low: "\<And>k. k < n \<Longrightarrow> \<not> bit i k"
  shows "i AND (- i) = push_bit n 1"
proof -
  obtain m where m: "\<And>k. m \<le> k \<longleftrightarrow> n < k" using Suc_le_eq by blast
  define r where "r = push_bit m (drop_bit m i)"
  have nl: "n < LENGTH('a)" using n by (rule bit_imp_le_length)
  have r_bit: "bit r k \<longleftrightarrow> n < k \<and> bit i k" for k
  proof (cases "m \<le> k")
    case True
    then have "bit r k \<longleftrightarrow> bit i k"
      using bit_imp_le_length [of i k] by (auto simp: r_def bit_push_bit_iff bit_drop_bit_eq)
    with True m show ?thesis by simp
  next
    case False
    then have "\<not> bit r k" by (simp add: r_def bit_push_bit_iff)
    with False m show ?thesis by simp
  qed
  have i: "i = push_bit n 1 OR r"
    by (rule bit_eqI) (use n low nl in \<open>auto simp: bit_simps r_bit linorder_neq_iff\<close>)
  have "i - 1 = (push_bit n 1 - 1) + r"
    by (subst i) (simp add: disjunctive_add [symmetric] bit_simps r_bit)
  also have "push_bit n 1 - 1 = (mask n :: 'a word)"
    by (simp add: mask_eq_exp_minus_1 push_bit_eq_mult)
  finally have "i - 1 = mask n OR r"
    by (simp add: disjunctive_add bit_simps r_bit)
  then have "- i = NOT (mask n OR r)"
    by (simp add: minus_eq_not_minus_1)
  then show ?thesis
    by (subst i) (rule bit_eqI, auto simp: bit_simps r_bit nl)
qed

lemma ffs32_power:
  "\<forall>n \<in> set [0..<32].
     (let j = push_bit n 1 :: u32;
          k = (if j \<le> 0xffff then (if j \<le> 0xff then 0 else 8)
               else (if j \<le> 0xffffff then 16 else 24))
      in ffs_table ! unat (drop_bit k j) + k) = n + 1"
  by code_simp

lemma ffs64_split: "\<forall>n \<in> set [0..<64]. (push_bit n 1 :: u64) \<le> 0xffffffff \<longleftrightarrow> n < 32"
  by code_simp

lemma ffs32_lowest:
  assumes "bit i n" "\<And>k. k < n \<Longrightarrow> \<not> bit i k"
  shows "ffs32 i = n + 1"
proof -
  have "n < 32" using bit_imp_le_length [OF assms(1)] by simp
  then show ?thesis
    using ffs32_power by (simp only: ffs32_def and_minus_lowest [OF assms] Let_def) simp
qed

lemma ffs32_0 [simp]: "ffs32 0 = 0"
  by (simp add: ffs32_def ffs_table_def)

lemma ffs64_0 [simp]: "ffs64 0 = 0"
  by (simp add: ffs64_def)

lemma ffs64_lowest:
  assumes n: "bit i n" and low: "\<And>k. k < n \<Longrightarrow> \<not> bit i k"
  shows "ffs64 i = n + 1"
proof -
  have "n < 64" using bit_imp_le_length [OF n] by simp
  then have le: "i AND (- i) \<le> 0xffffffff \<longleftrightarrow> n < 32"
    using ffs64_split by (simp add: and_minus_lowest [OF n low])
  show ?thesis
  proof (cases "n < 32")
    case True
    then have "ffs32 (ucast i) = n + 1"
      using n low by (intro ffs32_lowest) (auto simp: bit_simps)
    with True le show ?thesis by (simp add: ffs64_def)
  next
    case False
    then have "ffs32 (ucast (drop_bit 32 i)) = n - 32 + 1"
      using n low \<open>n < 64\<close> by (intro ffs32_lowest) (auto simp: bit_simps)
    with False le show ?thesis by (simp add: ffs64_def)
  qed
qed

lemma lowest_bit_ex:
  fixes i :: "'a::len word"
  assumes "i \<noteq> 0"
  obtains n where "bit i n" "\<And>k. k < n \<Longrightarrow> \<not> bit i k"
proof -
  from assms obtain m where "bit i m" by (auto simp: bit_eq_iff)
  then have "bit i (LEAST n. bit i n)" by (rule LeastI)
  moreover have "\<not> bit i k" if "k < (LEAST n. bit i n)" for k
    using that by (rule not_less_Least)
  ultimately show ?thesis by (rule that)
qed

lemma ffs64_eq_0_iff: "ffs64 i = 0 \<longleftrightarrow> i = 0"
  by (metis One_nat_def add_is_0 ffs64_0 ffs64_lowest lowest_bit_ex zero_neq_one)

subsection \<open>Bitmaps as sets of indices\<close>

lemma bitmap_get_bit_iff: "bitmap_get_bit bm i \<longleftrightarrow> bit (bm ! (i div 64)) (i mod 64)"
proof -
  have "bm ! (i div 64) AND push_bit (i mod 64) 1 = (0 :: u64) \<longleftrightarrow> \<not> bit (bm ! (i div 64)) (i mod 64)"
    by (simp add: push_bit_of_1 and_exp_eq_0_iff_not_bit)
  then show ?thesis by (simp add: bitmap_get_bit_def BIT_WORD_def BIT_MASK_def)
qed

lemma length_bitmap_upd [simp]:
  "length (bitmap_set_bit bm i) = length bm" "length (bitmap_clr_bit bm i) = length bm"
  by (simp_all add: bitmap_set_bit_def bitmap_clr_bit_def)

lemma div_mod_64_eq_iff: "(i div 64 = j div 64 \<and> i mod 64 = j mod 64) \<longleftrightarrow> i = (j :: nat)"
  by (metis div_mult_mod_eq)

lemma bitmap_get_set:
  assumes "i < 64 * length bm" "j < 64 * length bm"
  shows "bitmap_get_bit (bitmap_set_bit bm i) j \<longleftrightarrow> i = j \<or> bitmap_get_bit bm j"
proof -
  have "i div 64 < length bm" "j div 64 < length bm" using assms by auto
  then show ?thesis
    using div_mod_64_eq_iff [of i j]
    by (auto simp: bitmap_get_bit_iff bitmap_set_bit_def BIT_WORD_def BIT_MASK_def nth_list_update bit_simps)
qed

lemma bitmap_get_clr:
  assumes "i < 64 * length bm" "j < 64 * length bm"
  shows "bitmap_get_bit (bitmap_clr_bit bm i) j \<longleftrightarrow> i \<noteq> j \<and> bitmap_get_bit bm j"
proof -
  have "i div 64 < length bm" "j div 64 < length bm" using assms by auto
  then show ?thesis
    using div_mod_64_eq_iff [of i j]
    by (auto simp: bitmap_get_bit_iff bitmap_clr_bit_def BIT_WORD_def BIT_MASK_def nth_list_update bit_simps)
qed

lemma bitmap_scan_spec:
  assumes "i \<le> nr"
  shows "i \<le> bitmap_scan bm nr i \<and> bitmap_scan bm nr i \<le> nr
    \<and> (\<forall>k. i \<le> k \<and> k < bitmap_scan bm nr i \<longrightarrow> NOT (bm ! k) = 0)
    \<and> (bitmap_scan bm nr i < nr \<longrightarrow> NOT (bm ! bitmap_scan bm nr i) \<noteq> 0)"
  using assms
proof (induction bm nr i rule: bitmap_scan.induct)
  case (1 bm nr i)
  show ?case
  proof (cases "i < nr \<and> NOT (bm ! i) = 0")
    case True
    with "1.IH" have IH: "Suc i \<le> bitmap_scan bm nr (Suc i) \<and> bitmap_scan bm nr (Suc i) \<le> nr
      \<and> (\<forall>k. Suc i \<le> k \<and> k < bitmap_scan bm nr (Suc i) \<longrightarrow> NOT (bm ! k) = 0)
      \<and> (bitmap_scan bm nr (Suc i) < nr \<longrightarrow> NOT (bm ! bitmap_scan bm nr (Suc i)) \<noteq> 0)"
      by simp
    have "bitmap_scan bm nr i = bitmap_scan bm nr (Suc i)"
      using True by (simp add: bitmap_scan.simps [of bm nr i])
    with IH True show ?thesis by (metis Suc_leD Suc_leI le_neq_implies_less)
  next
    case False
    then have "bitmap_scan bm nr i = i" by (subst bitmap_scan.simps) auto
    with False "1.prems" show ?thesis by auto
  qed
qed

lemma not_eq_0_bit: "NOT w = (0 :: u64) \<Longrightarrow> k < 64 \<Longrightarrow> bit w k"
  using bit_not_iff [of w k] by simp

lemma find_first_zero_value:
  assumes j: "j = ffs64 w" "w \<noteq> 0" and i: "64 * i + 64 \<le> 2 ^ 32"
  shows "unat (ucast (of_nat i * 64 + (of_nat j - 1) :: u64) :: u32) = 64 * i + (j - 1) \<and> j - 1 < 64"
proof -
  obtain n where n: "bit w n" "\<And>k. k < n \<Longrightarrow> \<not> bit w k" using lowest_bit_ex [OF \<open>w \<noteq> 0\<close>] by blast
  then have jn: "j = n + 1" "n < 64"
    using ffs64_lowest j(1) bit_imp_le_length [OF n(1)] by auto
  have "of_nat i * 64 + (of_nat j - 1) = (of_nat (64 * i + n) :: u64)"
    by (simp add: jn mult.commute)
  moreover have "unat (ucast (of_nat (64 * i + n) :: u64) :: u32) = 64 * i + n"
  proof -
    have "unat (of_nat (64 * i + n) :: u64) = 64 * i + n"
      using i jn(2) by (intro unat_of_nat_lt64) simp
    then show ?thesis using i jn(2) by (simp only: unsigned_ucast_eq) (simp add: take_bit_nat_eq_self)
  qed
  ultimately show ?thesis using jn by (metis add_diff_cancel_right')
qed

text \<open>The result is the least clear bit, when there is one below \<open>64 * nr\<close>.\<close>

lemma bitmap_find_first_zero_found:
  assumes k: "k < 64 * nr" "\<not> bitmap_get_bit bm k" and nr: "64 * nr \<le> 2 ^ 32"
    and r_def: "r = unat (bitmap_find_first_zero_bit bm nr past)"
  shows "r \<le> k \<and> \<not> bitmap_get_bit bm r \<and> (\<forall>l < r. bitmap_get_bit bm l)"
proof -
  define i where "i = bitmap_scan bm nr 0"
  have scan: "i \<le> nr" "\<And>l. l < i \<Longrightarrow> NOT (bm ! l) = 0" "i < nr \<Longrightarrow> NOT (bm ! i) \<noteq> 0"
    using bitmap_scan_spec [of 0 nr bm] by (auto simp: i_def)
  have "\<not> k div 64 < i"
    using scan(2) [of "k div 64"] k(2) not_eq_0_bit by (auto simp: bitmap_get_bit_iff)
  with k(1) have i: "i \<le> k div 64" "i < nr" by auto
  define j where "j = ffs64 (NOT (bm ! i))"
  have j0: "j \<noteq> 0" using scan(3) i by (simp add: j_def ffs64_eq_0_iff)
  obtain n where n: "bit (NOT (bm ! i)) n" "\<And>k. k < n \<Longrightarrow> \<not> bit (NOT (bm ! i)) k"
    using lowest_bit_ex scan(3) i by blast
  then have jn: "j = n + 1" "n < 64"
    using ffs64_lowest j_def bit_imp_le_length [OF n(1)] by auto
  have r: "r = 64 * i + n"
    using find_first_zero_value [OF j_def, of i] scan(3) i j0 jn nr
    by (simp add: r_def bitmap_find_first_zero_bit_def i_def [symmetric] j_def [symmetric] Let_def)
  have "bitmap_get_bit bm l" if "l < r" for l
  proof (cases "l div 64 < i")
    case True
    then show ?thesis using scan(2) not_eq_0_bit by (simp add: bitmap_get_bit_iff)
  next
    case False
    with that r jn(2) have l: "l div 64 = i" by auto
    with that r have "l mod 64 < n" by (simp add: minus_div_mult_eq_mod [symmetric])
    with l show ?thesis using n(2) [of "l mod 64"] jn(2) by (auto simp: bitmap_get_bit_iff bit_simps)
  qed
  moreover have "\<not> bitmap_get_bit bm r"
    using n(1) jn(2) by (simp add: r bitmap_get_bit_iff bit_simps)
  ultimately show ?thesis using k(2) by (meson linorder_not_le)
qed

text \<open>With no clear bit the result is past the map, whatever word lies after the array.\<close>

lemma bitmap_find_first_zero_full:
  assumes full: "\<And>k. k < 64 * nr \<Longrightarrow> bitmap_get_bit bm k" and nr: "64 * nr + 64 \<le> 2 ^ 32"
  shows "64 * nr \<le> unat (bitmap_find_first_zero_bit bm nr past)"
proof -
  define i where "i = bitmap_scan bm nr 0"
  have scan: "i \<le> nr" "i < nr \<Longrightarrow> NOT (bm ! i) \<noteq> 0"
    using bitmap_scan_spec [of 0 nr bm] by (auto simp: i_def)
  have "bm ! l = - 1" if "l < nr" for l
  proof (rule bit_word_eqI)
    fix k assume "k < LENGTH(64)"
    then show "bit (bm ! l) k = bit (- 1 :: u64) k"
      using full [of "64 * l + k"] that by (simp add: bitmap_get_bit_iff)
  qed
  then have i: "i = nr" using scan by (cases "i < nr") auto
  show ?thesis
  proof (cases "NOT past = 0")
    case True
    have "ucast (- 1 :: u64) = (- 1 :: u32)" by (rule bit_word_eqI) (simp add: bit_simps)
    then have "unat (ucast (- 1 :: u64) :: u32) = 2 ^ 32 - 1"
      by (simp add: unsigned_minus_1_eq_mask mask_eq_exp_minus_1)
    with True i nr show ?thesis
      by (simp add: bitmap_find_first_zero_bit_def i_def [symmetric])
  next
    case False
    then show ?thesis
      using find_first_zero_value [OF refl False, of nr] nr i
      by (auto simp: bitmap_find_first_zero_bit_def i_def [symmetric] Let_def ffs64_eq_0_iff)
  qed
qed

subsection \<open>Byte order\<close>

lemma bit_byte_at: "bit (byte_at m x) n \<longleftrightarrow> n < 8 \<and> bit x (8 * m + n)"
proof -
  have "byte_at m x = take_bit 8 (drop_bit (8 * m) x)"
    by (simp add: byte_at_def take_bit_eq_mask mask_eq_exp_minus_1)
  then show ?thesis by (simp add: bit_simps)
qed

lemma bit_bswap32:
  "\<forall>n \<in> set [0..<32]. bit (bswap32 x) n \<longleftrightarrow> bit x (8 * (3 - n div 8) + n mod 8)"
  by (simp add: upt_conv_Cons bswap32_def bit_byte_at bit_or_iff bit_push_bit_iff)
    (simp add: eval_nat_numeral)

lemma bswap32_involutive [simp]: "bswap32 (bswap32 x) = x"
proof (rule bit_word_eqI)
  fix n assume "n < LENGTH(32)"
  then have n: "n < 32" by simp
  define m where "m = 8 * (3 - n div 8) + n mod 8"
  have d: "n div 8 \<le> 3" "n mod 8 < 8" using n by auto
  have m: "m < 32" using d by (auto simp: m_def)
  have "m div 8 = 3 - n div 8" "m mod 8 = n mod 8" by (simp_all add: m_def)
  then have "8 * (3 - m div 8) + m mod 8 = n" using d by simp
  then show "bit (bswap32 (bswap32 x)) n = bit x n"
    using bit_bswap32 [of "bswap32 x"] bit_bswap32 [of x] n m by (simp add: m_def)
qed

lemma bit_bswap64:
  "\<forall>n \<in> set [0..<64]. bit (bswap64 x) n \<longleftrightarrow> bit x (8 * (7 - n div 8) + n mod 8)"
  by (simp add: upt_conv_Cons bswap64_def bit_byte_at bit_or_iff bit_push_bit_iff)
    (simp add: eval_nat_numeral)

lemma bswap64_involutive [simp]: "bswap64 (bswap64 x) = x"
proof (rule bit_word_eqI)
  fix n assume "n < LENGTH(64)"
  then have n: "n < 64" by simp
  define m where "m = 8 * (7 - n div 8) + n mod 8"
  have d: "n div 8 \<le> 7" "n mod 8 < 8" using n by auto
  have m: "m < 64" using d by (auto simp: m_def)
  have "m div 8 = 7 - n div 8" "m mod 8 = n mod 8" by (simp_all add: m_def)
  then have "8 * (7 - m div 8) + m mod 8 = n" using d by simp
  then show "bit (bswap64 (bswap64 x)) n = bit x n"
    using bit_bswap64 [of "bswap64 x"] bit_bswap64 [of x] n m by (simp add: m_def)
qed

subsection \<open>Euclid's algorithm\<close>

lemma c_rem_nonneg: "0 \<le> a \<Longrightarrow> 0 \<le> b \<Longrightarrow> c_rem a b = a mod b"
  by (auto simp: c_rem_def sgn_if)

lemma gcd_loop_correct:
  assumes "0 \<le> a" "0 \<le> b"
  shows "fst (gcd_loop a b) + snd (gcd_loop a b) = gcd a b"
  using assms
proof (induction a b rule: gcd_loop.induct)
  case (1 a b)
  show ?case
  proof (cases "b = 0")
    case True
    with 1 show ?thesis by (simp add: gcd_loop.simps [of a 0])
  next
    case b: False
    define a' where "a' = a mod b"
    define b' where "b' = b mod a'"
    have a': "0 \<le> a'" "c_rem a b = a'" using 1 b by (auto simp: a'_def c_rem_nonneg)
    have b'_eq: "c_rem b a' = b'" using "1.prems" a'(1) by (simp add: b'_def c_rem_nonneg)
    have b'_nn: "0 \<le> b'" using "1.prems" a'(1) by (cases "a' = 0") (simp_all add: b'_def)
    note nn = a' b'_eq b'_nn
    have g: "gcd a b = gcd a' b" "gcd a' b = gcd a' b'"
      using b by (auto simp: a'_def b'_def gcd_red_int [symmetric] gcd.commute)
    show ?thesis
    proof (cases "a' = 0 \<or> b' = 0")
      case True
      then show ?thesis
        using b nn g 1 by (auto simp: gcd_loop.simps [of a b] Let_def)
    next
      case False
      then have "gcd_loop a b = gcd_loop a' b'"
        using b nn by (simp add: gcd_loop.simps [of a b] Let_def)
      with False b nn g "1.IH" [of a' b'] show ?thesis by simp
    qed
  qed
qed

lemma gcd_c_eq: "0 \<le> a \<Longrightarrow> 0 \<le> b \<Longrightarrow> gcd_c a b = gcd a b"
  using gcd_loop_correct by (simp add: gcd_c_def split_beta)

lemma lcm_c_eq:
  assumes "0 \<le> a" "0 \<le> b" "a * b < 2 ^ 63" "0 < a \<or> 0 < b"
  shows "lcm_c a b = lcm a b"
proof -
  have g: "0 < gcd a b" using assms(4) by (auto simp: gcd_pos_int)
  have ab: "0 \<le> a * b" using assms by simp
  have "lcm_c a b = a * b div gcd a b"
  proof -
    have "swrap64 (a * b) = a * b" using assms(3) ab by (intro swrap64_id) simp_all
    then show ?thesis using assms(1,2) ab g
      by (cases "a * b = 0") (auto simp: lcm_c_def gcd_c_eq c_div_def sgn_if zero_less_mult_iff)
  qed
  then show ?thesis using assms(1,2) by (simp add: lcm_int_def gcd_int_def lcm_nat_def zdiv_int nat_mult_distrib)
qed

section \<open>Properties\<close>

text \<open>
  The table-driven \<open>ffs\<close> and the word scan of \<open>bitmap_find_first_zero_bit\<close>
  find the least clear bit of a bitmap of \<open>nr\<close> words when there is one; when there is none the
  result is past the map, whatever the word is that the code reads after the array.
\<close>

theorem bitmap_first_zero_least:
  assumes "64 * nr + 64 \<le> 2 ^ 32"
  shows "let r = unat (bitmap_find_first_zero_bit bm nr past)
    in if \<exists>k < 64 * nr. \<not> bitmap_get_bit bm k
       then r < 64 * nr \<and> \<not> bitmap_get_bit bm r \<and> (\<forall>l < r. bitmap_get_bit bm l)
       else 64 * nr \<le> r"
proof (cases "\<exists>k < 64 * nr. \<not> bitmap_get_bit bm k")
  case True
  then obtain k where "k < 64 * nr" "\<not> bitmap_get_bit bm k" by blast
  then show ?thesis
    using bitmap_find_first_zero_found [of k nr bm, OF _ _ _ refl, of past] assms True by (auto simp: Let_def)
next
  case False
  then show ?thesis using bitmap_find_first_zero_full [of nr bm past] assms by (simp add: Let_def)
qed

theorem bitmap_first_zero_least_witness:
  "\<not> bitmap_get_bit [- 1, 5] (unat (bitmap_find_first_zero_bit [- 1, 5] 2 0))
    \<and> 128 \<le> unat (bitmap_find_first_zero_bit [- 1, - 1] 2 7)"
proof -
  have "\<not> bitmap_get_bit [- 1, 5] 65" by (simp add: bitmap_get_bit_iff bit_numeral_rec)
  then have 1: "\<exists>k < 64 * 2. \<not> bitmap_get_bit [- 1, 5] k" by (intro exI [of _ 65]) simp
  have "bitmap_get_bit [- 1, - 1] k" if "k < 128" for k
  proof -
    have "k div 64 < 2" using that by simp
    then have "[- 1, - 1 :: u64] ! (k div 64) = - 1" by (auto simp: less_2_cases_iff)
    then show ?thesis by (simp add: bitmap_get_bit_iff)
  qed
  then have 2: "\<not> (\<exists>k < 64 * 2. \<not> bitmap_get_bit [- 1, - 1] k)" by auto
  show ?thesis
    using bitmap_first_zero_least [of 2 "[- 1, 5]" 0] bitmap_first_zero_least [of 2 "[- 1, - 1]" 7] 1 2
    unfolding Let_def by (simp only: if_True if_False) simp
qed

text \<open>
  Swapping the bytes of a big-endian cell of the device tree twice is the
  identity, at both widths, so reading and writing such cells are inverse to each other.
\<close>

theorem bswap_roundtrip: "bswap32 (bswap32 x) = x \<and> bswap64 (bswap64 y) = y"
  by simp

text \<open>
  The scheduler's major-frame arithmetic: the loops of \<open>gcd\<close> and \<open>lcm\<close> on
  \<open>intmax_t\<close> terminate and compute the mathematical greatest common divisor and least common
  multiple of non-negative numbers whose product does not overflow.
\<close>

theorem gcd_lcm_correct:
  assumes "0 \<le> a" "0 \<le> b" "a * b < 2 ^ 63" "0 < a \<or> 0 < b"
  shows "gcd_c a b = gcd a b \<and> lcm_c a b = lcm a b"
  using gcd_c_eq [OF assms(1,2)] lcm_c_eq [OF assms] by blast

theorem gcd_lcm_correct_witness: "gcd_c 50000000 20000000 = 10000000 \<and> lcm_c 50000000 20000000 = 100000000"
proof -
  have "gcd (50000000 :: int) 20000000 = 10000000" "lcm (50000000 :: int) 20000000 = 100000000"
    by code_simp+
  then show ?thesis using gcd_lcm_correct [of 50000000 20000000] by simp
qed

end
