(* ===== verification/Asid.thy ===== *)
theory Asid
  imports Bits
begin

text \<open>
  \<^verbatim>\<open>kern/mm/asid.c\<close>: each hart's allocator of address space identifiers, a bitmap
  of \<open>asid_max + 1\<close> bits and a generation counter. When the identifiers of a hart are used
  up, \<open>proc_run\<close> starts a new generation with an empty bitmap.
\<close>

section \<open>The code\<close>

record asid_cpu =
  asid_max :: u64
  asid_generation :: u64
  asid_bitmap :: "u64 list"
  asid_bitmap_size :: nat

text \<open>\<open>probed\<close> is the 16-bit ASID field of \<open>satp\<close> read back after all ones were written to it.\<close>

definition asid_init :: "16 word \<Rightarrow> asid_cpu" where
  "asid_init probed =
     (let mx = ucast probed; size = BITMAP_SIZE (unat (mx + 1))
      in \<lparr>asid_max = mx, asid_generation = 1, asid_bitmap = replicate size 0, asid_bitmap_size = size\<rparr>)"

definition asid_get_max :: "asid_cpu \<Rightarrow> u64" where
  "asid_get_max c = asid_max c"

definition asid_get_generation :: "asid_cpu \<Rightarrow> u64" where
  "asid_get_generation c = asid_generation c"

definition asid_inc_generation :: "asid_cpu \<Rightarrow> asid_cpu" where
  "asid_inc_generation c =
     c\<lparr>asid_generation := asid_generation c + 1, asid_bitmap := replicate (asid_bitmap_size c) 0\<rparr>"

text \<open>\<open>past\<close> is the word behind the bitmap, which a full bitmap makes the search read.\<close>

definition asid_alloc :: "u64 \<Rightarrow> asid_cpu \<Rightarrow> (asid_cpu \<times> u64) result" where
  "asid_alloc past c =
     (let b = bitmap_find_first_zero_bit (asid_bitmap c) (asid_bitmap_size c) past
      in if ucast b > asid_max c then ERR KER_ASID_ER
         else OK (c\<lparr>asid_bitmap := bitmap_set_bit (asid_bitmap c) (unat b)\<rparr>, ucast b))"

definition asid_free :: "asid_cpu \<Rightarrow> u64 \<Rightarrow> asid_cpu result" where
  "asid_free c asid =
     (if asid > asid_max c \<or> \<not> bitmap_get_bit (asid_bitmap c) (unat asid) then ERR KER_ASID_ER
      else OK (c\<lparr>asid_bitmap := bitmap_clr_bit (asid_bitmap c) (unat asid)\<rparr>))"

text \<open>\<open>while (asid_alloc(...) != KER_SUCCESS) asid_inc_generation()\<close> of \<open>proc_run\<close>, with fuel.\<close>

fun asid_renew :: "nat \<Rightarrow> u64 \<Rightarrow> asid_cpu \<Rightarrow> (asid_cpu \<times> u64) option" where
  "asid_renew 0 past c = None"
| "asid_renew (Suc fuel) past c =
     (case asid_alloc past c of
        OK r \<Rightarrow> Some r
      | _ \<Rightarrow> asid_renew fuel past (asid_inc_generation c))"

section \<open>The identifiers in use\<close>

definition asid_ok :: "asid_cpu \<Rightarrow> bool" where
  "asid_ok c \<longleftrightarrow> asid_max c < 0x10000 \<and> asid_bitmap_size c = BITMAP_SIZE (unat (asid_max c) + 1)
     \<and> length (asid_bitmap c) = asid_bitmap_size c"

definition asid_used :: "asid_cpu \<Rightarrow> u64 set" where
  "asid_used c = {a. a \<le> asid_max c \<and> bitmap_get_bit (asid_bitmap c) (unat a)}"

lemma BITMAP_SIZE_bound: "0 < n \<Longrightarrow> n \<le> 64 * BITMAP_SIZE n \<and> 64 * BITMAP_SIZE n \<le> n + 63"
proof -
  assume "0 < n"
  then obtain k where n: "n = Suc k" by (cases n) auto
  define q r where "q = k div 64" and "r = k mod 64"
  have "k = q * 64 + r" "r < 64" by (simp_all add: q_def r_def)
  then have "n \<le> 64 * (q + 1)" "64 * (q + 1) \<le> n + 63" by (simp_all add: n)
  then show ?thesis by (simp add: BITMAP_SIZE_def n q_def)
qed

lemma asid_ok_bound:
  assumes "asid_ok c"
  shows "unat (asid_max c) < 0x10000" "unat (asid_max c) < 64 * length (asid_bitmap c)"
    "64 * asid_bitmap_size c + 64 \<le> 2 ^ 32"
proof -
  show 1: "unat (asid_max c) < 0x10000" using assms by (simp add: asid_ok_def word_less_nat_alt)
  show "unat (asid_max c) < 64 * length (asid_bitmap c)" "64 * asid_bitmap_size c + 64 \<le> 2 ^ 32"
    using assms BITMAP_SIZE_bound [of "unat (asid_max c) + 1"] 1 by (simp_all add: asid_ok_def)
qed

lemma asid_init_ok: "asid_ok (asid_init probed)" "asid_used (asid_init probed) = {}"
proof -
  have "unat probed < 2 ^ 16" using unsigned_less [of probed, where 'a = nat] by simp
  moreover have u: "unat (ucast probed :: u64) = unat probed" by (simp add: unat_ucast_up)
  ultimately have "unat (ucast probed + 1 :: u64) = unat probed + 1" "(ucast probed :: u64) < 0x10000"
    by (simp_all add: unat_word_ariths word_less_nat_alt)
  then show "asid_ok (asid_init probed)" using u by (simp add: asid_init_def asid_ok_def Let_def)
  from this asid_ok_bound(2) [OF this] show "asid_used (asid_init probed) = {}"
    by (auto simp: asid_used_def asid_init_def Let_def bitmap_get_bit_iff word_le_nat_alt)
qed

lemma asid_inc_generation_ok: "asid_ok c \<Longrightarrow> asid_ok (asid_inc_generation c)" "asid_ok c \<Longrightarrow> asid_used (asid_inc_generation c) = {}"
  using asid_ok_bound(2) [of c]
  by (auto simp: asid_ok_def asid_inc_generation_def asid_used_def bitmap_get_bit_iff word_le_nat_alt)

text \<open>The bit found is the least identifier not in use, or lies above \<open>asid_max\<close>.\<close>

lemma asid_find:
  assumes ok: "asid_ok c" and b: "b = bitmap_find_first_zero_bit (asid_bitmap c) (asid_bitmap_size c) past"
  shows "(ucast b :: u64) \<le> asid_max c \<longleftrightarrow> asid_used c \<noteq> {0..asid_max c}"
    and "(ucast b :: u64) \<le> asid_max c \<Longrightarrow> ucast b \<notin> asid_used c \<and> (\<forall>a. a < ucast b \<longrightarrow> a \<in> asid_used c)"
proof -
  have u: "unat (ucast b :: u64) = unat b" by (simp add: unat_ucast_up)
  note B = asid_ok_bound [OF ok]
  have len: "length (asid_bitmap c) = asid_bitmap_size c" using ok by (simp add: asid_ok_def)
  have found: "unat b \<le> k \<and> \<not> bitmap_get_bit (asid_bitmap c) (unat b) \<and> (\<forall>l < unat b. bitmap_get_bit (asid_bitmap c) l)"
    if "k < 64 * asid_bitmap_size c" "\<not> bitmap_get_bit (asid_bitmap c) k" for k
    using bitmap_find_first_zero_found [OF that _ refl] B(3) b by auto
  have full: "64 * asid_bitmap_size c \<le> unat b" if "\<And>k. k < 64 * asid_bitmap_size c \<Longrightarrow> bitmap_get_bit (asid_bitmap c) k"
    using bitmap_find_first_zero_full [OF that B(3)] b by simp
  have *: "(ucast b :: u64) \<le> asid_max c \<Longrightarrow> \<exists>k < 64 * asid_bitmap_size c. \<not> bitmap_get_bit (asid_bitmap c) k"
    using full B(2) len u by (force simp: word_le_nat_alt)
  show 2: "ucast b \<notin> asid_used c \<and> (\<forall>a. a < ucast b \<longrightarrow> a \<in> asid_used c)" if "(ucast b :: u64) \<le> asid_max c"
    using *[OF that] found that u by (auto simp: asid_used_def word_less_nat_alt word_le_nat_alt)
  show "(ucast b :: u64) \<le> asid_max c \<longleftrightarrow> asid_used c \<noteq> {0..asid_max c}"
  proof
    assume "(ucast b :: u64) \<le> asid_max c"
    then show "asid_used c \<noteq> {0..asid_max c}" using 2 by auto
  next
    assume "asid_used c \<noteq> {0..asid_max c}"
    then obtain a where "a \<le> asid_max c" "\<not> bitmap_get_bit (asid_bitmap c) (unat a)"
      by (force simp: asid_used_def)
    then show "(ucast b :: u64) \<le> asid_max c"
      using found [of "unat a"] B(2) len u by (simp add: word_le_nat_alt)
  qed
qed

lemma asid_alloc_ok:
  assumes ok: "asid_ok c" and r: "asid_alloc past c = OK (c', a)"
  shows "asid_ok c'" "a \<le> asid_max c" "a \<notin> asid_used c" "asid_used c' = insert a (asid_used c)"
    "asid_max c' = asid_max c" "asid_generation c' = asid_generation c" "\<forall>a' < a. a' \<in> asid_used c"
proof -
  define b where "b = bitmap_find_first_zero_bit (asid_bitmap c) (asid_bitmap_size c) past"
  have c': "ucast b \<le> asid_max c" "a = ucast b" "c' = c\<lparr>asid_bitmap := bitmap_set_bit (asid_bitmap c) (unat b)\<rparr>"
    using r by (auto simp: asid_alloc_def Let_def b_def split: if_splits)
  show "asid_ok c'" "a \<le> asid_max c" "asid_max c' = asid_max c" "asid_generation c' = asid_generation c"
    using ok c' by (simp_all add: asid_ok_def)
  show "a \<notin> asid_used c" "\<forall>a' < a. a' \<in> asid_used c"
    using asid_find(2) [OF ok b_def] c' by auto
  have u: "unat a = unat b" by (simp add: c' unat_ucast_up)
  note B = asid_ok_bound [OF ok]
  have "x \<in> asid_used c' \<longleftrightarrow> x \<in> insert a (asid_used c)" for x
    using bitmap_get_set [of "unat b" "asid_bitmap c" "unat x"] B(2) c'(1,2) u
    by (auto simp: asid_used_def c'(3) word_le_nat_alt word_unat_eq_iff)
  then show "asid_used c' = insert a (asid_used c)" by blast
qed

lemma asid_free_ok:
  assumes ok: "asid_ok c" and r: "asid_free c a = OK c'"
  shows "asid_ok c'" "a \<in> asid_used c" "asid_used c' = asid_used c - {a}"
proof -
  have a: "a \<le> asid_max c" "c' = c\<lparr>asid_bitmap := bitmap_clr_bit (asid_bitmap c) (unat a)\<rparr>"
    using r by (auto simp: asid_free_def split: if_splits)
  then show "asid_ok c'" "a \<in> asid_used c"
    using ok r by (auto simp: asid_ok_def asid_used_def asid_free_def split: if_splits)
  have "x \<in> asid_used c' \<longleftrightarrow> x \<in> asid_used c - {a}" for x
    using bitmap_get_clr [of "unat a" "asid_bitmap c" "unat x"] asid_ok_bound(2) [OF ok] a
    by (auto simp: asid_used_def word_le_nat_alt word_unat_eq_iff)
  then show "asid_used c' = asid_used c - {a}" by blast
qed

section \<open>Properties\<close>

text \<open>
  \<open>asid_alloc\<close> hands out the least identifier not in use and marks just that
  one; it fails exactly when all of \<open>[0, asid_max]\<close> are in use, whatever the word behind the
  bitmap holds.
\<close>

theorem asid_alloc_least_free:
  assumes "asid_ok c"
  shows "case asid_alloc past c of
      OK (c', a) \<Rightarrow> asid_ok c' \<and> a \<le> asid_max c \<and> a \<notin> asid_used c \<and> (\<forall>a' < a. a' \<in> asid_used c)
        \<and> asid_used c' = insert a (asid_used c)
    | ERR e \<Rightarrow> e = KER_ASID_ER \<and> asid_used c = {0..asid_max c}
    | PANIC \<Rightarrow> False"
proof (cases "asid_alloc past c")
  case (OK r)
  then obtain c' a where r: "r = (c', a)" by fastforce
  then show ?thesis using asid_alloc_ok [OF assms, of past c' a] OK by simp
next
  case (ERR e)
  then show ?thesis
    using asid_find(1) [OF assms refl, of past] by (auto simp: asid_alloc_def Let_def split: if_splits)
qed (auto simp: asid_alloc_def Let_def split: if_splits)

theorem asid_alloc_least_free_witness:
  "asid_ok (asid_init 3) \<and> (case asid_alloc 0 (asid_init 3) of OK (c', a) \<Rightarrow> a \<notin> asid_used (asid_init 3) | _ \<Rightarrow> False)"
proof -
  have "asid_used (asid_init 3) \<noteq> {0..asid_max (asid_init 3)}" by (simp add: asid_init_ok)
  then show ?thesis
    using asid_alloc_least_free [OF asid_init_ok(1), of 3 0] asid_init_ok(1) [of 3]
    by (auto split: result.splits)
qed

text \<open>
  C32 (termination). The renewal loop of \<open>proc_run\<close> always gets an identifier: after at most
  one new generation \<open>asid_alloc\<close> succeeds, and the identifier was free in its generation.
\<close>

theorem asid_renew_terminates:
  assumes "asid_ok c"
  shows "\<exists>c' a. asid_renew 2 past c = Some (c', a) \<and> asid_ok c' \<and> a \<le> asid_max c \<and> a \<in> asid_used c'
    \<and> (asid_generation c' = asid_generation c \<and> a \<notin> asid_used c
       \<or> asid_generation c' = asid_generation c + 1 \<and> asid_used c' = {a})"
proof (cases "asid_alloc past c")
  case (OK r)
  then obtain c' a where r: "r = (c', a)" by fastforce
  then show ?thesis using asid_alloc_ok [OF assms, of past c' a] OK by (simp add: numeral_2_eq_2)
next
  case (ERR e)
  let ?d = "asid_inc_generation c"
  have d: "asid_ok ?d" "asid_used ?d = {}" using asid_inc_generation_ok [OF assms] by auto
  have "asid_max ?d = asid_max c" "asid_generation ?d = asid_generation c + 1"
    by (simp_all add: asid_inc_generation_def)
  moreover obtain c' a where "asid_alloc past ?d = OK (c', a)"
    using asid_find(1) [OF d(1) refl, of past] d(2) that by (simp add: asid_alloc_def Let_def linorder_not_le [symmetric])
  ultimately show ?thesis
    using asid_alloc_ok [OF d(1), of past c' a] ERR d(2) by (simp add: numeral_2_eq_2)
qed (auto simp: asid_alloc_def Let_def split: if_splits)

theorem asid_renew_terminates_witness:
  "asid_ok (asid_init 0) \<and> (\<exists>c' a. asid_renew 2 0 (asid_init 0) = Some (c', a) \<and> a \<le> asid_max (asid_init 0))"
  using asid_renew_terminates [OF asid_init_ok(1), of 0 0] asid_init_ok(1) [of 0] by blast

end
