(* ===== verification/Circbuf.thy ===== *)
theory Circbuf
  imports Cstring
begin

text \<open>
  \<^verbatim>\<open>lib/circbuf.c\<close>: the ring buffer behind the ARINC buffers and the queuing
  ports, with its byte offsets as 64-bit words (\<open>cc_tail\<close> starts at \<open>-ele_size\<close> and
  wraps to 0 on the first insertion), and the \<^verbatim>\<open>comm_msg\<close> records that
  \<^verbatim>\<open>kern/comm/buffer.c\<close> and \<^verbatim>\<open>kern/chan/queuing.c\<close> lay out in its slots.
  The ring refines a bounded first-in first-out queue; the interface is the locale
  \<open>bounded_fifo\<close>.
\<close>

section \<open>The code\<close>

record circbuf =
  cc_buf :: u64
  cc_ele_size :: u64
  cc_cap :: u64
  cc_cnt :: u64
  cc_head :: u64
  cc_tail :: u64

definition circbuf_init :: "u64 \<Rightarrow> u64 \<Rightarrow> u64 \<Rightarrow> circbuf" where
  "circbuf_init buf ele_size cap =
     \<lparr>cc_buf = buf, cc_ele_size = ele_size, cc_cap = cap, cc_cnt = 0, cc_head = 0, cc_tail = - ele_size\<rparr>"

definition circbuf_reset :: "circbuf \<Rightarrow> circbuf" where
  "circbuf_reset cc = cc\<lparr>cc_head := 0, cc_tail := - cc_ele_size cc, cc_cnt := 0\<rparr>"

definition circbuf_is_full :: "circbuf \<Rightarrow> bool" where
  "circbuf_is_full cc \<longleftrightarrow> cc_cnt cc = cc_cap cc"

definition circbuf_is_empty :: "circbuf \<Rightarrow> bool" where
  "circbuf_is_empty cc \<longleftrightarrow> cc_cnt cc = 0"

definition circbuf_enqu_st :: "circbuf \<Rightarrow> circbuf \<times> u64" where
  "circbuf_enqu_st cc =
     (let tail = (cc_tail cc + cc_ele_size cc) mod (cc_cap cc * cc_ele_size cc)
      in (cc\<lparr>cc_tail := tail\<rparr>, tail))"

definition circbuf_enqu_ed :: "circbuf \<Rightarrow> circbuf" where
  "circbuf_enqu_ed cc = cc\<lparr>cc_cnt := cc_cnt cc + 1\<rparr>"

definition circbuf_dequ_st :: "circbuf \<Rightarrow> circbuf \<times> u64" where
  "circbuf_dequ_st cc = (cc\<lparr>cc_cnt := cc_cnt cc - 1\<rparr>, cc_head cc)"

definition circbuf_dequ_ed :: "circbuf \<Rightarrow> circbuf" where
  "circbuf_dequ_ed cc =
     cc\<lparr>cc_head := (cc_head cc + cc_ele_size cc) mod (cc_cap cc * cc_ele_size cc)\<rparr>"

definition circbuf_enqueue :: "mem \<Rightarrow> circbuf \<Rightarrow> u64 \<Rightarrow> (mem \<times> circbuf) option" where
  "circbuf_enqueue m cc ele =
     (let cc1 = fst (circbuf_enqu_st cc)
      in map_option (\<lambda>m'. (m', circbuf_enqu_ed cc1)) (memcpy m (cc_buf cc1 + cc_tail cc1) ele (cc_ele_size cc1)))"

definition circbuf_dequeue :: "mem \<Rightarrow> circbuf \<Rightarrow> u64 \<Rightarrow> (mem \<times> circbuf) option" where
  "circbuf_dequeue m cc ele =
     (let cc1 = fst (circbuf_dequ_st cc)
      in map_option (\<lambda>m'. (m', circbuf_dequ_ed cc1)) (memcpy m ele (cc_buf cc1 + cc_head cc1) (cc_ele_size cc1)))"

text \<open>
  The message protocol of \<open>buffer_send\<close>/\<open>buffer_recv\<close> and
  \<open>queuing_port_send\<close>/\<open>queuing_port_recv\<close>: a slot holds \<open>msg_size\<close> (8 bytes) and then the data.
\<close>

definition comm_msg_send :: "mem \<Rightarrow> circbuf \<Rightarrow> u64 \<Rightarrow> u64 \<Rightarrow> (mem \<times> circbuf) option" where
  "comm_msg_send m cc msg_addr msg_len =
     (let (cc1, tail) = circbuf_enqu_st cc;
          msg = cc_buf cc1 + tail;
          m1 = mem_write m msg (bytes_of 8 msg_len)
      in map_option (\<lambda>m2. (m2, circbuf_enqu_ed cc1)) (memcpy m1 (msg + 8) msg_addr msg_len))"

definition comm_msg_recv :: "mem \<Rightarrow> circbuf \<Rightarrow> u64 \<Rightarrow> (mem \<times> circbuf \<times> u64) option" where
  "comm_msg_recv m cc msg_addr =
     (let (cc1, head) = circbuf_dequ_st cc;
          msg = cc_buf cc1 + head;
          msg_len = word_of (mem_read m msg 8)
      in map_option (\<lambda>m1. (m1, circbuf_dequ_ed cc1, msg_len)) (memcpy m msg_addr (msg + 8) msg_len))"

section \<open>Representation\<close>

definition circ_hd :: "circbuf \<Rightarrow> nat" where
  "circ_hd cc = unat (cc_head cc) div unat (cc_ele_size cc)"

definition circ_off :: "circbuf \<Rightarrow> nat \<Rightarrow> nat" where
  "circ_off cc i = (circ_hd cc + i) mod unat (cc_cap cc) * unat (cc_ele_size cc)"

definition circ_slot :: "circbuf \<Rightarrow> nat \<Rightarrow> u64" where
  "circ_slot cc i = cc_buf cc + of_nat (circ_off cc i)"

definition circ_bytes :: "circbuf \<Rightarrow> nat" where
  "circ_bytes cc = unat (cc_cap cc) * unat (cc_ele_size cc)"

definition circ_ok :: "circbuf \<Rightarrow> bool" where
  "circ_ok cc \<longleftrightarrow> 0 < unat (cc_ele_size cc) \<and> 0 < unat (cc_cap cc)
     \<and> unat (cc_buf cc) + circ_bytes cc + 4 < 2 ^ 64
     \<and> unat (cc_head cc) = circ_hd cc * unat (cc_ele_size cc) \<and> circ_hd cc < unat (cc_cap cc)
     \<and> unat (cc_cnt cc) \<le> unat (cc_cap cc)
     \<and> unat (cc_tail cc + cc_ele_size cc) mod circ_bytes cc = circ_off cc (unat (cc_cnt cc))"

definition circ_contents :: "mem \<Rightarrow> circbuf \<Rightarrow> u8 list list" where
  "circ_contents m cc = map (\<lambda>i. mem_read m (circ_slot cc i) (unat (cc_ele_size cc))) [0..<unat (cc_cnt cc)]"

lemma circ_init_ok:
  assumes "0 < unat ele" "0 < unat cap" "unat buf + unat cap * unat ele + 4 < 2 ^ 64"
  shows "circ_ok (circbuf_init buf ele cap)" "circ_contents m (circbuf_init buf ele cap) = []"
  using assms by (simp_all add: circbuf_init_def circ_ok_def circ_bytes_def circ_off_def circ_hd_def circ_contents_def)

lemma circ_reset_ok:
  assumes "circ_ok cc"
  shows "circ_ok (circbuf_reset cc)" "circ_contents m (circbuf_reset cc) = []"
  using assms
  by (simp_all add: circbuf_reset_def circ_ok_def circ_bytes_def circ_off_def circ_hd_def circ_contents_def)

lemma circ_full_iff: "circ_ok cc \<Longrightarrow> circbuf_is_full cc \<longleftrightarrow> length (circ_contents m cc) = unat (cc_cap cc)"
  by (simp add: circbuf_is_full_def circ_contents_def word_unat_eq_iff)

lemma circ_empty_iff: "circbuf_is_empty cc \<longleftrightarrow> circ_contents m cc = []"
  by (simp add: circbuf_is_empty_def circ_contents_def unat_eq_zero)

section \<open>Slots\<close>

lemma circ_off_bound:
  assumes "circ_ok cc"
  shows "circ_off cc i + unat (cc_ele_size cc) \<le> circ_bytes cc"
proof -
  have "(circ_hd cc + i) mod unat (cc_cap cc) < unat (cc_cap cc)"
    using assms by (simp add: circ_ok_def)
  then have "Suc ((circ_hd cc + i) mod unat (cc_cap cc)) * unat (cc_ele_size cc) \<le> circ_bytes cc"
    unfolding circ_bytes_def by (intro mult_le_mono1) simp
  then show ?thesis by (simp add: circ_off_def)
qed

lemma circ_off_separate:
  assumes "circ_ok cc" "i < unat (cc_cap cc)" "j < unat (cc_cap cc)" "i \<noteq> j"
  shows "circ_off cc i + unat (cc_ele_size cc) \<le> circ_off cc j \<or> circ_off cc j + unat (cc_ele_size cc) \<le> circ_off cc i"
proof -
  let ?c = "unat (cc_cap cc)" and ?e = "unat (cc_ele_size cc)"
  let ?s = "\<lambda>i. (circ_hd cc + i) mod ?c"
  have lt: "circ_hd cc < ?c" using assms(1) by (simp add: circ_ok_def)
  have "?s i \<noteq> ?s j"
    using assms(2-4) lt by (auto simp: mod_if split: if_splits)
  then have "Suc (?s i) \<le> ?s j \<or> Suc (?s j) \<le> ?s i" by linarith
  then have "Suc (?s i) * ?e \<le> ?s j * ?e \<or> Suc (?s j) * ?e \<le> ?s i * ?e"
    by (metis mult_le_mono1)
  then show ?thesis by (auto simp: circ_off_def)
qed

lemma in_range_of_offset:
  assumes "i + n \<le> 2 ^ 64" "0 < n"
  shows "x \<in> range_of (a + of_nat i) n \<longleftrightarrow> i \<le> unat (x - a) \<and> unat (x - a) < i + n"
proof -
  have i: "unat (of_nat i :: u64) = i" using assms by simp
  have eq: "unat (x - (a + of_nat i)) = (if i \<le> unat (x - a) then unat (x - a) - i else unat (x - a) + 2 ^ 64 - i)"
    unfolding diff_diff_eq [symmetric] by (subst unat_sub_if_size) (simp add: i word_size)
  show ?thesis using assms unat_lt64 [of "x - a"] unfolding range_of_def mem_Collect_eq eq by auto
qed

lemma circ_slots_disjoint:
  assumes "circ_ok cc" "i < unat (cc_cap cc)" "j < unat (cc_cap cc)" "i \<noteq> j"
  shows "range_of (circ_slot cc i) (unat (cc_ele_size cc)) \<inter> range_of (circ_slot cc j) (unat (cc_ele_size cc)) = {}"
  using assms circ_off_separate [OF assms] circ_off_bound [OF assms(1), of i] circ_off_bound [OF assms(1), of j]
  by (auto simp: circ_slot_def in_range_of_offset circ_ok_def)

lemma circ_slot_in_region:
  assumes "circ_ok cc"
  shows "range_of (circ_slot cc i) (unat (cc_ele_size cc)) \<subseteq> range_of (cc_buf cc) (circ_bytes cc)"
proof
  fix x assume "x \<in> range_of (circ_slot cc i) (unat (cc_ele_size cc))"
  then show "x \<in> range_of (cc_buf cc) (circ_bytes cc)"
    using circ_off_bound [OF assms, of i] assms
    by (auto simp: circ_slot_def in_range_of_offset circ_ok_def) (simp add: range_of_def)
qed

section \<open>Insertion and removal\<close>

lemma unat_mult_small: "unat a * unat b < 2 ^ 64 \<Longrightarrow> unat (a * b :: u64) = unat a * unat b"
  by (simp add: unat_word_ariths)

lemma circ_bytes_word: "circ_ok cc \<Longrightarrow> unat (cc_cap cc * cc_ele_size cc) = circ_bytes cc"
  by (simp add: circ_ok_def circ_bytes_def unat_mult_small)

lemma circ_off_Suc:
  assumes "circ_ok cc"
  shows "(circ_off cc i + unat (cc_ele_size cc)) mod circ_bytes cc = circ_off cc (Suc i)"
proof -
  let ?c = "unat (cc_cap cc)" and ?e = "unat (cc_ele_size cc)"
  have "circ_off cc i + ?e = Suc ((circ_hd cc + i) mod ?c) * ?e" by (simp add: circ_off_def)
  then have "(circ_off cc i + ?e) mod circ_bytes cc = Suc ((circ_hd cc + i) mod ?c) mod ?c * ?e"
    by (simp only: circ_bytes_def mod_mult_mult2)
  then show ?thesis by (simp add: circ_off_def mod_Suc_eq)
qed

text \<open>Where \<open>circbuf_enqu_st\<close> puts the new element: the slot after the last one.\<close>

lemma circbuf_enqu_st_tail:
  assumes "circ_ok cc"
  shows "unat (snd (circbuf_enqu_st cc)) = circ_off cc (unat (cc_cnt cc))"
    and "cc_buf cc + snd (circbuf_enqu_st cc) = circ_slot cc (unat (cc_cnt cc))"
proof -
  show 1: "unat (snd (circbuf_enqu_st cc)) = circ_off cc (unat (cc_cnt cc))"
    using assms circ_bytes_word [OF assms]
    by (simp add: circbuf_enqu_st_def Let_def unat_mod) (simp add: circ_ok_def)
  show "cc_buf cc + snd (circbuf_enqu_st cc) = circ_slot cc (unat (cc_cnt cc))"
    by (simp add: circ_slot_def flip: 1)
qed

lemma circ_enqu_simps [simp]:
  "cc_buf (fst (circbuf_enqu_st cc)) = cc_buf cc" "cc_ele_size (fst (circbuf_enqu_st cc)) = cc_ele_size cc"
  "cc_cap (fst (circbuf_enqu_st cc)) = cc_cap cc" "cc_head (fst (circbuf_enqu_st cc)) = cc_head cc"
  "cc_cnt (fst (circbuf_enqu_st cc)) = cc_cnt cc" "cc_tail (fst (circbuf_enqu_st cc)) = snd (circbuf_enqu_st cc)"
  by (simp_all add: circbuf_enqu_st_def Let_def)

lemma circ_enqu_ed_simps [simp]:
  "cc_buf (circbuf_enqu_ed cc) = cc_buf cc" "cc_ele_size (circbuf_enqu_ed cc) = cc_ele_size cc"
  "cc_cap (circbuf_enqu_ed cc) = cc_cap cc" "cc_head (circbuf_enqu_ed cc) = cc_head cc"
  "cc_tail (circbuf_enqu_ed cc) = cc_tail cc" "cc_cnt (circbuf_enqu_ed cc) = cc_cnt cc + 1"
  by (simp_all add: circbuf_enqu_ed_def)

lemma circ_same_geometry:
  assumes "cc_buf d = cc_buf c" "cc_ele_size d = cc_ele_size c" "cc_cap d = cc_cap c" "cc_head d = cc_head c"
  shows "circ_hd d = circ_hd c" "circ_off d i = circ_off c i" "circ_slot d i = circ_slot c i" "circ_bytes d = circ_bytes c"
  using assms by (simp_all add: circ_hd_def circ_off_def circ_slot_def circ_bytes_def)

lemma unat_Suc: "unat (x :: u64) < unat (y :: u64) \<Longrightarrow> unat (x + 1) = Suc (unat x)"
  using unat_lt64 [of y] unat_plus_small [of x 1] by simp

lemma circ_enqueue_ok:
  assumes ok: "circ_ok cc" and room: "\<not> circbuf_is_full cc"
    and cc': "cc' = circbuf_enqu_ed (fst (circbuf_enqu_st cc))"
    and same: "\<And>x. x \<notin> range_of (circ_slot cc (unat (cc_cnt cc))) (unat (cc_ele_size cc)) \<Longrightarrow> m' x = m x"
  shows "circ_ok cc'"
    and "circ_contents m' cc' = circ_contents m cc @ [mem_read m' (circ_slot cc (unat (cc_cnt cc))) (unat (cc_ele_size cc))]"
proof -
  let ?n = "unat (cc_cnt cc)" and ?e = "unat (cc_ele_size cc)"
  have n: "?n < unat (cc_cap cc)"
    using ok room by (auto simp: circ_ok_def circbuf_is_full_def word_unat_eq_iff)
  have geo: "circ_hd cc' = circ_hd cc" "\<And>i. circ_off cc' i = circ_off cc i"
    "\<And>i. circ_slot cc' i = circ_slot cc i" "circ_bytes cc' = circ_bytes cc"
    using circ_same_geometry [of cc' cc] by (simp_all add: cc')
  have "circ_off cc ?n + ?e < 2 ^ 64" using circ_off_bound [OF ok, of ?n] ok by (simp add: circ_ok_def)
  then have "unat (snd (circbuf_enqu_st cc) + cc_ele_size cc) = circ_off cc ?n + ?e"
    using circbuf_enqu_st_tail(1) [OF ok] unat_plus_small [of "snd (circbuf_enqu_st cc)" ?e] by simp
  then show "circ_ok cc'"
    using ok n circ_off_Suc [OF ok, of ?n] unat_Suc [OF n] unfolding circ_ok_def geo
    by (simp add: cc')
  have keep: "mem_read m' (circ_slot cc i) ?e = mem_read m (circ_slot cc i) ?e" if "i < ?n" for i
    using circ_slots_disjoint [OF ok, of i ?n] that n same unat_lt64 [of "cc_ele_size cc"]
    by (intro mem_read_cong) auto
  have "cc_cnt cc' = cc_cnt cc + 1" "cc_ele_size cc' = cc_ele_size cc" by (simp_all add: cc')
  then show "circ_contents m' cc' = circ_contents m cc @ [mem_read m' (circ_slot cc ?n) ?e]"
    using keep unat_Suc [OF n] by (simp add: circ_contents_def geo)
qed

text \<open>Removal takes the oldest slot and leaves the others as they are.\<close>

lemma circ_dequeue_ok:
  assumes ok: "circ_ok cc" and nonempty: "\<not> circbuf_is_empty cc"
    and cc': "cc' = circbuf_dequ_ed (fst (circbuf_dequ_st cc))"
  shows "circ_ok cc'"
    and "circ_contents m cc = mem_read m (cc_buf cc + snd (circbuf_dequ_st cc)) (unat (cc_ele_size cc)) # circ_contents m cc'"
    and "cc_buf cc + snd (circbuf_dequ_st cc) = circ_slot cc 0"
proof -
  let ?n = "unat (cc_cnt cc)" and ?e = "unat (cc_ele_size cc)" and ?c = "unat (cc_cap cc)"
  have hd: "circ_off cc 0 = unat (cc_head cc)" "circ_hd cc < ?c" "0 < ?e" using ok by (simp_all add: circ_ok_def circ_off_def)
  have n: "unat (cc_cnt cc - 1) = ?n - 1" "0 < ?n" using nonempty
    by (auto simp: circbuf_is_empty_def unat_gt_0 unat_minus_one)
  show slot: "cc_buf cc + snd (circbuf_dequ_st cc) = circ_slot cc 0"
    by (simp add: circ_slot_def hd circbuf_dequ_st_def)
  have geo: "cc_buf cc' = cc_buf cc" "cc_ele_size cc' = cc_ele_size cc" "cc_cap cc' = cc_cap cc"
    "cc_tail cc' = cc_tail cc" "cc_cnt cc' = cc_cnt cc - 1" "circ_bytes cc' = circ_bytes cc"
    by (simp_all add: cc' circbuf_dequ_ed_def circbuf_dequ_st_def circ_bytes_def)
  have "circ_off cc 0 + ?e < 2 ^ 64" using circ_off_bound [OF ok, of 0] ok by (simp add: circ_ok_def)
  then have "unat (cc_head cc + cc_ele_size cc) = circ_off cc 0 + ?e"
    using hd(1) unat_plus_small [of "cc_head cc" ?e] by simp
  then have head: "unat (cc_head cc') = circ_off cc (Suc 0)"
    using circ_off_Suc [OF ok, of 0] circ_bytes_word [OF ok]
    by (simp add: cc' circbuf_dequ_ed_def circbuf_dequ_st_def unat_mod)
  then have hd': "circ_hd cc' = Suc (circ_hd cc) mod ?c"
    using hd(3) by (simp add: circ_hd_def geo circ_off_def)
  then have off: "circ_off cc' i = circ_off cc (Suc i)" for i
    by (simp add: circ_off_def geo mod_add_left_eq)
  then have slots: "circ_slot cc' i = circ_slot cc (Suc i)" for i
    by (simp add: circ_slot_def geo)
  have "unat (cc_head cc') = circ_hd cc' * ?e" using head hd' by (simp add: circ_off_def)
  moreover have "circ_hd cc' < ?c" using hd hd' by simp
  ultimately show "circ_ok cc'"
    using ok n off [of "?n - 1"] unfolding circ_ok_def geo by (simp add: le_diff_conv)
  have "[0..<?n] = 0 # map Suc [0..<?n - 1]"
    using n(2) by (simp add: map_Suc_upt upt_conv_Cons)
  then show "circ_contents m cc = mem_read m (cc_buf cc + snd (circbuf_dequ_st cc)) ?e # circ_contents m cc'"
    unfolding circ_contents_def geo n slot by (simp add: slots comp_def)
qed

section \<open>The interface of a bounded first-in first-out queue\<close>

text \<open>
  What the clients of the ring rely on: \<open>put\<close> appends when there is room, \<open>get\<close> takes
  the oldest element, and the two tests say when that is possible.
\<close>

datatype 'a fifo_op = Put 'a | Get

fun fifo_run :: "('s \<Rightarrow> bool) \<Rightarrow> ('s \<Rightarrow> bool) \<Rightarrow> ('s \<Rightarrow> 'a \<Rightarrow> 's) \<Rightarrow> ('s \<Rightarrow> 's \<times> 'a) \<Rightarrow> 's \<Rightarrow> 'a fifo_op list
    \<Rightarrow> 's \<times> 'a list \<times> 'a list" where
  "fifo_run full drained put get s [] = (s, [], [])"
| "fifo_run full drained put get s (Put x # ops) =
     (if full s then fifo_run full drained put get s ops
      else let (s', ins, outs) = fifo_run full drained put get (put s x) ops in (s', x # ins, outs))"
| "fifo_run full drained put get s (Get # ops) =
     (if drained s then fifo_run full drained put get s ops
      else let (s1, x) = get s; (s', ins, outs) = fifo_run full drained put get s1 ops in (s', ins, x # outs))"

locale bounded_fifo =
  fixes ok :: "'s \<Rightarrow> bool"
    and items :: "'s \<Rightarrow> 'a list"
    and cap :: "'s \<Rightarrow> nat"
    and elem_ok :: "'s \<Rightarrow> 'a \<Rightarrow> bool"
    and full :: "'s \<Rightarrow> bool"
    and drained :: "'s \<Rightarrow> bool"
    and put :: "'s \<Rightarrow> 'a \<Rightarrow> 's"
    and get :: "'s \<Rightarrow> 's \<times> 'a"
  assumes bound: "ok s \<Longrightarrow> length (items s) \<le> cap s"
    and full_law: "ok s \<Longrightarrow> full s \<longleftrightarrow> length (items s) = cap s"
    and empty_law: "ok s \<Longrightarrow> drained s \<longleftrightarrow> items s = []"
    and put_law: "ok s \<Longrightarrow> \<not> full s \<Longrightarrow> elem_ok s x \<Longrightarrow>
      ok (put s x) \<and> items (put s x) = items s @ [x] \<and> cap (put s x) = cap s \<and> elem_ok (put s x) = elem_ok s"
    and get_law: "ok s \<Longrightarrow> \<not> drained s \<Longrightarrow> get s = (s', x) \<Longrightarrow>
      ok s' \<and> items s = x # items s' \<and> cap s' = cap s \<and> elem_ok s' = elem_ok s"
begin

text \<open>Nothing is lost, duplicated or reordered, whatever the interleaving of insertions and removals.\<close>

lemma run_fifo:
  assumes "ok s" "\<And>x. Put x \<in> set ops \<Longrightarrow> elem_ok s x" "fifo_run full drained put get s ops = (s', ins, outs)"
  shows "ok s' \<and> cap s' = cap s \<and> items s @ ins = outs @ items s'"
  using assms
proof (induction ops arbitrary: s ins outs)
  case (Cons op ops)
  show ?case
  proof (cases op)
    case (Put x)
    show ?thesis
    proof (cases "full s")
      case True
      then show ?thesis using Cons Put by simp
    next
      case False
      then have "elem_ok s x" using Cons.prems(2) Put by simp
      then have law: "ok (put s x)" "items (put s x) = items s @ [x]" "cap (put s x) = cap s" "elem_ok (put s x) = elem_ok s"
        using put_law Cons.prems(1) False by auto
      obtain ins' where "fifo_run full drained put get (put s x) ops = (s', ins', outs)" "ins = x # ins'"
        using Cons.prems(3) Put False by (auto split: prod.splits)
      then show ?thesis using Cons.IH [of "put s x" ins' outs] Cons.prems(2) law by simp
    qed
  next
    case Get
    show ?thesis
    proof (cases "drained s")
      case True
      then show ?thesis using Cons Get by simp
    next
      case False
      obtain s1 x where g: "get s = (s1, x)" by fastforce
      have law: "ok s1" "items s = x # items s1" "cap s1 = cap s" "elem_ok s1 = elem_ok s"
        using get_law [OF Cons.prems(1) False g] by auto
      obtain outs' where "fifo_run full drained put get s1 ops = (s', ins, outs')" "outs = x # outs'"
        using Cons.prems(3) Get False g by (auto split: prod.splits)
      then show ?thesis using Cons.IH [of s1 ins outs'] Cons.prems(2) law by simp
    qed
  qed
qed simp

lemma run_bounded:
  assumes "ok s" "\<And>x. Put x \<in> set ops \<Longrightarrow> elem_ok s x" "fifo_run full drained put get s ops = (s', ins, outs)"
  shows "length (items s) + length ins \<le> length outs + cap s"
  using run_fifo [OF assms] bound [of s'] by (auto dest: arg_cong [where f = length])

end

text \<open>
  The ring's own operations in that shape: \<open>circ_put\<close> is \<open>circbuf_enqu_st\<close>, a store of one
  element into the slot, \<open>circbuf_enqu_ed\<close>; \<open>circ_get\<close> is \<open>circbuf_dequ_st\<close>, a load,
  \<open>circbuf_dequ_ed\<close>.
\<close>

definition circ_put :: "mem \<times> circbuf \<Rightarrow> u8 list \<Rightarrow> mem \<times> circbuf" where
  "circ_put s bs =
     (let (cc1, tail) = circbuf_enqu_st (snd s)
      in (mem_write (fst s) (cc_buf cc1 + tail) bs, circbuf_enqu_ed cc1))"

definition circ_get :: "mem \<times> circbuf \<Rightarrow> (mem \<times> circbuf) \<times> u8 list" where
  "circ_get s =
     (let (cc1, head) = circbuf_dequ_st (snd s)
      in ((fst s, circbuf_dequ_ed cc1), mem_read (fst s) (cc_buf cc1 + head) (unat (cc_ele_size cc1))))"

definition circ_elem_ok :: "mem \<times> circbuf \<Rightarrow> u8 list \<Rightarrow> bool" where
  "circ_elem_ok s bs \<longleftrightarrow> length bs = unat (cc_ele_size (snd s))"

lemma circ_put_eq:
  assumes "circ_ok cc"
  shows "circ_put (m, cc) bs
    = (mem_write m (circ_slot cc (unat (cc_cnt cc))) bs, circbuf_enqu_ed (fst (circbuf_enqu_st cc)))"
  using circbuf_enqu_st_tail(2) [OF assms]
  by (simp add: circ_put_def case_prod_beta)

lemma circ_put_ok:
  assumes "circ_ok cc" "\<not> circbuf_is_full cc" "length bs = unat (cc_ele_size cc)" "circ_put (m, cc) bs = (m', cc')"
  shows "circ_ok cc' \<and> circ_contents m' cc' = circ_contents m cc @ [bs] \<and> cc_cap cc' = cc_cap cc
    \<and> cc_ele_size cc' = cc_ele_size cc"
proof -
  have m': "m' = mem_write m (circ_slot cc (unat (cc_cnt cc))) bs" "cc' = circbuf_enqu_ed (fst (circbuf_enqu_st cc))"
    using assms circ_put_eq by auto
  have "unat (cc_ele_size cc) \<le> 2 ^ 64" using unat_lt64 [of "cc_ele_size cc"] by simp
  then show ?thesis
    using circ_enqueue_ok [OF assms(1,2) m'(2), of m' m] assms(3)
    by (auto simp: m' mem_write_outside mem_read_write_same)
qed

interpretation ring: bounded_fifo
  "\<lambda>s. circ_ok (snd s)" "\<lambda>s. circ_contents (fst s) (snd s)" "\<lambda>s. unat (cc_cap (snd s))" circ_elem_ok
  "\<lambda>s. circbuf_is_full (snd s)" "\<lambda>s. circbuf_is_empty (snd s)" circ_put circ_get
proof
  fix s :: "mem \<times> circbuf" assume ok: "circ_ok (snd s)"
  show "length (circ_contents (fst s) (snd s)) \<le> unat (cc_cap (snd s))"
    using ok by (simp add: circ_contents_def circ_ok_def)
  show "circbuf_is_full (snd s) \<longleftrightarrow> length (circ_contents (fst s) (snd s)) = unat (cc_cap (snd s))"
    using circ_full_iff [OF ok] .
  show "circbuf_is_empty (snd s) \<longleftrightarrow> circ_contents (fst s) (snd s) = []"
    using circ_empty_iff .
next
  fix s :: "mem \<times> circbuf" and bs
  assume "circ_ok (snd s)" "\<not> circbuf_is_full (snd s)" "circ_elem_ok s bs"
  then show "circ_ok (snd (circ_put s bs)) \<and> circ_contents (fst (circ_put s bs)) (snd (circ_put s bs))
      = circ_contents (fst s) (snd s) @ [bs] \<and> unat (cc_cap (snd (circ_put s bs))) = unat (cc_cap (snd s))
      \<and> circ_elem_ok (circ_put s bs) = circ_elem_ok s"
    using circ_put_ok [of "snd s" bs "fst s" "fst (circ_put s bs)" "snd (circ_put s bs)"]
    by (simp add: circ_elem_ok_def fun_eq_iff)
next
  fix s s' :: "mem \<times> circbuf" and bs
  assume "circ_ok (snd s)" "\<not> circbuf_is_empty (snd s)" "circ_get s = (s', bs)"
  then show "circ_ok (snd s') \<and> circ_contents (fst s) (snd s) = bs # circ_contents (fst s') (snd s')
      \<and> unat (cc_cap (snd s')) = unat (cc_cap (snd s)) \<and> circ_elem_ok s' = circ_elem_ok s"
    using circ_dequeue_ok(1) [of "snd s" "snd s'"] circ_dequeue_ok(2) [of "snd s" "snd s'" "fst s"]
    by (auto simp: circ_get_def circ_elem_ok_def fun_eq_iff circbuf_dequ_st_def circbuf_dequ_ed_def)
qed

section \<open>The library's own entry points\<close>

text \<open>\<open>circbuf_enqueue\<close> appends the \<open>ele_size\<close> bytes at \<open>ele\<close>, from outside the ring, to the contents.\<close>

lemma circbuf_enqueue_appends:
  assumes ok: "circ_ok cc" "\<not> circbuf_is_full cc"
    and out: "range_of (cc_buf cc) (circ_bytes cc) \<inter> range_of ele (unat (cc_ele_size cc)) = {}"
  shows "\<exists>m' cc'. circbuf_enqueue m cc ele = Some (m', cc') \<and> circ_ok cc'
    \<and> circ_contents m' cc' = circ_contents m cc @ [mem_read m ele (unat (cc_ele_size cc))]"
proof -
  let ?e = "unat (cc_ele_size cc)" and ?bs = "mem_read m ele (unat (cc_ele_size cc))"
  let ?slot = "circ_slot cc (unat (cc_cnt cc))"
  have "unat ?slot + ?e + 4 < 2 ^ 64"
    using ok(1) circ_off_bound [OF ok(1), of "unat (cc_cnt cc)"]
    by (simp add: circ_slot_def unat_plus_small circ_ok_def)
  moreover have "range_of ?slot ?e \<inter> range_of ele ?e = {}"
    using circ_slot_in_region [OF ok(1)] out by auto
  ultimately have "memcpy m ?slot ele (cc_ele_size cc) = Some (mem_write m ?slot ?bs)"
    using memcpy_correct [of ?slot "cc_ele_size cc" ele m] by simp
  then have "circbuf_enqueue m cc ele = Some (circ_put (m, cc) ?bs)"
    unfolding circ_put_eq [OF ok(1)] circbuf_enqueue_def Let_def circ_enqu_simps circbuf_enqu_st_tail(2) [OF ok(1)]
    by (simp only: option.map)
  moreover obtain m' cc' where p: "circ_put (m, cc) ?bs = (m', cc')" by fastforce
  ultimately show ?thesis using circ_put_ok [OF ok _ p] by (simp only: length_mem_read simp_thms) blast
qed

text \<open>\<open>circbuf_dequeue\<close> copies the oldest element to \<open>ele\<close>, outside the ring, and drops it.\<close>

lemma circbuf_dequeue_takes:
  assumes ok: "circ_ok cc" "\<not> circbuf_is_empty cc"
    and out: "range_of ele (unat (cc_ele_size cc)) \<inter> range_of (cc_buf cc) (circ_bytes cc) = {}"
    and len: "unat ele + unat (cc_ele_size cc) + 4 < 2 ^ 64"
  shows "\<exists>m' cc'. circbuf_dequeue m cc ele = Some (m', cc') \<and> circ_ok cc'
    \<and> circ_contents m cc = mem_read m' ele (unat (cc_ele_size cc)) # circ_contents m' cc'"
proof -
  let ?e = "unat (cc_ele_size cc)" and ?cc' = "circbuf_dequ_ed (fst (circbuf_dequ_st cc))"
  let ?bs = "mem_read m (circ_slot cc 0) ?e" and ?m' = "mem_write m ele (mem_read m (circ_slot cc 0) ?e)"
  note d = circ_dequeue_ok [OF ok refl]
  have e: "?e \<le> 2 ^ 64" using unat_lt64 [of "cc_ele_size cc"] by simp
  have sub: "range_of (circ_slot cc i) ?e \<inter> range_of ele ?e = {}" for i
    using circ_slot_in_region [OF ok(1)] out by blast
  then have "memcpy m ele (circ_slot cc 0) (cc_ele_size cc) = Some ?m'"
    using memcpy_correct [of ele "cc_ele_size cc" "circ_slot cc 0" m] len by (simp add: Int_commute)
  then have 1: "circbuf_dequeue m cc ele = Some (?m', ?cc')"
    unfolding circbuf_dequeue_def Let_def using d(3) by (simp add: circbuf_dequ_st_def)
  have "cc_ele_size ?cc' = cc_ele_size cc" "circ_bytes ?cc' = circ_bytes cc" "cc_buf ?cc' = cc_buf cc"
    by (simp_all add: circbuf_dequ_ed_def circbuf_dequ_st_def circ_bytes_def)
  then have "mem_read ?m' (circ_slot ?cc' i) ?e = mem_read m (circ_slot ?cc' i) ?e" for i
    using circ_slot_in_region [OF d(1), of i] out e by (intro mem_read_write_other) auto
  then have "circ_contents ?m' ?cc' = circ_contents m ?cc'"
    using \<open>cc_ele_size ?cc' = cc_ele_size cc\<close> by (simp add: circ_contents_def)
  moreover have "mem_read ?m' ele ?e = ?bs" using e by (simp add: mem_read_write_same)
  ultimately show ?thesis using 1 d(1) d(2) [of m] d(3) by auto
qed

section \<open>Messages in the slots\<close>

definition slot_len :: "u8 list \<Rightarrow> u64" where
  "slot_len bs = word_of (take 8 bs)"

definition slot_msg :: "u8 list \<Rightarrow> u8 list" where
  "slot_msg bs = take (unat (slot_len bs)) (drop 8 bs)"

definition circ_msgs :: "mem \<Rightarrow> circbuf \<Rightarrow> u8 list list" where
  "circ_msgs m cc = map slot_msg (circ_contents m cc)"

text \<open>Every queued message fits its slot.\<close>

definition circ_msgs_ok :: "mem \<Rightarrow> circbuf \<Rightarrow> bool" where
  "circ_msgs_ok m cc \<longleftrightarrow> circ_ok cc
     \<and> (\<forall>bs \<in> set (circ_contents m cc). 8 + unat (slot_len bs) \<le> unat (cc_ele_size cc))"

lemma take_mem_read: "k \<le> n \<Longrightarrow> take k (mem_read m a n) = mem_read m a k"
  using mem_read_append [of m a k "n - k"] by simp

lemma drop_mem_read: "k \<le> n \<Longrightarrow> drop k (mem_read m a n) = mem_read m (a + of_nat k) (n - k)"
  using mem_read_append [of m a k "n - k"] by simp

lemma slot_msg_read:
  assumes "8 + unat (word_of (mem_read m a 8)) \<le> n"
  shows "slot_len (mem_read m a n) = word_of (mem_read m a 8)"
    and "slot_msg (mem_read m a n) = mem_read m (a + 8) (unat (word_of (mem_read m a 8)))"
  using assms by (simp_all add: slot_len_def slot_msg_def take_mem_read drop_mem_read)

lemma slot_room:
  assumes ok: "circ_ok cc" and len: "8 + k \<le> unat (cc_ele_size cc)"
  shows "unat (circ_slot cc i) + (8 + k) + 4 < 2 ^ 64" "unat (circ_slot cc i + 8) = unat (circ_slot cc i) + 8"
proof -
  have "unat (circ_slot cc i) = unat (cc_buf cc) + circ_off cc i"
    using ok circ_off_bound [OF ok, of i] unfolding circ_slot_def by (intro unat_plus_small) (simp add: circ_ok_def)
  then show 1: "unat (circ_slot cc i) + (8 + k) + 4 < 2 ^ 64"
    using ok circ_off_bound [OF ok, of i] len by (simp add: circ_ok_def)
  then show "unat (circ_slot cc i + 8) = unat (circ_slot cc i) + 8"
    using unat_plus_small [of "circ_slot cc i" 8] by simp
qed

lemma slot_parts:
  assumes ok: "circ_ok cc" and len: "8 + k \<le> unat (cc_ele_size cc)"
  shows "range_of (circ_slot cc i) 8 \<subseteq> range_of (cc_buf cc) (circ_bytes cc)"
    and "range_of (circ_slot cc i + 8) k \<subseteq> range_of (cc_buf cc) (circ_bytes cc)"
    and "range_of (circ_slot cc i) (8 + k) \<subseteq> range_of (circ_slot cc i) (unat (cc_ele_size cc))"
proof -
  show 3: "range_of (circ_slot cc i) (8 + k) \<subseteq> range_of (circ_slot cc i) (unat (cc_ele_size cc))"
    using len by (rule range_of_mono)
  have "8 + k \<le> 2 ^ 64" using len unat_lt64 [of "cc_ele_size cc"] by simp
  then have "range_of (circ_slot cc i) (8 + k) = range_of (circ_slot cc i) 8 \<union> range_of (circ_slot cc i + 8) k"
    using range_of_append [of 8 k "circ_slot cc i"] by simp
  then show "range_of (circ_slot cc i) 8 \<subseteq> range_of (cc_buf cc) (circ_bytes cc)"
    "range_of (circ_slot cc i + 8) k \<subseteq> range_of (cc_buf cc) (circ_bytes cc)"
    using 3 circ_slot_in_region [OF ok, of i] by auto
qed

text \<open>The store of one message: size first, data after it, as one write of the slot's first bytes.\<close>

lemma comm_msg_send_eq:
  assumes ok: "circ_ok cc" and len: "8 + unat n \<le> unat (cc_ele_size cc)"
    and out: "range_of (cc_buf cc) (circ_bytes cc) \<inter> range_of src (unat n) = {}"
  shows "comm_msg_send m cc src n =
    Some (mem_write m (circ_slot cc (unat (cc_cnt cc))) (bytes_of 8 n @ mem_read m src (unat n)),
      circbuf_enqu_ed (fst (circbuf_enqu_st cc)))"
proof -
  define slot where "slot = circ_slot cc (unat (cc_cnt cc))"
  note room = slot_room [OF ok len, of "unat (cc_cnt cc)", folded slot_def]
  note parts = slot_parts [OF ok len, of "unat (cc_cnt cc)", folded slot_def]
  have d1: "range_of src (unat n) \<inter> range_of slot (length (bytes_of 8 n)) = {}"
    and d2: "range_of (slot + 8) (unat n) \<inter> range_of src (unat n) = {}"
    using parts out by auto
  have "mem_read (mem_write m slot (bytes_of 8 n)) src (unat n) = mem_read m src (unat n)"
    using unat_lt64 [of n] d1 by (intro mem_read_write_other) simp_all
  then have "memcpy (mem_write m slot (bytes_of 8 n)) (slot + 8) src n
      = Some (mem_write (mem_write m slot (bytes_of 8 n)) (slot + 8) (mem_read m src (unat n)))"
    using memcpy_correct [of "slot + 8" n src "mem_write m slot (bytes_of 8 n)"] room d2 by simp
  moreover have "mem_write (mem_write m slot (bytes_of 8 n)) (slot + 8) (mem_read m src (unat n))
      = mem_write m slot (bytes_of 8 n @ mem_read m src (unat n))"
    using mem_write_append [of "bytes_of 8 n" "mem_read m src (unat n)" m slot] room by simp
  ultimately show ?thesis
    unfolding comm_msg_send_def Let_def case_prod_beta circ_enqu_simps circbuf_enqu_st_tail(2) [OF ok]
      slot_def [symmetric] by simp
qed

lemma comm_msg_send_appends:
  assumes msgs: "circ_msgs_ok m cc" and room: "\<not> circbuf_is_full cc" and len: "8 + unat n \<le> unat (cc_ele_size cc)"
    and out: "range_of (cc_buf cc) (circ_bytes cc) \<inter> range_of src (unat n) = {}"
  shows "\<exists>m' cc'. comm_msg_send m cc src n = Some (m', cc') \<and> circ_msgs_ok m' cc'
    \<and> circ_msgs m' cc' = circ_msgs m cc @ [mem_read m src (unat n)]
    \<and> (\<forall>x. x \<notin> range_of (cc_buf cc) (circ_bytes cc) \<longrightarrow> m' x = m x)"
proof -
  have ok: "circ_ok cc" using msgs by (simp add: circ_msgs_ok_def)
  define slot where "slot = circ_slot cc (unat (cc_cnt cc))"
  define data where "data = mem_read m src (unat n)"
  define m' where "m' = mem_write m slot (bytes_of 8 n @ data)"
  define cc' where "cc' = circbuf_enqu_ed (fst (circbuf_enqu_st cc))"
  note parts = slot_parts [OF ok len, of "unat (cc_cnt cc)", folded slot_def]
  have ldata: "length data = unat n" by (simp add: data_def)
  have bound: "8 + unat n \<le> 2 ^ 64" using len unat_lt64 [of "cc_ele_size cc"] by simp
  have send: "comm_msg_send m cc src n = Some (m', cc')"
    using comm_msg_send_eq [OF ok len out] by (simp add: m'_def cc'_def slot_def data_def)
  have same: "m' x = m x" if "x \<notin> range_of slot (unat (cc_ele_size cc))" for x
    using that parts(3) ldata unfolding m'_def by (intro mem_write_outside) auto
  have "mem_read m' slot (8 + unat n) = bytes_of 8 n @ data"
    unfolding m'_def using bound ldata by (intro mem_read_write_same) simp_all
  then have rd: "mem_read m' slot 8 = bytes_of 8 n" "mem_read m' (slot + 8) (unat n) = data"
    using mem_read_append [of m' slot 8 "unat n"] by simp_all
  have new: "slot_len (mem_read m' slot (unat (cc_ele_size cc))) = n" "slot_msg (mem_read m' slot (unat (cc_ele_size cc))) = data"
    using slot_msg_read [of m' slot "unat (cc_ele_size cc)"] rd len by simp_all
  note enq = circ_enqueue_ok [OF ok room cc'_def, of m' m, folded slot_def, OF same]
  have ele: "cc_ele_size cc' = cc_ele_size cc" by (simp add: cc'_def)
  have "circ_msgs_ok m' cc'" using msgs enq new len ele by (auto simp: circ_msgs_ok_def)
  moreover have "circ_msgs m' cc' = circ_msgs m cc @ [data]" using enq(2) new by (simp add: circ_msgs_def)
  moreover have "m' x = m x" if "x \<notin> range_of (cc_buf cc) (circ_bytes cc)" for x
    using that same circ_slot_in_region [OF ok, of "unat (cc_cnt cc)"] by (auto simp: slot_def)
  ultimately show ?thesis using send by (auto simp: data_def)
qed

lemma circ_contents_outside:
  assumes "circ_ok cc" "\<And>x. x \<in> range_of (cc_buf cc) (circ_bytes cc) \<Longrightarrow> m' x = m x"
  shows "circ_contents m' cc = circ_contents m cc"
proof -
  have "mem_read m' (circ_slot cc i) (unat (cc_ele_size cc)) = mem_read m (circ_slot cc i) (unat (cc_ele_size cc))" for i
    using circ_slot_in_region [OF assms(1), of i] assms(2) unat_lt64 [of "cc_ele_size cc"]
    by (intro mem_read_cong) auto
  then show ?thesis by (simp add: circ_contents_def)
qed

lemma comm_msg_recv_takes:
  assumes msgs: "circ_msgs_ok m cc" and nonempty: "\<not> circbuf_is_empty cc"
    and out: "range_of dst (unat (cc_ele_size cc)) \<inter> range_of (cc_buf cc) (circ_bytes cc) = {}"
    and len: "unat dst + unat (cc_ele_size cc) < 2 ^ 64"
  shows "\<exists>m' cc' n. comm_msg_recv m cc dst = Some (m', cc', n) \<and> circ_msgs_ok m' cc'
    \<and> circ_msgs m cc = mem_read m' dst (unat n) # circ_msgs m' cc'
    \<and> (\<forall>x. x \<notin> range_of dst (unat n) \<longrightarrow> m' x = m x)"
proof -
  have ok: "circ_ok cc" using msgs by (simp add: circ_msgs_ok_def)
  define slot where "slot = circ_slot cc 0"
  define cc' where "cc' = circbuf_dequ_ed (fst (circbuf_dequ_st cc))"
  define n where "n = word_of (mem_read m slot 8)"
  define m' where "m' = mem_write m dst (mem_read m (slot + 8) (unat n))"
  note deq = circ_dequeue_ok [OF ok nonempty cc'_def, folded slot_def]
  have geo: "cc_buf cc' = cc_buf cc" "cc_ele_size cc' = cc_ele_size cc" "circ_bytes cc' = circ_bytes cc"
    by (simp_all add: cc'_def circbuf_dequ_ed_def circbuf_dequ_st_def circ_bytes_def)
  have cont: "circ_contents m cc = mem_read m slot (unat (cc_ele_size cc)) # circ_contents m cc'"
    using deq(2) [of m] deq(3) by simp
  then have "8 + unat (slot_len (mem_read m slot (unat (cc_ele_size cc)))) \<le> unat (cc_ele_size cc)"
    using msgs by (simp add: circ_msgs_ok_def)
  moreover have "8 \<le> unat (cc_ele_size cc)" using calculation by simp
  ultimately have n8: "8 + unat n \<le> unat (cc_ele_size cc)"
    by (simp add: slot_len_def take_mem_read n_def)
  note parts = slot_parts [OF ok n8, of 0, folded slot_def]
  have dst: "range_of dst (unat n) \<inter> range_of (cc_buf cc) (circ_bytes cc) = {}"
    using out range_of_mono [of "unat n" "unat (cc_ele_size cc)" dst] n8 by auto
  then have "memcpy m dst (slot + 8) n = Some m'"
    unfolding m'_def using parts len n8 by (intro memcpy_correct) auto
  then have recv: "comm_msg_recv m cc dst = Some (m', cc', n)"
    using deq(3) by (simp add: comm_msg_recv_def circbuf_dequ_st_def n_def cc'_def slot_def)
  have same: "m' x = m x" if "x \<notin> range_of dst (unat n)" for x
    using that unfolding m'_def by (simp add: mem_write_outside)
  then have "circ_contents m' cc' = circ_contents m cc'"
    using dst geo by (intro circ_contents_outside [OF deq(1)]) auto
  moreover have "mem_read m' dst (unat n) = slot_msg (mem_read m slot (unat (cc_ele_size cc)))"
    using slot_msg_read [of m slot "unat (cc_ele_size cc)"] n8 unat_lt64 [of n]
    by (simp add: n_def [symmetric] m'_def mem_read_write_same)
  ultimately show ?thesis
    using recv same cont msgs deq(1) geo by (auto simp: circ_msgs_def circ_msgs_ok_def)
qed

section \<open>Properties\<close>

text \<open>
  C26 (refinement). The ring buffer refines a bounded first-in first-out queue: for any sequence of
  insertions and removals (those on a full or empty ring being skipped, as its clients do), what
  was in the ring followed by what went in is what came out followed by what is still in, and the
  ring never holds more than its capacity.
\<close>

theorem ring_fifo:
  assumes "circ_ok cc" "\<And>x. Put x \<in> set ops \<Longrightarrow> length x = unat (cc_ele_size cc)"
    "fifo_run (\<lambda>s. circbuf_is_full (snd s)) (\<lambda>s. circbuf_is_empty (snd s)) circ_put circ_get (m, cc) ops = ((m', cc'), ins, outs)"
  shows "circ_contents m cc @ ins = outs @ circ_contents m' cc' \<and> circ_ok cc'
    \<and> length (circ_contents m' cc') \<le> unat (cc_cap cc)"
  using ring.run_fifo [of "(m, cc)" ops "(m', cc')" ins outs] ring.bound [of "(m', cc')"] assms
  by (auto simp: circ_elem_ok_def)

theorem ring_fifo_witness:
  "case fifo_run (\<lambda>s. circbuf_is_full (snd s)) (\<lambda>s. circbuf_is_empty (snd s)) circ_put circ_get
      (\<lambda>_. 0, circbuf_init 0x1000 1 2) [Put [1], Put [2], Put [3], Get, Put [4], Get]
    of ((m', cc'), ins, outs) \<Rightarrow> ins = outs @ circ_contents m' cc'"
proof -
  let ?ops = "[Put [1], Put [2], Put [3], Get, Put [4], Get] :: u8 list fifo_op list"
  obtain m' cc' ins outs where r: "fifo_run (\<lambda>s. circbuf_is_full (snd s)) (\<lambda>s. circbuf_is_empty (snd s)) circ_put circ_get
      (\<lambda>_. 0, circbuf_init 0x1000 1 2) ?ops = ((m', cc'), ins, outs)" by (metis prod.exhaust)
  have ok: "circ_ok (circbuf_init 0x1000 1 2)" "circ_contents (\<lambda>_. 0) (circbuf_init 0x1000 1 2) = []"
    by (intro circ_init_ok; simp)+
  have "length x = unat (cc_ele_size (circbuf_init 0x1000 1 2))" if "Put x \<in> set ?ops" for x
    using that by (auto simp: circbuf_init_def)
  from ring_fifo [OF ok(1) this r] show ?thesis unfolding r ok(2) by simp
qed

end
