(* ===== verification/Kalloc.thy ===== *)
theory Kalloc
  imports Bits
begin

text \<open>
  \<^verbatim>\<open>kern/mm/kalloc.c\<close>: the kernel's buddy allocator. Block headers lie at the start
  of the blocks in a pool of \<open>KALLOCSIZE\<close> bytes and form a linked list in address order. The
  heap is the map from addresses to headers; addresses and block sizes are natural
  numbers (they stay below the end of the pool), the requested size is a
  \<^verbatim>\<open>size_t\<close> whose arithmetic wraps. Walks along the list have fuel; the invariant
  bounds the number of blocks, so that the fuel given is enough.
\<close>

section \<open>The code\<close>

definition PGSIZE :: nat where [layout_simps]: "PGSIZE = 4096"
definition KALLOCSIZE :: nat where [layout_simps]: "KALLOCSIZE = 524288"
definition KALLOC_MIN_SIZE :: nat where [layout_simps]: "KALLOC_MIN_SIZE = 32"
definition KALLOC_MAX_SIZE :: nat where [layout_simps]: "KALLOC_MAX_SIZE = 32768"
definition BUDDY_HDR :: nat where [layout_simps]: "BUDDY_HDR = 32"

datatype buddy_block_state_t = FREE | USED

record buddy_block =
  b_size :: nat
  b_state :: buddy_block_state_t
  b_next :: "nat option"
  b_prev :: "nat option"

record kheap =
  kalloc_pool :: nat
  kalloc_block_list :: "nat option"
  hdr :: "nat \<Rightarrow> buddy_block"

definition set_hdr :: "kheap \<Rightarrow> nat \<Rightarrow> (buddy_block \<Rightarrow> buddy_block) \<Rightarrow> kheap" where
  "set_hdr hp a f = hp\<lparr>hdr := (hdr hp)(a := f (hdr hp a))\<rparr>"

definition get_buddy :: "kheap \<Rightarrow> nat \<Rightarrow> nat option" where
  "get_buddy hp block =
     (if b_size (hdr hp block) = KALLOC_MAX_SIZE then None
      else if block mod (b_size (hdr hp block) * 2) = 0 then Some (block + b_size (hdr hp block))
      else Some (block - b_size (hdr hp block)))"

definition kalloc_init :: "kheap \<Rightarrow> kheap" where
  "kalloc_init hp =
     (set_hdr hp (kalloc_pool hp) (\<lambda>_. \<lparr>b_size = KALLOCSIZE, b_state = FREE, b_next = None, b_prev = None\<rparr>))
       \<lparr>kalloc_block_list := Some (kalloc_pool hp)\<rparr>"

definition KALLOC_FUEL :: nat where "KALLOC_FUEL = Suc KALLOCSIZE"

fun kalloc_sum_used :: "nat \<Rightarrow> kheap \<Rightarrow> nat option \<Rightarrow> nat \<Rightarrow> nat option" where
  "kalloc_sum_used fuel hp None used = Some used"
| "kalloc_sum_used 0 hp (Some block) used = None"
| "kalloc_sum_used (Suc fuel) hp (Some block) used =
     kalloc_sum_used fuel hp (b_next (hdr hp block))
       (if b_state (hdr hp block) = USED then used + b_size (hdr hp block) else used)"

definition kalloc_get_used :: "kheap \<Rightarrow> nat option" where
  "kalloc_get_used hp = kalloc_sum_used KALLOC_FUEL hp (kalloc_block_list hp) 0"

text \<open>First fit. The outer option is the fuel, the inner one the block found.\<close>

fun kalloc_find :: "nat \<Rightarrow> kheap \<Rightarrow> nat option \<Rightarrow> nat \<Rightarrow> nat option option" where
  "kalloc_find fuel hp None sz = Some None"
| "kalloc_find 0 hp (Some block) sz = None"
| "kalloc_find (Suc fuel) hp (Some block) sz =
     (if b_state (hdr hp block) = FREE \<and> b_size (hdr hp block) \<ge> sz then Some (Some block)
      else kalloc_find fuel hp (b_next (hdr hp block)) sz)"

text \<open>One turn of the splitting loop.\<close>

definition kalloc_halve :: "kheap \<Rightarrow> nat \<Rightarrow> kheap" where
  "kalloc_halve hp block =
     (let half = b_size (hdr hp block) div 2;
          new_block = block + half;
          next = b_next (hdr hp block);
          hp1 = set_hdr hp new_block (\<lambda>_. \<lparr>b_size = half, b_state = FREE, b_next = next, b_prev = Some block\<rparr>);
          hp2 = (case next of Some n \<Rightarrow> set_hdr hp1 n (b_prev_update (\<lambda>_. Some new_block)) | None \<Rightarrow> hp1)
      in set_hdr hp2 block (\<lambda>b. b\<lparr>b_next := Some new_block, b_size := half\<rparr>))"

fun kalloc_split :: "nat \<Rightarrow> kheap \<Rightarrow> nat \<Rightarrow> nat \<Rightarrow> kheap option" where
  "kalloc_split 0 hp block sz = None"
| "kalloc_split (Suc fuel) hp block sz =
     (if b_size (hdr hp block) div 2 \<ge> sz then kalloc_split fuel (kalloc_halve hp block) block sz
      else Some hp)"

definition kalloc_size :: "u64 \<Rightarrow> u64" where
  "kalloc_size sz =
     (let sz = (if sz < of_nat KALLOC_MIN_SIZE then of_nat KALLOC_MIN_SIZE else sz)
      in align_up sz 8 + of_nat BUDDY_HDR)"

definition kalloc :: "kheap \<Rightarrow> u64 \<Rightarrow> (kheap \<times> nat option) option" where
  "kalloc hp sz =
     (let n = unat (kalloc_size sz)
      in if n > KALLOC_MAX_SIZE then Some (hp, None)
         else case kalloc_find KALLOC_FUEL hp (kalloc_block_list hp) n of
             None \<Rightarrow> None
           | Some None \<Rightarrow> Some (hp, None)
           | Some (Some block) \<Rightarrow>
               map_option (\<lambda>hp'. (hp', Some (block + BUDDY_HDR)))
                 (kalloc_split KALLOC_FUEL (set_hdr hp block (b_state_update (\<lambda>_. USED))) block n))"

text \<open>One turn of the merging loop, with the block and its buddy.\<close>

definition kfree_join :: "kheap \<Rightarrow> nat \<Rightarrow> nat \<Rightarrow> kheap \<times> nat" where
  "kfree_join hp block buddy =
     (let merged = (if buddy < block then buddy else block);
          other = (if buddy < block then block else buddy);
          next = b_next (hdr hp other);
          hp1 = set_hdr hp merged (\<lambda>b. b\<lparr>b_size := b_size b * 2, b_next := next\<rparr>);
          hp2 = (case next of Some n \<Rightarrow> set_hdr hp1 n (b_prev_update (\<lambda>_. Some merged)) | None \<Rightarrow> hp1)
      in (hp2, merged))"

fun kfree_merge :: "nat \<Rightarrow> kheap \<Rightarrow> nat \<Rightarrow> kheap option" where
  "kfree_merge 0 hp block = None"
| "kfree_merge (Suc fuel) hp block =
     (case get_buddy hp block of
        None \<Rightarrow> Some hp
      | Some buddy \<Rightarrow>
          if b_state (hdr hp buddy) = FREE \<and> b_size (hdr hp buddy) = b_size (hdr hp block)
          then let (hp', block') = kfree_join hp block buddy in kfree_merge fuel hp' block'
          else Some hp)"

definition kfree :: "kheap \<Rightarrow> nat \<Rightarrow> kheap result option" where
  "kfree hp ptr =
     (let block = ptr - BUDDY_HDR
      in if ptr \<ge> kalloc_pool hp \<and> ptr < kalloc_pool hp + KALLOCSIZE \<and> b_state (hdr hp block) \<noteq> FREE
         then map_option OK (kfree_merge KALLOC_FUEL (set_hdr hp block (b_state_update (\<lambda>_. FREE))) block)
         else Some PANIC)"

section \<open>The pool as a sequence of tiles\<close>

type_synonym tile = "nat \<times> buddy_block_state_t"

text \<open>
  A tile at offset \<open>o\<close> of the pool: a power of two between the smallest and the whole pool,
  aligned to itself, and within the largest size when in use.
\<close>

definition tile_ok :: "nat \<Rightarrow> tile \<Rightarrow> bool" where
  "tile_ok off t \<longleftrightarrow> (\<exists>k. 6 \<le> k \<and> k \<le> 19 \<and> fst t = 2 ^ k) \<and> off mod fst t = 0
     \<and> (snd t = USED \<longrightarrow> fst t \<le> KALLOC_MAX_SIZE)"

fun tiles_ok :: "nat \<Rightarrow> tile list \<Rightarrow> bool" where
  "tiles_ok off [] = True"
| "tiles_ok off (t # ts) = (tile_ok off t \<and> tiles_ok (off + fst t) ts)"

fun span :: "tile list \<Rightarrow> nat" where
  "span [] = 0"
| "span (t # ts) = fst t + span ts"

text \<open>The list of headers from \<open>p\<close> to \<open>q\<close> is the tiles \<open>ts\<close>, the first at address \<open>a\<close>.\<close>

fun kseg :: "kheap \<Rightarrow> nat option \<Rightarrow> nat \<Rightarrow> tile list \<Rightarrow> nat option \<Rightarrow> bool" where
  "kseg hp p a [] q = (p = q)"
| "kseg hp p a (t # ts) q =
     (p = Some a \<and> b_size (hdr hp a) = fst t \<and> b_state (hdr hp a) = snd t
      \<and> kseg hp (b_next (hdr hp a)) (a + fst t) ts q)"

definition kheap_rep :: "kheap \<Rightarrow> tile list \<Rightarrow> bool" where
  "kheap_rep hp ts \<longleftrightarrow> kseg hp (kalloc_block_list hp) (kalloc_pool hp) ts None \<and> tiles_ok 0 ts
     \<and> span ts = KALLOCSIZE \<and> kalloc_pool hp mod KALLOC_MAX_SIZE = 0"

definition kheap_ok :: "kheap \<Rightarrow> bool" where
  "kheap_ok hp \<longleftrightarrow> (\<exists>ts. kheap_rep hp ts)"

text \<open>The blocks in use, as address and size.\<close>

fun used_from :: "nat \<Rightarrow> tile list \<Rightarrow> (nat \<times> nat) set" where
  "used_from a [] = {}"
| "used_from a (t # ts) = (if snd t = USED then {(a, fst t)} else {}) \<union> used_from (a + fst t) ts"

lemma span_append [simp]: "span (xs @ ys) = span xs + span ys"
  by (induction xs) auto

lemma kseg_append: "kseg hp p a (xs @ ys) q \<longleftrightarrow> (\<exists>r. kseg hp p a xs r \<and> kseg hp r (a + span xs) ys q)"
  by (induction xs arbitrary: p a) (auto simp: add.assoc)

lemma used_from_append: "used_from a (xs @ ys) = used_from a xs \<union> used_from (a + span xs) ys"
  by (induction xs arbitrary: a) (auto simp: add.assoc)

lemma tiles_ok_append: "tiles_ok off (xs @ ys) \<longleftrightarrow> tiles_ok off xs \<and> tiles_ok (off + span xs) ys"
  by (induction xs arbitrary: off) (auto simp: add.assoc)

lemma tile_ok_pos: "tile_ok off t \<Longrightarrow> 64 \<le> fst t"
proof -
  assume "tile_ok off t"
  then obtain k where "6 \<le> k" "fst t = 2 ^ k" by (auto simp: tile_ok_def)
  then show ?thesis using power_increasing [of 6 k "2 :: nat"] by simp
qed

lemma tiles_ok_length: "tiles_ok off ts \<Longrightarrow> length ts \<le> span ts"
proof (induction ts arbitrary: off)
  case (Cons t ts)
  then have "length ts \<le> span ts" "64 \<le> fst t" using tile_ok_pos [of off t] by auto
  then show ?case by simp
qed simp

lemma tiles_ok_pos: "tiles_ok off ts \<Longrightarrow> t \<in> set ts \<Longrightarrow> 0 < fst t"
  using tile_ok_pos by (induction ts arbitrary: off) fastforce+

text \<open>Headers that a list does not pass through do not matter to it.\<close>

lemma kseg_cong:
  assumes "kseg hp p a ts q"
    and "\<And>x. a \<le> x \<Longrightarrow> x < a + span ts \<Longrightarrow> b_size (hdr hp' x) = b_size (hdr hp x)
      \<and> b_state (hdr hp' x) = b_state (hdr hp x) \<and> b_next (hdr hp' x) = b_next (hdr hp x)"
    and "\<And>t. t \<in> set ts \<Longrightarrow> 0 < fst t"
  shows "kseg hp' p a ts q"
  using assms
proof (induction ts arbitrary: p a)
  case (Cons t ts)
  have "0 < fst t" using Cons.prems(3) by simp
  then have "b_size (hdr hp' a) = b_size (hdr hp a)" "b_state (hdr hp' a) = b_state (hdr hp a)" "b_next (hdr hp' a) = b_next (hdr hp a)"
    using Cons.prems(2) [of a] by (auto simp: add.assoc)
  moreover have "kseg hp' (b_next (hdr hp a)) (a + fst t) ts q"
    using Cons.prems by (intro Cons.IH) (auto simp: add.assoc)
  ultimately show ?case using Cons.prems(1) by simp
qed simp

lemma kseg_first: "kseg hp p a ts q \<Longrightarrow> ts \<noteq> [] \<Longrightarrow> p = Some a"
  by (cases ts) auto

text \<open>Replacing the tiles in the middle of the list, when the headers around them keep their links.\<close>

lemma kseg_replace:
  assumes rep: "kseg hp p a (pre @ mid @ post) None" and ok: "tiles_ok off (pre @ mid @ post)"
    and mid: "span mid' = span mid" "kseg hp' (Some (a + span pre)) (a + span pre) mid' (if post = [] then None else Some (a + span pre + span mid))"
    and keep: "\<And>x. x < a + span pre \<or> a + span pre + span mid \<le> x \<Longrightarrow> b_size (hdr hp' x) = b_size (hdr hp x)
      \<and> b_state (hdr hp' x) = b_state (hdr hp x) \<and> b_next (hdr hp' x) = b_next (hdr hp x)"
    and ne: "mid \<noteq> []"
  shows "kseg hp' p a (pre @ mid' @ post) None"
proof -
  have pos: "0 < fst t" if "t \<in> set (pre @ mid @ post)" for t using tiles_ok_pos [OF ok that] .
  obtain r s where 1: "kseg hp p a pre r" "kseg hp r (a + span pre) mid s" "kseg hp s (a + span pre + span mid) post None"
    using rep by (auto simp: kseg_append)
  have r: "r = Some (a + span pre)" using kseg_first [OF 1(2) ne] .
  have s: "s = (if post = [] then None else Some (a + span pre + span mid))"
    using kseg_first [OF 1(3)] 1(3) by (cases post) auto
  have "kseg hp' p a pre r" using 1(1) keep pos by (intro kseg_cong [OF 1(1)]) auto
  moreover have "kseg hp' s (a + span pre + span mid) post None"
    using keep pos by (intro kseg_cong [OF 1(3)]) auto
  ultimately show ?thesis using mid r s by (auto simp: kseg_append)
qed

lemma kseg_at:
  assumes "kseg hp p a (pre @ t # post) None"
  shows "b_size (hdr hp (a + span pre)) = fst t" "b_state (hdr hp (a + span pre)) = snd t"
    "b_next (hdr hp (a + span pre)) = (if post = [] then None else Some (a + span pre + fst t))"
proof -
  obtain r where r: "kseg hp r (a + span pre) (t # post) None" using assms by (auto simp: kseg_append)
  then show "b_size (hdr hp (a + span pre)) = fst t" "b_state (hdr hp (a + span pre)) = snd t" by auto
  show "b_next (hdr hp (a + span pre)) = (if post = [] then None else Some (a + span pre + fst t))"
    using r by (cases post) auto
qed

section \<open>Splitting\<close>

lemma set_hdr_simps [simp]:
  "hdr (set_hdr hp a f) x = (if x = a then f (hdr hp a) else hdr hp x)"
  "kalloc_pool (set_hdr hp a f) = kalloc_pool hp" "kalloc_block_list (set_hdr hp a f) = kalloc_block_list hp"
  by (simp_all add: set_hdr_def)

lemma halve_hdr:
  assumes "b_next (hdr hp b) = n" "half = b_size (hdr hp b) div 2" "0 < half" "\<And>k. n = Some k \<Longrightarrow> b + half < k"
  shows "b_size (hdr (kalloc_halve hp b) x) = (if x = b \<or> x = b + half then half else b_size (hdr hp x))"
    and "b_state (hdr (kalloc_halve hp b) x) = (if x = b + half then FREE else b_state (hdr hp x))"
    and "b_next (hdr (kalloc_halve hp b) x) = (if x = b then Some (b + half) else if x = b + half then n else b_next (hdr hp x))"
    and "kalloc_pool (kalloc_halve hp b) = kalloc_pool hp" "kalloc_block_list (kalloc_halve hp b) = kalloc_block_list hp"
  using assms by (auto simp: kalloc_halve_def Let_def split: option.splits)

lemma tile_ok_halve:
  assumes "tile_ok off (s, st)" "64 \<le> s div 2" "st' = USED \<longrightarrow> s div 2 \<le> KALLOC_MAX_SIZE"
  shows "tile_ok off (s div 2, st')" "tile_ok (off + s div 2) (s div 2, FREE)" "s = s div 2 + s div 2"
proof -
  obtain k where k: "6 \<le> k" "k \<le> 19" "s = 2 ^ k" "off mod s = 0" using assms(1) by (auto simp: tile_ok_def)
  have "6 \<noteq> k" using assms(2) k by auto
  then obtain j where j: "k = Suc j" "6 \<le> j" using k(1) by (cases k) auto
  then have half: "s div 2 = 2 ^ j" "s = 2 * 2 ^ j" using k by simp_all
  then have "off mod 2 ^ j = 0" using k(4) by (metis dvd_imp_mod_0 dvd_mult_right mod_0_imp_dvd)
  then show "tile_ok off (s div 2, st')" "tile_ok (off + s div 2) (s div 2, FREE)" "s = s div 2 + s div 2"
    using half j k(2) assms(3) by (auto simp: tile_ok_def intro!: exI [of _ j])
qed

lemma kalloc_halve_kseg:
  assumes rep: "kseg hp p a (pre @ (s, USED) # post) None" and ok: "tiles_ok off (pre @ (s, FREE) # post)"
    and s: "64 \<le> s div 2"
  shows "kseg (kalloc_halve hp (a + span pre)) p a (pre @ (s div 2, USED) # (s div 2, FREE) # post) None"
    and "tiles_ok off (pre @ (s div 2, FREE) # (s div 2, FREE) # post)"
proof -
  let ?b = "a + span pre" and ?h = "s div 2"
  have t: "tile_ok (off + span pre) (s, FREE)" using ok by (simp add: tiles_ok_append)
  note half = tile_ok_halve [OF t s, of FREE, simplified]
  show "tiles_ok off (pre @ (?h, FREE) # (?h, FREE) # post)"
    using ok half by (simp add: tiles_ok_append add.assoc)
  have at: "b_size (hdr hp ?b) = s" "b_state (hdr hp ?b) = USED" using kseg_at [OF rep] by simp_all
  define N where "N = (if post = [] then None else Some (?b + s))"
  have nx: "b_next (hdr hp ?b) = N" using kseg_at(3) [OF rep] by (simp add: N_def)
  have hs: "?h = b_size (hdr hp ?b) div 2" using at by simp
  have h0: "0 < ?h" using s by simp
  have lt: "?b + ?h < k" if "N = Some k" for k
    using that half(3) h0 by (auto simp: N_def split: if_splits)
  note H = halve_hdr [OF nx hs h0 lt]
  have pos: "\<And>t. t \<in> set (pre @ [(s, FREE)] @ post) \<Longrightarrow> 0 < fst t" using tiles_ok_pos [OF ok] by simp
  have keep: "b_size (hdr (kalloc_halve hp ?b) x) = b_size (hdr hp x) \<and> b_state (hdr (kalloc_halve hp ?b) x) = b_state (hdr hp x)
      \<and> b_next (hdr (kalloc_halve hp ?b) x) = b_next (hdr hp x)" if "x < ?b \<or> ?b + s \<le> x" for x
  proof -
    have "x \<noteq> ?b" "x \<noteq> ?b + ?h" using that half(3) h0 by auto
    then show ?thesis using H(1-3) by simp
  qed
  have mid: "kseg (kalloc_halve hp ?b) (Some ?b) ?b [(?h, USED), (?h, FREE)] N"
    using H(1-3) at h0 by simp
  obtain r q where 1: "kseg hp p a pre r" "kseg hp r ?b [(s, USED)] q" "kseg hp q (?b + s) post None"
    using rep by (auto simp: kseg_append)
  have q: "q = N" using 1(2) nx by auto
  have "kseg (kalloc_halve hp ?b) p a pre r" using 1(1) keep pos by (intro kseg_cong [OF 1(1)]) auto
  moreover have "kseg (kalloc_halve hp ?b) q (?b + s) post None" using keep pos by (intro kseg_cong [OF 1(3)]) auto
  moreover have "r = Some ?b" using 1(2) by simp
  ultimately show "kseg (kalloc_halve hp ?b) p a (pre @ (?h, USED) # (?h, FREE) # post) None"
    using mid q half(3) by (auto simp: kseg_append add.assoc)
qed

lemma tile_ok_USED:
  assumes "tile_ok off (s, FREE)" "s div 2 < n" "n \<le> KALLOC_MAX_SIZE"
  shows "tile_ok off (s, USED)"
proof -
  obtain k where k: "6 \<le> k" "k \<le> 19" "s = 2 ^ k" using assms(1) by (auto simp: tile_ok_def)
  obtain j where j: "k = Suc j" using k(1) by (cases k) auto
  then have "(2 :: nat) ^ j < 2 ^ 15" using assms(2,3) k by (simp add: KALLOC_MAX_SIZE_def)
  then have "j < 15" by (simp only: power_strict_increasing_iff)
  then have "(2 :: nat) ^ k \<le> 2 ^ 15" using j by (intro power_increasing) auto
  then show ?thesis using assms(1) k by (auto simp: tile_ok_def KALLOC_MAX_SIZE_def)
qed

lemma kalloc_split_kseg:
  assumes "kseg hp p a (pre @ (s, USED) # post) None" "tiles_ok off (pre @ (s, FREE) # post)"
    and "64 \<le> n" "n \<le> s" "n \<le> KALLOC_MAX_SIZE" "s < fuel"
  shows "\<exists>hp' s' rest. kalloc_split fuel hp (a + span pre) n = Some hp'
    \<and> kseg hp' p a (pre @ (s', USED) # rest @ post) None \<and> tiles_ok off (pre @ (s', USED) # rest @ post)
    \<and> s' + span rest = s \<and> (\<forall>t \<in> set rest. snd t = FREE) \<and> n \<le> s'
    \<and> kalloc_pool hp' = kalloc_pool hp \<and> kalloc_block_list hp' = kalloc_block_list hp"
  using assms
proof (induction fuel arbitrary: hp s post)
  case (Suc fuel)
  let ?b = "a + span pre"
  have size: "b_size (hdr hp ?b) = s" using kseg_at [OF Suc.prems(1)] by simp
  show ?case
  proof (cases "n \<le> s div 2")
    case False
    have "tile_ok (off + span pre) (s, FREE)" using Suc.prems(2) by (simp add: tiles_ok_append)
    then have "tile_ok (off + span pre) (s, USED)" using tile_ok_USED [of _ s n] False Suc.prems(5) by simp
    then have "tiles_ok off (pre @ (s, USED) # post)" using Suc.prems(2) by (simp add: tiles_ok_append)
    then show ?thesis using False size Suc.prems by (intro exI [of _ hp] exI [of _ s] exI [of _ "[]"]) simp
  next
    case True
    have half: "64 \<le> s div 2" using True Suc.prems(3) by simp
    note K = kalloc_halve_kseg [OF Suc.prems(1,2) half]
    have geo: "kalloc_pool (kalloc_halve hp ?b) = kalloc_pool hp" "kalloc_block_list (kalloc_halve hp ?b) = kalloc_block_list hp"
      by (simp_all add: kalloc_halve_def Let_def split: option.splits)
    have "s div 2 < fuel" using Suc.prems(6) half by simp
    then obtain hp' s' rest where IH: "kalloc_split fuel (kalloc_halve hp ?b) ?b n = Some hp'"
      "kseg hp' p a (pre @ (s', USED) # rest @ (s div 2, FREE) # post) None"
      "tiles_ok off (pre @ (s', USED) # rest @ (s div 2, FREE) # post)" "s' + span rest = s div 2"
      "\<forall>t \<in> set rest. snd t = FREE" "n \<le> s'" "kalloc_pool hp' = kalloc_pool hp" "kalloc_block_list hp' = kalloc_block_list hp"
      using Suc.IH [OF K Suc.prems(3) True Suc.prems(5)] geo by auto
    have "s = s div 2 + s div 2"
      using tile_ok_halve(3) [of "off + span pre" s FREE FREE] Suc.prems(2) half by (simp add: tiles_ok_append)
    then show ?thesis
      using IH True size by (intro exI [of _ hp'] exI [of _ s'] exI [of _ "rest @ [(s div 2, FREE)]"]) auto
  qed
qed simp

section \<open>First fit\<close>

lemma kalloc_find_kseg:
  assumes "kseg hp p a ts None" "length ts \<le> fuel"
  shows "(\<exists>pre s post. ts = pre @ (s, FREE) # post \<and> n \<le> s \<and> kalloc_find fuel hp p n = Some (Some (a + span pre)))
    \<or> ((\<forall>t \<in> set ts. \<not> (snd t = FREE \<and> n \<le> fst t)) \<and> kalloc_find fuel hp p n = Some None)"
  using assms
proof (induction ts arbitrary: p a fuel)
  case (Cons t ts)
  obtain f where f: "fuel = Suc f" "length ts \<le> f" using Cons.prems(2) by (cases fuel) auto
  obtain s st where t: "t = (s, st)" by fastforce
  show ?case
  proof (cases "st = FREE \<and> n \<le> s")
    case True
    then show ?thesis using Cons.prems f t by (intro disjI1 exI [of _ "[]"]) auto
  next
    case False
    then have "kalloc_find fuel hp p n = kalloc_find f hp (b_next (hdr hp a)) n" using Cons.prems f t by auto
    moreover have "kseg hp (b_next (hdr hp a)) (a + s) ts None" using Cons.prems t by simp
    note Cons.IH [OF this f(2)]
    moreover have "a + s + span pre = a + span (t # pre)" for pre using t by simp
    ultimately show ?thesis using False t by (metis Cons_eq_appendI fst_conv set_ConsD snd_conv)
  qed
qed simp

section \<open>Buddies\<close>

lemma tile_cover:
  "x < span ts \<Longrightarrow> \<exists>pre t post. ts = pre @ t # post \<and> span pre \<le> x \<and> x < span pre + fst t"
proof (induction ts arbitrary: x)
  case (Cons t ts)
  show ?case
  proof (cases "x < fst t")
    case True
    then show ?thesis by (intro exI [of _ "[]"]) auto
  next
    case False
    then have "x - fst t < span ts" using Cons.prems by simp
    then obtain pre u post where "ts = pre @ u # post" "span pre \<le> x - fst t" "x - fst t < span pre + fst u"
      using Cons.IH [of "x - fst t"] by blast
    then show ?thesis using False by (intro exI [of _ "t # pre"] exI [of _ u] exI [of _ post]) auto
  qed
qed simp

lemma aligned_gap:
  assumes "(d :: nat) dvd x" "d dvd y" "x < y"
  shows "x + d \<le> y"
proof -
  obtain i j where "x = d * i" "y = d * j" using assms(1,2) by (auto elim!: dvdE)
  then have "i < j" using assms(3) by auto
  then have "d * Suc i \<le> d * j" by (intro mult_le_mono2) simp
  then show ?thesis using \<open>x = d * i\<close> \<open>y = d * j\<close> by simp
qed

text \<open>The buddy of a right half starts a tile: no tile straddles it.\<close>

lemma buddy_is_tile:
  assumes ok: "tiles_ok 0 (pre @ (s, st) # post)" and right: "span pre mod (s * 2) = s"
  shows "\<exists>pre1 t pre2. pre = pre1 @ t # pre2 \<and> span pre1 = span pre - s"
proof -
  have s: "tile_ok (span pre) (s, st)" using ok by (simp add: tiles_ok_append)
  then obtain k where k: "s = 2 ^ k" by (auto simp: tile_ok_def)
  have s0: "0 < s" "s \<le> span pre" using right k mod_less_eq_dividend [of "span pre" "s * 2"] by simp_all
  define b where "b = span pre - s"
  have b: "span pre = b + s" "s * 2 dvd b"
    using right s0 dvd_minus_mod [of "s * 2" "span pre"] unfolding b_def by simp_all
  have "b < span pre" using b s0 by simp
  then obtain pre1 t pre2 where t: "pre = pre1 @ t # pre2" "span pre1 \<le> b" "b < span pre1 + fst t"
    using tile_cover by blast
  have tok: "tile_ok (span pre1) t" using ok t(1) by (simp add: tiles_ok_append)
  then obtain j where j: "fst t = 2 ^ j" "fst t dvd span pre1" by (auto simp: tile_ok_def mod_0_imp_dvd)
  have le: "span pre1 + fst t \<le> b + s" using t(1) b(1) by simp
  have "\<not> span pre1 < b"
  proof (cases "j \<le> k")
    case True
    then have "fst t dvd b" using b(2) j(1) k by (metis dvd_mult_left dvd_trans le_imp_power_dvd)
    then show ?thesis using aligned_gap [OF j(2), of b] t(3) by auto
  next
    case False
    then have "s * 2 dvd fst t" using j(1) k by (metis Suc_leI le_imp_power_dvd not_less power_Suc2)
    then have "s * 2 dvd span pre1 + fst t" using j(2) by (meson dvd_add dvd_trans dvd_refl)
    then have "b + s * 2 \<le> span pre1 + fst t" using aligned_gap [OF b(2)] t(3) by blast
    then show ?thesis using le s0 by simp
  qed
  then have "span pre1 = span pre - s" using t(2) b_def by simp
  then show ?thesis using t(1) by blast
qed

text \<open>A left half is followed by another tile.\<close>

lemma buddy_follows:
  assumes ok: "tiles_ok 0 (pre @ (s, st) # post)" and all: "span (pre @ (s, st) # post) = KALLOCSIZE"
    and left: "span pre mod (s * 2) = 0" and small: "s \<noteq> KALLOC_MAX_SIZE" "s \<le> KALLOC_MAX_SIZE"
  shows "post \<noteq> []"
proof
  assume "post = []"
  then have e: "span pre + s = 2 ^ 19" using all by (simp add: KALLOCSIZE_def)
  obtain k where k: "s = 2 ^ k" using ok by (auto simp: tile_ok_def tiles_ok_append)
  have "(2 :: nat) ^ k < 2 ^ 15" using small k by (simp add: KALLOC_MAX_SIZE_def)
  then have "k < 15" by (simp only: power_strict_increasing_iff)
  then have "s * 2 dvd 2 ^ 19" using k le_imp_power_dvd [of "Suc k" 19 "2 :: nat"] by (simp add: mult.commute)
  then have "s * 2 dvd span pre + s" using e by simp
  then have "s * 2 dvd s" using left by (simp add: mod_0_imp_dvd dvd_add_right_iff)
  then show False using k by (auto dest: dvd_imp_le)
qed

lemma tile_ok_double:
  assumes "tile_ok off (s, st)" "off mod (s * 2) = 0" "s \<noteq> KALLOC_MAX_SIZE" "s \<le> KALLOC_MAX_SIZE"
  shows "tile_ok off (s * 2, FREE)" "s * 2 \<le> KALLOC_MAX_SIZE"
proof -
  obtain k where k: "6 \<le> k" "s = 2 ^ k" using assms(1) by (auto simp: tile_ok_def)
  have "(2 :: nat) ^ k < 2 ^ 15" using assms(3,4) k by (simp add: KALLOC_MAX_SIZE_def)
  then have "k < 15" by (simp only: power_strict_increasing_iff)
  moreover from this have "(2 :: nat) ^ Suc k \<le> 2 ^ 15" by (intro power_increasing) auto
  ultimately show "tile_ok off (s * 2, FREE)" "s * 2 \<le> KALLOC_MAX_SIZE"
    using k assms(2) by (auto simp: tile_ok_def KALLOC_MAX_SIZE_def mult.commute intro!: exI [of _ "Suc k"])
qed

section \<open>Merging\<close>

lemma join_hdr:
  assumes "lo < hi" "b_next (hdr hp hi) = n" "\<And>k. n = Some k \<Longrightarrow> hi < k"
    and "{block, buddy} = {lo, hi}"
  shows "snd (kfree_join hp block buddy) = lo"
    and "b_size (hdr (fst (kfree_join hp block buddy)) x) = (if x = lo then b_size (hdr hp lo) * 2 else b_size (hdr hp x))"
    and "b_state (hdr (fst (kfree_join hp block buddy)) x) = b_state (hdr hp x)"
    and "b_next (hdr (fst (kfree_join hp block buddy)) x) = (if x = lo then n else b_next (hdr hp x))"
    and "kalloc_pool (fst (kfree_join hp block buddy)) = kalloc_pool hp"
    and "kalloc_block_list (fst (kfree_join hp block buddy)) = kalloc_block_list hp"
proof -
  have "block = lo \<and> buddy = hi \<or> block = hi \<and> buddy = lo" using assms(4) by (auto simp: doubleton_eq_iff)
  then have "(if buddy < block then buddy else block) = lo" "(if buddy < block then block else buddy) = hi"
    using assms(1) by auto
  then show "snd (kfree_join hp block buddy) = lo"
    "b_size (hdr (fst (kfree_join hp block buddy)) x) = (if x = lo then b_size (hdr hp lo) * 2 else b_size (hdr hp x))"
    "b_state (hdr (fst (kfree_join hp block buddy)) x) = b_state (hdr hp x)"
    "b_next (hdr (fst (kfree_join hp block buddy)) x) = (if x = lo then n else b_next (hdr hp x))"
    "kalloc_pool (fst (kfree_join hp block buddy)) = kalloc_pool hp"
    "kalloc_block_list (fst (kfree_join hp block buddy)) = kalloc_block_list hp"
    using assms(1-3) by (auto simp: kfree_join_def Let_def split: option.splits)
qed

lemma kfree_join_kseg:
  assumes rep: "kseg hp p a (pre @ (s, FREE) # (s, FREE) # post) None"
    and ok: "tiles_ok off (pre @ (s, FREE) # (s, FREE) # post)"
    and bb: "{block, buddy} = {a + span pre, a + span pre + s}"
  shows "kseg (fst (kfree_join hp block buddy)) p a (pre @ (s * 2, FREE) # post) None"
    and "snd (kfree_join hp block buddy) = a + span pre"
    and "kalloc_pool (fst (kfree_join hp block buddy)) = kalloc_pool hp"
    and "kalloc_block_list (fst (kfree_join hp block buddy)) = kalloc_block_list hp"
proof -
  let ?b = "a + span pre" and ?hp = "fst (kfree_join hp block buddy)"
  have pos: "0 < fst t" if "t \<in> set (pre @ [(s, FREE), (s, FREE)] @ post)" for t
    using tiles_ok_pos [OF ok] that by simp
  have s0: "0 < s" using pos [of "(s, FREE)"] by simp
  define N where "N = (if post = [] then None else Some (?b + s + s))"
  have nx: "b_next (hdr hp (?b + s)) = N"
    using kseg_at(3) [of hp p a "pre @ [(s, FREE)]" "(s, FREE)" post] rep by (simp add: N_def add.assoc)
  have lo: "b_size (hdr hp ?b) = s" "b_state (hdr hp ?b) = FREE" using kseg_at [OF rep] by simp_all
  have "N = Some k \<Longrightarrow> ?b + s < k" for k using s0 by (auto simp: N_def split: if_splits)
  note J = join_hdr [OF _ nx this bb, unfolded lo]
  have lt: "?b < ?b + s" using s0 by simp
  show "snd (kfree_join hp block buddy) = ?b" "kalloc_pool ?hp = kalloc_pool hp" "kalloc_block_list ?hp = kalloc_block_list hp"
    using J(1,5,6) [OF lt] by simp_all
  have keep: "b_size (hdr ?hp x) = b_size (hdr hp x) \<and> b_state (hdr ?hp x) = b_state (hdr hp x)
      \<and> b_next (hdr ?hp x) = b_next (hdr hp x)" if "x \<noteq> ?b" for x
    using J(2-4) [OF lt, of x] that by simp
  obtain r q where 1: "kseg hp p a pre r" "kseg hp r ?b [(s, FREE), (s, FREE)] q" "kseg hp q (?b + s + s) post None"
    using rep by (auto simp: kseg_append add.assoc)
  have "kseg ?hp p a pre r" using keep pos by (intro kseg_cong [OF 1(1)]) auto
  moreover have "kseg ?hp q (?b + s + s) post None" using keep pos s0 by (intro kseg_cong [OF 1(3)]) auto
  moreover have "r = Some ?b" "q = N" using 1(2) nx by auto
  moreover have "kseg ?hp (Some ?b) ?b [(s * 2, FREE)] N" using J(2-4) [OF lt, of ?b] lo by simp
  ultimately show "kseg ?hp p a (pre @ (s * 2, FREE) # post) None"
    by (auto simp: kseg_append mult_2_right add.assoc)
qed

text \<open>Each turn of the merging loop keeps the tiling and the blocks in use.\<close>

lemma kfree_merge_kseg:
  assumes "kseg hp p a (pre @ (s, FREE) # post) None" "tiles_ok 0 (pre @ (s, FREE) # post)"
    and "span (pre @ (s, FREE) # post) = KALLOCSIZE" "a mod KALLOC_MAX_SIZE = 0" "s \<le> KALLOC_MAX_SIZE"
    and "KALLOC_MAX_SIZE - s < fuel"
  shows "\<exists>hp' ts. kfree_merge fuel hp (a + span pre) = Some hp' \<and> kseg hp' p a ts None \<and> tiles_ok 0 ts
    \<and> span ts = KALLOCSIZE \<and> used_from a ts = used_from a (pre @ (s, FREE) # post)
    \<and> kalloc_pool hp' = kalloc_pool hp \<and> kalloc_block_list hp' = kalloc_block_list hp"
  using assms
proof (induction fuel arbitrary: hp pre s post)
  case (Suc fuel)
  let ?b = "a + span pre" and ?ts = "pre @ (s, FREE) # post"
  note rep = Suc.prems(1) and ok = Suc.prems(2)
  have at: "b_size (hdr hp ?b) = s" using kseg_at [OF rep] by simp
  let ?goal = "\<exists>hp' ts. kfree_merge (Suc fuel) hp ?b = Some hp' \<and> kseg hp' p a ts None \<and> tiles_ok 0 ts
    \<and> span ts = KALLOCSIZE \<and> used_from a ts = used_from a ?ts
    \<and> kalloc_pool hp' = kalloc_pool hp \<and> kalloc_block_list hp' = kalloc_block_list hp"
  have stop: ?goal if "kfree_merge (Suc fuel) hp ?b = Some hp"
    using that Suc.prems by (intro exI [of _ hp] exI [of _ ?ts]) simp
  show ?case
  proof (cases "s = KALLOC_MAX_SIZE")
    case True
    then show ?thesis using stop at by (simp add: get_buddy_def)
  next
    case False
    have tok: "tile_ok (span pre) (s, FREE)" using ok by (simp add: tiles_ok_append)
    then obtain k where k: "6 \<le> k" "s = 2 ^ k" "span pre mod s = 0" by (auto simp: tile_ok_def)
    have "(2 :: nat) ^ k < 2 ^ 15" using Suc.prems(5) False k by (simp add: KALLOC_MAX_SIZE_def)
    then have "k < 15" by (simp only: power_strict_increasing_iff)
    then have "s * 2 dvd KALLOC_MAX_SIZE"
      using k le_imp_power_dvd [of "Suc k" 15 "2 :: nat"] by (simp add: KALLOC_MAX_SIZE_def mult.commute)
    then have "s * 2 dvd a" using Suc.prems(4) by (meson dvd_trans mod_0_imp_dvd)
    then have bmod: "?b mod (s * 2) = span pre mod (s * 2)" by (auto elim!: dvdE)
    have s0: "0 < s" using k by simp
    have more: ?goal if r: "kseg hp p a (pre' @ (s, FREE) # (s, FREE) # post') None"
        and o: "tiles_ok 0 (pre' @ (s, FREE) # (s, FREE) # post')" and left: "span pre' mod (s * 2) = 0"
        and ts: "?ts = pre' @ (s, FREE) # (s, FREE) # post'"
        and bud: "get_buddy hp ?b = Some buddy" "b_state (hdr hp buddy) = FREE" "b_size (hdr hp buddy) = s"
        and bb: "{?b, buddy} = {a + span pre', a + span pre' + s}" for pre' post' buddy
    proof -
      note J = kfree_join_kseg [OF r o bb]
      have t: "tile_ok (span pre') (s, FREE)" using o by (simp add: tiles_ok_append)
      note dbl = tile_ok_double [OF t left False Suc.prems(5)]
      have o': "tiles_ok 0 (pre' @ (s * 2, FREE) # post')"
        using o dbl(1) by (simp add: tiles_ok_append mult_2_right add.assoc)
      have sp: "span (pre' @ (s * 2, FREE) # post') = KALLOCSIZE" using Suc.prems(3) unfolding ts by simp
      have "KALLOC_MAX_SIZE - s * 2 < fuel" using Suc.prems(6) s0 dbl(2) by linarith
      then obtain hp' us where IH: "kfree_merge fuel (fst (kfree_join hp ?b buddy)) (a + span pre') = Some hp'"
        "kseg hp' p a us None" "tiles_ok 0 us" "span us = KALLOCSIZE"
        "used_from a us = used_from a (pre' @ (s * 2, FREE) # post')"
        "kalloc_pool hp' = kalloc_pool hp" "kalloc_block_list hp' = kalloc_block_list hp"
        using Suc.IH [OF J(1) o' sp Suc.prems(4) dbl(2)] J(3,4) by auto
      have "used_from a (pre' @ (s * 2, FREE) # post') = used_from a ?ts"
        unfolding ts by (simp add: used_from_append mult_2_right add.assoc)
      moreover have "kfree_merge (Suc fuel) hp ?b = Some hp'"
        using bud at IH(1) J(2) by (cases "kfree_join hp ?b buddy") simp
      ultimately show ?thesis using IH by auto
    qed
    show ?thesis
    proof (cases "span pre mod (s * 2) = 0")
      case True
      have bud: "get_buddy hp ?b = Some (?b + s)" using at False bmod True by (simp add: get_buddy_def)
      have "post \<noteq> []" using buddy_follows [OF ok Suc.prems(3) True False Suc.prems(5)] .
      then obtain t post' where post: "post = t # post'" by (cases post) auto
      have nb: "b_size (hdr hp (?b + s)) = fst t" "b_state (hdr hp (?b + s)) = snd t"
        using kseg_at [of hp p a "pre @ [(s, FREE)]" t post'] rep post by (simp_all add: add.assoc)
      show ?thesis
      proof (cases "t = (s, FREE)")
        case True
        have ts: "?ts = pre @ (s, FREE) # (s, FREE) # post'" using True post by simp
        show ?thesis
          by (rule more [rotated 2, OF _ ts bud]) (use rep ok ts nb True \<open>span pre mod (s * 2) = 0\<close> in auto)
      next
        case False
        then show ?thesis using stop bud nb at by (cases t) auto
      qed
    next
      case right: False
      have "span pre mod (s * 2) = s"
      proof -
        have lt: "span pre mod (s * 2) < s * 2" and "span pre mod (s * 2) mod s = 0"
          using s0 k(3) by (simp_all add: mod_mod_cancel)
        then obtain q where q: "span pre mod (s * 2) = s * q" by (meson dvdE mod_0_imp_dvd)
        then have "0 < q" "q < 2" using right lt s0 by (auto simp: mult.commute)
        then have "q = 1" by simp
        then show ?thesis using q by simp
      qed
      then obtain pre1 t pre2 where pre: "pre = pre1 @ t # pre2" "span pre1 = span pre - s"
        using buddy_is_tile [OF ok] by blast
      have le: "s \<le> span pre" using \<open>span pre mod (s * 2) = s\<close> mod_less_eq_dividend [of "span pre" "s * 2"] by simp
      have bud: "get_buddy hp ?b = Some (a + span pre1)"
        using at \<open>s \<noteq> KALLOC_MAX_SIZE\<close> bmod right pre(2) le by (simp add: get_buddy_def)
      have nb: "b_size (hdr hp (a + span pre1)) = fst t" "b_state (hdr hp (a + span pre1)) = snd t"
        using kseg_at [of hp p a pre1 t "pre2 @ (s, FREE) # post"] rep pre(1) by simp_all
      show ?thesis
      proof (cases "t = (s, FREE)")
        case True
        then have "span pre2 = 0" using pre le by simp
        moreover have "\<And>u. u \<in> set pre2 \<Longrightarrow> 0 < fst u" using tiles_ok_pos [OF ok] pre(1) by simp
        ultimately have "pre2 = []" by (cases pre2) fastforce+
        then have ts: "?ts = pre1 @ (s, FREE) # (s, FREE) # post" and b: "?b = a + span pre1 + s" using pre(1) True by simp_all
        have "span pre1 mod (s * 2) = 0"
          using \<open>span pre mod (s * 2) = s\<close> pre(2) le by (metis dvd_imp_mod_0 dvd_minus_mod)
        then show ?thesis
          by (rule more [rotated 2, OF _ ts bud]) (use rep ok ts b nb True in \<open>auto simp: insert_commute\<close>)
      next
        case False
        then show ?thesis using stop bud nb at by (cases t) auto
      qed
    qed
  qed
qed simp

section \<open>The blocks in use\<close>

lemma kseg_unique: "kseg hp p a ts None \<Longrightarrow> kseg hp p a us None \<Longrightarrow> ts = us"
proof (induction ts arbitrary: p a us)
  case Nil
  then show ?case by (cases us) auto
next
  case (Cons t ts)
  then show ?case by (cases us) (auto simp: prod_eq_iff)
qed

definition kheap_used :: "kheap \<Rightarrow> (nat \<times> nat) set" where
  "kheap_used hp = {u. \<exists>ts. kheap_rep hp ts \<and> u \<in> used_from (kalloc_pool hp) ts}"

lemma kheap_used_eq: "kheap_rep hp ts \<Longrightarrow> kheap_used hp = used_from (kalloc_pool hp) ts"
proof -
  assume rep: "kheap_rep hp ts"
  have "us = ts" if "kheap_rep hp us" for us
    using that rep kseg_unique [of hp "kalloc_block_list hp" "kalloc_pool hp" us ts] by (simp add: kheap_rep_def)
  then show ?thesis unfolding kheap_used_def using rep by blast
qed

lemma used_from_bound: "(x, n) \<in> used_from a ts \<Longrightarrow> a \<le> x \<and> x + n \<le> a + span ts"
  by (induction ts arbitrary: a) (force split: if_splits)+

lemma used_from_disjoint:
  "(x, n) \<in> used_from a ts \<Longrightarrow> (y, k) \<in> used_from a ts \<Longrightarrow> (x, n) \<noteq> (y, k) \<Longrightarrow> x + n \<le> y \<or> y + k \<le> x"
proof (induction ts arbitrary: a)
  case (Cons t ts)
  then show ?case
    using used_from_bound [of x n "a + fst t" ts] used_from_bound [of y k "a + fst t" ts]
    by (auto split: if_splits)
qed simp

lemma used_from_free: "(\<forall>t \<in> set ts. snd t = FREE) \<Longrightarrow> used_from a ts = {}"
  by (induction ts arbitrary: a) auto

lemma used_from_split:
  "(x, n) \<in> used_from a ts \<Longrightarrow> \<exists>pre post. ts = pre @ (n, USED) # post \<and> x = a + span pre"
proof (induction ts arbitrary: a)
  case (Cons t ts)
  show ?case
  proof (cases "(x, n) = (a, fst t) \<and> snd t = USED")
    case True
    then have "t # ts = [] @ (n, USED) # ts" "x = a + span []" by (auto simp: prod_eq_iff)
    then show ?thesis by blast
  next
    case False
    then have "(x, n) \<in> used_from (a + fst t) ts" using Cons.prems by (auto split: if_splits)
    from Cons.IH [OF this] obtain pre post where "ts = pre @ (n, USED) # post" "x = a + fst t + span pre" by blast
    then have "t # ts = (t # pre) @ (n, USED) # post" "x = a + span (t # pre)" by simp_all
    then show ?thesis by blast
  qed
qed simp

lemma kheap_rep_length: "kheap_rep hp ts \<Longrightarrow> length ts \<le> KALLOC_FUEL"
  using tiles_ok_length [of 0 ts] by (simp add: kheap_rep_def KALLOC_FUEL_def)

lemma kalloc_init_rep:
  assumes "kalloc_pool hp mod KALLOC_MAX_SIZE = 0"
  shows "kheap_rep (kalloc_init hp) [(KALLOCSIZE, FREE)]"
  using assms by (auto simp: kheap_rep_def kalloc_init_def tile_ok_def KALLOCSIZE_def intro!: exI [of _ 19])

text \<open>The size searched for covers the request, the minimum and the header, and keeps 8-byte alignment.\<close>

lemma kalloc_size_bound:
  assumes "unat n + 40 \<le> 2 ^ 64"
  shows "unat n + 32 \<le> unat (kalloc_size n)" "64 \<le> unat (kalloc_size n)"
proof -
  define m where "m = (if n < 32 then 32 else n)"
  have m: "unat n \<le> unat m" "32 \<le> unat m" "unat m + 40 \<le> 2 ^ 64"
    using assms by (auto simp: m_def word_less_nat_alt)
  have "unat (align_up m 8) = (unat m + 7) div 8 * 8" using unat_align_up [of 8 m] m(3) by simp
  then have "unat m \<le> unat (align_up m 8)" "unat (align_up m 8) \<le> unat m + 7" by auto
  then have "unat (align_up m 8 + 32) = unat (align_up m 8) + 32"
    using m(3) by (simp add: unat_word_ariths)
  moreover have "kalloc_size n = align_up m 8 + 32" by (simp add: kalloc_size_def m_def layout_simps Let_def)
  ultimately show "unat n + 32 \<le> unat (kalloc_size n)" "64 \<le> unat (kalloc_size n)"
    using m \<open>unat m \<le> unat (align_up m 8)\<close> by simp_all
qed

lemma kalloc_hit:
  assumes rep: "kheap_rep hp (pre @ (s, FREE) # post)" and n: "64 \<le> n" "n \<le> s" "n \<le> KALLOC_MAX_SIZE"
  shows "\<exists>hp' s' rest. kalloc_split KALLOC_FUEL (set_hdr hp (kalloc_pool hp + span pre) (b_state_update (\<lambda>_. USED)))
      (kalloc_pool hp + span pre) n = Some hp' \<and> kheap_rep hp' (pre @ (s', USED) # rest @ post)
    \<and> (\<forall>t \<in> set rest. snd t = FREE) \<and> n \<le> s' \<and> s' + span rest = s \<and> kalloc_pool hp' = kalloc_pool hp"
proof -
  let ?a = "kalloc_pool hp" and ?p = "kalloc_block_list hp"
  let ?hp = "set_hdr hp (?a + span pre) (b_state_update (\<lambda>_. USED))"
  have r: "kseg hp ?p ?a (pre @ (s, FREE) # post) None" "tiles_ok 0 (pre @ (s, FREE) # post)"
    "span (pre @ (s, FREE) # post) = KALLOCSIZE" using rep by (simp_all add: kheap_rep_def)
  have pos: "0 < fst t" if "t \<in> set (pre @ [(s, FREE)] @ post)" for t using tiles_ok_pos [OF r(2)] that by simp
  obtain q where q: "kseg hp ?p ?a pre (Some (?a + span pre))" "b_next (hdr hp (?a + span pre)) = q"
    "kseg hp q (?a + span pre + s) post None" "b_size (hdr hp (?a + span pre)) = s"
    using r(1) by (auto simp: kseg_append)
  have "kseg ?hp ?p ?a pre (Some (?a + span pre))" using pos by (intro kseg_cong [OF q(1)]) auto
  moreover have "kseg ?hp q (?a + span pre + s) post None" using pos [of "(s, FREE)"] pos by (intro kseg_cong [OF q(3)]) auto
  ultimately have "kseg ?hp ?p ?a (pre @ (s, USED) # post) None" using q by (auto simp: kseg_append)
  moreover have "s < KALLOC_FUEL" using r(3) by (simp add: KALLOC_FUEL_def)
  ultimately obtain hp' s' rest where S: "kalloc_split KALLOC_FUEL ?hp (?a + span pre) n = Some hp'"
    "kseg hp' ?p ?a (pre @ (s', USED) # rest @ post) None" "tiles_ok 0 (pre @ (s', USED) # rest @ post)"
    "s' + span rest = s" "\<forall>t \<in> set rest. snd t = FREE" "n \<le> s'" "kalloc_pool hp' = ?a" "kalloc_block_list hp' = ?p"
    using kalloc_split_kseg [of ?hp ?p ?a pre s post 0 n KALLOC_FUEL] r(2) n by auto
  then have "kheap_rep hp' (pre @ (s', USED) # rest @ post)"
    using rep by (simp add: kheap_rep_def)
  then show ?thesis using S by blast
qed

lemma kheap_rep_alloc_used:
  assumes "kheap_rep hp (pre @ (s, FREE) # post)" "kheap_rep hp' (pre @ (s', USED) # rest @ post)"
    and "\<forall>t \<in> set rest. snd t = FREE" "s' + span rest = s" "kalloc_pool hp' = kalloc_pool hp"
  shows "kheap_used hp' = insert (kalloc_pool hp + span pre, s') (kheap_used hp)"
    and "(y, k) \<in> kheap_used hp \<Longrightarrow> kalloc_pool hp + span pre + s' \<le> y \<or> y + k \<le> kalloc_pool hp + span pre"
proof -
  let ?a = "kalloc_pool hp"
  have sp: "s' + (span rest + x) = s + x" for x using assms(4) by simp
  have u: "kheap_used hp = used_from ?a pre \<union> used_from (?a + span pre + s) post"
    using kheap_used_eq [OF assms(1)] by (simp add: used_from_append add.assoc)
  have "kheap_used hp' = used_from ?a pre \<union> ({(?a + span pre, s')} \<union> used_from (?a + span pre + s' + span rest) post)"
    using kheap_used_eq [OF assms(2)] assms(5) used_from_free [OF assms(3)] by (simp add: used_from_append add.assoc)
  then show "kheap_used hp' = insert (?a + span pre, s') (kheap_used hp)"
    using u assms(4) by (auto simp: add.assoc)
  show "?a + span pre + s' \<le> y \<or> y + k \<le> ?a + span pre" if "(y, k) \<in> kheap_used hp"
    using that used_from_bound [of y k ?a pre] used_from_bound [of y k "?a + span pre + s" post] assms(4) by (auto simp: u)
qed

lemma kheap_used_head:
  assumes "kheap_rep hp ts" "(b, s) \<in> kheap_used hp"
  obtains pre post where "ts = pre @ (s, USED) # post" "b = kalloc_pool hp + span pre"
proof -
  have "(b, s) \<in> used_from (kalloc_pool hp) ts" using assms kheap_used_eq [OF assms(1)] by simp
  from used_from_split [OF this] show thesis using that by blast
qed

lemma kheap_rep_release:
  assumes rep: "kheap_rep hp (pre @ (s, USED) # post)"
  shows "kseg (set_hdr hp (kalloc_pool hp + span pre) (b_state_update (\<lambda>_. FREE))) (kalloc_block_list hp) (kalloc_pool hp)
      (pre @ (s, FREE) # post) None" "tiles_ok 0 (pre @ (s, FREE) # post)"
    "used_from (kalloc_pool hp) (pre @ (s, FREE) # post) = kheap_used hp - {(kalloc_pool hp + span pre, s)}"
proof -
  let ?a = "kalloc_pool hp" and ?p = "kalloc_block_list hp"
  let ?hp = "set_hdr hp (?a + span pre) (b_state_update (\<lambda>_. FREE))"
  have r: "kseg hp ?p ?a (pre @ (s, USED) # post) None" "tiles_ok 0 (pre @ (s, USED) # post)"
    using rep by (simp_all add: kheap_rep_def)
  have pos: "0 < fst t" if "t \<in> set (pre @ [(s, USED)] @ post)" for t using tiles_ok_pos [OF r(2)] that by simp
  obtain q where q: "kseg hp ?p ?a pre (Some (?a + span pre))" "b_next (hdr hp (?a + span pre)) = q"
    "kseg hp q (?a + span pre + s) post None" "b_size (hdr hp (?a + span pre)) = s"
    using r(1) by (auto simp: kseg_append)
  have "kseg ?hp ?p ?a pre (Some (?a + span pre))" using pos by (intro kseg_cong [OF q(1)]) auto
  moreover have "kseg ?hp q (?a + span pre + s) post None" using pos [of "(s, USED)"] pos by (intro kseg_cong [OF q(3)]) auto
  ultimately show "kseg ?hp ?p ?a (pre @ (s, FREE) # post) None" using q by (auto simp: kseg_append)
  show "tiles_ok 0 (pre @ (s, FREE) # post)" using r(2) by (auto simp: tiles_ok_append tile_ok_def)
  have "(?a + span pre, s) \<notin> used_from ?a pre" "(?a + span pre, s) \<notin> used_from (?a + span pre + s) post"
    using used_from_bound [of "?a + span pre" s ?a pre] used_from_bound [of "?a + span pre" s "?a + span pre + s" post]
      pos [of "(s, USED)"] by auto
  then show "used_from ?a (pre @ (s, FREE) # post) = kheap_used hp - {(?a + span pre, s)}"
    using kheap_used_eq [OF rep] by (auto simp: used_from_append)
qed

section \<open>Properties\<close>

text \<open>
  C8 (functional). \<open>kalloc\<close> on a well-formed heap always returns: either a pointer behind the
  header of a fresh block inside the pool, large enough for the request and disjoint from
  every block in use, all of which stay as they are; or \<open>NULL\<close> with the heap unchanged, which
  happens only when the request exceeds the largest block or no free block is large enough.
\<close>

theorem kalloc_correct:
  assumes "kheap_rep hp ts" "unat n + 40 \<le> 2 ^ 64"
  shows "\<exists>hp' r. kalloc hp n = Some (hp', r) \<and> kheap_ok hp' \<and> kalloc_pool hp' = kalloc_pool hp
    \<and> (case r of
         None \<Rightarrow> hp' = hp \<and> (KALLOC_MAX_SIZE < unat (kalloc_size n)
           \<or> (\<forall>t \<in> set ts. \<not> (snd t = FREE \<and> unat (kalloc_size n) \<le> fst t)))
       | Some p \<Rightarrow> \<exists>b s. p = b + BUDDY_HDR \<and> unat n + BUDDY_HDR \<le> s \<and> kalloc_pool hp \<le> b
           \<and> b + s \<le> kalloc_pool hp + KALLOCSIZE \<and> kheap_used hp' = insert (b, s) (kheap_used hp)
           \<and> (\<forall>y k. (y, k) \<in> kheap_used hp \<longrightarrow> b + s \<le> y \<or> y + k \<le> b))"
proof -
  define sz where "sz = unat (kalloc_size n)"
  have sz: "unat n + 32 \<le> sz" "64 \<le> sz" using kalloc_size_bound [OF assms(2)] by (simp_all add: sz_def)
  have rep: "kseg hp (kalloc_block_list hp) (kalloc_pool hp) ts None" "span ts = KALLOCSIZE"
    using assms(1) by (simp_all add: kheap_rep_def)
  have ok: "kheap_ok hp" using assms(1) by (auto simp: kheap_ok_def)
  show ?thesis
  proof (cases "sz \<le> KALLOC_MAX_SIZE")
    case False
    then show ?thesis using ok by (simp add: kalloc_def sz_def [symmetric])
  next
    case True
    show ?thesis
      using kalloc_find_kseg [OF rep(1) kheap_rep_length [OF assms(1)], of sz]
    proof (elim disjE exE conjE)
      fix pre s post
      assume ts: "ts = pre @ (s, FREE) # post" "sz \<le> s"
        and f: "kalloc_find KALLOC_FUEL hp (kalloc_block_list hp) sz = Some (Some (kalloc_pool hp + span pre))"
      have r: "kheap_rep hp (pre @ (s, FREE) # post)" using assms(1) ts by simp
      obtain hp' s' rest where h: "kalloc_split KALLOC_FUEL (set_hdr hp (kalloc_pool hp + span pre) (b_state_update (\<lambda>_. USED)))
          (kalloc_pool hp + span pre) sz = Some hp'" "kheap_rep hp' (pre @ (s', USED) # rest @ post)"
        "\<forall>t \<in> set rest. snd t = FREE" "sz \<le> s'" "s' + span rest = s" "kalloc_pool hp' = kalloc_pool hp"
        using kalloc_hit [OF r sz(2) ts(2) True] by blast
      note U = kheap_rep_alloc_used [OF r h(2,3,5,6)]
      have "span pre + s' \<le> KALLOCSIZE" using rep(2) ts h(5) by simp
      moreover have "kalloc hp n = Some (hp', Some (kalloc_pool hp + span pre + BUDDY_HDR))"
        using True f h(1) by (simp add: kalloc_def sz_def [symmetric])
      ultimately show ?thesis
        using h(2,4,6) U sz(1)
        by (intro exI [of _ hp'] exI [of _ "Some (kalloc_pool hp + span pre + BUDDY_HDR)"])
          (auto simp: kheap_ok_def BUDDY_HDR_def intro!: exI [of _ s'])
    next
      assume "\<forall>t \<in> set ts. \<not> (snd t = FREE \<and> sz \<le> fst t)"
        "kalloc_find KALLOC_FUEL hp (kalloc_block_list hp) sz = Some None"
      then show ?thesis using True ok by (simp add: kalloc_def sz_def [symmetric])
    qed
  qed
qed


definition kheap0 :: kheap where
  "kheap0 = kalloc_init \<lparr>kalloc_pool = 0x80200000, kalloc_block_list = None,
     hdr = (\<lambda>_. \<lparr>b_size = 0, b_state = FREE, b_next = None, b_prev = None\<rparr>)\<rparr>"

lemma kheap0_rep: "kheap_rep kheap0 [(KALLOCSIZE, FREE)]"
  unfolding kheap0_def by (rule kalloc_init_rep) (simp add: KALLOC_MAX_SIZE_def)

theorem kalloc_correct_witness:
  "\<exists>hp' p b s. kalloc kheap0 100 = Some (hp', Some p) \<and> p = b + BUDDY_HDR \<and> 132 \<le> s
    \<and> kheap_used hp' = insert (b, s) (kheap_used kheap0)"
proof -
  have "kalloc_size 100 = 136" by (simp add: kalloc_size_def align_up_def align_down_def layout_simps Let_def)
  moreover obtain hp' r where "kalloc kheap0 100 = Some (hp', r)"
    "case r of None \<Rightarrow> hp' = kheap0 \<and> (KALLOC_MAX_SIZE < unat (kalloc_size 100)
        \<or> (\<forall>t \<in> set [(KALLOCSIZE, FREE)]. \<not> (snd t = FREE \<and> unat (kalloc_size 100) \<le> fst t)))
      | Some p \<Rightarrow> \<exists>b s. p = b + BUDDY_HDR \<and> unat (100 :: u64) + BUDDY_HDR \<le> s \<and> kheap_used hp' = insert (b, s) (kheap_used kheap0)"
    using kalloc_correct [OF kheap0_rep, of 100] by (fastforce split: option.splits)
  ultimately show ?thesis by (auto simp: layout_simps split: option.splits)
qed


end
