(* ===== verification/Pmm.thy ===== *)
theory Pmm
  imports Bits Kalloc
begin

text \<open>
  \<^verbatim>\<open>kern/mm/pmm.c\<close>: the boot-time bump allocator \<open>palloc\<close> and the physical frame
  allocator. Memory banks come from the device tree (\<open>mem_get_num\<close>, \<open>mem_get_addr\<close>,
  \<open>mem_get_size\<close>); the bank list \<open>mems\<close> stands for them. A \<^verbatim>\<open>struct phy_frame\<close> is known
  by its address in the array of its bank, as in the code, and pointer arithmetic
  scales by the size of the struct. Physical memory is seen as 8-byte cells at aligned
  addresses, the granularity at which page tables are read and frames are cleared.
  Locks are left out: each operation is one critical section.
\<close>

section \<open>The code\<close>

definition PGSIZE_W :: u64 where [layout_simps]: "PGSIZE_W = 4096"
definition PF_SIZE :: u64 where [layout_simps]: "PF_SIZE = 24"
definition SBIBASE :: u64 where [layout_simps]: "SBIBASE = 0x80000000"

record mm =
  kern_end :: u64
  mems :: "(u64 \<times> u64) list"
  freemem_base :: u64
  pf_array :: "u64 list"
  pf_array_len :: "u64 list"
  pf_free_list :: "u64 list list"
  pf_ref :: "u64 \<Rightarrow> u64"
  cells :: "u64 \<Rightarrow> u64"
  pt_phy :: bool  \<comment> \<open>whether the page table code uses the frame allocator (after \<open>vmm_setup_kern\<close>)\<close>

text \<open>\<open>kern_end\<close> is the address the linker script defines.\<close>

definition palloc :: "mm \<Rightarrow> u64 \<Rightarrow> u64 \<Rightarrow> mm \<times> u64" where
  "palloc s sz align =
     (let base = (if freemem_base s = 0 then kern_end s else freemem_base s);
          res = align_up base align
      in (s\<lparr>freemem_base := res + sz\<rparr>, res))"

text \<open>The scans over the banks, from bank \<open>i\<close> on.\<close>

fun pa2sel_from :: "nat \<Rightarrow> (u64 \<times> u64) list \<Rightarrow> u64 \<Rightarrow> nat result" where
  "pa2sel_from i [] addr = ERR KER_MEM_ER"
| "pa2sel_from i ((mem_addr, mem_size) # ms) addr =
     (if mem_addr \<le> addr \<and> addr < mem_addr + mem_size then OK i else pa2sel_from (Suc i) ms addr)"

definition pa2sel :: "mm \<Rightarrow> u64 \<Rightarrow> nat result" where
  "pa2sel s addr = pa2sel_from 0 (mems s) addr"

fun frame2sel_from :: "nat \<Rightarrow> (u64 \<times> u64) list \<Rightarrow> u64 \<Rightarrow> nat result" where
  "frame2sel_from i [] frame = ERR KER_MEM_ER"
| "frame2sel_from i ((arr, len) # as) frame =
     (if arr \<le> frame \<and> frame < arr + len * PF_SIZE then OK i else frame2sel_from (Suc i) as frame)"

definition frame2sel :: "mm \<Rightarrow> u64 \<Rightarrow> nat result" where
  "frame2sel s frame = frame2sel_from 0 (zip (pf_array s) (pf_array_len s)) frame"

definition pa2frame :: "mm \<Rightarrow> u64 \<Rightarrow> u64 result" where
  "pa2frame s addr =
     catch_e (pa2sel s addr) (\<lambda>sel.
       let off = addr - fst (mems s ! sel) in OK (pf_array s ! sel + off div PGSIZE_W * PF_SIZE))"

definition frame2pa :: "mm \<Rightarrow> u64 \<Rightarrow> u64 result" where
  "frame2pa s frame =
     catch_e (frame2sel s frame) (\<lambda>sel.
       let off = (frame - pf_array s ! sel) div PF_SIZE * PGSIZE_W in OK (fst (mems s ! sel) + off))"

definition in_page :: "u64 \<Rightarrow> u64 \<Rightarrow> bool" where
  "in_page pa x \<longleftrightarrow> x - pa < PGSIZE_W"

definition zero_page :: "(u64 \<Rightarrow> u64) \<Rightarrow> u64 \<Rightarrow> u64 \<Rightarrow> u64" where
  "zero_page m pa = (\<lambda>x. if in_page pa x then 0 else m x)"

text \<open>The first bank with a free frame; its first free frame is unlinked and its page cleared.\<close>

fun free_bank :: "nat \<Rightarrow> u64 list list \<Rightarrow> nat option" where
  "free_bank i [] = None"
| "free_bank i (l # ls) = (if l \<noteq> [] then Some i else free_bank (Suc i) ls)"

definition phy_frame_alloc :: "mm \<Rightarrow> mm \<times> u64 result" where
  "phy_frame_alloc s =
     (case free_bank 0 (pf_free_list s) of
        None \<Rightarrow> (s, ERR KER_MEM_ER)
      | Some i \<Rightarrow>
          let frame = hd (pf_free_list s ! i);
              s1 = s\<lparr>pf_free_list := (pf_free_list s)[i := tl (pf_free_list s ! i)]\<rparr>
          in case frame2pa s1 frame of
               OK pa \<Rightarrow> (s1\<lparr>cells := zero_page (cells s1) pa\<rparr>, OK frame)
             | _ \<Rightarrow> (s1, PANIC))"

definition phy_frame_free :: "mm \<Rightarrow> u64 \<Rightarrow> mm \<times> unit result" where
  "phy_frame_free s frame =
     (case frame2sel s frame of
        OK sel \<Rightarrow> (s\<lparr>pf_free_list := (pf_free_list s)[sel := pf_free_list s ! sel @ [frame]]\<rparr>, OK ())
      | ERR e \<Rightarrow> (s, ERR e)
      | PANIC \<Rightarrow> (s, PANIC))"

definition phy_frame_ref_dec :: "mm \<Rightarrow> u64 \<Rightarrow> mm \<times> unit result" where
  "phy_frame_ref_dec s frame =
     (if pf_ref s frame = 0 then (s, ERR KER_MEM_ER)
      else let s1 = s\<lparr>pf_ref := (pf_ref s)(frame := pf_ref s frame - 1)\<rparr>
           in if pf_ref s1 frame = 0 then phy_frame_free s1 frame else (s1, OK ()))"

definition phy_frame_ref_inc :: "mm \<Rightarrow> u64 \<Rightarrow> mm \<times> unit result" where
  "phy_frame_ref_inc s frame = (s\<lparr>pf_ref := (pf_ref s)(frame := pf_ref s frame + 1)\<rparr>, OK ())"

text \<open>
  \<open>pmm_init\<close>: one array and one full free list per bank, then the pages from \<open>SBIBASE\<close> to the
  end of the kernel's own memory are taken out with one reference each.
\<close>

definition bank_frames :: "u64 \<Rightarrow> u64 \<Rightarrow> u64 list" where
  "bank_frames arr len = map (\<lambda>j. arr + of_nat j * PF_SIZE) [0..<unat len]"

fun pmm_init_banks :: "(u64 \<times> u64) list \<Rightarrow> mm \<Rightarrow> mm" where
  "pmm_init_banks [] s = s"
| "pmm_init_banks ((mem_addr, mem_size) # ms) s =
     (let len = mem_size div PGSIZE_W;
          (s1, arr) = palloc s (PF_SIZE * len) PGSIZE_W
      in pmm_init_banks ms
           (s1\<lparr>pf_array := pf_array s1 @ [arr], pf_array_len := pf_array_len s1 @ [len],
               pf_free_list := pf_free_list s1 @ [bank_frames arr len],
               pf_ref := (\<lambda>f. if f \<in> set (bank_frames arr len) then 0 else pf_ref s1 f)\<rparr>))"

fun pmm_reserve :: "nat \<Rightarrow> u64 \<Rightarrow> mm \<Rightarrow> mm result option" where
  "pmm_reserve 0 rsvaddr s = None"
| "pmm_reserve (Suc fuel) rsvaddr s =
     (if rsvaddr < freemem_base s
      then case pa2frame s rsvaddr of
             OK frame \<Rightarrow> (case pa2sel s rsvaddr of
                OK sel \<Rightarrow> pmm_reserve fuel (rsvaddr + PGSIZE_W)
                  (s\<lparr>pf_free_list := (pf_free_list s)[sel := remove1 frame (pf_free_list s ! sel)],
                     pf_ref := (pf_ref s)(frame := 1)\<rparr>)
              | _ \<Rightarrow> Some PANIC)
           | _ \<Rightarrow> Some PANIC
      else Some (OK s))"

definition pmm_init :: "mm \<Rightarrow> mm result option" where
  "pmm_init s =
     (let s1 = pmm_init_banks (mems s) (s\<lparr>pf_array := [], pf_array_len := [], pf_free_list := []\<rparr>);
          s2 = s1\<lparr>freemem_base := align_up (freemem_base s1) PGSIZE_W\<rparr>
      in pmm_reserve (Suc (unat (freemem_base s2) div 4096)) SBIBASE s2)"

section \<open>Geometry of banks and frame arrays\<close>

definition bank_ok :: "mm \<Rightarrow> nat \<Rightarrow> bool" where
  "bank_ok s i \<longleftrightarrow> unat (fst (mems s ! i)) mod 4096 = 0 \<and> unat (snd (mems s ! i)) = unat (pf_array_len s ! i) * 4096
     \<and> unat (fst (mems s ! i)) + unat (snd (mems s ! i)) \<le> 2 ^ 56
     \<and> unat (pf_array s ! i) + unat (pf_array_len s ! i) * 24 < 2 ^ 64"

definition in_bank :: "mm \<Rightarrow> nat \<Rightarrow> u64 \<Rightarrow> bool" where
  "in_bank s i pa \<longleftrightarrow> unat (fst (mems s ! i)) \<le> unat pa \<and> unat pa < unat (fst (mems s ! i)) + unat (snd (mems s ! i))"

definition in_array :: "mm \<Rightarrow> nat \<Rightarrow> u64 \<Rightarrow> bool" where
  "in_array s i f \<longleftrightarrow> unat (pf_array s ! i) \<le> unat f \<and> unat f < unat (pf_array s ! i) + unat (pf_array_len s ! i) * 24"

definition mm_geom :: "mm \<Rightarrow> bool" where
  "mm_geom s \<longleftrightarrow> length (pf_array s) = length (mems s) \<and> length (pf_array_len s) = length (mems s)
     \<and> length (pf_free_list s) = length (mems s) \<and> (\<forall>i < length (mems s). bank_ok s i)
     \<and> (\<forall>i j pa. i < length (mems s) \<and> j < length (mems s) \<and> in_bank s i pa \<and> in_bank s j pa \<longrightarrow> i = j)
     \<and> (\<forall>i j f. i < length (mems s) \<and> j < length (mems s) \<and> in_array s i f \<and> in_array s j f \<longrightarrow> i = j)"

definition frame_at :: "mm \<Rightarrow> nat \<Rightarrow> nat \<Rightarrow> u64" where
  "frame_at s i j = pf_array s ! i + of_nat (j * 24)"

definition page_at :: "mm \<Rightarrow> nat \<Rightarrow> nat \<Rightarrow> u64" where
  "page_at s i j = fst (mems s ! i) + of_nat (j * 4096)"

lemma pa2sel_from_unique:
  assumes "i < length ms" "\<And>j. j < length ms \<Longrightarrow> (fst (ms ! j) \<le> addr \<and> addr < fst (ms ! j) + snd (ms ! j)) = (j = i)"
  shows "pa2sel_from k ms addr = OK (k + i)"
  using assms
proof (induction ms arbitrary: k i)
  case (Cons m ms)
  obtain a n where m: "m = (a, n)" by fastforce
  show ?case
  proof (cases i)
    case 0
    then show ?thesis using Cons.prems(2) [of 0] m by simp
  next
    case (Suc i')
    then have "\<not> (a \<le> addr \<and> addr < a + n)" using Cons.prems(2) [of 0] m by simp
    moreover have "pa2sel_from (Suc k) ms addr = OK (Suc k + i')"
      using Cons.prems Suc by (intro Cons.IH) force+
    ultimately show ?thesis using m Suc by simp
  qed
qed simp

lemma frame2sel_from_unique:
  assumes "i < length as" "\<And>j. j < length as \<Longrightarrow> (fst (as ! j) \<le> f \<and> f < fst (as ! j) + snd (as ! j) * PF_SIZE) = (j = i)"
  shows "frame2sel_from k as f = OK (k + i)"
  using assms
proof (induction as arbitrary: k i)
  case (Cons m as)
  obtain a n where m: "m = (a, n)" by fastforce
  show ?case
  proof (cases i)
    case 0
    then show ?thesis using Cons.prems(2) [of 0] m by simp
  next
    case (Suc i')
    then have "\<not> (a \<le> f \<and> f < a + n * PF_SIZE)" using Cons.prems(2) [of 0] m by simp
    moreover have "frame2sel_from (Suc k) as f = OK (Suc k + i')"
      using Cons.prems Suc by (intro Cons.IH) force+
    ultimately show ?thesis using m Suc by simp
  qed
qed simp

lemma pa2sel_from_error: "(\<And>m. m \<in> set ms \<Longrightarrow> \<not> (fst m \<le> addr \<and> addr < fst m + snd m)) \<Longrightarrow> pa2sel_from k ms addr = ERR KER_MEM_ER"
  by (induction ms arbitrary: k) auto

lemma bank_word:
  assumes "bank_ok s i"
  shows "(fst (mems s ! i) \<le> addr \<and> addr < fst (mems s ! i) + snd (mems s ! i)) = in_bank s i addr"
    and "(pf_array s ! i \<le> f \<and> f < pf_array s ! i + pf_array_len s ! i * PF_SIZE) = in_array s i f"
proof -
  have "unat (fst (mems s ! i) + snd (mems s ! i)) = unat (fst (mems s ! i)) + unat (snd (mems s ! i))"
    using assms by (simp add: bank_ok_def unat_word_ariths)
  then show "(fst (mems s ! i) \<le> addr \<and> addr < fst (mems s ! i) + snd (mems s ! i)) = in_bank s i addr"
    by (simp add: in_bank_def word_le_nat_alt word_less_nat_alt)
  have "unat (pf_array_len s ! i * PF_SIZE) = unat (pf_array_len s ! i) * 24"
    using assms by (simp add: bank_ok_def unat_word_ariths PF_SIZE_def)
  then have "unat (pf_array s ! i + pf_array_len s ! i * PF_SIZE) = unat (pf_array s ! i) + unat (pf_array_len s ! i) * 24"
    using assms by (simp add: bank_ok_def unat_word_ariths)
  then show "(pf_array s ! i \<le> f \<and> f < pf_array s ! i + pf_array_len s ! i * PF_SIZE) = in_array s i f"
    by (simp add: in_array_def word_le_nat_alt word_less_nat_alt)
qed

lemma mm_geomD:
  assumes "mm_geom s"
  shows "length (pf_array s) = length (mems s)" "length (pf_array_len s) = length (mems s)"
    "length (pf_free_list s) = length (mems s)" "i < length (mems s) \<Longrightarrow> bank_ok s i"
    "i < length (mems s) \<Longrightarrow> j < length (mems s) \<Longrightarrow> in_bank s i pa \<Longrightarrow> in_bank s j pa \<Longrightarrow> i = j"
    "i < length (mems s) \<Longrightarrow> j < length (mems s) \<Longrightarrow> in_array s i f \<Longrightarrow> in_array s j f \<Longrightarrow> i = j"
  using assms unfolding mm_geom_def by blast+

lemma pa2sel_in_bank:
  assumes "mm_geom s" "i < length (mems s)" "in_bank s i pa"
  shows "pa2sel s pa = OK i"
proof -
  have "(fst (mems s ! j) \<le> pa \<and> pa < fst (mems s ! j) + snd (mems s ! j)) = (j = i)" if "j < length (mems s)" for j
    using bank_word(1) [OF mm_geomD(4) [OF assms(1) that]] mm_geomD(5) [OF assms(1) that assms(2)] assms(3) by blast
  then show ?thesis using pa2sel_from_unique [OF assms(2)] by (simp add: pa2sel_def)
qed

lemma pa2sel_OK:
  assumes "mm_geom s" "pa2sel s pa = OK i"
  shows "i < length (mems s) \<and> in_bank s i pa"
proof (cases "\<exists>j < length (mems s). in_bank s j pa")
  case True
  then show ?thesis using pa2sel_in_bank [OF assms(1)] assms(2) by force
next
  case False
  have "\<not> (fst m \<le> pa \<and> pa < fst m + snd m)" if "m \<in> set (mems s)" for m
    using that False bank_word(1) [OF mm_geomD(4) [OF assms(1)]] by (auto simp: in_set_conv_nth)
  then show ?thesis using pa2sel_from_error [of "mems s" pa 0] assms(2) by (simp add: pa2sel_def)
qed

lemma frame2sel_in_array:
  assumes "mm_geom s" "i < length (mems s)" "in_array s i f"
  shows "frame2sel s f = OK i"
proof -
  let ?as = "zip (pf_array s) (pf_array_len s)"
  have len: "length ?as = length (mems s)" using mm_geomD(1,2) [OF assms(1)] by simp
  have "(fst (?as ! j) \<le> f \<and> f < fst (?as ! j) + snd (?as ! j) * PF_SIZE) = (j = i)" if "j < length ?as" for j
    using bank_word(2) [OF mm_geomD(4) [OF assms(1)], of j f] mm_geomD(6) [OF assms(1), of j i f] assms(2,3) that len by auto
  then show ?thesis using frame2sel_from_unique [of i ?as f 0] assms(2) len mm_geomD(1,2) [OF assms(1)] by (simp add: frame2sel_def)
qed

lemma frame_at_in_array:
  assumes "mm_geom s" "i < length (mems s)" "j < unat (pf_array_len s ! i)"
  shows "unat (frame_at s i j) = unat (pf_array s ! i) + j * 24" "in_array s i (frame_at s i j)"
proof -
  have b: "bank_ok s i" using mm_geomD(4) [OF assms(1,2)] .
  then have "unat (pf_array s ! i) + j * 24 < 2 ^ 64" using assms(3) by (simp add: bank_ok_def)
  then show u: "unat (frame_at s i j) = unat (pf_array s ! i) + j * 24"
    unfolding frame_at_def by (simp add: unat_word_ariths unat_of_nat)
  show "in_array s i (frame_at s i j)" using u assms(3) by (simp add: in_array_def)
qed

lemma page_at_in_bank:
  assumes "mm_geom s" "i < length (mems s)" "j < unat (pf_array_len s ! i)"
  shows "unat (page_at s i j) = unat (fst (mems s ! i)) + j * 4096" "in_bank s i (page_at s i j)"
    "unat (page_at s i j) mod 4096 = 0" "unat (page_at s i j) + 4096 \<le> 2 ^ 56"
proof -
  have b: "bank_ok s i" using mm_geomD(4) [OF assms(1,2)] .
  then have *: "unat (fst (mems s ! i)) + j * 4096 + 4096 \<le> 2 ^ 56" using assms(3) by (simp add: bank_ok_def)
  then show u: "unat (page_at s i j) = unat (fst (mems s ! i)) + j * 4096"
    unfolding page_at_def by (simp add: unat_word_ariths unat_of_nat)
  show "in_bank s i (page_at s i j)" using u assms(3) b by (simp add: in_bank_def bank_ok_def)
  have "(unat (fst (mems s ! i)) + j * 4096) mod 4096 = unat (fst (mems s ! i)) mod 4096" by simp
  then show "unat (page_at s i j) mod 4096 = 0" using u b by (simp only: bank_ok_def)
  show "unat (page_at s i j) + 4096 \<le> 2 ^ 56" using u * by simp
qed

lemma of_nat_mult_div_off:
  assumes "j * d + unat off < 2 ^ 64" "unat off < d" "d < 2 ^ 64"
  shows "(of_nat (j * d) + off) div of_nat d = (of_nat j :: u64)"
proof -
  have d: "unat (of_nat d :: u64) = d" using assms(3) by simp
  have jd: "unat (of_nat (j * d) :: u64) = j * d" using assms(1) by (intro unat_of_nat_lt64) simp
  have "unat (of_nat (j * d) + off) = j * d + unat off"
    using assms(1) jd by (simp add: unat_word_ariths del: of_nat_mult)
  then have "unat ((of_nat (j * d) + off) div of_nat d) = j" using assms(2) d by (simp add: unat_div del: of_nat_mult)
  moreover have "j < 2 ^ 64" using assms(1,2) by (cases d) auto
  ultimately show ?thesis by (simp add: word_unat_eq_iff del: of_nat_mult)
qed

lemma of_nat_mult_div: "j * d < 2 ^ 64 \<Longrightarrow> 0 < d \<Longrightarrow> d < 2 ^ 64 \<Longrightarrow> of_nat (j * d) div of_nat d = (of_nat j :: u64)"
  using of_nat_mult_div_off [of j d 0] by simp

text \<open>Both conversions, on the \<open>j\<close>-th frame of bank \<open>i\<close>.\<close>

lemma frame2pa_frame_at:
  assumes "mm_geom s" "i < length (mems s)" "j < unat (pf_array_len s ! i)"
  shows "frame2pa s (frame_at s i j) = OK (page_at s i j)"
proof -
  have "j * 24 < 2 ^ 64" using frame_at_in_array(1) [OF assms] unat_lt64 [of "frame_at s i j"] by simp
  then have "(of_nat (j * 24) :: u64) div 24 = of_nat j" using of_nat_mult_div [of j 24] by simp
  then show ?thesis
    using frame2sel_in_array [OF assms(1,2) frame_at_in_array(2) [OF assms]]
    by (simp add: frame2pa_def frame_at_def page_at_def layout_simps)
qed

lemma pa2frame_in_page:
  assumes "mm_geom s" "i < length (mems s)" "j < unat (pf_array_len s ! i)" "unat off < 4096"
  shows "pa2frame s (page_at s i j + off) = OK (frame_at s i j)"
proof -
  note P = page_at_in_bank [OF assms(1-3)]
  have b: "bank_ok s i" using mm_geomD(4) [OF assms(1,2)] .
  have u: "unat (page_at s i j + off) = unat (fst (mems s ! i)) + j * 4096 + unat off"
    using P(1,4) assms(4) by (simp add: unat_word_ariths)
  have "Suc j * 4096 \<le> unat (pf_array_len s ! i) * 4096" using assms(3) by (intro mult_le_mono1) simp
  then have "in_bank s i (page_at s i j + off)" using u assms(4) b by (simp add: in_bank_def bank_ok_def)
  then have sel: "pa2sel s (page_at s i j + off) = OK i" using pa2sel_in_bank [OF assms(1,2)] by simp
  have "page_at s i j + off - fst (mems s ! i) = of_nat (j * 4096) + off" by (simp add: page_at_def)
  moreover have "(of_nat (j * 4096) + off) div 4096 = (of_nat j :: u64)"
    using of_nat_mult_div_off [of j 4096 off] u assms(4) unat_lt64 [of "page_at s i j + off"] by simp
  ultimately have "(page_at s i j + off - fst (mems s ! i)) div 4096 = of_nat j" by (simp only:)
  then show ?thesis using sel by (simp only: pa2frame_def frame_at_def layout_simps catch_e_simps Let_def) simp
qed

section \<open>Free frames\<close>

text \<open>
  The free lists hold frames of their own bank, each at most once, and a frame with
  references is in none of them.
\<close>

definition mm_free_ok :: "mm \<Rightarrow> bool" where
  "mm_free_ok s \<longleftrightarrow> mm_geom s \<and> (\<forall>i < length (mems s). distinct (pf_free_list s ! i)
     \<and> (\<forall>f \<in> set (pf_free_list s ! i). (\<exists>j < unat (pf_array_len s ! i). f = frame_at s i j) \<and> pf_ref s f = 0))"

definition free_frames :: "mm \<Rightarrow> u64 set" where
  "free_frames s = \<Union> (set ` set (pf_free_list s))"

lemma free_bank_spec:
  "case free_bank k ls of None \<Rightarrow> \<forall>l \<in> set ls. l = []
    | Some i \<Rightarrow> k \<le> i \<and> i < k + length ls \<and> ls ! (i - k) \<noteq> [] \<and> (\<forall>j < i - k. ls ! j = [])"
proof (induction ls arbitrary: k)
  case (Cons l ls)
  show ?case
  proof (cases "l = []")
    case True
    then show ?thesis
      using Cons.IH [of "Suc k"] by (auto split: option.splits simp: nth_Cons' less_diff_conv)
  qed auto
qed simp

lemma geom_cong:
  assumes "mm_geom s" "mems s' = mems s" "pf_array s' = pf_array s" "pf_array_len s' = pf_array_len s"
    "length (pf_free_list s') = length (pf_free_list s)"
  shows "mm_geom s'" "frame_at s' i j = frame_at s i j" "page_at s' i j = page_at s i j"
    "frame2pa s' f = frame2pa s f" "frame2sel s' f = frame2sel s f"
proof -
  have "bank_ok s' i = bank_ok s i" "in_bank s' i pa = in_bank s i pa" "in_array s' i pa = in_array s i pa" for i pa
    using assms(2-4) by (simp_all add: bank_ok_def in_bank_def in_array_def)
  then show "mm_geom s'" using assms unfolding mm_geom_def by simp
qed (use assms in \<open>simp_all add: frame_at_def page_at_def frame2pa_def frame2sel_def\<close>)

lemma frame_at_inj:
  assumes "mm_geom s" "i < length (mems s)" "i' < length (mems s)" "j < unat (pf_array_len s ! i)" "j' < unat (pf_array_len s ! i')"
    "frame_at s i j = frame_at s i' j'"
  shows "i = i' \<and> j = j'"
proof -
  have "in_array s i' (frame_at s i j)" using frame_at_in_array(2) [OF assms(1,3,5)] by (simp only: assms(6))
  then have i: "i = i'" using mm_geomD(6) [OF assms(1,2,3) frame_at_in_array(2) [OF assms(1,2,4)]] by blast
  have "unat (frame_at s i j) = unat (frame_at s i' j')" by (simp only: assms(6))
  then have "unat (pf_array s ! i) + j * 24 = unat (pf_array s ! i') + j' * 24"
    unfolding frame_at_in_array(1) [OF assms(1,2,4)] frame_at_in_array(1) [OF assms(1,3,5)] .
  then show ?thesis using i by simp
qed

lemma mm_free_okD:
  assumes "mm_free_ok s" "i < length (mems s)"
  shows "mm_geom s" "distinct (pf_free_list s ! i)"
    "f \<in> set (pf_free_list s ! i) \<Longrightarrow> (\<exists>j < unat (pf_array_len s ! i). f = frame_at s i j) \<and> pf_ref s f = 0"
  using assms unfolding mm_free_ok_def by blast+

lemma free_frames_iff:
  assumes "mm_geom s"
  shows "f \<in> free_frames s \<longleftrightarrow> (\<exists>i < length (mems s). f \<in> set (pf_free_list s ! i))"
  using mm_geomD(3) [OF assms] by (force simp: free_frames_def in_set_conv_nth)

lemma free_lists_disjoint:
  assumes ok: "mm_free_ok s" and i: "i < length (mems s)" "f \<in> set (pf_free_list s ! i)"
    and i': "i' < length (mems s)" "f \<in> set (pf_free_list s ! i')"
  shows "i = i'"
proof -
  obtain j j' where j: "j < unat (pf_array_len s ! i)" "f = frame_at s i j"
    "j' < unat (pf_array_len s ! i')" "f = frame_at s i' j'"
    using mm_free_okD(3) [OF ok i(1) i(2)] mm_free_okD(3) [OF ok i'(1) i'(2)] by auto
  have "frame_at s i j = frame_at s i' j'" using j(2,4) by (simp only:)
  then show ?thesis using frame_at_inj [OF mm_free_okD(1) [OF ok i(1)] i(1) i'(1) j(1,3)] by blast
qed

lemma phy_frame_alloc_spec:
  assumes ok: "mm_free_ok s" and r: "phy_frame_alloc s = (s', r)"
  shows "(r = ERR KER_MEM_ER \<and> s' = s \<and> free_frames s = {})
    \<or> (\<exists>f pa. r = OK f \<and> frame2pa s f = OK pa \<and> f \<in> free_frames s \<and> free_frames s' = free_frames s - {f}
        \<and> mm_free_ok s' \<and> cells s' = zero_page (cells s) pa \<and> pf_ref s' = pf_ref s \<and> mems s' = mems s
        \<and> pf_array s' = pf_array s \<and> pf_array_len s' = pf_array_len s \<and> pt_phy s' = pt_phy s
        \<and> (\<exists>i j. i < length (mems s) \<and> j < unat (pf_array_len s ! i) \<and> f = frame_at s i j \<and> pa = page_at s i j))"
proof (cases "free_bank 0 (pf_free_list s)")
  case None
  then show ?thesis using r free_bank_spec [where k = 0 and ls = "pf_free_list s"] by (auto simp: phy_frame_alloc_def free_frames_def)
next
  case (Some i)
  have g: "mm_geom s" using ok by (simp add: mm_free_ok_def)
  have i: "i < length (mems s)" "pf_free_list s ! i \<noteq> []"
    using free_bank_spec [where k = 0 and ls = "pf_free_list s"] Some mm_geomD(3) [OF g] by auto
  then obtain f fs where l: "pf_free_list s ! i = f # fs" by (cases "pf_free_list s ! i") auto
  define s1 where "s1 = s\<lparr>pf_free_list := (pf_free_list s)[i := fs]\<rparr>"
  note C = geom_cong [OF g, of s1]
  obtain j where j: "j < unat (pf_array_len s ! i)" "f = frame_at s i j"
    using mm_free_okD(3) [OF ok i(1), of f] l by auto
  have pa: "frame2pa s f = OK (page_at s i j)" using frame2pa_frame_at [OF g i(1) j(1)] j(2) by simp
  then have s': "s' = s1\<lparr>cells := zero_page (cells s1) (page_at s i j)\<rparr>" "r = OK f"
    using r Some l C(4) by (simp_all add: phy_frame_alloc_def Let_def s1_def)
  note C' = geom_cong [OF g, of s']
  have len: "length (pf_free_list s) = length (mems s)" using mm_geomD(3) [OF g] .
  have fl: "pf_free_list s' ! k = (if k = i then fs else pf_free_list s ! k)" if "k < length (mems s)" for k
    using that len by (simp add: s' s1_def nth_list_update)
  have other: "f \<notin> set (pf_free_list s' ! k)" if "k < length (mems s)" for k
    using that fl [OF that] free_lists_disjoint [OF ok i(1) _ that, of f] l mm_free_okD(2) [OF ok i(1)] by (cases "k = i") auto
  have g': "mm_geom s'" using C'(1) by (simp add: s' s1_def)
  have "mm_free_ok s'"
    unfolding mm_free_ok_def
  proof (intro conjI g' allI impI ballI)
    fix k assume k: "k < length (mems s')"
    then have k': "k < length (mems s)" by (simp add: s' s1_def)
    show "distinct (pf_free_list s' ! k)" using fl [OF k'] mm_free_okD(2) [OF ok k'] l by (auto split: if_splits)
    fix x assume "x \<in> set (pf_free_list s' ! k)"
    then have "x \<in> set (pf_free_list s ! k)" using fl [OF k'] l by (auto split: if_splits)
    then show "\<exists>j < unat (pf_array_len s' ! k). x = frame_at s' k j" "pf_ref s' x = 0"
      using mm_free_okD(3) [OF ok k'] by (auto simp: s' s1_def frame_at_def)
  qed
  moreover have "x \<in> free_frames s' \<longleftrightarrow> x \<in> free_frames s - {f}" for x
  proof -
    have "mems s' = mems s" by (simp add: s' s1_def)
    then have "x \<in> free_frames s' \<longleftrightarrow> (\<exists>k < length (mems s). x \<in> set (pf_free_list s' ! k))"
      using free_frames_iff [OF g', of x] by simp
    also have "\<dots> \<longleftrightarrow> (\<exists>k < length (mems s). x \<in> set (pf_free_list s ! k)) \<and> x \<noteq> f"
      using fl other i(1) l by (auto split: if_splits) (metis set_ConsD)
    finally show ?thesis using free_frames_iff [OF g, of x] by simp
  qed
  moreover have "f \<in> free_frames s" using free_frames_iff [OF g, of f] i(1) l by auto
  moreover have "cells s' = zero_page (cells s) (page_at s i j)" "pf_ref s' = pf_ref s" "mems s' = mems s"
    "pf_array s' = pf_array s" "pf_array_len s' = pf_array_len s" "pt_phy s' = pt_phy s"
    by (simp_all add: s'(1) s1_def)
  ultimately show ?thesis using s'(2) pa i(1) j by blast
qed

lemma phy_frame_free_spec:
  assumes ok: "mm_free_ok s" and i: "i < length (mems s)" "j < unat (pf_array_len s ! i)"
    and f: "f = frame_at s i j" "f \<notin> free_frames s" "pf_ref s f = 0"
  shows "\<exists>s'. phy_frame_free s f = (s', OK ()) \<and> mm_free_ok s' \<and> free_frames s' = insert f (free_frames s)
    \<and> cells s' = cells s \<and> pf_ref s' = pf_ref s \<and> mems s' = mems s \<and> pf_array s' = pf_array s
    \<and> pf_array_len s' = pf_array_len s \<and> pt_phy s' = pt_phy s"
proof -
  have g: "mm_geom s" using ok by (simp add: mm_free_ok_def)
  define s' where "s' = s\<lparr>pf_free_list := (pf_free_list s)[i := pf_free_list s ! i @ [f]]\<rparr>"
  have sel: "frame2sel s f = OK i" using frame2sel_in_array [OF g i(1) frame_at_in_array(2) [OF g i]] f(1) by simp
  have g': "mm_geom s'" using geom_cong(1) [OF g, of s'] by (simp add: s'_def)
  have same: "cells s' = cells s" "pf_ref s' = pf_ref s" "mems s' = mems s" "pf_array s' = pf_array s"
    "pf_array_len s' = pf_array_len s" "pt_phy s' = pt_phy s" by (simp_all add: s'_def)
  have fl: "pf_free_list s' ! k = (if k = i then pf_free_list s ! i @ [f] else pf_free_list s ! k)" if "k < length (mems s)" for k
    using that mm_geomD(3) [OF g] by (simp add: s'_def nth_list_update)
  have nf: "f \<notin> set (pf_free_list s ! k)" if "k < length (mems s)" for k
    using f(2) that free_frames_iff [OF g, of f] by blast
  have "mm_free_ok s'"
    unfolding mm_free_ok_def same
  proof (intro conjI g' allI impI ballI)
    fix k assume k: "k < length (mems s)"
    show "distinct (pf_free_list s' ! k)" using fl [OF k] nf [OF k] mm_free_okD(2) [OF ok k] by (cases "k = i") simp_all
    fix x assume "x \<in> set (pf_free_list s' ! k)"
    then consider "x \<in> set (pf_free_list s ! k)" | "k = i" "x = f" using fl [OF k] by (auto split: if_splits)
    then show "\<exists>j < unat (pf_array_len s ! k). x = frame_at s' k j" "pf_ref s x = 0"
      using mm_free_okD(3) [OF ok k, of x] i(2) f(1,3) by (cases; auto simp: frame_at_def s'_def)+
  qed
  moreover have "x \<in> free_frames s' \<longleftrightarrow> x \<in> insert f (free_frames s)" for x
  proof -
    have "x \<in> free_frames s' \<longleftrightarrow> (\<exists>k < length (mems s). x \<in> set (pf_free_list s' ! k))"
      using free_frames_iff [OF g', of x] same(3) by simp
    also have "\<dots> \<longleftrightarrow> (\<exists>k < length (mems s). x \<in> set (pf_free_list s ! k)) \<or> x = f"
      using fl i(1) by (auto split: if_splits)
    finally show ?thesis using free_frames_iff [OF g, of x] by blast
  qed
  ultimately show ?thesis using sel same by (intro exI [of _ s']) (auto simp: phy_frame_free_def s'_def)
qed

text \<open>Dropping \<open>n\<close> references one after the other.\<close>

fun ref_drops :: "nat \<Rightarrow> mm \<Rightarrow> u64 \<Rightarrow> mm \<times> unit result" where
  "ref_drops 0 s f = (s, OK ())"
| "ref_drops (Suc n) s f = (case phy_frame_ref_dec s f of (s', OK _) \<Rightarrow> ref_drops n s' f | r \<Rightarrow> r)"

lemma ref_drops_spec:
  assumes "mm_free_ok s" "i < length (mems s)" "j < unat (pf_array_len s ! i)" "f = frame_at s i j"
    "f \<notin> free_frames s" "pf_ref s f = of_nat k" "n \<le> k" "k < 2 ^ 64" "0 < k"
  shows "\<exists>s'. ref_drops n s f = (s', OK ()) \<and> mm_free_ok s' \<and> pf_ref s' f = of_nat (k - n)
    \<and> free_frames s' = (if n = k then insert f (free_frames s) else free_frames s)"
  using assms
proof (induction n arbitrary: s k)
  case (Suc n)
  note ok = Suc.prems(1)
  have g: "mm_geom s" using ok by (simp add: mm_free_ok_def)
  define s1 where "s1 = s\<lparr>pf_ref := (pf_ref s)(f := of_nat (k - 1))\<rparr>"
  have same: "mems s1 = mems s" "pf_array s1 = pf_array s" "pf_array_len s1 = pf_array_len s"
    "pf_free_list s1 = pf_free_list s" "pf_ref s1 f = of_nat (k - 1)" by (simp_all add: s1_def)
  have fr: "free_frames s1 = free_frames s" by (simp add: free_frames_def same)
  have k1: "pf_ref s f - 1 = of_nat (k - 1)" using Suc.prems(6,7) by (simp add: of_nat_diff)
  have "f \<notin> set (pf_free_list s ! m)" if "m < length (mems s)" for m
    using Suc.prems(5) that free_frames_iff [OF g, of f] by blast
  then have ok1: "mm_free_ok s1"
    using ok geom_cong(1,2) [OF g, of s1] unfolding mm_free_ok_def by (auto simp: same s1_def)
  have nz: "pf_ref s f \<noteq> 0" using Suc.prems(6-9) of_nat_eq_0_small64 [of k] by simp
  have dec: "phy_frame_ref_dec s f = (if k = 1 then phy_frame_free s1 f else (s1, OK ()))"
    using nz k1 Suc.prems(7-9) of_nat_eq_0_small64 [of "k - 1"] by (auto simp: phy_frame_ref_dec_def Let_def s1_def)
  have at: "f = frame_at s1 i j" using Suc.prems(4) geom_cong(2) [OF g, of s1] by (simp add: same)
  show ?case
  proof (cases "k = 1")
    case True
    then obtain s' where "phy_frame_free s1 f = (s', OK ())" "mm_free_ok s'" "free_frames s' = insert f (free_frames s1)"
      "pf_ref s' = pf_ref s1"
      using phy_frame_free_spec [OF ok1 _ _ at] Suc.prems(2,3,5) fr same by auto
    then show ?thesis using dec True Suc.prems(7) fr same(5) by simp
  next
    case False
    then have "\<exists>s'. ref_drops n s1 f = (s', OK ()) \<and> mm_free_ok s' \<and> pf_ref s' f = of_nat (k - 1 - n)
        \<and> free_frames s' = (if n = k - 1 then insert f (free_frames s1) else free_frames s1)"
      using Suc.prems at same fr by (intro Suc.IH [OF ok1]) auto
    then show ?thesis using dec False fr Suc.prems(9) by auto
  qed
qed simp

text \<open>A bank of two pages, with its first frame allocated and referenced or free.\<close>

definition mm_two :: "u64 list \<Rightarrow> u64 \<Rightarrow> mm" where
  "mm_two free ref0 = \<lparr>kern_end = 0x80100000, mems = [(0x80000000, 0x2000)], freemem_base = 0x80100000, pf_array = [0x1000],
     pf_array_len = [2], pf_free_list = [free], pf_ref = (\<lambda>f. if f = 0x1000 then ref0 else 0),
     cells = (\<lambda>_. 7), pt_phy = True\<rparr>"

lemma mm_two_simps [simp]: "mems (mm_two free ref0) = [(0x80000000, 0x2000)]" "pf_array_len (mm_two free ref0) = [2]"
  "pf_ref (mm_two free ref0) 0x1000 = ref0" "pf_free_list (mm_two free ref0) = [free]"
  by (simp_all add: mm_two_def)

lemma mm_two_geom: "mm_geom (mm_two free ref0)"
  by (auto simp: mm_geom_def mm_two_def bank_ok_def)

lemma mm_two_frames: "frame_at (mm_two free ref0) 0 0 = 0x1000" "frame_at (mm_two free ref0) 0 1 = 0x1018"
  by (simp_all add: frame_at_def mm_two_def)

lemma mm_two_ok: "mm_free_ok (mm_two [0x1000, 0x1018] 0)" "mm_free_ok (mm_two [0x1018] k)"
proof -
  have "(\<exists>j < 2. (0x1000 :: u64) = 0x1000 + of_nat (j * 24))" "(\<exists>j < 2. (0x1018 :: u64) = 0x1000 + of_nat (j * 24))"
    by (auto intro: exI [of _ 0] exI [of _ 1])
  then show "mm_free_ok (mm_two [0x1000, 0x1018] 0)" "mm_free_ok (mm_two [0x1018] k)"
    unfolding mm_free_ok_def using mm_two_geom by (simp_all add: frame_at_def) (simp_all add: mm_two_def)
qed

section \<open>Properties\<close>

text \<open>
  \<open>pa2frame\<close> and \<open>frame2pa\<close> invert each other on every bank: any address
  within the \<open>j\<close>-th page of bank \<open>i\<close> goes to the \<open>j\<close>-th frame of the bank's array, which goes
  back to the start of that page.
\<close>

theorem pa2frame_frame2pa:
  assumes "mm_geom s" "i < length (mems s)" "j < unat (pf_array_len s ! i)" "unat off < 4096"
  shows "pa2frame s (page_at s i j + off) = OK (frame_at s i j) \<and> frame2pa s (frame_at s i j) = OK (page_at s i j)"
  using pa2frame_in_page [OF assms] frame2pa_frame_at [OF assms(1-3)] by blast

theorem pa2frame_frame2pa_witness:
  "pa2frame (mm_two [] 0) 0x80001abc = OK 0x1018 \<and> frame2pa (mm_two [] 0) 0x1018 = OK 0x80001000"
proof -
  have "page_at (mm_two [] 0) 0 1 = 0x80001000" by (simp add: page_at_def mm_two_def)
  then show ?thesis
    using pa2frame_frame2pa [where s = "mm_two [] 0" and i = 0 and j = 1 and off = "0xabc"] mm_two_geom mm_two_frames(2)
    by simp
qed

text \<open>
  C24 (functional). \<open>phy_frame_alloc\<close> takes a frame off the free lists, clears its page and
  nothing else, and keeps the free lists well formed; it fails with \<open>-KER_MEM_ER\<close> exactly when no
  frame is free, and never panics.
\<close>

theorem phy_frame_alloc_correct:
  assumes "mm_free_ok s"
  shows "case phy_frame_alloc s of
      (s', OK f) \<Rightarrow> mm_free_ok s' \<and> f \<in> free_frames s \<and> free_frames s' = free_frames s - {f}
        \<and> (\<exists>pa. frame2pa s f = OK pa \<and> (\<forall>x. cells s' x = (if in_page pa x then 0 else cells s x)))
    | (s', ERR e) \<Rightarrow> e = KER_MEM_ER \<and> s' = s \<and> free_frames s = {}
    | (s', PANIC) \<Rightarrow> False"
proof -
  obtain s' r where r: "phy_frame_alloc s = (s', r)" by fastforce
  show ?thesis
    using phy_frame_alloc_spec [OF assms r] by (elim disjE exE conjE) (simp_all add: r zero_page_def)
qed

theorem phy_frame_alloc_correct_witness:
  "case phy_frame_alloc (mm_two [0x1000, 0x1018] 0) of
     (s', OK f) \<Rightarrow> f \<in> free_frames (mm_two [0x1000, 0x1018] 0) | (s', _) \<Rightarrow> False"
proof -
  have "free_frames (mm_two [0x1000, 0x1018] 0) \<noteq> {}" by (simp add: free_frames_def mm_two_def)
  then show ?thesis
    using phy_frame_alloc_correct [OF mm_two_ok(1)] by (auto split: prod.splits result.splits)
qed

text \<open>
  C25 (functional). Reference counting returns a frame to the free list exactly once: after \<open>k\<close>
  references (\<open>0 < k\<close>) to an allocated frame were dropped, the frame is free again, no drop
  before the last one freed it, and one drop too many fails with \<open>-KER_MEM_ER\<close>.
\<close>

theorem phy_frame_ref_dec_correct:
  assumes "mm_free_ok s" "i < length (mems s)" "j < unat (pf_array_len s ! i)"
    "frame_at s i j \<notin> free_frames s" "pf_ref s (frame_at s i j) = of_nat k" "0 < k" "k < 2 ^ 64"
  shows "(\<forall>n < k. \<exists>s'. ref_drops n s (frame_at s i j) = (s', OK ()) \<and> frame_at s i j \<notin> free_frames s')
    \<and> (\<exists>s'. ref_drops k s (frame_at s i j) = (s', OK ()) \<and> mm_free_ok s' \<and> free_frames s' = insert (frame_at s i j) (free_frames s)
        \<and> phy_frame_ref_dec s' (frame_at s i j) = (s', ERR KER_MEM_ER))"
proof -
  note R = ref_drops_spec [OF assms(1-3) refl assms(4,5) _ assms(7,6)]
  have "\<exists>s'. ref_drops n s (frame_at s i j) = (s', OK ()) \<and> frame_at s i j \<notin> free_frames s'" if "n < k" for n
    using R [of n] that assms(4) by auto
  moreover have "\<exists>s'. ref_drops k s (frame_at s i j) = (s', OK ()) \<and> mm_free_ok s' \<and> free_frames s' = insert (frame_at s i j) (free_frames s)
      \<and> phy_frame_ref_dec s' (frame_at s i j) = (s', ERR KER_MEM_ER)"
    using R [of k] by (auto simp: phy_frame_ref_dec_def)
  ultimately show ?thesis by blast
qed

theorem phy_frame_ref_dec_correct_witness:
  "\<exists>s'. ref_drops 2 (mm_two [0x1018] 2) 0x1000 = (s', OK ()) \<and> free_frames s' = {0x1000, 0x1018}"
proof -
  have "free_frames (mm_two [0x1018] 2) = {0x1018}" by (simp add: free_frames_def mm_two_def)
  then show ?thesis
    using phy_frame_ref_dec_correct [OF mm_two_ok(2), of 0 2 0 2] mm_two_frames(1)
    by auto
qed

end
