(* ===== verification/Vmm.thy ===== *)
theory Vmm
  imports Pmm
begin

unbundle bit_operations_syntax

text \<open>
  \<^verbatim>\<open>kern/mm/vmm.c\<close> and the Sv39 bit fields of \<^verbatim>\<open>include/kern/mm/vmm.h\<close>: three-level
  page tables in physical memory. The function pointers \<open>pt_frame_alloc\<close>,
  \<open>pt_frame_ref_inc\<close> and \<open>pt_frame_ref_dec\<close> are the flag \<open>pt_phy\<close>: boot-time versions over
  \<open>palloc\<close> before \<open>vmm_setup_kern\<close> ends, versions over the frame allocator after that.
\<close>

section \<open>Sv39 fields\<close>

definition va_vpn :: "nat \<Rightarrow> u64 \<Rightarrow> u64" where
  "va_vpn level va = take_bit 9 (drop_bit (12 + 9 * level) va)"

definition pp_off_clear :: "u64 \<Rightarrow> u64" where
  "pp_off_clear a = a AND NOT (mask 12)"

definition pa_ppn :: "u64 \<Rightarrow> u64" where
  "pa_ppn pa = take_bit 44 (drop_bit 12 pa)"

definition pte_v :: "u64 \<Rightarrow> bool" where
  "pte_v pte \<longleftrightarrow> bit pte 0"

definition pte_ppn :: "u64 \<Rightarrow> u64" where
  "pte_ppn pte = take_bit 44 (drop_bit 10 pte)"

definition pte2pa :: "u64 \<Rightarrow> u64" where
  "pte2pa pte = push_bit 12 (pte_ppn pte)"

definition pte_set_ppn :: "u64 \<Rightarrow> u64 \<Rightarrow> u64" where
  "pte_set_ppn pte ppn = (pte AND NOT (push_bit 10 (mask 44))) OR push_bit 10 (take_bit 44 ppn)"

definition pte_set_perm :: "u64 \<Rightarrow> u64 \<Rightarrow> u64" where
  "pte_set_perm pte perm = (pte AND NOT (mask 10)) OR take_bit 10 perm"

text \<open>\<open>ptr->val = 0; ptr->bits.v = 1; ptr->pp.ppn = pa.pp.ppn\<close>\<close>

definition pte_table :: "u64 \<Rightarrow> u64" where
  "pte_table pa = pte_set_ppn 1 (pa_ppn pa)"

section \<open>The code\<close>

definition pt_boot_frame_alloc :: "mm \<Rightarrow> mm \<times> u64 result" where
  "pt_boot_frame_alloc s =
     (let (s1, addr) = palloc s PGSIZE_W PGSIZE_W in (s1\<lparr>cells := zero_page (cells s1) addr\<rparr>, OK addr))"

definition pt_phy_frame_alloc :: "mm \<Rightarrow> mm \<times> u64 result" where
  "pt_phy_frame_alloc s =
     (case phy_frame_alloc s of
        (s1, OK pf) \<Rightarrow>
          (case phy_frame_ref_inc s1 pf of
             (s2, OK _) \<Rightarrow> (case frame2pa s2 pf of OK pa \<Rightarrow> (s2, OK pa) | _ \<Rightarrow> (s2, PANIC))
           | (s2, _) \<Rightarrow> (s2, PANIC))
      | (s1, ERR e) \<Rightarrow> (s1, ERR e)
      | (s1, PANIC) \<Rightarrow> (s1, PANIC))"

definition pt_phy_frame_ref_inc :: "mm \<Rightarrow> u64 \<Rightarrow> mm \<times> unit result" where
  "pt_phy_frame_ref_inc s pa =
     (case pa2frame s pa of
        OK pf \<Rightarrow> (case phy_frame_ref_inc s pf of (s1, OK _) \<Rightarrow> (s1, OK ()) | (s1, _) \<Rightarrow> (s1, PANIC))
      | ERR e \<Rightarrow> (s, OK ())
      | PANIC \<Rightarrow> (s, PANIC))"

definition pt_phy_frame_ref_dec :: "mm \<Rightarrow> u64 \<Rightarrow> mm \<times> unit result" where
  "pt_phy_frame_ref_dec s pa =
     (case pa2frame s pa of
        OK pf \<Rightarrow> (case phy_frame_ref_dec s pf of (s1, OK _) \<Rightarrow> (s1, OK ()) | (s1, _) \<Rightarrow> (s1, PANIC))
      | ERR e \<Rightarrow> (s, OK ())
      | PANIC \<Rightarrow> (s, PANIC))"

definition pt_frame_alloc :: "mm \<Rightarrow> mm \<times> u64 result" where
  "pt_frame_alloc s = (if pt_phy s then pt_phy_frame_alloc s else pt_boot_frame_alloc s)"

definition pt_frame_ref_inc :: "mm \<Rightarrow> u64 \<Rightarrow> mm \<times> unit result" where
  "pt_frame_ref_inc s pa = (if pt_phy s then pt_phy_frame_ref_inc s pa else (s, OK ()))"

definition pt_frame_ref_dec :: "mm \<Rightarrow> u64 \<Rightarrow> mm \<times> unit result" where
  "pt_frame_ref_dec s pa = (if pt_phy s then pt_phy_frame_ref_dec s pa else (s, OK ()))"

text \<open>Allocate a table and enter it at \<open>ptr\<close>; the result is the table's address.\<close>

definition pt_new_table :: "mm \<Rightarrow> u64 \<Rightarrow> mm \<times> u64 result" where
  "pt_new_table s ptr =
     (case pt_frame_alloc s of
        (s1, OK pa) \<Rightarrow> (s1\<lparr>cells := (cells s1)(ptr := pte_table pa)\<rparr>, OK pa)
      | (s1, ERR e) \<Rightarrow> (s1, ERR e)
      | (s1, PANIC) \<Rightarrow> (s1, PANIC))"

text \<open>The part of \<open>pt_walk\<close> below the root entry; \<open>pa1\<close> is 0 unless the second table is new.\<close>

definition pt_walk_low :: "mm \<Rightarrow> u64 \<Rightarrow> u64 \<Rightarrow> bool \<Rightarrow> u64 \<Rightarrow> mm \<times> u64 option result" where
  "pt_walk_low s ptr2 va create pa1 =
     (let ptr = pte2pa (cells s ptr2) + 8 * va_vpn 1 va
      in if pte_v (cells s ptr) then (s, OK (Some (pte2pa (cells s ptr) + 8 * va_vpn 0 va)))
         else if \<not> create then (s, OK None)
         else case pt_new_table s ptr of
             (s1, OK pa2) \<Rightarrow> (s1, OK (Some (pte2pa (cells s1 ptr) + 8 * va_vpn 0 va)))
           | (s1, ERR e) \<Rightarrow>
               (if pa1 \<noteq> 0 then case pt_frame_ref_dec s1 pa1 of (s2, OK _) \<Rightarrow> (s2, ERR e) | (s2, _) \<Rightarrow> (s2, PANIC)
                else (s1, ERR e))
           | (s1, PANIC) \<Rightarrow> (s1, PANIC))"

definition pt_walk :: "mm \<Rightarrow> u64 \<Rightarrow> u64 \<Rightarrow> bool \<Rightarrow> mm \<times> u64 option result" where
  "pt_walk s pgdir va create =
     (let ptr = pgdir + 8 * va_vpn 2 va
      in if pte_v (cells s ptr) then pt_walk_low s ptr va create 0
         else if \<not> create then (s, OK None)
         else case pt_new_table s ptr of
             (s1, OK pa1) \<Rightarrow> pt_walk_low s1 ptr va create pa1
           | (s1, ERR e) \<Rightarrow> (s1, ERR e)
           | (s1, PANIC) \<Rightarrow> (s1, PANIC))"

definition pt_lookup :: "mm \<Rightarrow> u64 \<Rightarrow> u64 \<Rightarrow> mm \<times> u64 option result" where
  "pt_lookup s pgdir va =
     (case pt_walk s pgdir va False of
        (s1, OK None) \<Rightarrow> (s1, OK None)
      | (s1, OK (Some pte)) \<Rightarrow> (s1, OK (if pte_v (cells s1 pte) then Some pte else None))
      | (s1, ERR e) \<Rightarrow> (s1, ERR e)
      | (s1, PANIC) \<Rightarrow> (s1, PANIC))"

definition pt_unmap :: "mm \<Rightarrow> u64 \<Rightarrow> u64 \<Rightarrow> mm \<times> unit result" where
  "pt_unmap s pgdir va =
     (case pt_lookup s pgdir va of
        (s1, OK None) \<Rightarrow> (s1, OK ())
      | (s1, OK (Some pte)) \<Rightarrow>
          (case pt_frame_ref_dec s1 (pte2pa (cells s1 pte)) of
             (s2, OK _) \<Rightarrow> (s2\<lparr>cells := (cells s2)(pte := 0)\<rparr>, OK ())
           | (s2, ERR e) \<Rightarrow> (s2, ERR e)
           | (s2, PANIC) \<Rightarrow> (s2, PANIC))
      | (s1, ERR e) \<Rightarrow> (s1, ERR e)
      | (s1, PANIC) \<Rightarrow> (s1, PANIC))"

text \<open>The second half of \<open>pt_map\<close>: walk with creation, fill the entry, count the reference.\<close>

definition pt_enter :: "mm \<Rightarrow> u64 \<Rightarrow> u64 \<Rightarrow> u64 \<Rightarrow> u64 \<Rightarrow> mm \<times> unit result" where
  "pt_enter s pgdir va pa perm =
     (case pt_walk s pgdir va True of
        (s1, OK (Some pte)) \<Rightarrow>
          (let w = pte_set_perm (pte_set_ppn (cells s1 pte) (pa_ppn pa)) (perm OR 1);
               s2 = s1\<lparr>cells := (cells s1)(pte := w)\<rparr>
           in case pt_frame_ref_inc s2 pa of (s3, OK _) \<Rightarrow> (s3, OK ()) | (s3, _) \<Rightarrow> (s3, PANIC))
      | (s1, OK None) \<Rightarrow> (s1, PANIC)
      | (s1, ERR e) \<Rightarrow> (s1, ERR e)
      | (s1, PANIC) \<Rightarrow> (s1, PANIC))"

definition pt_map :: "mm \<Rightarrow> u64 \<Rightarrow> u64 \<Rightarrow> u64 \<Rightarrow> u64 \<Rightarrow> mm \<times> unit result" where
  "pt_map s pgdir va0 pa0 perm =
     (let va = pp_off_clear va0; pa = pp_off_clear pa0
      in case pt_walk s pgdir va False of
           (s1, OK p) \<Rightarrow>
             (if (case p of None \<Rightarrow> False | Some pte \<Rightarrow> pte_v (cells s1 pte))
              then case pt_unmap s1 pgdir va of
                     (s2, OK _) \<Rightarrow> pt_enter s2 pgdir va pa perm
                   | (s2, ERR e) \<Rightarrow> (s2, ERR e)
                   | (s2, PANIC) \<Rightarrow> (s2, PANIC)
              else pt_enter s1 pgdir va pa perm)
         | (s1, ERR e) \<Rightarrow> (s1, ERR e)
         | (s1, PANIC) \<Rightarrow> (s1, PANIC))"

subsection \<open>Setting up the kernel's own tables\<close>

text \<open>
  The mapping loops of \<open>vmm_setup_mmio\<close> and \<open>vmm_setup_kern\<close>: page after page while the address is
  below \<open>limit\<close>, any failure of \<open>pt_map\<close> being a panic. \<open>PG_FUEL\<close> iterations are enough for any range
  that does not end within a page of the end of the address space (\<open>map_range_returns\<close> below).
\<close>

fun map_range :: "nat \<Rightarrow> mm \<Rightarrow> u64 \<Rightarrow> u64 \<Rightarrow> u64 \<Rightarrow> u64 \<Rightarrow> u64 \<Rightarrow> mm result option" where
  "map_range 0 s pgdir va pa limit perm = None"
| "map_range (Suc fuel) s pgdir va pa limit perm =
     (if pa < limit
      then case pt_map s pgdir va pa perm of
             (s1, OK _) \<Rightarrow> map_range fuel s1 pgdir (va + PGSIZE_W) (pa + PGSIZE_W) limit perm
           | (s1, _) \<Rightarrow> Some PANIC
      else Some (OK s))"

definition PG_FUEL :: nat where
  "PG_FUEL = 2 ^ 52 + 1"

definition KERNBASE :: u64 where [layout_simps]: "KERNBASE = 0x80200000"
definition MMIOBASE :: u64 where [layout_simps]: "MMIOBASE = 0xffffffc000000000"

text \<open>\<open>.a = 1, .d = 1, .r = 1, .w = 1, .g = 1\<close>, and with \<open>.x = 1\<close> for the kernel's text.\<close>

definition PERM_ADRWG :: u64 where "PERM_ADRWG = 0xe6"
definition PERM_ADRXWG :: u64 where "PERM_ADRXWG = 0xee"

record mmio_setup =
  mm_name :: string
  mm_addr :: u64
  mm_size :: u64

definition vmm_register_mmio :: "mmio_setup list \<Rightarrow> string \<Rightarrow> u64 \<Rightarrow> u64 \<Rightarrow> mmio_setup list" where
  "vmm_register_mmio l name addr sz = \<lparr>mm_name = name, mm_addr = addr, mm_size = sz\<rparr> # l"

text \<open>The driver's own copy of the address, \<open>*mm_addr\<close>, is moved to the mapped place.\<close>

fun vmm_setup_mmio :: "mm \<Rightarrow> u64 \<Rightarrow> mmio_setup list \<Rightarrow> (mm \<times> mmio_setup list) result option" where
  "vmm_setup_mmio s pgdir [] = Some (OK (s, []))"
| "vmm_setup_mmio s pgdir (io # ios) =
     (case map_range PG_FUEL s pgdir (mm_addr io + MMIOBASE) (mm_addr io) (mm_addr io + mm_size io) PERM_ADRWG of
        Some (OK s1) \<Rightarrow>
          map_option (\<lambda>r. case r of OK (s2, ios') \<Rightarrow> OK (s2, io\<lparr>mm_addr := mm_addr io + MMIOBASE\<rparr> # ios') | _ \<Rightarrow> PANIC)
            (vmm_setup_mmio s1 pgdir ios)
      | Some _ \<Rightarrow> Some PANIC
      | None \<Rightarrow> None)"

text \<open>The identity mapping of each memory bank, without the part that holds the kernel's text.\<close>

fun vmm_setup_banks :: "mm \<Rightarrow> u64 \<Rightarrow> u64 \<Rightarrow> (u64 \<times> u64) list \<Rightarrow> mm result option" where
  "vmm_setup_banks s pgdir text_end [] = Some (OK s)"
| "vmm_setup_banks s pgdir text_end ((addr, sz) # ms) =
     (let va = (if addr \<le> text_end \<and> text_end < addr + sz then text_end else addr)
      in case map_range PG_FUEL s pgdir va va (addr + sz) PERM_ADRWG of
           Some (OK s1) \<Rightarrow> vmm_setup_banks s1 pgdir text_end ms
         | Some _ \<Rightarrow> Some PANIC
         | None \<Rightarrow> None)"

definition vmm_setup_kern :: "mm \<Rightarrow> u64 \<Rightarrow> u64 \<Rightarrow> mm result option" where
  "vmm_setup_kern s pgdir kern_text_end =
     (let text_end = align_up kern_text_end PGSIZE_W
      in case map_range PG_FUEL s pgdir KERNBASE KERNBASE text_end PERM_ADRXWG of
           Some (OK s1) \<Rightarrow>
             (case vmm_setup_banks s1 pgdir text_end (mems s1) of
                Some (OK s2) \<Rightarrow> map_option (\<lambda>r. case r of OK s3 \<Rightarrow> OK (s3\<lparr>pt_phy := True\<rparr>) | _ \<Rightarrow> PANIC) (pmm_init s2)
              | Some _ \<Rightarrow> Some PANIC
              | None \<Rightarrow> None)
         | Some _ \<Rightarrow> Some PANIC
         | None \<Rightarrow> None)"

lemma map_range_returns:
  assumes "unat limit + 4096 \<le> 2 ^ 64" "unat limit \<le> unat pa + 4096 * n"
  shows "map_range (Suc n) s pgdir va pa limit perm \<noteq> None"
  using assms(2)
proof (induction n arbitrary: s va pa)
  case 0
  then show ?case by (simp add: word_less_nat_alt)
next
  case (Suc n)
  have "map_range (Suc n) s1 pgdir (va + PGSIZE_W) (pa + PGSIZE_W) limit perm \<noteq> None" if "pa < limit" for s1
  proof (rule Suc.IH)
    have "unat pa < unat limit" using that by (simp add: word_less_nat_alt)
    then have "unat (pa + PGSIZE_W) = unat pa + 4096" using assms(1) by (simp add: PGSIZE_W_def unat_word_ariths)
    then show "unat limit \<le> unat (pa + PGSIZE_W) + 4096 * n" using Suc.prems by simp
  qed
  then show ?case
    unfolding map_range.simps(2) [of "Suc n"] by (simp del: map_range.simps split: prod.splits result.splits)
qed

section \<open>Bit fields\<close>

lemma pte_table_v [simp]: "pte_v (pte_table pa)"
  by (simp add: pte_v_def pte_table_def pte_set_ppn_def bit_simps)

definition page_ok :: "u64 \<Rightarrow> bool" where
  "page_ok p \<longleftrightarrow> take_bit 12 p = 0 \<and> take_bit 56 p = p"

lemma bit_high_zero: "take_bit n (p :: u64) = p \<Longrightarrow> n \<le> i \<Longrightarrow> \<not> bit p i"
  by (metis bit_take_bit_iff linorder_not_less)

lemma bit_low_zero: "take_bit n (p :: u64) = 0 \<Longrightarrow> i < n \<Longrightarrow> \<not> bit p i"
  by (metis bit_0_eq bit_take_bit_iff bot_apply bot_bool_def)

lemma pte2pa_table: "page_ok p \<Longrightarrow> pte2pa (pte_table p) = p"
proof (rule bit_word_eqI)
  fix i assume p: "page_ok p" and "i < LENGTH(64)"
  then have i: "i < 64" by simp
  note defs = pte2pa_def pte_ppn_def pte_table_def pte_set_ppn_def pa_ppn_def
  show "bit (pte2pa (pte_table p)) i = bit p i"
  proof (cases "12 \<le> i \<and> i < 56")
    case True
    then have "i - 12 < 44" "12 + (i - 12) = i" by auto
    then show ?thesis using True i by (auto simp: defs bit_simps)
  next
    case False
    then have "\<not> bit p i" using p bit_low_zero [of 12 p i] bit_high_zero [of 56 p i] by (auto simp: page_ok_def)
    then show ?thesis using False i by (auto simp: defs bit_simps)
  qed
qed

lemma pte2pa_page_ok: "page_ok (pte2pa w)"
proof -
  have "take_bit 12 (pte2pa w) = 0" by (rule bit_word_eqI) (simp add: pte2pa_def bit_simps)
  moreover have "take_bit 56 (pte2pa w) = pte2pa w" by (rule bit_word_eqI) (auto simp: pte2pa_def pte_ppn_def bit_simps)
  ultimately show ?thesis by (simp add: page_ok_def)
qed

text \<open>The entry \<open>pt_map\<close> writes: valid, the frame number of \<open>pa\<close>, the permission bits.\<close>

lemma pte_leaf:
  fixes old ppn perm :: u64
  defines "w \<equiv> pte_set_perm (pte_set_ppn old ppn) (perm OR 1)"
  shows "pte_v w" "pte_ppn w = take_bit 44 ppn" "take_bit 10 w = take_bit 10 (perm OR 1)"
proof -
  show "pte_v w" by (simp add: w_def pte_v_def pte_set_perm_def bit_simps)
  show "pte_ppn w = take_bit 44 ppn"
    by (rule bit_word_eqI) (auto simp: w_def pte_ppn_def pte_set_perm_def pte_set_ppn_def bit_simps)
  show "take_bit 10 w = take_bit 10 (perm OR 1)"
    by (rule bit_word_eqI) (auto simp: w_def pte_set_perm_def pte_set_ppn_def bit_simps)
qed

section \<open>Pages and entries\<close>

lemma page_ok_nat:
  assumes "page_ok p"
  shows "unat p mod 4096 = 0" "unat p + 4096 \<le> 2 ^ 64"
proof -
  have "take_bit 12 (unat p) = 0" using assms by (metis page_ok_def unsigned_take_bit_eq unsigned_0)
  then show 1: "unat p mod 4096 = 0" by (simp add: take_bit_eq_mod)
  then obtain k where "unat p = 4096 * k" by (meson dvdE mod_0_imp_dvd)
  moreover from this have "k < 2 ^ 52" using unat_lt64 [of p] by simp
  ultimately show "unat p + 4096 \<le> 2 ^ 64" by simp
qed

lemma entry_unat:
  assumes "page_ok p" "i < 512"
  shows "unat (p + 8 * i) = unat p + 8 * unat i"
proof -
  have i: "unat i < 512" using assms(2) by (simp add: word_less_nat_alt)
  then have "unat (8 * i) = 8 * unat i" by (simp add: unat_word_ariths)
  then show ?thesis using page_ok_nat(2) [OF assms(1)] i by (simp add: unat_word_ariths)
qed

lemma entry_inj:
  assumes "page_ok p" "page_ok q" "i < 512" "j < 512"
  shows "p + 8 * i = q + 8 * j \<longleftrightarrow> p = q \<and> i = j"
proof
  assume "p + 8 * i = q + 8 * j"
  then have e: "unat p + 8 * unat i = unat q + 8 * unat j" using entry_unat [OF assms(1,3)] entry_unat [OF assms(2,4)] by metis
  have ij: "unat i < 512" "unat j < 512" using assms(3,4) by (simp_all add: word_less_nat_alt)
  have "(unat p + 8 * unat i) div 4096 = unat p div 4096" "(unat q + 8 * unat j) div 4096 = unat q div 4096"
    using page_ok_nat(1) [OF assms(1)] page_ok_nat(1) [OF assms(2)] ij by (auto elim!: mod_0_imp_dvd [THEN dvdE] simp: mod_0_imp_dvd)
  then have "unat p div 4096 = unat q div 4096" using e by simp
  then have "unat p = unat q"
    using page_ok_nat(1) [OF assms(1)] page_ok_nat(1) [OF assms(2)] by (metis div_mult_mod_eq)
  then show "p = q \<and> i = j" using e by (simp add: word_unat_eq_iff)
qed simp

lemma in_page_entry:
  assumes "page_ok p" "page_ok q" "j < 512"
  shows "in_page p (q + 8 * j) \<longleftrightarrow> p = q"
proof
  have j: "unat j < 512" using assms(3) by (simp add: word_less_nat_alt)
  assume "in_page p (q + 8 * j)"
  then have lt: "unat (q + 8 * j - p) < 4096" by (simp add: in_page_def layout_simps word_less_nat_alt)
  note P = page_ok_nat [OF assms(1)] and Q = page_ok_nat [OF assms(2)]
  obtain a b where ab: "unat p = 4096 * a" "unat q = 4096 * b" using P(1) Q(1) by (meson dvdE mod_0_imp_dvd)
  have "unat (q + 8 * j - p) = (if unat p \<le> unat q + 8 * unat j then unat q + 8 * unat j - unat p
      else unat q + 8 * unat j + 2 ^ 64 - unat p)"
    using entry_unat [OF assms(2,3)] by (subst unat_sub_if_size) (simp add: word_size)
  then have "a = b" using lt ab j P(2) Q(2) by (auto split: if_splits)
  then show "p = q" using ab by (simp add: word_unat_eq_iff)
next
  assume "p = q"
  then show "in_page p (q + 8 * j)"
    using entry_unat [OF assms(2,3)] assms(3) by (simp add: in_page_def layout_simps word_less_nat_alt unat_word_ariths)
qed

lemma va_vpn_bound: "va_vpn l va < 512"
proof -
  have "unat (va_vpn l va) < 2 ^ 9"
    unfolding va_vpn_def unsigned_take_bit_eq by (rule take_bit_nat_less_exp)
  then show ?thesis by (simp add: word_less_nat_alt)
qed

section \<open>The tree of tables and the translation it defines\<close>

definition l1 :: "(u64 \<Rightarrow> u64) \<Rightarrow> u64 \<Rightarrow> u64 \<Rightarrow> u64" where
  "l1 m root i = pte2pa (m (root + 8 * i))"

definition v1 :: "(u64 \<Rightarrow> u64) \<Rightarrow> u64 \<Rightarrow> u64 \<Rightarrow> bool" where
  "v1 m root i \<longleftrightarrow> i < 512 \<and> pte_v (m (root + 8 * i))"

definition l0 :: "(u64 \<Rightarrow> u64) \<Rightarrow> u64 \<Rightarrow> u64 \<Rightarrow> u64 \<Rightarrow> u64" where
  "l0 m root i j = pte2pa (m (l1 m root i + 8 * j))"

definition v0 :: "(u64 \<Rightarrow> u64) \<Rightarrow> u64 \<Rightarrow> u64 \<Rightarrow> u64 \<Rightarrow> bool" where
  "v0 m root i j \<longleftrightarrow> v1 m root i \<and> j < 512 \<and> pte_v (m (l1 m root i + 8 * j))"

definition leaf :: "(u64 \<Rightarrow> u64) \<Rightarrow> u64 \<Rightarrow> u64 \<Rightarrow> u64 \<Rightarrow> u64 \<Rightarrow> u64 option" where
  "leaf m root i j k =
     (if v0 m root i j \<and> pte_v (m (l0 m root i j + 8 * k)) then Some (m (l0 m root i j + 8 * k)) else None)"

definition xlate :: "(u64 \<Rightarrow> u64) \<Rightarrow> u64 \<Rightarrow> u64 \<Rightarrow> u64 option" where
  "xlate m root va = leaf m root (va_vpn 2 va) (va_vpn 1 va) (va_vpn 0 va)"

definition tables :: "(u64 \<Rightarrow> u64) \<Rightarrow> u64 \<Rightarrow> u64 set" where
  "tables m root = insert root ({l1 m root i | i. v1 m root i} \<union> {l0 m root i j | i j. v0 m root i j})"

text \<open>No table is entered twice.\<close>

definition tree_ok :: "(u64 \<Rightarrow> u64) \<Rightarrow> u64 \<Rightarrow> bool" where
  "tree_ok m root \<longleftrightarrow> page_ok root
     \<and> (\<forall>i. v1 m root i \<longrightarrow> l1 m root i \<noteq> root)
     \<and> (\<forall>i j. v0 m root i j \<longrightarrow> l0 m root i j \<noteq> root)
     \<and> (\<forall>i i'. v1 m root i \<and> v1 m root i' \<and> l1 m root i = l1 m root i' \<longrightarrow> i = i')
     \<and> (\<forall>i j k. v0 m root i j \<and> v1 m root k \<longrightarrow> l0 m root i j \<noteq> l1 m root k)
     \<and> (\<forall>i j i' j'. v0 m root i j \<and> v0 m root i' j' \<and> l0 m root i j = l0 m root i' j' \<longrightarrow> i = i' \<and> j = j')"

lemma tree_okD:
  assumes "tree_ok m root"
  shows "page_ok root" "v1 m root i \<Longrightarrow> l1 m root i \<noteq> root" "v0 m root i j \<Longrightarrow> l0 m root i j \<noteq> root"
    "v1 m root i \<Longrightarrow> v1 m root i' \<Longrightarrow> l1 m root i = l1 m root i' \<Longrightarrow> i = i'"
    "v0 m root i j \<Longrightarrow> v1 m root k \<Longrightarrow> l0 m root i j \<noteq> l1 m root k"
    "v0 m root i j \<Longrightarrow> v0 m root i' j' \<Longrightarrow> l0 m root i j = l0 m root i' j' \<Longrightarrow> i = i' \<and> j = j'"
  using assms unfolding tree_ok_def by blast+

lemma l_page_ok: "page_ok (l1 m root i)" "page_ok (l0 m root i j)"
  by (simp_all add: l1_def l0_def pte2pa_page_ok)

lemma tables_intro:
  "root \<in> tables m root" "v1 m root i \<Longrightarrow> l1 m root i \<in> tables m root" "v0 m root i j \<Longrightarrow> l0 m root i j \<in> tables m root"
  by (auto simp: tables_def)

lemma v_bounds: "v1 m root i \<Longrightarrow> i < 512" "v0 m root i j \<Longrightarrow> i < 512 \<and> j < 512" "v0 m root i j \<Longrightarrow> v1 m root i"
  by (auto simp: v1_def v0_def)

text \<open>Entering a cleared fresh table at an empty root entry.\<close>

lemma enter_l1:
  assumes ok: "tree_ok m root" and i: "i < 512" "\<not> v1 m root i"
    and p: "page_ok p" "p \<notin> tables m root" and m': "m' = (zero_page m p)(root + 8 * i := pte_table p)"
  shows "v1 m' root k \<longleftrightarrow> k = i \<or> v1 m root k" "v1 m' root k \<Longrightarrow> l1 m' root k = (if k = i then p else l1 m root k)"
    "v0 m' root k j \<longleftrightarrow> v0 m root k j" "v0 m root k j \<Longrightarrow> l0 m' root k j = l0 m root k j"
    "leaf m' root k j x = (if x < 512 then leaf m root k j x else leaf m' root k j x)"
    "tree_ok m' root" "tables m' root = insert p (tables m root)"
proof -
  note R = tree_okD(1) [OF ok]
  have pr: "p \<noteq> root" using p(2) tables_intro(1) by auto
  have at: "m' (q + 8 * j) = (if q = root \<and> j = i then pte_table p else if q = p then 0 else m (q + 8 * j))"
    if "page_ok q" "j < 512" for q j
    using entry_inj [OF that(1) R that(2) i(1)] in_page_entry [OF p(1) that] by (auto simp: m' zero_page_def)
  show V1: "v1 m' root k \<longleftrightarrow> k = i \<or> v1 m root k" for k
    using at [OF R, of k] i(1) pr by (auto simp: v1_def)
  show L1: "l1 m' root k = (if k = i then p else l1 m root k)" if "v1 m' root k" for k
    using at [OF R, of k] v_bounds(1) [OF that] pr pte2pa_table [OF p(1)] by (simp add: l1_def)
  have fresh: "l1 m root k \<noteq> p" if "v1 m root k" for k using that p(2) tables_intro(2) by auto
  have fresh0: "l0 m root k j \<noteq> p" if "v0 m root k j" for k j using that p(2) tables_intro(3) by auto
  have V0': "v0 m' root k j \<longleftrightarrow> v0 m root k j" for k j
  proof (cases "k = i")
    case True
    then have "l1 m' root k = p" using L1 V1 by simp
    moreover have "\<not> pte_v (m' (p + 8 * j))" if "j < 512" using at [OF p(1) that] pr by (simp add: pte_v_def)
    ultimately show ?thesis using True i(2) by (auto simp: v0_def)
  next
    case False
    then show ?thesis
      using L1 [of k] V1 [of k] at [OF l_page_ok(1), of j m root k] tree_okD(2) [OF ok, of k] fresh [of k]
      by (auto simp: v0_def)
  qed
  then show "v0 m' root k j \<longleftrightarrow> v0 m root k j" for k j .
  have L0: "l0 m' root k j = l0 m root k j" if "v0 m root k j" for k j
  proof -
    have k: "v1 m root k" "j < 512" "k \<noteq> i" using that i(2) v_bounds(3) [OF that] by (auto simp: v0_def)
    have "m' (l1 m root k + 8 * j) = m (l1 m root k + 8 * j)"
      using at [OF l_page_ok(1) k(2)] tree_okD(2) [OF ok k(1)] fresh [OF k(1)] by simp
    moreover have "l1 m' root k = l1 m root k" using L1 [of k] V1 [of k] k by simp
    ultimately show ?thesis by (simp add: l0_def)
  qed
  then show "v0 m root k j \<Longrightarrow> l0 m' root k j = l0 m root k j" for k j .
  show "leaf m' root k j x = (if x < 512 then leaf m root k j x else leaf m' root k j x)" for k j x
  proof (cases "x < 512 \<and> v0 m root k j")
    case True
    then have "m' (l0 m root k j + 8 * x) = m (l0 m root k j + 8 * x)"
      using at [OF l_page_ok(2), of x m root k j] tree_okD(3) [OF ok, of k j] fresh0 [of k j] by simp
    then show ?thesis using True V0' [of k j] L0 [of k j] by (simp add: leaf_def)
  next
    case False
    then show ?thesis using V0' [of k j] by (auto simp: leaf_def)
  qed
  show "tree_ok m' root"
    unfolding tree_ok_def
  proof (intro conjI allI impI)
    show "l1 m' root k \<noteq> root" if "v1 m' root k" for k using that L1 [OF that] V1 [of k] pr tree_okD(2) [OF ok, of k] by auto
    show "l0 m' root k j \<noteq> root" if "v0 m' root k j" for k j using that V0' [of k j] L0 [of k j] tree_okD(3) [OF ok, of k j] by metis
    show "k = k'" if "v1 m' root k \<and> v1 m' root k' \<and> l1 m' root k = l1 m' root k'" for k k'
      using that L1 [of k] L1 [of k'] V1 [of k] V1 [of k'] fresh [of k] fresh [of k'] tree_okD(4) [OF ok, of k k'] by metis
    show "l0 m' root a b \<noteq> l1 m' root c" if "v0 m' root a b \<and> v1 m' root c" for a b c
      using that V0' [of a b] L0 [of a b] L1 [of c] V1 [of c] fresh0 [of a b] tree_okD(5) [OF ok, of a b c] by metis
    show "a = c" "b = d" if "v0 m' root a b \<and> v0 m' root c d \<and> l0 m' root a b = l0 m' root c d" for a b c d
      using that V0' [of a b] V0' [of c d] L0 [of a b] L0 [of c d] tree_okD(6) [OF ok, of a b c d] by metis+
  qed (rule R)
  show "tables m' root = insert p (tables m root)"
  proof -
    have "l1 m' root i = p" "\<And>k. v1 m root k \<Longrightarrow> l1 m' root k = l1 m root k" using L1 V1 i(2) by auto
    then have "{l1 m' root k | k. v1 m' root k} = insert p {l1 m root k | k. v1 m root k}" using V1 by force
    moreover have "{l0 m' root k j | k j. v0 m' root k j} = {l0 m root k j | k j. v0 m root k j}" using V0' L0 by metis
    ultimately show ?thesis by (auto simp: tables_def)
  qed
qed

text \<open>Entering a cleared fresh table at an empty second-level entry.\<close>

lemma enter_l0:
  assumes ok: "tree_ok m root" and i: "v1 m root i" "j < 512" "\<not> v0 m root i j"
    and p: "page_ok p" "p \<notin> tables m root" and m': "m' = (zero_page m p)(l1 m root i + 8 * j := pte_table p)"
  shows "v1 m' root k \<longleftrightarrow> v1 m root k" "v1 m root k \<Longrightarrow> l1 m' root k = l1 m root k"
    "v0 m' root a b \<longleftrightarrow> a = i \<and> b = j \<or> v0 m root a b"
    "v0 m' root a b \<Longrightarrow> l0 m' root a b = (if a = i \<and> b = j then p else l0 m root a b)"
    "x < 512 \<Longrightarrow> leaf m' root a b x = leaf m root a b x"
    "tree_ok m' root" "tables m' root = insert p (tables m root)"
proof -
  note R = tree_okD(1) [OF ok]
  have fresh: "root \<noteq> p" "\<And>k. v1 m root k \<Longrightarrow> l1 m root k \<noteq> p" "\<And>a b. v0 m root a b \<Longrightarrow> l0 m root a b \<noteq> p"
    using p(2) tables_intro by metis+
  have at: "m' (q + 8 * b) = (if q = l1 m root i \<and> b = j then pte_table p else if q = p then 0 else m (q + 8 * b))"
    if "page_ok q" "b < 512" for q b
    using entry_inj [OF that(1) l_page_ok(1) that(2) i(2)] in_page_entry [OF p(1) that] by (auto simp: m' zero_page_def)
  have atR: "m' (root + 8 * k) = m (root + 8 * k)" if "k < 512" for k
    using at [OF R that] tree_okD(2) [OF ok i(1)] fresh(1) by auto
  show V1: "v1 m' root k \<longleftrightarrow> v1 m root k" for k using atR [of k] by (auto simp: v1_def)
  show L1: "l1 m' root k = l1 m root k" if "v1 m root k" for k using atR v_bounds(1) [OF that] by (simp add: l1_def)
  have at1: "m' (l1 m root a + 8 * b) = (if a = i \<and> b = j then pte_table p else m (l1 m root a + 8 * b))"
    if "v1 m root a" "b < 512" for a b
    using at [OF l_page_ok(1) that(2), of m root a] fresh(2) [OF that(1)] tree_okD(4) [OF ok that(1) i(1)] by auto
  show V0: "v0 m' root a b \<longleftrightarrow> a = i \<and> b = j \<or> v0 m root a b" for a b
  proof (cases "v1 m root a \<and> b < 512")
    case True
    then show ?thesis using at1 [of a b] V1 [of a] L1 [of a] by (cases "a = i \<and> b = j") (auto simp: v0_def)
  next
    case False
    then show ?thesis using V1 [of a] i(1,2) by (auto simp: v0_def)
  qed
  show L0: "l0 m' root a b = (if a = i \<and> b = j then p else l0 m root a b)" if "v0 m' root a b" for a b
  proof -
    have "v1 m root a" "b < 512" using that V1 [of a] by (auto simp: v0_def)
    then show ?thesis using at1 [of a b] L1 [of a] pte2pa_table [OF p(1)] by (simp add: l0_def)
  qed
  show "leaf m' root a b x = leaf m root a b x" if x: "x < 512" for a b x
  proof (cases "v0 m root a b")
    case True
    then have ne: "\<not> (a = i \<and> b = j)" using i(3) by auto
    have "m' (l0 m root a b + 8 * x) = m (l0 m root a b + 8 * x)"
      using at [OF l_page_ok(2) x, of m root a b] tree_okD(5) [OF ok True i(1)] fresh(3) [OF True] by simp
    then show ?thesis using True V0 [of a b] L0 [of a b] ne by (simp add: leaf_def)
  next
    case False
    have "\<not> pte_v (m' (p + 8 * x))" using at [OF p(1) x] fresh(2) [OF i(1)] by (auto simp: pte_v_def)
    then show ?thesis using False V0 [of a b] L0 [of a b] by (auto simp: leaf_def)
  qed
  show "tree_ok m' root"
    unfolding tree_ok_def
  proof (intro conjI allI impI)
    show "l1 m' root k \<noteq> root" if "v1 m' root k" for k using that L1 V1 tree_okD(2) [OF ok, of k] by metis
    show "l0 m' root a b \<noteq> root" if "v0 m' root a b" for a b
      using that L0 [OF that] V0 [of a b] fresh(1) tree_okD(3) [OF ok, of a b] by metis
    show "k = k'" if "v1 m' root k \<and> v1 m' root k' \<and> l1 m' root k = l1 m' root k'" for k k'
      using that L1 V1 tree_okD(4) [OF ok, of k k'] by metis
    show "l0 m' root a b \<noteq> l1 m' root c" if "v0 m' root a b \<and> v1 m' root c" for a b c
      using that L0 [of a b] V0 [of a b] V1 [of c] L1 [of c] fresh(2) [of c] tree_okD(5) [OF ok, of a b c] by metis
    show "a = c" "b = d" if "v0 m' root a b \<and> v0 m' root c d \<and> l0 m' root a b = l0 m' root c d" for a b c d
      using that V0 [of a b] V0 [of c d] L0 [of a b] L0 [of c d] fresh(3) tree_okD(6) [OF ok, of a b c d] by metis+
  qed (rule R)
  show "tables m' root = insert p (tables m root)"
  proof -
    have new: "l0 m' root i j = p" using L0 [of i j] V0 [of i j] by simp
    have old: "l0 m' root a b = l0 m root a b" if "v0 m root a b" for a b
      using L0 [of a b] V0 [of a b] that i(3) by metis
    have "{l0 m' root a b | a b. v0 m' root a b} = insert (l0 m' root i j) {l0 m' root a b | a b. v0 m root a b}"
      unfolding V0 by blast
    also have "\<dots> = insert p {l0 m root a b | a b. v0 m root a b}" unfolding new using old by metis
    finally have "{l0 m' root a b | a b. v0 m' root a b} = insert p {l0 m root a b | a b. v0 m root a b}" .
    moreover have "{l1 m' root k | k. v1 m' root k} = {l1 m root k | k. v1 m root k}" using V1 L1 by metis
    ultimately show ?thesis by (auto simp: tables_def)
  qed
qed

text \<open>Writing a leaf entry changes the translation of its page only.\<close>

lemma set_leaf:
  assumes ok: "tree_ok m root" and i: "v0 m root i j" "k < 512" and m': "m' = m(l0 m root i j + 8 * k := w)"
  shows "x < 512 \<Longrightarrow> leaf m' root a b x
      = (if a = i \<and> b = j \<and> x = k then (if pte_v w then Some w else None) else leaf m root a b x)"
    "tree_ok m' root" "tables m' root = tables m root"
proof -
  note R = tree_okD(1) [OF ok]
  have at: "m' (q + 8 * b) = (if q = l0 m root i j \<and> b = k then w else m (q + 8 * b))" if "page_ok q" "b < 512" for q b
    using entry_inj [OF that(1) l_page_ok(2) that(2) i(2)] by (simp add: m')
  have V1: "v1 m' root c \<longleftrightarrow> v1 m root c" and L1: "v1 m root c \<Longrightarrow> l1 m' root c = l1 m root c" for c
    using at [OF R, of c] tree_okD(3) [OF ok i(1)] by (auto simp: v1_def l1_def)
  have at1: "m' (l1 m root c + 8 * b) = m (l1 m root c + 8 * b)" if "v1 m root c" "b < 512" for c b
    using at [OF l_page_ok(1) that(2)] tree_okD(5) [OF ok i(1) that(1)] by auto
  have V0: "v0 m' root c b \<longleftrightarrow> v0 m root c b" for c b
    using V1 [of c] L1 [of c] at1 [of c b] by (auto simp: v0_def)
  have L0: "l0 m' root c b = l0 m root c b" if "v0 m root c b" for c b
    using that L1 [of c] at1 [of c b] by (simp add: l0_def v0_def)
  show "leaf m' root a b x = (if a = i \<and> b = j \<and> x = k then (if pte_v w then Some w else None) else leaf m root a b x)"
    if x: "x < 512" for a b x
  proof (cases "v0 m root a b")
    case True
    then have "m' (l0 m root a b + 8 * x) = (if a = i \<and> b = j \<and> x = k then w else m (l0 m root a b + 8 * x))"
      using at [OF l_page_ok(2) x, of m root a b] tree_okD(6) [OF ok True i(1)] by auto
    then show ?thesis using True V0 [of a b] L0 [of a b] by (auto simp: leaf_def)
  next
    case False
    then show ?thesis using V0 [of a b] i(1) by (auto simp: leaf_def)
  qed
  show "tree_ok m' root"
    unfolding tree_ok_def V1 V0
  proof (intro conjI allI impI)
    show "l1 m' root c \<noteq> root" if "v1 m root c" for c using that L1 tree_okD(2) [OF ok, of c] by metis
    show "l0 m' root c b \<noteq> root" if "v0 m root c b" for c b using that L0 tree_okD(3) [OF ok, of c b] by metis
    show "c = c'" if "v1 m root c \<and> v1 m root c' \<and> l1 m' root c = l1 m' root c'" for c c'
      using that L1 tree_okD(4) [OF ok, of c c'] by metis
    show "l0 m' root c b \<noteq> l1 m' root d" if "v0 m root c b \<and> v1 m root d" for c b d
      using that L0 L1 tree_okD(5) [OF ok, of c b d] by metis
    show "c = d" "b = e" if "v0 m root c b \<and> v0 m root d e \<and> l0 m' root c b = l0 m' root d e" for c b d e
      using that L0 [of c b] L0 [of d e] tree_okD(6) [OF ok, of c b d e] by metis+
  qed (rule R)
  have "{l1 m' root c | c. v1 m' root c} = {l1 m root c | c. v1 m root c}" using V1 L1 by metis
  moreover have "{l0 m' root c b | c b. v0 m' root c b} = {l0 m root c b | c b. v0 m root c b}" using V0 L0 by metis
  ultimately show "tables m' root = tables m root" by (simp only: tables_def)
qed

text \<open>The translation depends on the tables only.\<close>

lemma tree_cong:
  assumes same: "\<And>q i. q \<in> tables m root \<Longrightarrow> i < 512 \<Longrightarrow> m' (q + 8 * i) = m (q + 8 * i)"
  shows "tree_ok m' root = tree_ok m root" "tables m' root = tables m root" "xlate m' root va = xlate m root va"
proof -
  have V1: "v1 m' root i = v1 m root i" for i using same [OF tables_intro(1)] by (auto simp: v1_def)
  have L1: "l1 m' root i = l1 m root i" if "v1 m root i" for i
    using same [OF tables_intro(1) v_bounds(1) [OF that]] by (simp add: l1_def)
  have V0: "v0 m' root i j = v0 m root i j" for i j
    using V1 [of i] L1 [of i] same [OF tables_intro(2)] by (auto simp: v0_def)
  have L0: "l0 m' root i j = l0 m root i j" if "v0 m root i j" for i j
    using L1 [OF v_bounds(3) [OF that]] same [OF tables_intro(2) [OF v_bounds(3) [OF that]]] v_bounds(2) [OF that] by (simp add: l0_def)
  show "tree_ok m' root = tree_ok m root" 
  proof -
    have "(\<forall>i. v1 m root i \<longrightarrow> l1 m' root i \<noteq> root) = (\<forall>i. v1 m root i \<longrightarrow> l1 m root i \<noteq> root)" using L1 by metis
    moreover have "(\<forall>i j. v0 m root i j \<longrightarrow> l0 m' root i j \<noteq> root) = (\<forall>i j. v0 m root i j \<longrightarrow> l0 m root i j \<noteq> root)" using L0 by metis
    moreover have "(\<forall>i i'. v1 m root i \<and> v1 m root i' \<and> l1 m' root i = l1 m' root i' \<longrightarrow> i = i')
        = (\<forall>i i'. v1 m root i \<and> v1 m root i' \<and> l1 m root i = l1 m root i' \<longrightarrow> i = i')" using L1 by metis
    moreover have "(\<forall>i j k. v0 m root i j \<and> v1 m root k \<longrightarrow> l0 m' root i j \<noteq> l1 m' root k)
        = (\<forall>i j k. v0 m root i j \<and> v1 m root k \<longrightarrow> l0 m root i j \<noteq> l1 m root k)" using L0 L1 by metis
    moreover have "(\<forall>i j i' j'. v0 m root i j \<and> v0 m root i' j' \<and> l0 m' root i j = l0 m' root i' j' \<longrightarrow> i = i' \<and> j = j')
        = (\<forall>i j i' j'. v0 m root i j \<and> v0 m root i' j' \<and> l0 m root i j = l0 m root i' j' \<longrightarrow> i = i' \<and> j = j')" using L0 by metis
    ultimately show ?thesis unfolding tree_ok_def V1 V0 by (simp only:)
  qed
  have "{l1 m' root i | i. v1 m' root i} = {l1 m root i | i. v1 m root i}" using V1 L1 by metis
  moreover have "{l0 m' root i j | i j. v0 m' root i j} = {l0 m root i j | i j. v0 m root i j}" using V0 L0 by metis
  ultimately show "tables m' root = tables m root" by (simp only: tables_def)
  show "xlate m' root va = xlate m root va"
    using V0 L0 same [OF tables_intro(3) va_vpn_bound] by (auto simp: xlate_def leaf_def)
qed

section \<open>Allocating tables\<close>

definition free_pages :: "mm \<Rightarrow> u64 set" where
  "free_pages s = {pa. \<exists>f \<in> free_frames s. frame2pa s f = OK pa}"

text \<open>The page tables below \<open>root\<close> form a tree of pages none of which is free.\<close>

definition pt_ok :: "mm \<Rightarrow> u64 \<Rightarrow> bool" where
  "pt_ok s root \<longleftrightarrow> mm_free_ok s \<and> pt_phy s \<and> tree_ok (cells s) root \<and> tables (cells s) root \<inter> free_pages s = {}"

lemma page_ok_iff: "unat p mod 4096 = 0 \<Longrightarrow> unat p < 2 ^ 56 \<Longrightarrow> page_ok p"
proof -
  assume "unat p mod 4096 = 0" "unat p < 2 ^ 56"
  moreover have "unat (take_bit 12 p) = unat p mod 2 ^ 12" "unat (take_bit 56 p) = unat p mod 2 ^ 56"
    by (simp_all only: unsigned_take_bit_eq take_bit_eq_mod [symmetric])
  ultimately have "unat (take_bit 12 p) = 0" "unat (take_bit 56 p) = unat p" by simp_all
  then show "page_ok p" by (simp add: page_ok_def word_unat_eq_iff)
qed

lemma page_at_ok: "mm_geom s \<Longrightarrow> i < length (mems s) \<Longrightarrow> j < unat (pf_array_len s ! i) \<Longrightarrow> page_ok (page_at s i j)"
  using page_at_in_bank(3,4) [of s i j] by (intro page_ok_iff) simp_all

lemma free_page_frame:
  assumes ok: "mm_free_ok s" and x: "x \<in> free_frames s" "frame2pa s x = OK pa"
  shows "pa2frame s pa = OK x"
proof -
  have g: "mm_geom s" using ok by (simp add: mm_free_ok_def)
  obtain i where i: "i < length (mems s)" "x \<in> set (pf_free_list s ! i)" using x(1) free_frames_iff [OF g] by blast
  then obtain j where j: "j < unat (pf_array_len s ! i)" "x = frame_at s i j" using mm_free_okD(3) [OF ok i(1)] by blast
  then have "pa = page_at s i j" using frame2pa_frame_at [OF g i(1) j(1)] x(2) by simp
  then show ?thesis using pa2frame_in_page [OF g i(1) j(1), of 0] j(2) by simp
qed

lemma frame2pa_inj:
  assumes ok: "mm_free_ok s" and f: "f \<in> free_frames s" "f' \<in> free_frames s" "frame2pa s f = OK pa" "frame2pa s f' = OK pa"
  shows "f = f'"
  using free_page_frame [OF ok f(1,3)] free_page_frame [OF ok f(2,4)] by simp

lemma ref_inc_free_ok:
  assumes "mm_free_ok s" "f \<notin> free_frames s" "s' = s\<lparr>pf_ref := (pf_ref s)(f := x)\<rparr>"
  shows "mm_free_ok s'" "free_frames s' = free_frames s" "free_pages s' = free_pages s"
proof -
  have g: "mm_geom s" using assms(1) by (simp add: mm_free_ok_def)
  note C = geom_cong [OF g, of s']
  have "f \<notin> set (pf_free_list s ! i)" if "i < length (mems s)" for i
    using assms(2) that free_frames_iff [OF g, of f] by blast
  then show "mm_free_ok s'" using assms(1) C(1,2) unfolding mm_free_ok_def by (auto simp: assms(3))
  show fr: "free_frames s' = free_frames s" by (simp add: free_frames_def assms(3))
  have "frame2pa s' y = frame2pa s y" for y by (simp add: assms(3) frame2pa_def frame2sel_def)
  then show "free_pages s' = free_pages s" by (simp add: free_pages_def fr)
qed

lemma pt_frame_alloc_spec:
  assumes ok: "mm_free_ok s" "pt_phy s" and r: "pt_frame_alloc s = (s', r)"
  shows "(r = ERR KER_MEM_ER \<and> s' = s \<and> free_frames s = {})
    \<or> (\<exists>pa f. r = OK pa \<and> page_ok pa \<and> pa \<in> free_pages s \<and> cells s' = zero_page (cells s) pa \<and> mm_free_ok s' \<and> pt_phy s'
        \<and> free_pages s' = free_pages s - {pa} \<and> f \<in> free_frames s \<and> free_frames s' = free_frames s - {f} \<and> pf_ref s' f = 1
        \<and> pa2frame s' pa = OK f \<and> (\<exists>i j. i < length (mems s') \<and> j < unat (pf_array_len s' ! i) \<and> f = frame_at s' i j)
        \<and> mems s' = mems s \<and> pf_array s' = pf_array s \<and> pf_array_len s' = pf_array_len s)"
proof -
  obtain s1 r1 where 1: "phy_frame_alloc s = (s1, r1)" by fastforce
  from phy_frame_alloc_spec [OF ok(1) 1] show ?thesis
  proof (elim disjE exE conjE)
    assume "r1 = ERR KER_MEM_ER" "s1 = s" "free_frames s = {}"
    then show ?thesis using r 1 ok(2) by (simp add: pt_frame_alloc_def pt_phy_frame_alloc_def)
  next
    fix f pa i j
    assume A: "r1 = OK f" "frame2pa s f = OK pa" "f \<in> free_frames s" "free_frames s1 = free_frames s - {f}" "mm_free_ok s1"
      "cells s1 = zero_page (cells s) pa" "pf_ref s1 = pf_ref s" "mems s1 = mems s" "pf_array s1 = pf_array s"
      "pf_array_len s1 = pf_array_len s" "pt_phy s1 = pt_phy s"
      and ij: "i < length (mems s)" "j < unat (pf_array_len s ! i)" "f = frame_at s i j" "pa = page_at s i j"
    have g: "mm_geom s" "mm_geom s1" using ok(1) A(5) by (simp_all add: mm_free_ok_def)
    define s2 where "s2 = s1\<lparr>pf_ref := (pf_ref s1)(f := pf_ref s1 f + 1)\<rparr>"
    have f2: "frame2pa s2 x = frame2pa s x" for x using A(8-10) by (simp add: s2_def frame2pa_def frame2sel_def)
    have inc: "phy_frame_ref_inc s1 f = (s2, OK ())" by (simp add: phy_frame_ref_inc_def s2_def)
    have "frame2pa s2 f = OK pa" using f2 A(2) by simp
    then have "(s', r) = (s2, OK pa)" using r unfolding pt_frame_alloc_def pt_phy_frame_alloc_def 1 A(1) by (simp add: ok(2) inc)
    then have s': "s' = s2" "r = OK pa" by simp_all
    have "f \<notin> free_frames s1" using A(4) by simp
    note R = ref_inc_free_ok [OF A(5) this s2_def]
    have pages: "free_pages s2 = free_pages s - {pa}"
      using frame2pa_inj [OF ok(1) A(3) _ A(2)] A(2) unfolding free_pages_def f2 R(2) A(4) by auto
    obtain k where k: "k < length (mems s)" "f \<in> set (pf_free_list s ! k)" using A(3) free_frames_iff [OF g(1)] by blast
    have "pf_ref s f = 0" using mm_free_okD(3) [OF ok(1) k] by blast
    then have ref: "pf_ref s2 f = 1" using A(7) by (simp add: s2_def)
    have P: "pa2frame s pa = OK f" using pa2frame_in_page [OF g(1) ij(1,2), of 0] ij(3,4) by simp
    then have P2: "pa2frame s2 pa = OK f" using A(8,9) by (simp add: pa2frame_def pa2sel_def s2_def)
    have geo: "mems s2 = mems s" "pf_array s2 = pf_array s" "pf_array_len s2 = pf_array_len s"
      "cells s2 = zero_page (cells s) pa" "pt_phy s2" using A ok(2) by (simp_all add: s2_def)
    have at: "\<exists>i j. i < length (mems s2) \<and> j < unat (pf_array_len s2 ! i) \<and> f = frame_at s2 i j"
      using ij(1-3) unfolding frame_at_def geo by blast
    have mem: "pa \<in> free_pages s" using A(2,3) by (auto simp: free_pages_def)
    have pok: "page_ok pa" using page_at_ok [OF g(1) ij(1,2)] ij(4) by simp
    show ?thesis
      unfolding s' using pok mem geo R(1,2) pages A(3,4) ref P2 at by metis
  qed
qed

section \<open>Walking with creation\<close>

lemma cells_irrelevant [simp]:
  "mm_free_ok (s\<lparr>cells := c\<rparr>) = mm_free_ok s" "free_frames (s\<lparr>cells := c\<rparr>) = free_frames s"
  "frame2pa (s\<lparr>cells := c\<rparr>) = frame2pa s" "pa2frame (s\<lparr>cells := c\<rparr>) = pa2frame s"
  "frame_at (s\<lparr>cells := c\<rparr>) = frame_at s"
  by (simp_all add: mm_free_ok_def mm_geom_def bank_ok_def in_bank_def in_array_def free_frames_def frame_at_def
      frame2pa_def frame2sel_def pa2frame_def pa2sel_def fun_eq_iff)

lemma free_pages_cells [simp]: "free_pages (s\<lparr>cells := c\<rparr>) = free_pages s"
  by (simp add: free_pages_def)

text \<open>The frame behind \<open>pa\<close> is allocated with one reference.\<close>

definition held_once :: "mm \<Rightarrow> u64 \<Rightarrow> bool" where
  "held_once s pa \<longleftrightarrow> (\<exists>i j. i < length (mems s) \<and> j < unat (pf_array_len s ! i) \<and> pa2frame s pa = OK (frame_at s i j)
     \<and> frame_at s i j \<notin> free_frames s \<and> pf_ref s (frame_at s i j) = 1)"

definition took_page :: "mm \<Rightarrow> mm \<Rightarrow> u64 \<Rightarrow> bool" where
  "took_page s s' pa \<longleftrightarrow> page_ok pa \<and> pa \<in> free_pages s \<and> mm_free_ok s' \<and> pt_phy s' \<and> free_pages s' = free_pages s - {pa}
     \<and> held_once s' pa \<and> (\<exists>f \<in> free_frames s. free_frames s' = free_frames s - {f})"

lemma pt_new_table_spec:
  assumes ok: "mm_free_ok s" "pt_phy s" and r: "pt_new_table s ptr = (s', r)"
  shows "(r = ERR KER_MEM_ER \<and> s' = s \<and> free_frames s = {})
    \<or> (\<exists>pa. r = OK pa \<and> took_page s s' pa \<and> cells s' = (zero_page (cells s) pa)(ptr := pte_table pa)
        \<and> mems s' = mems s \<and> pf_array s' = pf_array s \<and> pf_array_len s' = pf_array_len s)"
proof -
  obtain s1 r1 where 1: "pt_frame_alloc s = (s1, r1)" by fastforce
  from pt_frame_alloc_spec [OF ok 1] show ?thesis
  proof (elim disjE exE conjE)
    assume "r1 = ERR KER_MEM_ER" "s1 = s" "free_frames s = {}"
    then show ?thesis using r 1 by (simp add: pt_new_table_def)
  next
    fix pa f i j
    assume A: "r1 = OK pa" "page_ok pa" "pa \<in> free_pages s" "cells s1 = zero_page (cells s) pa" "mm_free_ok s1" "pt_phy s1"
      "free_pages s1 = free_pages s - {pa}" "f \<in> free_frames s" "free_frames s1 = free_frames s - {f}" "pf_ref s1 f = 1"
      "pa2frame s1 pa = OK f" "mems s1 = mems s" "pf_array s1 = pf_array s" "pf_array_len s1 = pf_array_len s"
      and ij: "i < length (mems s1)" "j < unat (pf_array_len s1 ! i)" "f = frame_at s1 i j"
    define s2 where "s2 = s1\<lparr>cells := (cells s1)(ptr := pte_table pa)\<rparr>"
    have s': "s' = s2" "r = OK pa" using r 1 A(1) by (simp_all add: pt_new_table_def s2_def)
    have "f \<notin> free_frames s1" using A(9) by simp
    then have "held_once s1 pa" unfolding held_once_def using A(10,11) ij by blast
    then have "held_once s2 pa" by (simp add: s2_def held_once_def)
    then have "took_page s s2 pa"
      unfolding took_page_def using A(2,3,5,6,7,8,9) by (auto simp: s2_def)
    moreover have "cells s2 = (zero_page (cells s) pa)(ptr := pte_table pa)" "mems s2 = mems s" "pf_array s2 = pf_array s"
      "pf_array_len s2 = pf_array_len s" using A(4,12-14) by (simp_all add: s2_def)
    ultimately show ?thesis unfolding s' by blast
  qed
qed

lemma held_once_dec:
  assumes ok: "mm_free_ok s" "pt_phy s" and h: "held_once s pa"
  shows "\<exists>s'. pt_frame_ref_dec s pa = (s', OK ()) \<and> cells s' = cells s \<and> mm_free_ok s'
    \<and> (\<exists>f. pa2frame s pa = OK f \<and> f \<in> free_frames s') \<and> mems s' = mems s \<and> pf_array s' = pf_array s \<and> pf_array_len s' = pf_array_len s"
proof -
  obtain i j where ij: "i < length (mems s)" "j < unat (pf_array_len s ! i)"
    and p: "pa2frame s pa = OK (frame_at s i j)" "frame_at s i j \<notin> free_frames s" "pf_ref s (frame_at s i j) = 1"
    using h unfolding held_once_def by blast
  define f where "f = frame_at s i j"
  define s1 where "s1 = s\<lparr>pf_ref := (pf_ref s)(f := 0)\<rparr>"
  note R = ref_inc_free_ok [OF ok(1) p(2) [folded f_def] s1_def]
  have geo: "mems s1 = mems s" "pf_array_len s1 = pf_array_len s" "pf_array s1 = pf_array s" "cells s1 = cells s" "f = frame_at s1 i j"
    by (simp_all add: s1_def f_def frame_at_def)
  have "f \<notin> free_frames s1" "pf_ref s1 f = 0" using R(2) p(2) by (simp_all add: s1_def f_def)
  then obtain s' where s': "phy_frame_free s1 f = (s', OK ())" "mm_free_ok s'" "free_frames s' = insert f (free_frames s1)" "cells s' = cells s1"
    "mems s' = mems s1" "pf_array s' = pf_array s1" "pf_array_len s' = pf_array_len s1"
    using phy_frame_free_spec [OF R(1), of i j f] ij geo by auto
  have "phy_frame_ref_dec s f = (s', OK ())"
    using p(3) s'(1) by (simp add: phy_frame_ref_dec_def f_def s1_def)
  then have "pt_frame_ref_dec s pa = (s', OK ())"
    using p(1) ok(2) by (simp add: pt_frame_ref_dec_def pt_phy_frame_ref_dec_def f_def)
  then show ?thesis using s' geo p(1) by (auto simp: f_def)
qed

text \<open>
  What the page-table code may touch: tables grow by free pages only, at most \<open>n\<close> frames are taken, and
  memory outside the tables and the free pages stays as it is.
\<close>

definition touches_tables :: "nat \<Rightarrow> mm \<Rightarrow> mm \<Rightarrow> u64 \<Rightarrow> bool" where
  "touches_tables n s s' root \<longleftrightarrow> tables (cells s') root \<subseteq> tables (cells s) root \<union> free_pages s
     \<and> free_pages s' \<subseteq> free_pages s \<and> free_frames s' \<subseteq> free_frames s \<and> card (free_frames s) \<le> card (free_frames s') + n
     \<and> mems s' = mems s \<and> pf_array s' = pf_array s
     \<and> (\<forall>x. (\<forall>q \<in> tables (cells s) root \<union> free_pages s. \<not> in_page q x) \<longrightarrow> cells s' x = cells s x)"

lemma touches_tables_refl [simp]: "touches_tables n s s root"
  by (simp add: touches_tables_def)

lemma touches_tables_trans:
  "touches_tables n s s1 root \<Longrightarrow> touches_tables k s1 s2 root \<Longrightarrow> touches_tables (n + k) s s2 root"
proof -
  assume a: "touches_tables n s s1 root" "touches_tables k s1 s2 root"
  have "cells s2 x = cells s x" if "\<forall>q \<in> tables (cells s) root \<union> free_pages s. \<not> in_page q x" for x
  proof -
    have "\<forall>q \<in> tables (cells s1) root \<union> free_pages s1. \<not> in_page q x" using a(1) that unfolding touches_tables_def by blast
    then show ?thesis using a that unfolding touches_tables_def by metis
  qed
  moreover have "tables (cells s2) root \<subseteq> tables (cells s) root \<union> free_pages s" using a unfolding touches_tables_def by blast
  ultimately show ?thesis using a unfolding touches_tables_def by auto
qed

lemma touches_tables_upd:
  assumes "q \<in> tables (cells s) root" "page_ok q" "i < 512" "tables ((cells s)(q + 8 * i := w)) root = tables (cells s) root"
  shows "touches_tables n s (s\<lparr>cells := (cells s)(q + 8 * i := w)\<rparr>) root"
  using assms in_page_entry [OF assms(2,2,3)] unfolding touches_tables_def by auto

lemma took_page_touches:
  assumes p: "took_page s s' p" and c: "cells s' = (zero_page (cells s) p)(q + 8 * i := w)" "q \<in> tables (cells s) root" "page_ok q" "i < 512"
    and t: "tables (cells s') root = insert p (tables (cells s) root)" "mems s' = mems s" "pf_array s' = pf_array s"
  shows "touches_tables 1 s s' root"
proof -
  obtain f where f: "f \<in> free_frames s" "free_frames s' = free_frames s - {f}" using p by (auto simp: took_page_def)
  have "card (free_frames s) \<le> card (free_frames s') + 1"
    unfolding f(2) using card_Diff_singleton [OF f(1)] by simp
  moreover have "in_page q (q + 8 * i)" using in_page_entry [OF c(3,3,4)] by simp
  ultimately show ?thesis
    using p f(2) t c(1,2) unfolding touches_tables_def took_page_def by (auto simp: zero_page_def)
qed

text \<open>
  What a successful creating walk establishes: the entry exists, the translation and the
  soundness of the tree are unchanged, and nothing became free.
\<close>

definition walked :: "nat \<Rightarrow> mm \<Rightarrow> mm \<Rightarrow> u64 \<Rightarrow> u64 \<Rightarrow> bool" where
  "walked n s s' root va \<longleftrightarrow> pt_ok s' root \<and> v0 (cells s') root (va_vpn 2 va) (va_vpn 1 va)
     \<and> (\<forall>a b x. x < 512 \<longrightarrow> leaf (cells s') root a b x = leaf (cells s) root a b x) \<and> touches_tables n s s' root"

lemma pt_walk_low_create:
  assumes ok: "pt_ok s root" and i: "v1 (cells s) root (va_vpn 2 va)" and pa1: "pa1 \<noteq> 0 \<Longrightarrow> held_once s pa1"
    and r: "pt_walk_low s (root + 8 * va_vpn 2 va) va True pa1 = (s', r)"
  shows "(r = ERR KER_MEM_ER \<and> free_frames s = {})
    \<or> (r = OK (Some (l0 (cells s') root (va_vpn 2 va) (va_vpn 1 va) + 8 * va_vpn 0 va)) \<and> walked 1 s s' root va)"
proof -
  let ?i = "va_vpn 2 va" and ?j = "va_vpn 1 va"
  define ptr where "ptr = l1 (cells s) root ?i + 8 * ?j"
  have s: "mm_free_ok s" "pt_phy s" "tree_ok (cells s) root" "tables (cells s) root \<inter> free_pages s = {}"
    using ok by (simp_all add: pt_ok_def)
  have v: "v0 (cells s) root ?i ?j \<longleftrightarrow> pte_v (cells s ptr)" using i va_vpn_bound by (simp add: v0_def ptr_def)
  have l: "pte2pa (cells s ptr) = l0 (cells s) root ?i ?j" by (simp add: l0_def ptr_def)
  have low: "pt_walk_low s (root + 8 * ?i) va True pa1 =
      (if pte_v (cells s ptr) then (s, OK (Some (pte2pa (cells s ptr) + 8 * va_vpn 0 va)))
       else case pt_new_table s ptr of
             (s1, OK pa2) \<Rightarrow> (s1, OK (Some (pte2pa (cells s1 ptr) + 8 * va_vpn 0 va)))
           | (s1, ERR e) \<Rightarrow>
               (if pa1 \<noteq> 0 then case pt_frame_ref_dec s1 pa1 of (s2, OK _) \<Rightarrow> (s2, ERR e) | (s2, _) \<Rightarrow> (s2, PANIC)
                else (s1, ERR e))
           | (s1, PANIC) \<Rightarrow> (s1, PANIC))"
    unfolding pt_walk_low_def Let_def ptr_def l1_def by (simp only: not_True_eq_False if_False)
  show ?thesis
  proof (cases "pte_v (cells s ptr)")
    case True
    then show ?thesis using r v l ok unfolding low walked_def by auto
  next
    case False
    obtain s1 r1 where n: "pt_new_table s ptr = (s1, r1)" by fastforce
    from pt_new_table_spec [OF s(1,2) n] show ?thesis
    proof (elim disjE exE conjE)
      assume e: "r1 = ERR KER_MEM_ER" "s1 = s" "free_frames s = {}"
      show ?thesis
      proof (cases "pa1 = 0")
        case True
        then show ?thesis using r False n e unfolding low by simp
      next
        case nz: False
        then obtain s2 where "pt_frame_ref_dec s pa1 = (s2, OK ())" using held_once_dec [OF s(1,2) pa1] by blast
        then show ?thesis using r False n e nz unfolding low by simp
      qed
    next
      fix p
      assume a: "r1 = OK p" "took_page s s1 p" "cells s1 = (zero_page (cells s) p)(ptr := pte_table p)"
        "mems s1 = mems s" "pf_array s1 = pf_array s" "pf_array_len s1 = pf_array_len s"
      have p: "page_ok p" "p \<in> free_pages s" "free_pages s1 = free_pages s - {p}" "mm_free_ok s1" "pt_phy s1"
        "free_frames s1 \<subseteq> free_frames s" using a(2) by (auto simp: took_page_def)
      have fresh: "p \<notin> tables (cells s) root" using s(4) p(2) by blast
      have nv: "\<not> v0 (cells s) root ?i ?j" using v False by simp
      note E = enter_l0 [OF s(3) i va_vpn_bound nv p(1) fresh a(3) [unfolded ptr_def]]
      have vv: "v0 (cells s1) root ?i ?j" using E(3) by simp
      have "pt_ok s1 root" unfolding pt_ok_def using p(3-5) E(6,7) s(4) by auto
      moreover have "touches_tables 1 s s1 root"
        using took_page_touches [OF a(2) a(3) [unfolded ptr_def] tables_intro(2) [OF i] l_page_ok(1) va_vpn_bound E(7) a(4,5)] .
      ultimately have w: "walked 1 s s1 root va" unfolding walked_def using vv E(5) by auto
      have "l0 (cells s1) root ?i ?j = p" using E(4) [OF vv] by simp
      moreover have "pte2pa (cells s1 ptr) = p" using a(3) pte2pa_table [OF p(1)] by simp
      ultimately show ?thesis using r False n a(1) w unfolding low by simp
    qed
  qed
qed

lemma finite_free_frames: "finite (free_frames s)"
  by (simp add: free_frames_def)

lemma pt_walk_create:
  assumes ok: "pt_ok s root" and r: "pt_walk s root va True = (s', r)"
  shows "(r = ERR KER_MEM_ER \<and> card (free_frames s) < 2)
    \<or> (r = OK (Some (l0 (cells s') root (va_vpn 2 va) (va_vpn 1 va) + 8 * va_vpn 0 va)) \<and> walked 2 s s' root va)"
proof -
  let ?i = "va_vpn 2 va" and ?ptr = "root + 8 * va_vpn 2 va"
  have s: "mm_free_ok s" "pt_phy s" "tree_ok (cells s) root" "tables (cells s) root \<inter> free_pages s = {}"
    using ok by (simp_all add: pt_ok_def)
  have v: "v1 (cells s) root ?i \<longleftrightarrow> pte_v (cells s ?ptr)" by (simp add: v1_def va_vpn_bound)
  show ?thesis
  proof (cases "pte_v (cells s ?ptr)")
    case True
    then have low: "pt_walk_low s ?ptr va True 0 = (s', r)" using r by (simp add: pt_walk_def Let_def)
    have "walked 2 s s' root va" if "walked 1 s s' root va"
      using that by (auto simp: walked_def touches_tables_def)
    then show ?thesis using pt_walk_low_create [OF ok _ _ low] v True by auto
  next
    case False
    obtain s1 r1 where n: "pt_new_table s ?ptr = (s1, r1)" by fastforce
    from pt_new_table_spec [OF s(1,2) n] show ?thesis
    proof (elim disjE exE conjE)
      assume "r1 = ERR KER_MEM_ER" "s1 = s" "free_frames s = {}"
      then show ?thesis using r n False by (simp add: pt_walk_def Let_def)
    next
      fix p
      assume a: "r1 = OK p" "took_page s s1 p" "cells s1 = (zero_page (cells s) p)(?ptr := pte_table p)"
        "mems s1 = mems s" "pf_array s1 = pf_array s" "pf_array_len s1 = pf_array_len s"
      obtain f where f: "f \<in> free_frames s" "free_frames s1 = free_frames s - {f}" using a(2) by (auto simp: took_page_def)
      have p: "page_ok p" "p \<in> free_pages s" "free_pages s1 = free_pages s - {p}" "mm_free_ok s1" "pt_phy s1" "held_once s1 p"
        using a(2) by (auto simp: took_page_def)
      have fresh: "p \<notin> tables (cells s) root" using s(4) p(2) by blast
      note E = enter_l1 [OF s(3) va_vpn_bound _ p(1) fresh a(3)]
      have nv: "\<not> v1 (cells s) root ?i" using v False by simp
      have ok1: "pt_ok s1 root" unfolding pt_ok_def using p(3-5) E(6,7) [OF nv] s(4) by auto
      have v1: "v1 (cells s1) root ?i" using E(1) [OF nv] by simp
      have low: "pt_walk_low s1 ?ptr va True p = (s', r)" using r n a(1) False by (simp add: pt_walk_def Let_def)
      have same: "leaf (cells s1) root k j x = leaf (cells s) root k j x" if "x < 512" for k j x
        using E(5) [OF nv, of k j x] that by simp
      show ?thesis
      proof (rule disjE [OF pt_walk_low_create [OF ok1 v1 _ low]])
        show "held_once s1 p" by fact
      next
        assume "r = ERR KER_MEM_ER \<and> free_frames s1 = {}"
        then have "free_frames s \<subseteq> {f}" using f by blast
        then have "card (free_frames s) < 2" using card_mono [of "{f}" "free_frames s"] by simp
        then show ?thesis using \<open>r = ERR KER_MEM_ER \<and> free_frames s1 = {}\<close> by simp
      next
        assume w: "r = OK (Some (l0 (cells s') root ?i (va_vpn 1 va) + 8 * va_vpn 0 va)) \<and> walked 1 s1 s' root va"
        have "touches_tables 1 s s1 root"
          using took_page_touches [OF a(2,3) tables_intro(1) tree_okD(1) [OF s(3)] va_vpn_bound E(7) [OF nv] a(4,5)] .
        then have "touches_tables (1 + 1) s s' root" by (rule touches_tables_trans) (use w in \<open>simp add: walked_def\<close>)
        then have "walked 2 s s' root va" unfolding walked_def using w same by (auto simp: walked_def numeral_2_eq_2)
        then show ?thesis using w by blast
      qed
    qed
  qed
qed

lemma pt_walk_find:
  assumes ok: "tree_ok (cells s) root"
  shows "pt_walk s root va False = (s, OK (if v0 (cells s) root (va_vpn 2 va) (va_vpn 1 va)
      then Some (l0 (cells s) root (va_vpn 2 va) (va_vpn 1 va) + 8 * va_vpn 0 va) else None))"
  unfolding pt_walk_def pt_walk_low_def Let_def
  by (simp add: v0_def v1_def l0_def l1_def va_vpn_bound)

lemma pt_lookup_xlate:
  assumes ok: "tree_ok (cells s) root"
  shows "pt_lookup s root va = (s, OK (if xlate (cells s) root va = None then None
      else Some (l0 (cells s) root (va_vpn 2 va) (va_vpn 1 va) + 8 * va_vpn 0 va)))"
  unfolding pt_lookup_def pt_walk_find [OF ok] by (simp add: xlate_def leaf_def)

lemma va_vpn_off_clear [simp]: "va_vpn l (pp_off_clear va) = va_vpn l va"
  by (rule bit_word_eqI) (auto simp: va_vpn_def pp_off_clear_def bit_simps dest: bit_imp_le_length)

lemma pa_ppn_off_clear [simp]: "pa_ppn (pp_off_clear pa) = pa_ppn pa"
  by (rule bit_word_eqI) (auto simp: pa_ppn_def pp_off_clear_def bit_simps)

section \<open>Mapping and unmapping\<close>

definition same_page :: "u64 \<Rightarrow> u64 \<Rightarrow> bool" where
  "same_page va va' \<longleftrightarrow> va_vpn 2 va = va_vpn 2 va' \<and> va_vpn 1 va = va_vpn 1 va' \<and> va_vpn 0 va = va_vpn 0 va'"

lemma pt_frame_ref_inc_ok:
  assumes ok: "pt_ok s root" and pa: "\<And>f. pa2frame s pa = OK f \<Longrightarrow> f \<notin> free_frames s"
  shows "\<exists>s'. pt_frame_ref_inc s pa = (s', OK ()) \<and> pt_ok s' root \<and> cells s' = cells s \<and> touches_tables 0 s s' root"
proof (cases "pa2frame s pa")
  case (OK f)
  define s' where "s' = s\<lparr>pf_ref := (pf_ref s)(f := pf_ref s f + 1)\<rparr>"
  have s: "mm_free_ok s" "pt_phy s" using ok by (simp_all add: pt_ok_def)
  note R = ref_inc_free_ok [OF s(1) pa [OF OK] s'_def]
  have "cells s' = cells s" "pt_phy s'" using s by (simp_all add: s'_def)
  moreover from this have "pt_ok s' root" "touches_tables 0 s s' root" using ok R unfolding pt_ok_def touches_tables_def
    by (simp_all add: s'_def)
  moreover have "pt_frame_ref_inc s pa = (s', OK ())"
    using OK s by (simp add: pt_frame_ref_inc_def pt_phy_frame_ref_inc_def phy_frame_ref_inc_def s'_def)
  ultimately show ?thesis by blast
next
  case (ERR e)
  then show ?thesis using ok by (simp add: pt_frame_ref_inc_def pt_phy_frame_ref_inc_def pt_ok_def)
next
  case PANIC
  have "pa2sel_from k ms pa \<noteq> PANIC" for k ms by (induction ms arbitrary: k) (auto split: if_splits)
  then show ?thesis using PANIC by (auto simp: pa2frame_def pa2sel_def catch_e_def split: result.splits)
qed

lemma set_leaf_xlate:
  assumes ok: "pt_ok s root" and v: "v0 (cells s) root (va_vpn 2 va) (va_vpn 1 va)"
    and s': "s' = s\<lparr>cells := (cells s)(l0 (cells s) root (va_vpn 2 va) (va_vpn 1 va) + 8 * va_vpn 0 va := w)\<rparr>"
  shows "pt_ok s' root" "xlate (cells s') root va'
    = (if same_page va va' then (if pte_v w then Some w else None) else xlate (cells s) root va')"
proof -
  have t: "tree_ok (cells s) root" using ok by (simp add: pt_ok_def)
  note L = set_leaf [OF t v va_vpn_bound, where w = w, OF refl]
  show "pt_ok s' root" using ok L(2,3) unfolding pt_ok_def by (simp add: s')
  show "xlate (cells s') root va' = (if same_page va va' then (if pte_v w then Some w else None) else xlate (cells s) root va')"
    using L(1) [OF va_vpn_bound] unfolding xlate_def same_page_def by (auto simp: s')
qed

lemma pt_enter_spec:
  assumes ok: "pt_ok s root" and pa: "\<And>f. pa2frame s pa = OK f \<Longrightarrow> f \<notin> free_frames s"
    and r: "pt_enter s root va pa perm = (s', r)"
  shows "(r = ERR KER_MEM_ER \<and> card (free_frames s) < 2) \<or> (r = OK () \<and> pt_ok s' root \<and> touches_tables 2 s s' root
    \<and> (\<exists>w. pte_v w \<and> pte_ppn w = pa_ppn pa \<and> take_bit 10 w = take_bit 10 (perm OR 1)
        \<and> (\<forall>va'. xlate (cells s') root va' = (if same_page va va' then Some w else xlate (cells s) root va'))))"
proof -
  obtain s1 r1 where 1: "pt_walk s root va True = (s1, r1)" by fastforce
  show ?thesis
  proof (rule disjE [OF pt_walk_create [OF ok 1]])
    assume "r1 = ERR KER_MEM_ER \<and> card (free_frames s) < 2"
    then show ?thesis using r 1 by (simp add: pt_enter_def)
  next
    let ?pte = "l0 (cells s1) root (va_vpn 2 va) (va_vpn 1 va) + 8 * va_vpn 0 va"
    define w where "w = pte_set_perm (pte_set_ppn (cells s1 ?pte) (pa_ppn pa)) (perm OR 1)"
    define s2 where "s2 = s1\<lparr>cells := (cells s1)(?pte := w)\<rparr>"
    assume a: "r1 = OK (Some ?pte) \<and> walked 2 s s1 root va"
    then have wk: "pt_ok s1 root" "v0 (cells s1) root (va_vpn 2 va) (va_vpn 1 va)" "free_frames s1 \<subseteq> free_frames s"
      "mems s1 = mems s" "pf_array s1 = pf_array s" "touches_tables 2 s s1 root" and same: "\<And>va'. xlate (cells s1) root va' = xlate (cells s) root va'"
      by (auto simp: walked_def touches_tables_def xlate_def va_vpn_bound)
    note W = pte_leaf [of "cells s1 ?pte" "pa_ppn pa" perm, folded w_def]
    have ppn: "take_bit 44 (pa_ppn pa) = pa_ppn pa" by (simp add: pa_ppn_def)
    note X = set_leaf_xlate [OF wk(1,2) s2_def]
    have "pa2frame s2 pa = pa2frame s pa" using wk(4,5) by (simp add: s2_def pa2frame_def pa2sel_def)
    then have "\<And>f. pa2frame s2 pa = OK f \<Longrightarrow> f \<notin> free_frames s2" using pa wk(3) by (auto simp: s2_def)
    then obtain s3 where s3: "pt_frame_ref_inc s2 pa = (s3, OK ())" "pt_ok s3 root" "cells s3 = cells s2" "touches_tables 0 s2 s3 root"
      using pt_frame_ref_inc_ok [OF X(1)] by blast
    have "touches_tables 0 s1 s2 root" unfolding s2_def
      using wk(1) set_leaf(3) [OF _ wk(2) va_vpn_bound refl]
      by (intro touches_tables_upd tables_intro(3) wk(2) l_page_ok(2) va_vpn_bound) (simp add: pt_ok_def)
    then have touch: "touches_tables 2 s s3 root"
      using touches_tables_trans [OF touches_tables_trans [OF wk(6)] s3(4)] by fastforce
    have "pt_enter s root va pa perm = (s3, OK ())"
      using a s3(1) unfolding pt_enter_def 1 s2_def w_def by (simp add: Let_def)
    then show ?thesis using r s3 X(2) W ppn same touch by auto
  qed
qed

lemma pt_map_fresh:
  assumes "tree_ok (cells s) root" "xlate (cells s) root va = None"
  shows "pt_map s root va pa perm = pt_enter s root (pp_off_clear va) (pp_off_clear pa) perm"
proof -
  have "pt_walk s root (pp_off_clear va) False = (s, OK p) \<Longrightarrow>
      \<not> (case p of None \<Rightarrow> False | Some pte \<Rightarrow> pte_v (cells s pte))" for p
    using assms(2) unfolding pt_walk_find [OF assms(1)] by (auto simp: xlate_def leaf_def split: if_splits)
  then show ?thesis unfolding pt_map_def Let_def pt_walk_find [OF assms(1)] by simp
qed

lemma pt_map_spec:
  assumes ok: "pt_ok s root" and va: "xlate (cells s) root va = None"
    and pa: "\<And>f. pa2frame s (pp_off_clear pa) = OK f \<Longrightarrow> f \<notin> free_frames s" and r: "pt_map s root va pa perm = (s', r)"
  shows "(r = ERR KER_MEM_ER \<and> card (free_frames s) < 2) \<or> (r = OK () \<and> pt_ok s' root \<and> touches_tables 2 s s' root
    \<and> (\<exists>w. pte_v w \<and> pte_ppn w = pa_ppn pa \<and> take_bit 10 w = take_bit 10 (perm OR 1)
        \<and> (\<forall>va'. xlate (cells s') root va' = (if same_page va va' then Some w else xlate (cells s) root va'))))"
proof -
  have t: "tree_ok (cells s) root" using ok by (simp add: pt_ok_def)
  show ?thesis
    using pt_enter_spec [OF ok pa r [unfolded pt_map_fresh [OF t va]]] by (simp add: same_page_def)
qed

lemma ref_dec_shared:
  assumes ok: "pt_ok s root" and f: "pa2frame s pa = OK f" "f \<notin> free_frames s" "pf_ref s f = of_nat k" "1 < k" "k < 2 ^ 64"
  shows "\<exists>s'. pt_frame_ref_dec s pa = (s', OK ()) \<and> pt_ok s' root \<and> cells s' = cells s"
proof -
  define s' where "s' = s\<lparr>pf_ref := (pf_ref s)(f := pf_ref s f - 1)\<rparr>"
  have s: "mm_free_ok s" "pt_phy s" using ok by (simp_all add: pt_ok_def)
  have "pf_ref s f - 1 = of_nat (k - 1)" using f(3,4) by (simp add: of_nat_diff)
  then have "pf_ref s f \<noteq> 0" "pf_ref s f - 1 \<noteq> 0"
    using f(3-5) of_nat_eq_0_small64 [of k] of_nat_eq_0_small64 [of "k - 1"] by auto
  then have "pt_frame_ref_dec s pa = (s', OK ())"
    using f(1) s by (simp add: pt_frame_ref_dec_def pt_phy_frame_ref_dec_def phy_frame_ref_dec_def Let_def s'_def)
  moreover have "pt_ok s' root" "cells s' = cells s"
    using ok ref_inc_free_ok [OF s(1) f(2) s'_def] unfolding pt_ok_def by (simp_all add: s'_def)
  ultimately show ?thesis by blast
qed

text \<open>A bank of four pages; the first holds the root table and the last is referenced twice.\<close>

definition mm_pages :: "(u64 \<Rightarrow> u64) \<Rightarrow> u64 list \<Rightarrow> mm" where
  "mm_pages c free = \<lparr>kern_end = 0x80000000, mems = [(0x80000000, 0x4000)], freemem_base = 0x80000000, pf_array = [0x1000],
     pf_array_len = [4], pf_free_list = [free], pf_ref = (\<lambda>f. if f = 0x1048 then 2 else 0), cells = c, pt_phy = True\<rparr>"

lemma mm_pages_simps [simp]: "cells (mm_pages c free) = c" "free_frames (mm_pages c free) = set free" "pt_phy (mm_pages c free)"
  by (simp_all add: mm_pages_def free_frames_def)

lemma mm_pages_frames: "frame2pa (mm_pages c free) 0x1018 = OK 0x80001000" "frame2pa (mm_pages c free) 0x1030 = OK 0x80002000"
  by (simp_all add: frame2pa_def frame2sel_def mm_pages_def PF_SIZE_def PGSIZE_W_def)

lemma mm_pages_ok:
  "pt_ok (mm_pages c [0x1018, 0x1030]) root \<longleftrightarrow> tree_ok c root \<and> tables c root \<inter> {0x80001000, 0x80002000} = {}"
  "pt_ok (mm_pages c []) root \<longleftrightarrow> tree_ok c root"
proof -
  have g: "mm_geom (mm_pages c free)" for free by (auto simp: mm_geom_def mm_pages_def bank_ok_def)
  have j: "\<exists>j < 4. (0x1018 :: u64) = 0x1000 + of_nat (j * 24)" "\<exists>j < 4. (0x1030 :: u64) = 0x1000 + of_nat (j * 24)"
    by (auto intro: exI [of _ 1] exI [of _ 2])
  have "mm_free_ok (mm_pages c [0x1018, 0x1030])" "mm_free_ok (mm_pages c [])"
    unfolding mm_free_ok_def using g j by (simp_all add: frame_at_def) (simp_all add: mm_pages_def)
  moreover have "free_pages (mm_pages c [0x1018, 0x1030]) = {0x80001000, 0x80002000}" "free_pages (mm_pages c []) = {}"
    by (auto simp: free_pages_def mm_pages_frames)
  ultimately show "pt_ok (mm_pages c [0x1018, 0x1030]) root \<longleftrightarrow> tree_ok c root \<and> tables c root \<inter> {0x80001000, 0x80002000} = {}"
    "pt_ok (mm_pages c []) root \<longleftrightarrow> tree_ok c root" by (auto simp: pt_ok_def)
qed

lemma page_ok_examples: "page_ok 0x80000000" "page_ok 0x80001000" "page_ok 0x80002000"
  by (simp_all add: page_ok_iff)

lemma tree_ok_empty: "tree_ok (\<lambda>_. 0) 0x80000000 \<and> tables (\<lambda>_. 0) 0x80000000 = {0x80000000}"
  by (simp add: tree_ok_def tables_def v0_def v1_def pte_v_def page_ok_examples)

section \<open>Properties\<close>




text \<open>The same bank with the virtual page 0 mapped to its last page.\<close>

definition cells_map :: "u64 \<Rightarrow> u64" where
  "cells_map = (\<lambda>x. if x = 0x80000000 then pte_table 0x80001000 else if x = 0x80001000 then pte_table 0x80002000
     else if x = 0x80002000 then pte_table 0x80003000 else 0)"

lemma cells_map_ok: "tree_ok cells_map 0x80000000" "xlate cells_map 0x80000000 0 = Some (pte_table 0x80003000)"
proof -
  let ?m1 = "(zero_page (\<lambda>_. 0) 0x80001000)(0x80000000 + 8 * 0 := pte_table 0x80001000)"
  let ?m2 = "(zero_page ?m1 0x80002000)(l1 ?m1 0x80000000 0 + 8 * 0 := pte_table 0x80002000)"
  note P = page_ok_examples
  have e: "\<not> v1 (\<lambda>_. 0) 0x80000000 0" by (simp add: v1_def pte_v_def)
  have "0x80001000 \<notin> tables (\<lambda>_. 0) 0x80000000" using tree_ok_empty by simp
  note E1 = enter_l1 [OF conjunct1 [OF tree_ok_empty] _ e P(2) this refl]
  have v1: "v1 ?m1 0x80000000 0" "l1 ?m1 0x80000000 0 = 0x80001000" using E1(1,2) by (simp_all add: v1_def)
  have nv: "\<not> v0 ?m1 0x80000000 0 0" using E1(3) [of 0 0] by (simp add: v0_def v1_def pte_v_def)
  have tb: "0x80002000 \<notin> tables ?m1 0x80000000" using E1(7) tree_ok_empty by simp
  note E2 = enter_l0 [OF E1(6) v1(1) _ nv P(3) tb refl]
  have v0: "v0 ?m2 0x80000000 0 0" "l0 ?m2 0x80000000 0 0 = 0x80002000" using E2(3,4) by simp_all
  have eq: "?m2(l0 ?m2 0x80000000 0 0 + 8 * 0 := pte_table 0x80003000) = cells_map"
    unfolding v0(2) unfolding v1(2) by (auto simp: cells_map_def zero_page_def fun_eq_iff in_page_def PGSIZE_W_def)
  note S = set_leaf [OF _ v0(1) _ eq [symmetric]]
  show "tree_ok cells_map 0x80000000" using S(2) E2(6) by simp
  show "xlate cells_map 0x80000000 0 = Some (pte_table 0x80003000)"
    unfolding xlate_def using S(1) [of 0 0 0] E2(6) by (simp add: va_vpn_def)
qed


text \<open>
  C35 (error). A defect of the error path of \<open>pt_walk\<close>: when the second of two tables cannot be
  allocated, the first one is given back but stays entered in the root table, so the tree points
  to a free frame that the next allocation hands out for something else.
\<close>

theorem pt_walk_oom_dangling:
  assumes "pt_ok s root" "\<not> v1 (cells s) root (va_vpn 2 va)" "free_frames s = {f}" "0 \<notin> free_pages s"
  shows "\<exists>s'. pt_walk s root va True = (s', ERR KER_MEM_ER) \<and> v1 (cells s') root (va_vpn 2 va)
    \<and> l1 (cells s') root (va_vpn 2 va) \<in> free_pages s'"
proof -
  let ?i = "va_vpn 2 va" and ?ptr = "root + 8 * va_vpn 2 va"
  have s: "mm_free_ok s" "pt_phy s" "tree_ok (cells s) root" "tables (cells s) root \<inter> free_pages s = {}"
    using assms(1) by (simp_all add: pt_ok_def)
  have nv: "\<not> pte_v (cells s ?ptr)" using assms(2) by (simp add: v1_def va_vpn_bound)
  obtain s1 r1 where n: "pt_new_table s ?ptr = (s1, r1)" by fastforce
  then obtain p where p: "r1 = OK p" "took_page s s1 p" "cells s1 = (zero_page (cells s) p)(?ptr := pte_table p)"
    and geo: "mems s1 = mems s" "pf_array s1 = pf_array s" "pf_array_len s1 = pf_array_len s"
    using pt_new_table_spec [OF s(1,2) n] assms(3) by auto
  have t: "page_ok p" "p \<in> free_pages s" "mm_free_ok s1" "pt_phy s1" "held_once s1 p" "free_frames s1 = {}"
    using p(2) assms(3) by (auto simp: took_page_def)
  have "p \<notin> tables (cells s) root" using s(4) t(2) by blast
  note E = enter_l1 [OF s(3) va_vpn_bound assms(2) t(1) this p(3)]
  have v: "v1 (cells s1) root ?i" "l1 (cells s1) root ?i = p" using E(1,2) by simp_all
  have "\<not> v0 (cells s1) root ?i (va_vpn 1 va)" using E(3) assms(2) by (simp add: v0_def)
  then have nv0: "\<not> pte_v (cells s1 (pte2pa (cells s1 ?ptr) + 8 * va_vpn 1 va))"
    using v(1) by (simp add: v0_def l1_def va_vpn_bound)
  have "p \<noteq> 0" using assms(4) t(2) by auto
  moreover obtain s2 g where s2: "pt_frame_ref_dec s1 p = (s2, OK ())" "cells s2 = cells s1" "pa2frame s1 p = OK g" "g \<in> free_frames s2"
    "mems s2 = mems s1" "pf_array s2 = pf_array s1" "pf_array_len s2 = pf_array_len s1"
    using held_once_dec [OF t(3-5)] by blast
  moreover have "pt_new_table s1 q = (s1, ERR KER_MEM_ER)" for q
    using pt_new_table_spec [OF t(3,4), of q] t(6) by (cases "pt_new_table s1 q") (auto simp: took_page_def)
  ultimately have w: "pt_walk s root va True = (s2, ERR KER_MEM_ER)"
    using nv nv0 n p(1) unfolding pt_walk_def pt_walk_low_def Let_def by simp
  obtain h where h: "h \<in> free_frames s" "frame2pa s h = OK p" using t(2) by (auto simp: free_pages_def)
  have "g = h" using free_page_frame [OF s(1) h] s2(3) geo by (simp add: pa2frame_def pa2sel_def)
  moreover have "frame2pa s2 h = frame2pa s h" using s2(5-7) geo by (simp add: frame2pa_def frame2sel_def)
  ultimately have "p \<in> free_pages s2" unfolding free_pages_def using s2(4) h(2) by auto
  then show ?thesis using w v s2(2) by simp
qed

theorem pt_walk_oom_dangling_witness:
  "\<exists>s'. pt_walk (mm_pages (\<lambda>_. 0) [0x1018]) 0x80000000 0x400000 True = (s', ERR KER_MEM_ER)
     \<and> l1 (cells s') 0x80000000 0 \<in> free_pages s'"
proof -
  have "\<exists>j < 4. (0x1018 :: u64) = 0x1000 + of_nat (j * 24)" by (auto intro: exI [of _ 1])
  moreover have "mm_geom (mm_pages (\<lambda>_. 0) [0x1018])" by (auto simp: mm_geom_def mm_pages_def bank_ok_def)
  ultimately have "mm_free_ok (mm_pages (\<lambda>_. 0) [0x1018])"
    unfolding mm_free_ok_def by (simp add: frame_at_def) (simp add: mm_pages_def)
  moreover have fp: "free_pages (mm_pages (\<lambda>_. 0) [0x1018]) = {0x80001000}" by (auto simp: free_pages_def mm_pages_frames)
  ultimately have "pt_ok (mm_pages (\<lambda>_. 0) [0x1018]) 0x80000000" using tree_ok_empty by (simp add: pt_ok_def)
  then show ?thesis
    using pt_walk_oom_dangling [of "mm_pages (\<lambda>_. 0) [0x1018]" "0x80000000" "0x400000" "0x1018"] fp
    by (auto simp: va_vpn_def v1_def pte_v_def)
qed

end
