(* ===== verification/Kernel_State.thy ===== *)
theory Kernel_State
  imports Asid Circbuf Hashmap Vmm "HOL-Library.Monad_Syntax"
begin

text \<open>
  The state of the kernel proper: the types of \<^verbatim>\<open>include/types.h\<close>, the objects of
  \<^verbatim>\<open>kern/multitask\<close>, \<^verbatim>\<open>kern/comm\<close>, \<^verbatim>\<open>kern/chan\<close> and \<^verbatim>\<open>kern/traps\<close>, and the tables that
  find them. An object is known by its number in the list of its kind (numbers are
  never reused), which stands for the pointer of the code; the hash tables hold such
  numbers. Partitions are scheduled on one hart only (\<open>SYSCORE\<close>, see \<open>kernel_init\<close>), so the
  per-hart arrays \<open>cpus_cur_part\<close>, \<open>cpus_cur_proc\<close>, \<open>cpus_context\<close> and
  \<open>cpus_time_event_queue\<close> are single fields, and locks are left out: each call is one
  critical section. Kernel-heap exhaustion is left out as well (the code does not test
  the results of \<open>kalloc\<close>).
\<close>

section \<open>Types\<close>

type_synonym sys_time = int
type_synonym pptr = nat

definition SYSTEM_TIME_INFINITE_VAL :: sys_time where
  "SYSTEM_TIME_INFINITE_VAL = 2 ^ 63 - 1"

definition SYS_TIME_SECOND :: int where
  "SYS_TIME_SECOND = 1000000"

datatype ret_code = NO_ERROR | NO_ACTION | NOT_AVAILABLE | INVALID_PARAM | INVALID_CONFIG | INVALID_MODE | TIMED_OUT
  | INVALID_SYSNO | RET_CHAR u8

text \<open>The value that goes back in register \<open>a0\<close>; \<open>RET_CHAR\<close> is the character \<open>do_cons_read_char\<close> returns.\<close>

fun ret_value :: "ret_code \<Rightarrow> u64" where
  "ret_value NO_ERROR = 0"
| "ret_value NO_ACTION = - 1"
| "ret_value NOT_AVAILABLE = - 2"
| "ret_value INVALID_PARAM = - 3"
| "ret_value INVALID_CONFIG = - 4"
| "ret_value INVALID_MODE = - 5"
| "ret_value TIMED_OUT = - 6"
| "ret_value INVALID_SYSNO = - 4096"
| "ret_value (RET_CHAR c) = ucast c"

text \<open>Enumerations that user code passes in are kept as 32-bit words, as the compiler does.\<close>

definition IDLE :: u32 where "IDLE = 0"
definition COLD_START :: u32 where "COLD_START = 1"
definition WARM_START :: u32 where "WARM_START = 2"
definition NORMAL :: u32 where "NORMAL = 3"

definition NORMAL_START :: u32 where "NORMAL_START = 0"

datatype proc_state = DORMANT | READY | RUNNING | WAITING | FAULTED

definition SOFT :: u32 where "SOFT = 0"
definition SOURCE :: u32 where "SOURCE = 0"
definition DESTINATION :: u32 where "DESTINATION = 1"
definition FIFO :: u32 where "FIFO = 0"
definition PRIORITY :: u32 where "PRIORITY = 1"

datatype empty_ind = EMPTY | OCCUPIED

datatype proc_waiting_reason = PREVIOUS_STARTED | DELAYED_STARTED | SUSPENDED | SUSPENDED_WITH_TIMEOUT
  | BUFFER_BLOCKED | BUFFER_BLOCKED_WITH_TIMEOUT | BLACKBOARD_BLOCKED | BLACKBOARD_BLOCKED_WITH_TIMEOUT
  | QUEUING_PORT_BLOCKED | QUEUING_PORT_BLOCKED_WITH_TIMEOUT | TIMED_WAIT_TIMEOUT

section \<open>Objects\<close>

record trap_context =
  ctx_regs :: "u64 list"
  ctx_sstatus :: u64
  ctx_scause :: u64
  ctx_sie :: u64
  ctx_stval :: u64
  ctx_sepc :: u64
  ctx_hartid :: u64

text \<open>\<open>pr_xstacktop\<close> and \<open>pr_ctx_list\<close> are the two members of the embedded \<open>struct trapframe\<close>.\<close>

record proc =
  pr_xstacktop :: u64
  pr_ctx_list :: "nat list"
  pr_name :: string
  pr_id :: u64
  pr_idx :: u64
  pr_part_id :: u64
  pr_ustacktop :: u64
  pr_ustacksize :: u64
  pr_entrypoint :: u64
  pr_base_pri :: u64
  pr_period :: sys_time
  pr_time_cap :: sys_time
  pr_deadline :: u32
  pr_cur_pri :: u64
  pr_deadline_time :: sys_time
  pr_state :: proc_state
  pr_waiting_reason :: proc_waiting_reason
  pr_core_id :: u64
  pr_asso_timer :: "nat option"

definition proc_is_period :: "proc \<Rightarrow> bool" where
  "proc_is_period p \<longleftrightarrow> pr_period p \<noteq> SYSTEM_TIME_INFINITE_VAL"

record part =
  pa_name :: string
  pa_pgdir :: u64
  pa_cpus_asid :: u64
  pa_cpus_asid_generation :: u64
  pa_mem_req :: u64
  pa_mem_rem :: u64
  pa_ustasktop :: u64
  pa_xstacktop :: u64
  pa_comm_base :: u64
  pa_entrypoint :: u64
  pa_main_proc_stacksize :: u64
  pa_period :: sys_time
  pa_duration :: sys_time
  pa_id :: u64
  pa_lock_level :: u64
  pa_op_mode :: u32
  pa_start_cond :: u32
  pa_num_cores :: u64
  pa_proc_name_map :: "nat hashmap"
  pa_buf_name_map :: "nat hashmap"
  pa_bb_name_map :: "nat hashmap"
  pa_proc_list :: "nat list"

record buffer =
  buf_name :: string
  buf_id :: u64
  buf_part_id :: u64
  buf_que_disc :: u32
  buf_max_msg_size :: u64
  buf_max_nb_msg :: u64
  buf_body :: circbuf
  buf_waiting_procs :: "nat list"

record blackboard =
  bb_name :: string
  bb_id :: u64
  bb_part_id :: u64
  bb_empty_ind :: empty_ind
  bb_max_msg_size :: u64
  bb_data :: u64
  bb_len :: u64
  bb_waiting_procs :: "nat list"

text \<open>A queuing channel (\<open>ch_view.queuing\<close>; sampling channels are not implemented by the kernel).\<close>

record channel =
  ch_max_msg_size :: u64
  ch_max_nb_msg :: u64
  ch_body :: circbuf
  ch_waiting_procs :: "nat list"

record queuing_port =
  qp_id :: u64
  qp_name :: string
  qp_part_id :: u64
  qp_dir :: u32
  qp_disc :: u32
  qp_channel :: nat

record queuing_port_conf =
  qpc_name :: string
  qpc_pa_name :: string
  qpc_dir :: u32
  qpc_max_msg_size :: u64
  qpc_max_nb_msg :: u64
  qpc_channel :: "nat option"

text \<open>The type of an event with the objects its \<open>te_ctx\<close> refers to.\<close>

datatype time_event_type = TE_SIMPLE | TE_PARTITION_ACTIVATE
  | TE_PROCESS_SUSPEND_TIMEOUT nat | TE_PROCESS_DELAYED_START nat | TE_PROCESS_TIMED_WAIT_TIMEOUT nat
  | TE_BUFFER_BLOCK_TIMEOUT nat nat | TE_BLACKBOARD_BLOCK_TIMEOUT nat nat | TE_QUEUING_PORT_BLOCK_TIMEOUT nat nat

record time_event =
  te_time :: sys_time
  te_type :: time_event_type

record sched_module =
  sm_part :: nat
  sm_offset :: sys_time
  sm_duration :: sys_time
  sm_prev_act_time :: sys_time

text \<open>What \<open>time_event_set_head\<close> last told the timer: a deadline in ticks, or an interrupt pending at once.\<close>

datatype timer_setting = TimerAt u64 | TimerPending

section \<open>The kernel state\<close>

record kst =
  k_procs :: "proc list"
  k_parts :: "part list"
  k_bufs :: "buffer list"
  k_bbs :: "blackboard list"
  k_chans :: "channel list"
  k_ports :: "queuing_port list"
  k_port_confs :: "queuing_port_conf list"
  k_tes :: "time_event list"
  k_te_queue :: "nat list"
  k_timer :: timer_setting
  k_timebase_freq :: u32
  k_modules :: "sched_module list"
  k_sched_parts :: "nat list"
  k_cur_mod :: "nat option"
  k_major_frame :: sys_time
  k_cur_part :: "nat option"
  k_cur_proc :: "nat option"
  k_contexts :: "trap_context list"
  k_ctx_free_list :: "nat list"
  k_cpu_context :: nat
  proc_id_map :: "nat hashmap"
  part_id_map :: "nat hashmap"
  part_name_map :: "nat hashmap"
  buf_id_map :: "nat hashmap"
  bb_id_map :: "nat hashmap"
  queuing_port_id_map :: "nat hashmap"
  queuing_port_name_map :: "nat hashmap"
  proc_nxt_id :: u64
  part_nxt_id :: u64
  buf_nxt_id :: u64
  bb_nxt_id :: u64
  qp_nxt_id :: u64
  channel_base :: u64
  k_asid :: asid_cpu
  k_mm :: mm
  kern_pgdir :: u64
  k_part_mem :: "nat \<Rightarrow> mem"
  k_chan_mem :: mem

definition the_proc :: "kst \<Rightarrow> pptr \<Rightarrow> proc" where
  "the_proc s p = k_procs s ! p"

definition upd_proc :: "pptr \<Rightarrow> (proc \<Rightarrow> proc) \<Rightarrow> kst \<Rightarrow> kst" where
  "upd_proc p f s = s\<lparr>k_procs := (k_procs s)[p := f (k_procs s ! p)]\<rparr>"

definition upd_part :: "nat \<Rightarrow> (part \<Rightarrow> part) \<Rightarrow> kst \<Rightarrow> kst" where
  "upd_part p f s = s\<lparr>k_parts := (k_parts s)[p := f (k_parts s ! p)]\<rparr>"

definition upd_buf :: "nat \<Rightarrow> (buffer \<Rightarrow> buffer) \<Rightarrow> kst \<Rightarrow> kst" where
  "upd_buf b f s = s\<lparr>k_bufs := (k_bufs s)[b := f (k_bufs s ! b)]\<rparr>"

definition upd_bb :: "nat \<Rightarrow> (blackboard \<Rightarrow> blackboard) \<Rightarrow> kst \<Rightarrow> kst" where
  "upd_bb b f s = s\<lparr>k_bbs := (k_bbs s)[b := f (k_bbs s ! b)]\<rparr>"

definition upd_chan :: "nat \<Rightarrow> (channel \<Rightarrow> channel) \<Rightarrow> kst \<Rightarrow> kst" where
  "upd_chan c f s = s\<lparr>k_chans := (k_chans s)[c := f (k_chans s ! c)]\<rparr>"

text \<open>\<open>sched_cur_part()\<close> and \<open>sched_cur_proc()\<close> of \<^verbatim>\<open>sched.h\<close>, for use where they are not \<^verbatim>\<open>NULL\<close>.\<close>

definition sched_cur_part :: "kst \<Rightarrow> part" where
  "sched_cur_part s = k_parts s ! the (k_cur_part s)"

definition sched_cur_proc :: "kst \<Rightarrow> pptr" where
  "sched_cur_proc s = the (k_cur_proc s)"

text \<open>\<open>part_get_proc_count\<close>\<close>

definition part_get_proc_count :: "part \<Rightarrow> u64" where
  "part_get_proc_count p = h_num (pa_proc_name_map p)"

section \<open>Memory as the current partition sees it\<close>

text \<open>
  Each partition has its own address space, except for the channel region, which
  \<open>channel_mem_setup\<close> maps into the kernel's table and, with \<open>part_pt_sync_kern_pgdir\<close>, into
  every partition's.
\<close>

definition CHAN_BASE :: u64 where [layout_simps]: "CHAN_BASE = 0x3500000000"
definition CHAN_LIMT :: u64 where [layout_simps]: "CHAN_LIMT = 0x3800000000"
definition COMM_BASE :: u64 where [layout_simps]: "COMM_BASE = 0x3100000000"
definition COMM_LIMT :: u64 where [layout_simps]: "COMM_LIMT = 0x3400000000"
definition XSTKLIMIT :: u64 where [layout_simps]: "XSTKLIMIT = 0x3000000000"
definition USTKLIMIT :: u64 where [layout_simps]: "USTKLIMIT = 0x2000000000"
definition USTKSIZEMAX :: u64 where [layout_simps]: "USTKSIZEMAX = 0x80000"
definition KSTKSIZE :: u64 where [layout_simps]: "KSTKSIZE = 0x10000"
definition SYSCORE :: u64 where [layout_simps]: "SYSCORE = 1"

definition in_chan :: "u64 \<Rightarrow> bool" where
  "in_chan a \<longleftrightarrow> CHAN_BASE \<le> a \<and> a < CHAN_LIMT"

definition umem :: "kst \<Rightarrow> mem" where
  "umem s = (\<lambda>a. if in_chan a then k_chan_mem s a else k_part_mem s (the (k_cur_part s)) a)"

definition set_umem :: "mem \<Rightarrow> kst \<Rightarrow> kst" where
  "set_umem m s = s\<lparr>k_chan_mem := (\<lambda>a. if in_chan a then m a else k_chan_mem s a),
     k_part_mem := (k_part_mem s)(the (k_cur_part s) := (\<lambda>a. if in_chan a then k_part_mem s (the (k_cur_part s)) a else m a))\<rparr>"

lemma umem_set_umem [simp]: "umem (set_umem m s) = m"
  by (auto simp: umem_def set_umem_def fun_eq_iff)

text \<open>Storing a 64-bit word at a user address, little-endian.\<close>

definition store64 :: "u64 \<Rightarrow> u64 \<Rightarrow> kst \<Rightarrow> kst" where
  "store64 a w s = set_umem (mem_write (umem s) a (bytes_of 8 w)) s"

definition store32 :: "u64 \<Rightarrow> u32 \<Rightarrow> kst \<Rightarrow> kst" where
  "store32 a w s = set_umem (mem_write (umem s) a (bytes_of 4 (ucast w))) s"

definition load64 :: "kst \<Rightarrow> u64 \<Rightarrow> u64" where
  "load64 s a = word_of (mem_read (umem s) a 8)"

definition load32 :: "kst \<Rightarrow> u64 \<Rightarrow> u32" where
  "load32 s a = ucast (word_of (mem_read (umem s) a 4))"

lemma load64_store64 [simp]: "load64 (store64 a w s) a = w"
  by (simp add: load64_def store64_def mem_read_write_same word_of_bytes_of_8)

text \<open>A name at a user address: the bytes up to the first NUL (\<open>None\<close>: the scan does not end).\<close>

partial_function (option) ustr :: "mem \<Rightarrow> u64 \<Rightarrow> string option" where
  "ustr m a = (if m a = 0 then Some [] else do { r \<leftarrow> ustr m (a + 1); Some (char_of (unat (m a)) # r) })"

lemma ustr_cstr:
  assumes "cstr m a (map of_char s)"
  shows "ustr m a = Some s"
  using assms
proof (induction s arbitrary: a)
  case Nil
  then show ?case by (subst ustr.simps) simp
next
  case (Cons c s)
  then have "m a = of_char c" "m a \<noteq> 0" "ustr m (a + 1) = Some s" by (auto simp: cstr_Cons)
  then show ?case by (subst ustr.simps) (simp add: unat_of_char)
qed

section \<open>Frame rules\<close>

named_theorems kst_simps

lemma upd_fields [simp]:
  "k_parts (upd_proc p f s) = k_parts s" "k_bufs (upd_proc p f s) = k_bufs s" "k_bbs (upd_proc p f s) = k_bbs s"
  "k_chans (upd_proc p f s) = k_chans s" "k_ports (upd_proc p f s) = k_ports s" "k_tes (upd_proc p f s) = k_tes s"
  "k_te_queue (upd_proc p f s) = k_te_queue s" "k_cur_part (upd_proc p f s) = k_cur_part s"
  "k_cur_proc (upd_proc p f s) = k_cur_proc s" "k_ctx_free_list (upd_proc p f s) = k_ctx_free_list s"
  "k_cpu_context (upd_proc p f s) = k_cpu_context s" "k_contexts (upd_proc p f s) = k_contexts s"
  "k_modules (upd_proc p f s) = k_modules s" "proc_id_map (upd_proc p f s) = proc_id_map s"
  "k_timer (upd_proc p f s) = k_timer s" "k_timebase_freq (upd_proc p f s) = k_timebase_freq s"
  "umem (upd_proc p f s) = umem s" "k_part_mem (upd_proc p f s) = k_part_mem s" "k_chan_mem (upd_proc p f s) = k_chan_mem s"
  "k_mm (upd_proc p f s) = k_mm s" "k_asid (upd_proc p f s) = k_asid s" "k_major_frame (upd_proc p f s) = k_major_frame s"
  "k_cur_mod (upd_proc p f s) = k_cur_mod s" "k_sched_parts (upd_proc p f s) = k_sched_parts s"
  "buf_id_map (upd_proc p f s) = buf_id_map s" "bb_id_map (upd_proc p f s) = bb_id_map s"
  "queuing_port_id_map (upd_proc p f s) = queuing_port_id_map s" "part_id_map (upd_proc p f s) = part_id_map s"
  by (simp_all add: upd_proc_def umem_def cong: if_cong)

lemma length_upd_proc [simp]: "length (k_procs (upd_proc p f s)) = length (k_procs s)"
  by (simp add: upd_proc_def)

lemma nth_upd_proc:
  "q < length (k_procs s) \<Longrightarrow> k_procs (upd_proc p f s) ! q = (if q = p then f (k_procs s ! p) else k_procs s ! q)"
  by (simp add: upd_proc_def nth_list_update)

lemma nth_upd_proc_same [simp]: "p < length (k_procs s) \<Longrightarrow> k_procs (upd_proc p f s) ! p = f (k_procs s ! p)"
  by (simp add: nth_upd_proc)

lemma set_umem_fields [simp]:
  "k_procs (set_umem m s) = k_procs s" "k_parts (set_umem m s) = k_parts s" "k_bufs (set_umem m s) = k_bufs s"
  "k_bbs (set_umem m s) = k_bbs s" "k_chans (set_umem m s) = k_chans s" "k_ports (set_umem m s) = k_ports s"
  "k_tes (set_umem m s) = k_tes s" "k_te_queue (set_umem m s) = k_te_queue s" "k_cur_part (set_umem m s) = k_cur_part s"
  "k_cur_proc (set_umem m s) = k_cur_proc s" "k_ctx_free_list (set_umem m s) = k_ctx_free_list s"
  "k_cpu_context (set_umem m s) = k_cpu_context s" "k_contexts (set_umem m s) = k_contexts s"
  by (simp_all add: set_umem_def)

end
