(* ===== verification/Printfmt.thy ===== *)
theory Printfmt
  imports Argparser Kernel_State
begin

text \<open>
  Formatted output: \<^verbatim>\<open>lib/printfmt.c\<close>, the \<open>sprintf\<close> of \<^verbatim>\<open>lib/string.c\<close> and the buffered output of user programs
  (\<^verbatim>\<open>user/lib/logger.c\<close>). A variadic argument is the value of its type, or what the pointer refers to; reading an argument of
  another type is \<open>None\<close>. The formatter is the sequence of texts it hands to its output callback.
\<close>

section \<open>The formatter\<close>

datatype va_item =
    VaInt int
  | VaLong int
  | VaStr string
  | VaMemRange u64 u64
  | VaBytes u64
  | VaTime int

definition digit_char :: "bool \<Rightarrow> nat \<Rightarrow> char" where
  "digit_char upcase tmp =
     (if tmp \<le> 9 then char_of (48 + tmp) else if upcase then char_of (65 + tmp - 10) else char_of (97 + tmp - 10))"

text \<open>The \<open>do\<close> loop of \<open>print_num\<close>, for an unsigned number.\<close>

function num_digits :: "nat \<Rightarrow> bool \<Rightarrow> nat \<Rightarrow> string" where
  "num_digits base upcase u =
     digit_char upcase (u mod base) # (if u div base = 0 \<or> base < 2 then [] else num_digits base upcase (u div base))"
  by auto
termination by (relation "measure (\<lambda>(base, upcase, u). u)") (auto simp: div_greater_zero_iff)

declare num_digits.simps [simp del]

fun swap_loop :: "nat \<Rightarrow> nat \<Rightarrow> string \<Rightarrow> string" where
  "swap_loop begin_i end_i buf =
     (if end_i > begin_i then swap_loop (Suc begin_i) (end_i - 1) (buf[begin_i := buf ! end_i, end_i := buf ! begin_i]) else buf)"

declare swap_loop.simps [simp del]

definition print_num :: "nat \<Rightarrow> nat \<Rightarrow> bool \<Rightarrow> nat \<Rightarrow> bool \<Rightarrow> char \<Rightarrow> bool \<Rightarrow> string" where
  "print_num u base neg_flag len ladjust padc upcase =
     (let p = num_digits base upcase u @ (if neg_flag then ''-'' else []);
          actualLength = length p;
          len' = max len actualLength;
          padc' = (if ladjust then CHR '' '' else padc);
          buf = (if neg_flag \<and> \<not> ladjust \<and> padc' = CHR ''0''
                 then take (actualLength - 1) p @ replicate (len' - actualLength) padc' @ ''-''
                 else p @ replicate (len' - actualLength) padc');
          end_i = (if ladjust then actualLength - 1 else len' - 1)
      in swap_loop 0 end_i buf)"

definition print_char :: "char \<Rightarrow> nat \<Rightarrow> bool \<Rightarrow> string list" where
  "print_char c len ladjust =
     (if ladjust then [c] # replicate (max 1 len - 1) '' '' else replicate (max 1 len - 1) '' '' @ [[c]])"

definition print_str :: "string \<Rightarrow> nat \<Rightarrow> bool \<Rightarrow> string list" where
  "print_str s len ladjust =
     (let pads = replicate (max len (length s) - length s) '' '' in if ladjust then s # pads else pads @ [s])"

definition print_mem_range_style :: "u64 \<Rightarrow> u64 \<Rightarrow> nat \<Rightarrow> bool \<Rightarrow> char \<Rightarrow> string list" where
  "print_mem_range_style addr sz len ladjust padc =
     [''['', print_num (unat addr) 16 False len ladjust padc False, '', '',
      print_num (unat (addr + sz)) 16 False len ladjust padc False, '')'']"

definition byte_units :: "string list" where
  "byte_units = ['' B'', '' KiB'', '' MiB'', '' GiB'', '' TiB'']"

text \<open>The sizes are unsigned; an index behind the table of units is \<open>None\<close>.\<close>

fun print_bytes_style :: "nat \<Rightarrow> nat \<Rightarrow> string list option" where
  "print_bytes_style sz shift =
     (if sz = 0 \<and> shift = 0 then Some [''0'']
      else let rm = sz mod 2 ^ 10; quo = sz div 2 ^ 10
           in do {
             hi \<leftarrow> (if quo \<noteq> 0 then print_bytes_style quo (shift + 1) else Some []);
             lo \<leftarrow> (if rm = 0 then Some []
                    else if shift < length byte_units
                    then Some ((if quo \<noteq> 0 then ['' + ''] else []) @
                      [print_num rm 10 False 0 False (CHR '' '') False, take (if shift \<noteq> 0 then 4 else 2) (byte_units ! shift)])
                    else None);
             Some (hi @ lo)
           })"

declare print_bytes_style.simps [simp del]

text \<open>\<open>%pT\<close>: the division is that of C, the rest wraps around.\<close>

definition print_time_style :: "int \<Rightarrow> string list" where
  "print_time_style time =
     (let sec = word_of_int (if time < 0 then - (- time div SYS_TIME_SECOND) else time div SYS_TIME_SECOND) :: u64;
          microsec = word_of_int time - sec * word_of_int SYS_TIME_SECOND
      in [print_num (unat sec) 10 False 0 False (CHR '' '') False] @ print_char (CHR ''.'') 1 False
         @ [print_num (unat microsec) 10 False 6 False (CHR ''0'') False])"

fun fmt_flags :: "string \<Rightarrow> bool \<times> char \<times> string" where
  "fmt_flags [] = (False, CHR '' '', [])"
| "fmt_flags (c # cs) =
     (if c = CHR ''-'' then (True, CHR '' '', cs) else if c = CHR ''0'' then (False, CHR ''0'', cs) else (False, CHR '' '', c # cs))"

text \<open>The width, a C \<^verbatim>\<open>int\<close> that formats keep small.\<close>

fun fmt_width :: "nat \<Rightarrow> string \<Rightarrow> nat \<times> string" where
  "fmt_width width [] = (width, [])"
| "fmt_width width (c # cs) =
     (if (48 :: nat) \<le> of_char c \<and> of_char c \<le> (57 :: nat) then fmt_width (width * 10 + of_char c - 48) cs else (width, c # cs))"

fun fmt_long :: "bool \<Rightarrow> string \<Rightarrow> bool \<times> string" where
  "fmt_long long_flag [] = (long_flag, [])"
| "fmt_long long_flag (c # cs) = (if c = CHR ''l'' then fmt_long True cs else (long_flag, c # cs))"

fun va_num :: "bool \<Rightarrow> va_item list \<Rightarrow> (int \<times> va_item list) option" where
  "va_num True (VaLong n # ap) = Some (n, ap)"
| "va_num False (VaInt n # ap) = Some (n, ap)"
| "va_num _ _ = None"

definition conv_num :: "nat \<Rightarrow> bool \<Rightarrow> bool \<Rightarrow> nat \<Rightarrow> bool \<Rightarrow> char \<Rightarrow> bool \<Rightarrow> va_item list \<Rightarrow> (string list \<times> va_item list) option" where
  "conv_num base sgnd long_flag width ladjust padc upcase ap =
     do {
       (num, ap') \<leftarrow> va_num long_flag ap;
       let neg_flag = (sgnd \<and> num < 0);
       let num' = (if neg_flag then swrap64 (- num) else num);
       Some ([print_num (unat (word_of_int num' :: u64)) base neg_flag width ladjust padc upcase], ap')
     }"

text \<open>One conversion: \<open>c\<close> is the character it is named by, \<open>rest\<close> the format behind it.\<close>

definition fmt_conv :: "char \<Rightarrow> string \<Rightarrow> bool \<Rightarrow> char \<Rightarrow> nat \<Rightarrow> bool \<Rightarrow> va_item list \<Rightarrow> (string list \<times> string \<times> va_item list) option" where
  "fmt_conv c rest ladjust padc width long_flag ap =
     (let num = (\<lambda>base sgnd upcase.
                   do { (cs, ap') \<leftarrow> conv_num base sgnd long_flag width ladjust padc upcase ap; Some (cs, rest, ap') })
      in if c = CHR ''b'' then num 2 False False
         else if c = CHR ''d'' \<or> c = CHR ''D'' then num 10 True False
         else if c = CHR ''o'' \<or> c = CHR ''O'' then num 8 False False
         else if c = CHR ''u'' \<or> c = CHR ''U'' then num 10 False False
         else if c = CHR ''x'' then num 16 False False
         else if c = CHR ''X'' then num 16 False True
         else if c = CHR ''c''
         then (case ap of VaInt n # ap' \<Rightarrow> Some (print_char (char_of (nat (n mod 256))) width ladjust, rest, ap') | _ \<Rightarrow> None)
         else if c = CHR ''s''
         then (case ap of VaStr s # ap' \<Rightarrow> Some (print_str s width ladjust, rest, ap') | _ \<Rightarrow> None)
         else if c = CHR ''p''
         then (case rest of
                 d # rest' \<Rightarrow>
                   if d = CHR ''M''
                   then (case ap of VaMemRange a sz # ap' \<Rightarrow> Some (print_mem_range_style a sz width ladjust padc, rest', ap') | _ \<Rightarrow> None)
                   else if d = CHR ''B''
                   then (case ap of VaBytes n # ap' \<Rightarrow> do { cs \<leftarrow> print_bytes_style (unat n) 0; Some (cs, rest', ap') } | _ \<Rightarrow> None)
                   else if d = CHR ''T''
                   then (case ap of VaTime t # ap' \<Rightarrow> Some (print_time_style t, rest', ap') | _ \<Rightarrow> None)
                   else Some ([], rest, ap)
               | [] \<Rightarrow> Some ([], rest, ap))
         else Some ([[c]], rest, ap))"

lemma fmt_conv_rest: "fmt_conv c rest l p w lf ap = Some (cs, rest', ap') \<Longrightarrow> length rest' \<le> length rest"
  by (auto simp: fmt_conv_def Let_def split: if_splits list.splits va_item.splits bind_splits)

lemma fmt_lengths:
  "(l, p, f') = fmt_flags f \<Longrightarrow> length f' \<le> length f"
  "(w', f') = fmt_width w f \<Longrightarrow> length f' \<le> length f"
  "(b', f') = fmt_long b f \<Longrightarrow> length f' \<le> length f"
proof -
  show "(l, p, f') = fmt_flags f \<Longrightarrow> length f' \<le> length f" by (cases f) (auto split: if_splits)
  show "(w', f') = fmt_width w f \<Longrightarrow> length f' \<le> length f"
    by (induction w f rule: fmt_width.induct) (auto split: if_splits)
  show "(b', f') = fmt_long b f \<Longrightarrow> length f' \<le> length f"
    by (induction b f rule: fmt_long.induct) (auto split: if_splits)
qed

text \<open>
  The loop of \<open>vprintfmt\<close>. Behind a percent sign the text before it is handed out and then an empty text; a format
  that ends inside a conversion ends the output.
\<close>

function fmt_chunks :: "string \<Rightarrow> va_item list \<Rightarrow> string list option" where
  "fmt_chunks fmt ap =
     (let s = takeWhile (\<lambda>c. c \<noteq> CHR ''%'') fmt
      in case dropWhile (\<lambda>c. c \<noteq> CHR ''%'') fmt of
           [] \<Rightarrow> Some [s]
         | _ # f0 \<Rightarrow>
             (if f0 = [] then Some [s, []]
              else case fmt_flags f0 of (ladjust, padc, f1) \<Rightarrow>
                (case fmt_width 0 f1 of (width, f2) \<Rightarrow>
                  (case fmt_long False f2 of (long_flag, f3) \<Rightarrow>
                    (case f3 of
                       [] \<Rightarrow> Some [s, [], []]
                     | c # f4 \<Rightarrow>
                         (case fmt_conv c f4 ladjust padc width long_flag ap of
                            None \<Rightarrow> None
                          | Some (cs, f5, ap') \<Rightarrow> map_option (\<lambda>r. s # [] # cs @ r) (fmt_chunks f5 ap')))))))"
  by auto
termination
proof (relation "measure (\<lambda>(fmt, ap). length fmt)", goal_cases)
  case (2 fmt ap s p f0 b ladjust padc f1 width f2 long_flag f3 c f4 x cs y f5 ap')
  have "length f1 \<le> length f0" "length f2 \<le> length f1" "Suc (length f4) \<le> length f2" "length f5 \<le> length f4"
    using 2 by (auto dest!: fmt_lengths fmt_conv_rest)
  moreover have "Suc (length f0) \<le> length fmt" using length_dropWhile_le [of "\<lambda>c. c \<noteq> CHR ''%''" fmt] 2 by auto
  ultimately show ?case by simp
qed simp

declare fmt_chunks.simps [simp del]

definition vprintfmt :: "(string \<Rightarrow> 's \<Rightarrow> 's) \<Rightarrow> string \<Rightarrow> va_item list \<Rightarrow> 's \<Rightarrow> 's option" where
  "vprintfmt out fmt ap st = map_option (\<lambda>cs. fold out cs st) (fmt_chunks fmt ap)"

section \<open>Into memory\<close>

text \<open>\<open>_sprintf_output\<close>, with \<open>memcpy\<close> by its effect. The result is the memory and the returned length.\<close>

fun sprintf_output :: "string \<Rightarrow> mem \<times> u64 \<Rightarrow> mem \<times> u64" where
  "sprintf_output buf (m, ptr) = (mem_write m ptr (map of_char buf), ptr + of_nat (length buf))"

definition sprintf :: "mem \<Rightarrow> u64 \<Rightarrow> string \<Rightarrow> va_item list \<Rightarrow> (mem \<times> u32) option" where
  "sprintf m buf fmt ap = do { (m', ptr) \<leftarrow> vprintfmt sprintf_output fmt ap (m, buf); Some (m'(ptr := 0), ucast (ptr - buf)) }"

section \<open>Into a buffer of the user program\<close>

definition PRINTU_BUF_SIZE :: nat where "PRINTU_BUF_SIZE = 512"

text \<open>\<open>pu_calls\<close>: the texts handed to \<open>sys_cons_write_buf\<close> so far.\<close>

record printu_ctx =
  pu_buf :: string
  pu_len :: nat
  pu_calls :: "string list"

definition printu_flush :: "printu_ctx \<Rightarrow> printu_ctx" where
  "printu_flush ctx =
     (if pu_len ctx = 0 then ctx else ctx\<lparr>pu_calls := pu_calls ctx @ [take (pu_len ctx) (pu_buf ctx)], pu_len := 0\<rparr>)"

function printu_output :: "string \<Rightarrow> printu_ctx \<Rightarrow> printu_ctx" where
  "printu_output buf ctx =
     (if pu_len ctx + length buf > PRINTU_BUF_SIZE
      then let n = PRINTU_BUF_SIZE - pu_len ctx
           in printu_output (drop n buf)
                (printu_flush (ctx\<lparr>pu_buf := put_at (pu_buf ctx) (pu_len ctx) (take n buf), pu_len := PRINTU_BUF_SIZE\<rparr>))
      else ctx\<lparr>pu_buf := put_at (pu_buf ctx) (pu_len ctx) buf, pu_len := pu_len ctx + length buf\<rparr>)"
  by auto
termination
  by (relation "measure (\<lambda>(buf, ctx). 2 * length buf + (if pu_len ctx = 0 then 0 else 1))")
    (auto simp: printu_flush_def PRINTU_BUF_SIZE_def)

declare printu_output.simps [simp del]

text \<open>The buffer starts with arbitrary contents.\<close>

definition vprintu :: "string \<Rightarrow> string \<Rightarrow> va_item list \<Rightarrow> string list option" where
  "vprintu buf0 fmt ap =
     map_option (\<lambda>ctx. pu_calls (printu_flush ctx)) (vprintfmt printu_output fmt ap \<lparr>pu_buf = buf0, pu_len = 0, pu_calls = []\<rparr>)"

text \<open>
  \<open>infou\<close>: the time, the identifiers of the caller (the index only when \<open>GET_MY_INDEX\<close> succeeds) and the position in
  the source, then the message. \<open>fatalu\<close> and \<open>haltu\<close> differ in one word of the prefix and end with \<open>sys_halt\<close>.
\<close>

definition log_prefix :: "string \<Rightarrow> int \<Rightarrow> int \<Rightarrow> int \<Rightarrow> int option \<Rightarrow> string \<Rightarrow> int \<Rightarrow> string \<Rightarrow> string \<times> va_item list" where
  "log_prefix verb part_id time my_id my_index file lineno func =
     (case my_index of
        Some i \<Rightarrow> (''[ %pT part#%lu proc#%lu(%lu) ] '' @ verb @ ''%s:%lu <%s> '',
          [VaTime time, VaLong part_id, VaLong my_id, VaLong i, VaStr file, VaLong lineno, VaStr func])
      | None \<Rightarrow> (''[ %pT part#%lu proc#%lu ] '' @ verb @ ''%s:%lu <%s> '',
          [VaTime time, VaLong part_id, VaLong my_id, VaStr file, VaLong lineno, VaStr func]))"

definition log_u :: "string \<Rightarrow> string \<Rightarrow> int \<Rightarrow> int \<Rightarrow> int \<Rightarrow> int option \<Rightarrow> string \<Rightarrow> int \<Rightarrow> string \<Rightarrow> string \<Rightarrow> va_item list \<Rightarrow> string list option" where
  "log_u verb buf0 part_id time my_id my_index file lineno func fmt ap =
     do {
       a \<leftarrow> (case log_prefix verb part_id time my_id my_index file lineno func of (f, args) \<Rightarrow> vprintu buf0 f args);
       b \<leftarrow> vprintu buf0 fmt ap;
       Some (a @ b)
     }"

definition infou :: "string \<Rightarrow> int \<Rightarrow> int \<Rightarrow> int \<Rightarrow> int option \<Rightarrow> string \<Rightarrow> int \<Rightarrow> string \<Rightarrow> string \<Rightarrow> va_item list \<Rightarrow> string list option" where
  "infou = log_u []"

definition fatalu :: "string \<Rightarrow> int \<Rightarrow> int \<Rightarrow> int \<Rightarrow> int option \<Rightarrow> string \<Rightarrow> int \<Rightarrow> string \<Rightarrow> string \<Rightarrow> va_item list \<Rightarrow> string list option" where
  "fatalu = log_u ''fatal at ''"

definition haltu :: "string \<Rightarrow> int \<Rightarrow> int \<Rightarrow> int \<Rightarrow> int option \<Rightarrow> string \<Rightarrow> int \<Rightarrow> string \<Rightarrow> string \<Rightarrow> va_item list \<Rightarrow> string list option" where
  "haltu = log_u ''halt at ''"
section \<open>Numbers\<close>

lemma swap_loop_rev: "swap_loop (length xs) (length xs + length ys - 1) (xs @ ys @ zs) = xs @ rev ys @ zs"
proof (induction "length ys" arbitrary: xs ys zs rule: less_induct)
  case less
  consider "ys = []" | c where "ys = [c]" | c m d where "ys = c # m @ [d]"
    by (cases ys; metis append_butlast_last_id list.exhaust)
  then show ?case
  proof cases
    case 1
    then have "\<not> length xs + length ys - 1 > length xs" by simp
    then show ?thesis using 1 by (subst swap_loop.simps) (simp only: if_False append_Nil rev.simps)
  next
    case 2
    then show ?thesis by (subst swap_loop.simps) simp
  next
    case 3
    let ?buf = "xs @ c # (m @ d # zs)"
    have e: "xs @ ys @ zs = ?buf" by (simp add: 3)
    have "?buf ! (length xs + length ys - 1) = d" "?buf ! length xs = c"
      using 3 by (simp_all add: nth_append)
    moreover have "?buf[length xs := d, length xs + length ys - 1 := c] = (xs @ [d]) @ m @ (c # zs)"
      using 3 by (simp add: list_update_append)
    moreover have "swap_loop (length (xs @ [d])) (length (xs @ [d]) + length m - 1) ((xs @ [d]) @ m @ (c # zs)) = (xs @ [d]) @ rev m @ (c # zs)"
      using 3 by (intro less) simp
    ultimately show ?thesis unfolding e by (subst swap_loop.simps) (simp add: 3)
  qed
qed

lemma swap_loop_prefix: "length ys = Suc n \<Longrightarrow> swap_loop 0 n (ys @ zs) = rev ys @ zs"
  using swap_loop_rev [of "[]" ys zs] by simp

lemma num_digits_Cons: "num_digits base upcase u \<noteq> []"
  by (subst num_digits.simps) simp

text \<open>What \<open>print_num\<close> hands out: the digits with the most significant first, the sign, and padding on the side asked for.\<close>

lemma print_num_text:
  "print_num u base neg len ladjust padc upcase =
     (let ds = rev (num_digits base upcase u); sign = (if neg then ''-'' else []);
          pad = (\<lambda>c. replicate (len - length (sign @ ds)) c)
      in if ladjust then sign @ ds @ pad (CHR '' '')
         else if padc = CHR ''0'' then sign @ pad (CHR ''0'') @ ds else pad padc @ sign @ ds)"
proof -
  let ?ds = "num_digits base upcase u"
  define p where "p = ?ds @ (if neg then ''-'' else [])"
  define pads where "pads = max len (length p) - length p"
  have "length p \<noteq> 0" using num_digits_Cons by (simp add: p_def)
  then obtain n where n: "length p = Suc n" by (cases "length p") auto
  have len: "max len (length p) = length p + pads" by (simp add: pads_def)
  have rev_p: "rev p = (if neg then ''-'' else []) @ rev ?ds" by (simp add: p_def)
  have pads: "pads = len - length ((if neg then ''-'' else []) @ rev ?ds)" unfolding rev_p [symmetric] by (simp add: pads_def)
  have left: "swap_loop 0 (length p - 1) (p @ replicate pads c) = rev p @ replicate pads c" for c
    using swap_loop_prefix [OF n, of "replicate pads c"] n by simp
  have right: "swap_loop 0 (length p + pads - 1) (p @ replicate pads c) = replicate pads c @ rev p" for c
    using swap_loop_prefix [of "p @ replicate pads c" "n + pads" "[]"] n by simp
  have zero: "swap_loop 0 (length p + pads - 1) (take (length p - 1) p @ replicate pads c @ ''-'') = ''-'' @ replicate pads c @ rev ?ds" if neg for c
    using swap_loop_prefix [of "?ds @ replicate pads c @ ''-''" "n + pads" "[]"] n that by (simp add: p_def)
  show ?thesis
    unfolding print_num_def Let_def p_def [symmetric] len pads [symmetric] rev_p [symmetric]
    using left right zero pads by (auto simp: rev_p)
qed

lemma num_digits_dec: "rev (num_digits 10 False n) = dec n"
proof (induction n rule: dec.induct)
  case (1 n)
  show ?case
  proof (cases "n < 10")
    case True
    then show ?thesis by (subst num_digits.simps, subst dec.simps) (simp add: digit_char_def)
  next
    case False
    moreover from this have "n div 10 \<noteq> 0" by (simp add: div_eq_0_iff)
    moreover have "n mod 10 \<le> 9" using mod_less_divisor [of 10 n] by linarith
    ultimately show ?thesis using 1 by (subst num_digits.simps, subst dec.simps) (simp add: digit_char_def)
  qed
qed

section \<open>Sinks\<close>

text \<open>
  An output callback: \<open>holds st t\<close> says that its state \<open>st\<close> has taken the text \<open>t\<close>, \<open>fits t\<close> that this is not too much
  for it.
\<close>

locale fmt_sink =
  fixes out :: "string \<Rightarrow> 's \<Rightarrow> 's" and holds :: "'s \<Rightarrow> string \<Rightarrow> bool" and fits :: "string \<Rightarrow> bool"
  assumes out_holds: "holds st t \<Longrightarrow> fits (t @ s) \<Longrightarrow> holds (out s st) (t @ s)"
    and fits_prefix: "fits (t @ s) \<Longrightarrow> fits t"
begin

lemma fold_holds: "holds st t \<Longrightarrow> fits (t @ concat cs) \<Longrightarrow> holds (fold out cs st) (t @ concat cs)"
proof (induction cs arbitrary: st t)
  case (Cons c cs)
  then have "fits (t @ c)" using fits_prefix [of "t @ c" "concat cs"] by simp
  then show ?case using Cons.IH [OF out_holds [OF Cons.prems(1)]] Cons.prems(2) by simp
qed simp

lemma vprintfmt_holds:
  assumes "fmt_chunks fmt ap = Some cs" "holds st []" "fits (concat cs)"
  shows "\<exists>st'. vprintfmt out fmt ap st = Some st' \<and> holds st' (concat cs)"
  using fold_holds [OF assms(2), of cs] assms(1,3) by (simp add: vprintfmt_def)

end

definition mem_holds :: "mem \<Rightarrow> u64 \<Rightarrow> mem \<times> u64 \<Rightarrow> string \<Rightarrow> bool" where
  "mem_holds m buf st t \<longleftrightarrow> st = (mem_write m buf (map of_char t), buf + of_nat (length t))"

interpretation spf: fmt_sink sprintf_output "mem_holds m buf" "\<lambda>t. length t < 2 ^ 31" for m buf
proof
  fix st t s
  assume st: "mem_holds m buf st t" and len: "length (t @ s) < 2 ^ 31"
  have "mem_write (mem_write m buf (map of_char t)) (buf + of_nat (length (map of_char t :: u8 list))) (map of_char s)
    = mem_write m buf (map of_char t @ map of_char s)"
    using len by (intro mem_write_append) simp
  then show "mem_holds m buf (sprintf_output s st) (t @ s)" using st by (simp add: mem_holds_def add.assoc)
qed simp

lemma mem_holds_cstr:
  assumes "mem_holds m buf (m', ptr) t" "length t < 2 ^ 31" "NUL \<notin> set t"
  shows "cstr (m'(ptr := 0)) buf (map of_char t)"
proof -
  let ?bs = "map of_char t :: u8 list"
  have "m'(ptr := 0) = mem_write m' ptr [0]" by (auto simp: mem_write_def unat_eq_zero)
  also have "\<dots> = mem_write m buf (?bs @ [0])"
    using mem_write_append [of ?bs "[0]" m buf] assms by (simp add: mem_holds_def)
  finally have m: "m'(ptr := 0) = mem_write m buf (?bs @ [0])" .
  define f where "f = m'(ptr := 0)"
  have "mem_read f buf (length t + 1) = ?bs @ [0]"
    unfolding f_def m using assms(2) by (intro mem_read_write_same) simp_all
  moreover have "mem_read f a 1 = [f a]" for a by (simp add: mem_read_def)
  ultimately have "mem_read f buf (length t) @ [f (buf + of_nat (length t))] = ?bs @ [0]"
    using mem_read_append [of f buf "length t" 1] by simp
  then have "mem_read f buf (length t) = ?bs" "f (buf + of_nat (length t)) = 0" by simp_all
  moreover have "0 \<notin> set ?bs"
  proof
    assume "0 \<in> set ?bs"
    then obtain c where "c \<in> set t" "of_char c = (0 :: u8)" by auto
    moreover have "of_char NUL = (0 :: u8)" by (simp add: NUL_def)
    ultimately have "c = NUL" using of_char_u8_inject [of c NUL] by simp
    then show False using \<open>c \<in> set t\<close> assms(3) by simp
  qed
  ultimately show ?thesis using assms(2) unfolding f_def [symmetric] by (simp add: cstr_def)
qed

lemma sprintf_cstr:
  assumes "fmt_chunks fmt ap = Some cs" "length (concat cs) < 2 ^ 31" "NUL \<notin> set (concat cs)"
  shows "\<exists>m'. sprintf m buf fmt ap = Some (m', of_nat (length (concat cs))) \<and> cstr m' buf (map of_char (concat cs))"
proof -
  have "mem_holds m buf (m, buf) []" by (auto simp: mem_holds_def mem_write_def)
  then obtain m' ptr where v: "vprintfmt sprintf_output fmt ap (m, buf) = Some (m', ptr)" "mem_holds m buf (m', ptr) (concat cs)"
    using spf.vprintfmt_holds [OF assms(1) _ assms(2), of m buf "(m, buf)"] by auto
  have "ptr - buf = of_nat (length (concat cs))" using v(2) by (simp add: mem_holds_def)
  then have "ucast (ptr - buf) = (of_nat (length (concat cs)) :: u32)"
    using assms(2) by (simp only: unsigned_of_nat take_bit_nat_eq_self)  (simp add: take_bit_nat_eq_self)
  then show ?thesis using v mem_holds_cstr [OF v(2) assms(2,3)] by (simp add: sprintf_def)
qed

section \<open>Printed numbers are read back\<close>

lemma fmt_width_dec: "fmt_width 0 (dec w @ s) = fmt_width w s"
proof (induction w arbitrary: s rule: dec.induct)
  case (1 w)
  have step: "fmt_width k (char_of (48 + d) # s) = fmt_width (k * 10 + d) s" if "d < 10" for k d s using that by simp
  show ?case
  proof (cases "w < 10")
    case True
    then show ?thesis using step [of w 0 s] by (subst dec.simps) simp
  next
    case False
    then show ?thesis using 1 [of "char_of (48 + w mod 10) # s"] step [of "w mod 10" "w div 10" s] by (subst dec.simps) simp
  qed
qed

lemma fmt_chunks_Nil [simp]: "fmt_chunks [] ap = Some [[]]"
  by (subst fmt_chunks.simps) simp

lemma unat_word_of_int: "0 \<le> k \<Longrightarrow> k < 2 ^ 64 \<Longrightarrow> unat (word_of_int k :: u64) = nat k"
  by (simp add: unsigned_word_eqI unat_eq_nat_uint uint_word_of_int)

lemma fmt_chunks_0d:
  assumes "- (2 ^ 31) \<le> n" "n < 2 ^ 31"
  shows "fmt_chunks (''%0'' @ dec w @ ''d'') [VaInt n] = Some [[], [], print_num (nat \<bar>n\<bar>) 10 (n < 0) w False (CHR ''0'') False, []]"
proof -
  have "unat (word_of_int (if n < 0 then swrap64 (- n) else n) :: u64) = nat \<bar>n\<bar>"
    using assms unat_word_of_int [of "- n"] unat_word_of_int [of n] by simp
  then show ?thesis by (subst fmt_chunks.simps) (simp add: fmt_width_dec fmt_conv_def conv_num_def Let_def)
qed

lemma zero_digits: "strtol_digits_of (replicate k (CHR ''0'') @ s) 0 = strtol_digits_of s 0"
  by (induction k) simp_all

text \<open>The text of \<open>%0wd\<close>.\<close>

definition zero_padded :: "nat \<Rightarrow> int \<Rightarrow> string" where
  "zero_padded k n = (if n < 0 then ''-'' else []) @ replicate k (CHR ''0'') @ dec (nat \<bar>n\<bar>)"

lemma zero_padded_digit: "c \<in> set (replicate k (CHR ''0'') @ dec m) \<Longrightarrow> c \<noteq> CHR ''-'' \<and> c \<noteq> CHR ''+'' \<and> c \<noteq> NUL"
proof -
  assume "c \<in> set (replicate k (CHR ''0'') @ dec m)"
  moreover have "char_of (48 + 0 :: nat) = CHR ''0''" by code_simp
  ultimately obtain d where d: "d < 10" "c = char_of (48 + d :: nat)"
    using dec_chars [of c m] by (metis UnE in_set_replicate set_append zero_less_numeral)
  then have "of_char c = 48 + d" by simp
  then show ?thesis by (auto simp: NUL_def)
qed

lemma atoi_zero_padded:
  assumes "- (2 ^ 31) \<le> n" "n < 2 ^ 31"
  shows "atoi_of (zero_padded k n) = n"
proof -
  let ?t = "replicate k (CHR ''0'') @ dec (nat \<bar>n\<bar>)"
  have "?t \<noteq> []" by (subst dec.simps) simp
  then obtain c cs where t: "?t = c # cs" by (cases ?t) auto
  have sg: "strtol_sign_of ?t s = (?t, s)" for s using zero_padded_digit [of c k "nat \<bar>n\<bar>"] by (simp add: t)
  then have "strtol_sign_of (zero_padded k n) 1 = (?t, if n < 0 then - 1 else 1)"
    using sg [of 1] sg [of "- 1"] by (cases "n < 0") (simp_all add: zero_padded_def)
  moreover have "strtol_digits_of ?t 0 = \<bar>n\<bar>" using digits_dec [of "nat \<bar>n\<bar>"] assms by (simp add: zero_digits)
  moreover have "sint (word_of_int n :: u32) = n" using assms int_word_sint [where x = n and 'a = 32] by simp
  ultimately show ?thesis using assms by (simp add: atoi_of_def)
qed

lemma dec_length: "n < 10 ^ k \<Longrightarrow> 0 < k \<Longrightarrow> length (dec n) \<le> k"
proof (induction n arbitrary: k rule: dec.induct)
  case (1 n)
  show ?case
  proof (cases "n < 10")
    case False
    then obtain j where "k = Suc j" "0 < j" using 1(2,3) by (cases k; cases "k - 1") auto
    moreover have "length (dec (n div 10)) \<le> j" using 1 False calculation by (intro 1(1)) auto
    ultimately show ?thesis using False by (subst dec.simps) simp
  qed (use 1(3) in \<open>subst dec.simps, simp\<close>)
qed

section \<open>The buffered output\<close>

definition printu_holds :: "printu_ctx \<Rightarrow> string \<Rightarrow> bool" where
  "printu_holds ctx t \<longleftrightarrow> length (pu_buf ctx) = PRINTU_BUF_SIZE \<and> pu_len ctx \<le> PRINTU_BUF_SIZE
     \<and> concat (pu_calls ctx) @ take (pu_len ctx) (pu_buf ctx) = t \<and> (\<forall>c \<in> set (pu_calls ctx). length c = PRINTU_BUF_SIZE)"

lemma printu_output_holds: "printu_holds ctx t \<Longrightarrow> printu_holds (printu_output s ctx) (t @ s)"
proof (induction s ctx arbitrary: t rule: printu_output.induct)
  case (1 s ctx)
  define n where "n = PRINTU_BUF_SIZE - pu_len ctx"
  define ctx1 where "ctx1 = printu_flush (ctx\<lparr>pu_buf := put_at (pu_buf ctx) (pu_len ctx) (take n s), pu_len := PRINTU_BUF_SIZE\<rparr>)"
  show ?case
  proof (cases "pu_len ctx + length s > PRINTU_BUF_SIZE")
    case True
    then have "length (take n s) = n" by (simp add: n_def)
    then have "printu_holds ctx1 (t @ take n s)"
      using 1(2) by (auto simp: ctx1_def printu_holds_def printu_flush_def put_at_def n_def PRINTU_BUF_SIZE_def)
    then have "printu_holds (printu_output (drop n s) ctx1) ((t @ take n s) @ drop n s)"
      unfolding n_def ctx1_def by (rule 1(1) [OF True refl])
    then show ?thesis using True by (subst printu_output.simps) (simp add: Let_def n_def ctx1_def)
  next
    case False
    then show ?thesis using 1(2) by (subst printu_output.simps) (auto simp: printu_holds_def put_at_def)
  qed
qed

interpretation puf: fmt_sink printu_output printu_holds "\<lambda>_. True"
  by standard (simp_all add: printu_output_holds)

section \<open>Sizes and unsigned numbers\<close>

text \<open>A size has a text exactly below \<open>2^50\<close> or when its higher parts have no remainder: the table of units ends at TiB.\<close>

lemma print_bytes_total: "shift \<le> 5 \<Longrightarrow> sz < 2 ^ (10 * (5 - shift)) \<Longrightarrow> \<exists>cs. print_bytes_style sz shift = Some cs"
proof (induction sz shift rule: print_bytes_style.induct)
  case (1 sz shift)
  have IH: "\<exists>cs. print_bytes_style (sz div 1024) (shift + 1) = Some cs" if "sz div 1024 \<noteq> 0"
  proof -
    have "shift \<noteq> 5" using 1(3) that by (cases "shift = 5") auto
    then obtain d where d: "5 - shift = Suc d" "5 - (shift + 1) = d" using 1(2) by (cases "5 - shift") auto
    then have "sz < 1024 * 2 ^ (10 * d)" using 1(3) by (simp add: power_add)
    then have "sz div 1024 < 2 ^ (10 * (5 - (shift + 1)))" using d(2) by (simp add: less_mult_imp_div_less mult.commute)
    moreover have "shift + 1 \<le> 5" using \<open>shift \<noteq> 5\<close> 1(2) by simp
    moreover have "\<not> (sz = 0 \<and> shift = 0)" using that by auto
    ultimately show ?thesis using 1(1) that by simp
  qed
  have "shift < length byte_units \<or> sz mod 1024 = 0" using 1(2,3) by (cases "shift = 5") (auto simp: byte_units_def)
  then show ?case using IH by (subst print_bytes_style.simps) (auto simp: Let_def)
qed

lemma print_bytes_shift: "k \<noteq> 0 \<Longrightarrow> print_bytes_style (1024 * k) shift = print_bytes_style k (shift + 1)"
  by (subst print_bytes_style.simps) (simp add: Let_def)

lemma print_bytes_pib: "print_bytes_style (2 ^ 50) 0 = None"
proof -
  have "print_bytes_style 1 5 = None" by (subst print_bytes_style.simps) (simp add: byte_units_def)
  then show ?thesis
    using print_bytes_shift [of "2 ^ 40" 0] print_bytes_shift [of "2 ^ 30" 1] print_bytes_shift [of "2 ^ 20" 2]
      print_bytes_shift [of "2 ^ 10" 3] print_bytes_shift [of 1 4] by (simp flip: numeral_2_eq_2)
qed

text \<open>\<^verbatim>\<open>%x\<close> and \<^verbatim>\<open>%u\<close> read an \<^verbatim>\<open>int\<close> and extend its sign.\<close>

lemma hex_sign_extended: "fmt_chunks ''%x'' [VaInt (- 1)] = Some [[], [], ''ffffffffffffffff'', []]"
proof -
  have "unat (word_of_int (- 1) :: u64) = 18446744073709551615" by (simp add: unsigned_minus_1_eq_mask mask_eq_exp_minus_1)
  then show ?thesis
    by (subst fmt_chunks.simps) (simp add: fmt_conv_def conv_num_def Let_def print_num_text num_digits.simps digit_char_def char_of_def bit_0)
qed

section \<open>Properties\<close>

text \<open>
  C23 (roundtrip). A number printed by \<open>sprintf\<close> with \<^verbatim>\<open>%0wd\<close>, for any width \<open>w\<close>, is read back by \<open>atoi\<close>: every value of a C
  \<^verbatim>\<open>int\<close>, the least one included.
\<close>

theorem sprintf_atoi:
  assumes "- (2 ^ 31) \<le> n" "n < 2 ^ 31" "w < 2 ^ 31" "max w 11 < fuel"
  shows "\<exists>m' l. sprintf m buf (''%0'' @ dec w @ ''d'') [VaInt n] = Some (m', l) \<and> atoi fuel m' buf = Some n"
proof -
  define k where "k = w - length ((if n < 0 then ''-'' else []) @ dec (nat \<bar>n\<bar>))"
  have p: "print_num (nat \<bar>n\<bar>) 10 (n < 0) w False (CHR ''0'') False = zero_padded k n"
    by (simp add: print_num_text Let_def num_digits_dec zero_padded_def k_def del: replicate.simps)
  have "nat \<bar>n\<bar> < 10 ^ 10" using assms(1,2) by simp
  then have "length (dec (nat \<bar>n\<bar>)) \<le> 10" using dec_length [of "nat \<bar>n\<bar>" 10] by simp
  then have len: "length (zero_padded k n) \<le> max w 11"
    by (cases "n < 0") (auto simp: zero_padded_def k_def max_def)
  then have lt: "length (zero_padded k n) < 2 ^ 31" using assms(3) by simp
  have "NUL \<notin> set (zero_padded k n)" using zero_padded_digit [of NUL k "nat \<bar>n\<bar>"] by (auto simp: zero_padded_def NUL_def)
  then obtain m' where m: "sprintf m buf (''%0'' @ dec w @ ''d'') [VaInt n] = Some (m', of_nat (length (zero_padded k n)))"
    "cstr m' buf (map of_char (zero_padded k n))"
    using sprintf_cstr [OF fmt_chunks_0d [OF assms(1,2), of w], of m buf] lt by (auto simp: p)
  have "length (zero_padded k n) < fuel" using len assms(4) by (rule le_less_trans)
  then have "atoi fuel m' buf = Some n" using atoi_cstr [OF m(2)] atoi_zero_padded [OF assms(1,2)] by simp
  then show ?thesis using m(1) by blast
qed

theorem sprintf_atoi_witness:
  "\<exists>m' l. sprintf (\<lambda>_. 0) 0x1000 ''%04d'' [VaInt (- 2147483648)] = Some (m', l) \<and> atoi 12 m' 0x1000 = Some (- 2147483648)"
proof -
  have "dec 4 = ''4''" by code_simp
  then show ?thesis using sprintf_atoi [where n = "- 2147483648" and w = 4 and fuel = 12 and m = "\<lambda>_. 0" and buf = "0x1000"] by simp
qed

text \<open>
  Output of a user program: the texts handed to \<open>sys_cons_write_buf\<close> are the formatted text cut into
  pieces, in order and with nothing lost; none is empty, and all but the last fill the buffer of 512 characters.
\<close>

theorem printu_writes_all:
  assumes "fmt_chunks fmt ap = Some cs" "length buf0 = PRINTU_BUF_SIZE"
  shows "\<exists>calls. vprintu buf0 fmt ap = Some calls \<and> concat calls = concat cs
    \<and> (\<forall>c \<in> set calls. c \<noteq> [] \<and> length c \<le> PRINTU_BUF_SIZE) \<and> (\<forall>c \<in> set (butlast calls). length c = PRINTU_BUF_SIZE)"
proof -
  let ?ctx0 = "\<lparr>pu_buf = buf0, pu_len = 0, pu_calls = []\<rparr>"
  have "printu_holds ?ctx0 []" using assms(2) by (simp add: printu_holds_def)
  then obtain ctx where v: "vprintfmt printu_output fmt ap ?ctx0 = Some ctx" "printu_holds ctx (concat cs)"
    using puf.vprintfmt_holds [OF assms(1)] by auto
  have full: "\<forall>c \<in> set (pu_calls ctx). length c = PRINTU_BUF_SIZE \<and> c \<noteq> []"
    using v(2) by (auto simp: printu_holds_def PRINTU_BUF_SIZE_def)
  show ?thesis
  proof (cases "pu_len ctx = 0")
    case True
    then show ?thesis using v full by (auto simp: vprintu_def printu_flush_def printu_holds_def dest: in_set_butlastD)
  next
    case False
    then show ?thesis using v full by (auto simp: vprintu_def printu_flush_def printu_holds_def PRINTU_BUF_SIZE_def)
  qed
qed

theorem printu_writes_all_witness:
  "\<exists>calls. vprintu (replicate 512 (CHR ''x'')) ''%-600d|'' [VaInt 7] = Some calls \<and> length (concat calls) = 601 \<and> length (hd calls) = 512"
proof -
  have "fmt_chunks ''%-600d|'' [VaInt 7] = Some [[], [], print_num 7 10 False 600 True (CHR '' '') False, ''|'']"
    by (subst fmt_chunks.simps, simp add: fmt_conv_def conv_num_def Let_def, subst fmt_chunks.simps, simp)
  moreover have "length (print_num 7 10 False 600 True (CHR '' '') False) = 600" by (simp add: print_num_text Let_def num_digits_dec dec.simps)
  ultimately obtain calls where c: "vprintu (replicate 512 (CHR ''x'')) ''%-600d|'' [VaInt 7] = Some calls" "length (concat calls) = 601"
    "\<forall>c \<in> set calls. length c \<le> 512" "\<forall>c \<in> set (butlast calls). length c = 512"
    using printu_writes_all [of "''%-600d|''" "[VaInt 7]" _ "replicate 512 (CHR ''x'')"] by (auto simp: PRINTU_BUF_SIZE_def)
  then obtain a b cs where "calls = a # b # cs" by (cases calls rule: remdups_adj.cases) auto
  then show ?thesis using c by auto
qed

end
