(* ===== verification/Traps.thy ===== *)
theory Traps
  imports Kernel_State "HOL-Library.Multiset"
begin

text \<open>
  The trap contexts of \<^verbatim>\<open>kern/traps/traps.c\<close>: a fixed pool of \<open>NCTX_MAX\<close> contexts, one of which is
  the hart's own (\<open>cpus_context\<close>, where the next trap saves its registers), while the others are
  free or stacked on the process they belong to. Entering a trap stacks the hart's context on the
  running process and takes a fresh one; leaving it does the reverse.
\<close>

section \<open>The code\<close>

definition NCTX_MAX :: nat where "NCTX_MAX = 512"

definition ctx_alloc :: "kst \<Rightarrow> kst \<times> nat result" where
  "ctx_alloc s =
     (case k_ctx_free_list s of
        [] \<Rightarrow> (s, ERR KER_CTX_ER)
      | c # cs \<Rightarrow> (s\<lparr>k_ctx_free_list := cs\<rparr>, OK c))"

definition ctx_free :: "nat \<Rightarrow> kst \<Rightarrow> kst" where
  "ctx_free c s = s\<lparr>k_ctx_free_list := c # k_ctx_free_list s\<rparr>"

definition zero_context :: trap_context where
  "zero_context = \<lparr>ctx_regs = replicate 32 0, ctx_sstatus = 0, ctx_scause = 0, ctx_sie = 0, ctx_stval = 0, ctx_sepc = 0,
     ctx_hartid = 0\<rparr>"

definition upd_ctx :: "nat \<Rightarrow> (trap_context \<Rightarrow> trap_context) \<Rightarrow> kst \<Rightarrow> kst" where
  "upd_ctx c f s = s\<lparr>k_contexts := (k_contexts s)[c := f (k_contexts s ! c)]\<rparr>"

text \<open>
  \<open>traps_init\<close>: all contexts go on the free list, then every hart gets one. The contexts of the other
  harts, which never leave the kernel's suspend loop, are the second component of the result.
\<close>

fun traps_init_cpus :: "nat \<Rightarrow> nat \<Rightarrow> kst \<Rightarrow> (kst \<times> nat list) result" where
  "traps_init_cpus i 0 s = OK (s, [])"
| "traps_init_cpus i (Suc n) s =
     (case ctx_alloc s of
        (s1, OK c) \<Rightarrow>
          (case traps_init_cpus (Suc i) n (upd_ctx c (\<lambda>_. zero_context\<lparr>ctx_hartid := of_nat i\<rparr>) s1) of
             OK (s2, cs) \<Rightarrow> OK (s2, c # cs)
           | e \<Rightarrow> e)
      | (s1, _) \<Rightarrow> PANIC)"

definition traps_init :: "nat \<Rightarrow> kst \<Rightarrow> (kst \<times> nat list) result" where
  "traps_init ncpu s =
     (case traps_init_cpus 0 ncpu (s\<lparr>k_ctx_free_list := rev [0..<NCTX_MAX]\<rparr>) of
        OK (s1, cs) \<Rightarrow> OK (s1\<lparr>k_cpu_context := cs ! unat SYSCORE\<rparr>, cs)
      | e \<Rightarrow> e)"

definition prepare_nested_trap :: "kst \<Rightarrow> kst result" where
  "prepare_nested_trap s =
     (let s1 = upd_proc (sched_cur_proc s) (\<lambda>p. p\<lparr>pr_ctx_list := k_cpu_context s # pr_ctx_list p\<rparr>) s
      in case ctx_alloc s1 of
           (s2, OK c) \<Rightarrow> OK (upd_ctx c (\<lambda>x. x\<lparr>ctx_hartid := SYSCORE\<rparr>) (s2\<lparr>k_cpu_context := c\<rparr>))
         | (s2, _) \<Rightarrow> PANIC)"

text \<open>The common end of \<open>handle_exception\<close>, \<open>handle_int_timer\<close> and \<open>handle_int_external\<close>.\<close>

definition leave_trap :: "nat \<Rightarrow> kst \<Rightarrow> kst" where
  "leave_trap c s =
     (let s1 = ctx_free (k_cpu_context s) s;
          s2 = upd_proc (sched_cur_proc s1) (\<lambda>p. p\<lparr>pr_ctx_list := remove1 c (pr_ctx_list p)\<rparr>) s1
      in s2\<lparr>k_cpu_context := c\<rparr>)"

text \<open>Registers of a context by their names.\<close>

definition reg_a :: "trap_context \<Rightarrow> nat \<Rightarrow> u64" where
  "reg_a c i = ctx_regs c ! (10 + i)"

definition set_reg_a :: "nat \<Rightarrow> u64 \<Rightarrow> trap_context \<Rightarrow> trap_context" where
  "set_reg_a i v c = c\<lparr>ctx_regs := (ctx_regs c)[10 + i := v]\<rparr>"

section \<open>Conservation of contexts\<close>

definition ctx_pool :: "kst \<Rightarrow> nat multiset" where
  "ctx_pool s = mset (k_ctx_free_list s) + {#k_cpu_context s#} + mset (concat (map pr_ctx_list (k_procs s)))"

lemma concat_map_update:
  "p < length ps \<Longrightarrow> mset (concat (map f (ps[p := q]))) + mset (f (ps ! p)) = mset (concat (map f ps)) + mset (f q)"
proof (induction ps arbitrary: p)
  case (Cons x xs)
  then show ?case by (cases p) (auto simp: ac_simps)
qed simp

lemma ctx_lists_upd_proc:
  assumes "p < length (k_procs s)"
  shows "mset (concat (map pr_ctx_list (k_procs (upd_proc p f s)))) + mset (pr_ctx_list (k_procs s ! p))
    = mset (concat (map pr_ctx_list (k_procs s))) + mset (pr_ctx_list (f (k_procs s ! p)))"
  using concat_map_update [OF assms] by (simp add: upd_proc_def)

lemma ctx_pool_upd_proc:
  assumes "p < length (k_procs s)" "mset (pr_ctx_list (f (k_procs s ! p))) = mset (pr_ctx_list (k_procs s ! p))"
  shows "ctx_pool (upd_proc p f s) = ctx_pool s"
  using ctx_lists_upd_proc [OF assms(1), of f] assms(2) by (simp add: ctx_pool_def)

lemma ctx_pool_push:
  assumes "p < length (k_procs s)"
  shows "ctx_pool (upd_proc p (\<lambda>q. q\<lparr>pr_ctx_list := c # pr_ctx_list q\<rparr>) s) = ctx_pool s + {#c#}"
  using ctx_lists_upd_proc [OF assms, of "\<lambda>q. q\<lparr>pr_ctx_list := c # pr_ctx_list q\<rparr>"] by (simp add: ctx_pool_def)

lemma ctx_pool_remove:
  assumes "p < length (k_procs s)" "c \<in> set (pr_ctx_list (k_procs s ! p))"
  shows "ctx_pool (upd_proc p (\<lambda>q. q\<lparr>pr_ctx_list := remove1 c (pr_ctx_list q)\<rparr>) s) + {#c#} = ctx_pool s"
proof -
  define M where "M = mset (remove1 c (pr_ctx_list (k_procs s ! p)))"
  have "mset (pr_ctx_list (k_procs s ! p)) = add_mset c M" using assms(2) by (simp add: M_def)
  moreover have "mset (pr_ctx_list ((\<lambda>q. q\<lparr>pr_ctx_list := remove1 c (pr_ctx_list q)\<rparr>) (k_procs s ! p))) = M" by (simp add: M_def)
  ultimately show ?thesis
    using ctx_lists_upd_proc [OF assms(1), of "\<lambda>q. q\<lparr>pr_ctx_list := remove1 c (pr_ctx_list q)\<rparr>"]
    by (simp only: ctx_pool_def upd_fields) simp
qed

lemma ctx_pool_fields [simp]:
  "ctx_pool (upd_ctx c f s) = ctx_pool s" "k_procs (upd_ctx c f s) = k_procs s" "k_cur_proc (upd_ctx c f s) = k_cur_proc s"
  "k_cpu_context (upd_ctx c f s) = k_cpu_context s" "k_ctx_free_list (upd_ctx c f s) = k_ctx_free_list s"
  "k_cur_part (upd_ctx c f s) = k_cur_part s" "k_parts (upd_ctx c f s) = k_parts s"
  by (simp_all add: upd_ctx_def ctx_pool_def)

lemma ctx_alloc_cases:
  "ctx_alloc s = (s', r) \<Longrightarrow>
    (r = ERR KER_CTX_ER \<and> s' = s \<and> k_ctx_free_list s = [])
    \<or> (\<exists>c. r = OK c \<and> k_ctx_free_list s = c # k_ctx_free_list s' \<and> s' = s\<lparr>k_ctx_free_list := k_ctx_free_list s'\<rparr>)"
  by (cases "k_ctx_free_list s") (auto simp: ctx_alloc_def)

lemma prepare_nested_trap_spec:
  assumes p: "sched_cur_proc s < length (k_procs s)" and r: "prepare_nested_trap s = OK s'"
  shows "ctx_pool s' = ctx_pool s" "k_cur_proc s' = k_cur_proc s" "length (k_procs s') = length (k_procs s)"
    "hd (pr_ctx_list (k_procs s' ! sched_cur_proc s)) = k_cpu_context s"
    "pr_ctx_list (k_procs s' ! sched_cur_proc s) = k_cpu_context s # pr_ctx_list (k_procs s ! sched_cur_proc s)"
proof -
  let ?p = "sched_cur_proc s"
  define s1 where "s1 = upd_proc ?p (\<lambda>q. q\<lparr>pr_ctx_list := k_cpu_context s # pr_ctx_list q\<rparr>) s"
  obtain s2 r2 where a: "ctx_alloc s1 = (s2, r2)" by fastforce
  with r obtain c where c: "r2 = OK c" "s' = upd_ctx c (\<lambda>x. x\<lparr>ctx_hartid := SYSCORE\<rparr>) (s2\<lparr>k_cpu_context := c\<rparr>)"
    unfolding prepare_nested_trap_def Let_def s1_def by (cases r2) auto
  from ctx_alloc_cases [OF a] c(1) have s2: "k_ctx_free_list s1 = c # k_ctx_free_list s2" "s2 = s1\<lparr>k_ctx_free_list := k_ctx_free_list s2\<rparr>"
    by auto
  have procs: "k_procs s2 = k_procs s1" "k_cpu_context s2 = k_cpu_context s1" "k_cur_proc s2 = k_cur_proc s1"
    using s2(2) by (metis kst.select_convs kst.surjective kst.update_convs(19))+
  have "ctx_pool s1 = ctx_pool s + {#k_cpu_context s#}" using ctx_pool_push [OF p] by (simp add: s1_def)
  then show "ctx_pool s' = ctx_pool s"
    using s2(1) procs by (simp add: c(2) ctx_pool_def s1_def)
  show "k_cur_proc s' = k_cur_proc s" "length (k_procs s') = length (k_procs s)" using procs by (simp_all add: c(2) s1_def)
  show "hd (pr_ctx_list (k_procs s' ! ?p)) = k_cpu_context s"
    "pr_ctx_list (k_procs s' ! ?p) = k_cpu_context s # pr_ctx_list (k_procs s ! ?p)"
    using procs p by (simp_all add: c(2) s1_def)
qed

lemma leave_trap_pool:
  assumes "sched_cur_proc s < length (k_procs s)" "c \<in> set (pr_ctx_list (k_procs s ! sched_cur_proc s))"
  shows "ctx_pool (leave_trap c s) = ctx_pool s"
proof -
  define s1 where "s1 = ctx_free (k_cpu_context s) s"
  have p: "sched_cur_proc s1 = sched_cur_proc s" "k_procs s1 = k_procs s" by (simp_all add: s1_def ctx_free_def sched_cur_proc_def)
  define s2 where "s2 = upd_proc (sched_cur_proc s1) (\<lambda>p. p\<lparr>pr_ctx_list := remove1 c (pr_ctx_list p)\<rparr>) s1"
  have "ctx_pool s2 + {#c#} = ctx_pool s1" unfolding s2_def using ctx_pool_remove [of "sched_cur_proc s1" s1 c] assms p by simp
  moreover have "ctx_pool s1 = ctx_pool s + {#k_cpu_context s#}" by (simp add: s1_def ctx_free_def ctx_pool_def)
  moreover have "ctx_pool (leave_trap c s) + {#k_cpu_context s#} = ctx_pool s2 + {#c#}"
    by (simp add: leave_trap_def Let_def s2_def s1_def ctx_pool_def ctx_free_def)
  ultimately show ?thesis by simp
qed

end
