(* ===== verification/Multitask.thy ===== *)
theory Multitask
  imports Traps
begin

text \<open>
  Partitions and processes: \<^verbatim>\<open>kern/multitask/partition.c\<close> (tables, address-space allocation,
  \<open>part_alloc\<close>) and \<^verbatim>\<open>kern/multitask/process.c\<close>. \<open>part_load_prog\<close> and \<open>part_create\<close> are in
  \<open>Loader\<close>.
\<close>

section \<open>Tables\<close>

definition proc_id_key_of :: "kst \<Rightarrow> nat \<Rightarrow> u64" where
  "proc_id_key_of s p = pr_id (k_procs s ! p)"

definition proc_from_id :: "kst \<Rightarrow> u64 \<Rightarrow> nat option" where
  "proc_from_id s i = hashmap_get hash_code_uint64 hash_eq_uint64 (proc_id_key_of s) (proc_id_map s) i"

definition part_id_key_of :: "kst \<Rightarrow> nat \<Rightarrow> u64" where
  "part_id_key_of s p = pa_id (k_parts s ! p)"

definition part_from_id :: "kst \<Rightarrow> u64 \<Rightarrow> nat option" where
  "part_from_id s i = hashmap_get hash_code_uint64 hash_eq_uint64 (part_id_key_of s) (part_id_map s) i"

definition part_name_key_of :: "kst \<Rightarrow> nat \<Rightarrow> string" where
  "part_name_key_of s p = pa_name (k_parts s ! p)"

definition part_from_name :: "kst \<Rightarrow> string \<Rightarrow> nat option" where
  "part_from_name s n = hashmap_get hash_code_str hash_eq_str (part_name_key_of s) (part_name_map s) n"

definition part_proc_name_key_of :: "kst \<Rightarrow> nat \<Rightarrow> string" where
  "part_proc_name_key_of s p = pr_name (k_procs s ! p)"

definition part_add_proc_name :: "nat \<Rightarrow> nat \<Rightarrow> kst \<Rightarrow> kst" where
  "part_add_proc_name pa p s = upd_part pa (\<lambda>x. x\<lparr>pa_proc_name_map :=
     hashmap_put hash_code_str hash_eq_str (part_proc_name_key_of s) (pa_proc_name_map x) p\<rparr>) s"

definition part_get_proc_by_name :: "kst \<Rightarrow> nat \<Rightarrow> string \<Rightarrow> nat option" where
  "part_get_proc_by_name s pa n =
     hashmap_get hash_code_str hash_eq_str (part_proc_name_key_of s) (pa_proc_name_map (k_parts s ! pa)) n"

definition part_buf_name_key_of :: "kst \<Rightarrow> nat \<Rightarrow> string" where
  "part_buf_name_key_of s b = buf_name (k_bufs s ! b)"

definition part_add_buf_name :: "nat \<Rightarrow> nat \<Rightarrow> kst \<Rightarrow> kst" where
  "part_add_buf_name pa b s = upd_part pa (\<lambda>x. x\<lparr>pa_buf_name_map :=
     hashmap_put hash_code_str hash_eq_str (part_buf_name_key_of s) (pa_buf_name_map x) b\<rparr>) s"

definition part_get_buf_by_name :: "kst \<Rightarrow> nat \<Rightarrow> string \<Rightarrow> nat option" where
  "part_get_buf_by_name s pa n =
     hashmap_get hash_code_str hash_eq_str (part_buf_name_key_of s) (pa_buf_name_map (k_parts s ! pa)) n"

definition part_bb_name_key_of :: "kst \<Rightarrow> nat \<Rightarrow> string" where
  "part_bb_name_key_of s b = bb_name (k_bbs s ! b)"

definition part_add_bb_name :: "nat \<Rightarrow> nat \<Rightarrow> kst \<Rightarrow> kst" where
  "part_add_bb_name pa b s = upd_part pa (\<lambda>x. x\<lparr>pa_bb_name_map :=
     hashmap_put hash_code_str hash_eq_str (part_bb_name_key_of s) (pa_bb_name_map x) b\<rparr>) s"

definition part_get_bb_by_name :: "kst \<Rightarrow> nat \<Rightarrow> string \<Rightarrow> nat option" where
  "part_get_bb_by_name s pa n =
     hashmap_get hash_code_str hash_eq_str (part_bb_name_key_of s) (pa_bb_name_map (k_parts s ! pa)) n"

section \<open>Partitions\<close>

definition part_id_alloc :: "kst \<Rightarrow> kst \<times> u64" where
  "part_id_alloc s = (s\<lparr>part_nxt_id := part_nxt_id s + 1\<rparr>, part_nxt_id s)"

text \<open>The root table of the new partition starts as a copy of the kernel's (512 entries).\<close>

definition copy_page :: "(u64 \<Rightarrow> u64) \<Rightarrow> u64 \<Rightarrow> u64 \<Rightarrow> u64 \<Rightarrow> u64" where
  "copy_page m dst src = (\<lambda>x. if in_page dst x then m (src + (x - dst)) else m x)"

definition part_alloc :: "string \<Rightarrow> u64 \<Rightarrow> sys_time \<Rightarrow> sys_time \<Rightarrow> kst \<Rightarrow> kst \<times> nat result" where
  "part_alloc name memory_req period duration s =
     (case phy_frame_alloc (k_mm s) of
        (m1, OK frame) \<Rightarrow>
          (case frame2pa m1 frame of
             OK pa \<Rightarrow>
               (let m2 = m1\<lparr>cells := copy_page (cells m1) pa (kern_pgdir s)\<rparr>;
                    (s1, i) = part_id_alloc (s\<lparr>k_mm := m2\<rparr>);
                    tmp = \<lparr>pa_name = name, pa_pgdir = pa, pa_cpus_asid = 0, pa_cpus_asid_generation = 0, pa_mem_req = memory_req,
                      pa_mem_rem = memory_req, pa_ustasktop = USTKLIMIT, pa_xstacktop = XSTKLIMIT, pa_comm_base = COMM_BASE,
                      pa_entrypoint = 0, pa_main_proc_stacksize = 0, pa_period = period, pa_duration = duration, pa_id = i,
                      pa_lock_level = 0, pa_op_mode = COLD_START, pa_start_cond = NORMAL_START, pa_num_cores = 1,
                      pa_proc_name_map = HASHMAP_ALLOC 16, pa_buf_name_map = HASHMAP_ALLOC 64, pa_bb_name_map = HASHMAP_ALLOC 64,
                      pa_proc_list = []\<rparr>;
                    n = length (k_parts s1);
                    s2 = s1\<lparr>k_parts := k_parts s1 @ [tmp]\<rparr>;
                    s3 = s2\<lparr>part_id_map := hashmap_put hash_code_uint64 hash_eq_uint64 (part_id_key_of s2) (part_id_map s2) n\<rparr>
                in (s3\<lparr>part_name_map := hashmap_put hash_code_str hash_eq_str (part_name_key_of s3) (part_name_map s3) n\<rparr>, OK n))
           | _ \<Rightarrow> (s\<lparr>k_mm := m1\<rparr>, PANIC))
      | (m1, ERR e) \<Rightarrow> (s\<lparr>k_mm := m1\<rparr>, ERR e)
      | (m1, PANIC) \<Rightarrow> (s\<lparr>k_mm := m1\<rparr>, PANIC))"

definition part_comm_alloc :: "nat \<Rightarrow> u64 \<Rightarrow> kst \<Rightarrow> kst \<times> u64 result" where
  "part_comm_alloc pa sz s =
     (let base = pa_comm_base (k_parts s ! pa)
      in if base + sz \<ge> COMM_LIMT then (s, ERR KER_PART_ER)
         else (upd_part pa (\<lambda>x. x\<lparr>pa_comm_base := base + sz\<rparr>) s, OK base))"

definition part_pt_alloc :: "nat \<Rightarrow> u64 \<Rightarrow> u64 \<Rightarrow> kst \<Rightarrow> kst \<times> u64 result" where
  "part_pt_alloc pa va perm s =
     (if pa_mem_rem (k_parts s ! pa) < PGSIZE_W then (s, ERR KER_PART_ER)
      else let s1 = upd_part pa (\<lambda>x. x\<lparr>pa_mem_rem := pa_mem_rem x - PGSIZE_W\<rparr>) s;
               back = upd_part pa (\<lambda>x. x\<lparr>pa_mem_rem := pa_mem_rem x + PGSIZE_W\<rparr>)
           in case phy_frame_alloc (k_mm s1) of
                (m1, OK frame) \<Rightarrow>
                  (case frame2pa m1 frame of
                     OK paddr \<Rightarrow>
                       (case pt_map m1 (pa_pgdir (k_parts s1 ! pa)) va paddr perm of
                          (m2, OK _) \<Rightarrow> (s1\<lparr>k_mm := m2\<rparr>, OK paddr)
                        | (m2, ERR e) \<Rightarrow>
                            (case phy_frame_ref_dec m2 frame of
                               (m3, OK _) \<Rightarrow> (back (s1\<lparr>k_mm := m3\<rparr>), ERR e)
                             | (m3, _) \<Rightarrow> (s1\<lparr>k_mm := m3\<rparr>, PANIC))
                        | (m2, PANIC) \<Rightarrow> (s1\<lparr>k_mm := m2\<rparr>, PANIC))
                   | _ \<Rightarrow> (s1\<lparr>k_mm := m1\<rparr>, PANIC))
              | (m1, ERR e) \<Rightarrow> (back (s1\<lparr>k_mm := m1\<rparr>), ERR e)
              | (m1, PANIC) \<Rightarrow> (s1\<lparr>k_mm := m1\<rparr>, PANIC))"

text \<open>\<open>part_pt_sync_kern_pgdir\<close>: root entries the kernel has gained are copied into every partition's table.\<close>

fun sync_entries :: "(u64 \<Rightarrow> u64) \<Rightarrow> u64 \<Rightarrow> u64 \<Rightarrow> nat list \<Rightarrow> u64 \<Rightarrow> u64" where
  "sync_entries m kern root [] = m"
| "sync_entries m kern root (i # is) =
     (let k = m (kern + 8 * of_nat i); a = root + 8 * of_nat i
      in sync_entries (if pte_v k \<and> \<not> pte_v (m a) then m(a := k) else m) kern root is)"

definition part_pt_sync_kern_pgdir :: "kst \<Rightarrow> kst" where
  "part_pt_sync_kern_pgdir s =
     s\<lparr>k_mm := (k_mm s)\<lparr>cells := fold (\<lambda>p m. sync_entries m (kern_pgdir s) (pa_pgdir (k_parts s ! p)) [0..<512])
        (hashmap_nodes (part_id_map s)) (cells (k_mm s))\<rparr>\<rparr>"

section \<open>Processes\<close>

definition proc_id_alloc :: "kst \<Rightarrow> kst \<times> u64" where
  "proc_id_alloc s = (s\<lparr>proc_nxt_id := proc_nxt_id s + 1\<rparr>, proc_nxt_id s)"

text \<open>
  The page loops of \<open>proc_ustack_setup\<close> and \<open>proc_xstack_setup\<close>, over the offsets \<open>0, PGSIZE, ...\<close> below
  the size; \<open>PERM_URW\<close> and \<open>PERM_KRW\<close> are their permissions.
\<close>

fun stack_map :: "mm \<Rightarrow> u64 \<Rightarrow> u64 \<Rightarrow> u64 \<Rightarrow> u64 list \<Rightarrow> mm \<times> unit result" where
  "stack_map m pgdir stktop perm [] = (m, OK ())"
| "stack_map m pgdir stktop perm (i # is) =
     (case phy_frame_alloc m of
        (m1, OK frame) \<Rightarrow>
          (case frame2pa m1 frame of
             OK pa \<Rightarrow>
               (case pt_map m1 pgdir (stktop - i - PGSIZE_W) pa perm of
                  (m2, OK _) \<Rightarrow> stack_map m2 pgdir stktop perm is
                | (m2, ERR e) \<Rightarrow> (m2, ERR e)
                | (m2, PANIC) \<Rightarrow> (m2, PANIC))
           | _ \<Rightarrow> (m1, PANIC))
      | (m1, ERR e) \<Rightarrow> (m1, ERR e)
      | (m1, PANIC) \<Rightarrow> (m1, PANIC))"

definition page_offsets :: "u64 \<Rightarrow> u64 list" where
  "page_offsets sz = map (\<lambda>k. of_nat k * PGSIZE_W) [0..<(unat sz + 4095) div 4096]"

definition PERM_URW :: u64 where "PERM_URW = 0x17"
definition PERM_KRW :: u64 where "PERM_KRW = 0xc7"

definition proc_ustack_setup :: "nat \<Rightarrow> nat \<Rightarrow> u64 \<Rightarrow> kst \<Rightarrow> kst \<times> unit result" where
  "proc_ustack_setup pa p stacksize s =
     (let part = k_parts s ! pa;
          s1 = upd_proc p (\<lambda>x. x\<lparr>pr_ustacktop := pa_ustasktop part, pr_ustacksize := stacksize\<rparr>) s
      in case stack_map (k_mm s1) (pa_pgdir part) (pa_ustasktop part) PERM_URW (page_offsets stacksize) of
           (m, OK _) \<Rightarrow>
             (upd_part pa (\<lambda>x. x\<lparr>pa_ustasktop := pa_ustasktop x - (stacksize + PGSIZE_W), pa_mem_rem := pa_mem_rem x - stacksize\<rparr>)
                (s1\<lparr>k_mm := m\<rparr>), OK ())
         | (m, e) \<Rightarrow> (s1\<lparr>k_mm := m\<rparr>, e))"

definition proc_xstack_setup :: "nat \<Rightarrow> nat \<Rightarrow> kst \<Rightarrow> kst \<times> unit result" where
  "proc_xstack_setup pa p s =
     (let part = k_parts s ! pa;
          s1 = upd_proc p (\<lambda>x. x\<lparr>pr_xstacktop := pa_xstacktop part\<rparr>) s
      in case stack_map (k_mm s1) (pa_pgdir part) (pa_xstacktop part) PERM_KRW (page_offsets KSTKSIZE) of
           (m, OK _) \<Rightarrow>
             (upd_part pa (\<lambda>x. x\<lparr>pa_xstacktop := pa_xstacktop x - (KSTKSIZE + PGSIZE_W), pa_mem_rem := pa_mem_rem x - KSTKSIZE\<rparr>)
                (s1\<lparr>k_mm := m\<rparr>), OK ())
         | (m, e) \<Rightarrow> (s1\<lparr>k_mm := m\<rparr>, e))"

text \<open>The initial context of a process: \<open>.sei = .ssi = .sti = 1\<close>; \<open>.fs = .spie = .sum = 1\<close>, user mode.\<close>

definition SIE_INIT :: u64 where "SIE_INIT = 0x222"
definition SSTATUS_INIT :: u64 where "SSTATUS_INIT = 0x42020"

definition initial_context :: "proc \<Rightarrow> trap_context" where
  "initial_context p = zero_context\<lparr>ctx_sepc := pr_entrypoint p, ctx_hartid := - 1, ctx_sie := SIE_INIT,
     ctx_sstatus := SSTATUS_INIT, ctx_regs := (replicate 32 0)[2 := pr_ustacktop p]\<rparr>"

definition proc_reset :: "nat \<Rightarrow> kst \<Rightarrow> kst result" where
  "proc_reset p s =
     (let s1 = upd_proc p (\<lambda>x. x\<lparr>pr_ctx_list := []\<rparr>)
            (s\<lparr>k_ctx_free_list := rev (pr_ctx_list (k_procs s ! p)) @ k_ctx_free_list s\<rparr>)
      in case ctx_alloc s1 of
           (s2, OK c) \<Rightarrow>
             OK (upd_proc p (\<lambda>x. x\<lparr>pr_ctx_list := c # pr_ctx_list x\<rparr>) (upd_ctx c (\<lambda>_. initial_context (k_procs s2 ! p)) s2))
         | (s2, _) \<Rightarrow> PANIC)"

text \<open>The new process and its entry into the tables, as in the middle of \<open>proc_alloc\<close>.\<close>

definition new_proc :: "part \<Rightarrow> u64 \<Rightarrow> string \<Rightarrow> sys_time \<Rightarrow> sys_time \<Rightarrow> u64 \<Rightarrow> u64 \<Rightarrow> u32 \<Rightarrow> proc" where
  "new_proc part i name period time_cap entrypoint base_pri deadline =
     \<lparr>pr_xstacktop = 0, pr_ctx_list = [], pr_name = name, pr_id = i, pr_idx = part_get_proc_count part,
      pr_part_id = pa_id part, pr_ustacktop = 0, pr_ustacksize = 0, pr_entrypoint = entrypoint,
      pr_base_pri = base_pri, pr_period = period, pr_time_cap = time_cap, pr_deadline = deadline, pr_cur_pri = 0,
      pr_deadline_time = 0, pr_state = DORMANT, pr_waiting_reason = PREVIOUS_STARTED, pr_core_id = SYSCORE,
      pr_asso_timer = None\<rparr>"

definition proc_link :: "nat \<Rightarrow> nat \<Rightarrow> kst \<Rightarrow> kst" where
  "proc_link pa p s =
     (let s5 = part_add_proc_name pa p s;
          s6 = upd_part pa (\<lambda>x. x\<lparr>pa_proc_list := pa_proc_list x @ [p]\<rparr>) s5
      in s6\<lparr>proc_id_map := hashmap_put hash_code_uint64 hash_eq_uint64 (proc_id_key_of s6) (proc_id_map s6) p\<rparr>)"

definition proc_alloc :: "nat \<Rightarrow> string \<Rightarrow> sys_time \<Rightarrow> sys_time \<Rightarrow> u64 \<Rightarrow> u64 \<Rightarrow> u64 \<Rightarrow> u32 \<Rightarrow> kst \<Rightarrow> kst \<times> nat result" where
  "proc_alloc pa name period time_cap entrypoint stacksize base_pri deadline s =
     (let aligned = align_up stacksize PGSIZE_W
      in if pa_mem_rem (k_parts s ! pa) < aligned then (s, ERR KER_PROC_ER)
         else
           let (s1, i) = proc_id_alloc s;
               p = length (k_procs s1);
               s2 = s1\<lparr>k_procs := k_procs s1 @ [new_proc (k_parts s1 ! pa) i name period time_cap entrypoint base_pri deadline]\<rparr>
           in case proc_ustack_setup pa p aligned s2 of
                (s3, OK _) \<Rightarrow>
                  (case proc_xstack_setup pa p s3 of
                     (s4, OK _) \<Rightarrow>
                       (case proc_reset p (proc_link pa p s4) of OK s5 \<Rightarrow> (s5, OK p) | _ \<Rightarrow> (proc_link pa p s4, PANIC))
                   | (s4, _) \<Rightarrow> (s4, PANIC))
              | (s3, _) \<Rightarrow> (s3, PANIC))"

text \<open>
  \<open>proc_run\<close> up to the jump to \<open>trap_ret_switch_as\<close>: the context to return to is the top of the
  process's list, and the result is the value for \<open>satp\<close>. \<open>past\<close> is the word behind the bitmap of
  identifiers; two rounds of the renewal loop are enough (\<open>asid_renew_terminates\<close>).
\<close>

definition satp_value :: "u64 \<Rightarrow> u64 \<Rightarrow> u64" where
  "satp_value asid pgdir = push_bit 60 8 OR push_bit 44 (take_bit 16 asid) OR take_bit 44 (pgdir div PGSIZE_W)"

definition proc_run :: "u64 \<Rightarrow> nat \<Rightarrow> kst \<Rightarrow> (kst \<times> u64) result" where
  "proc_run past p s =
     (case pr_ctx_list (k_procs s ! p) of
        [] \<Rightarrow> PANIC
      | c # cs \<Rightarrow>
          (let s1 = ctx_free (k_cpu_context s) s;
               s2 = upd_proc p (\<lambda>x. x\<lparr>pr_ctx_list := cs\<rparr>) (s1\<lparr>k_cpu_context := c\<rparr>);
               s3 = upd_ctx c (\<lambda>x. x\<lparr>ctx_hartid := SYSCORE\<rparr>) s2
           in case part_from_id s3 (pr_part_id (k_procs s3 ! p)) of
                None \<Rightarrow> PANIC
              | Some pa \<Rightarrow>
                  (if pa_cpus_asid_generation (k_parts s3 ! pa) < asid_get_generation (k_asid s3)
                   then case asid_renew 2 past (k_asid s3) of
                          None \<Rightarrow> PANIC
                        | Some (a, asid) \<Rightarrow>
                            (let s4 = upd_part pa (\<lambda>x. x\<lparr>pa_cpus_asid := asid, pa_cpus_asid_generation := asid_get_generation a\<rparr>)
                                   (s3\<lparr>k_asid := a\<rparr>)
                             in OK (s4, satp_value asid (pa_pgdir (k_parts s4 ! pa))))
                   else OK (s3, satp_value (pa_cpus_asid (k_parts s3 ! pa)) (pa_pgdir (k_parts s3 ! pa))))))"

end
