(* ===== verification/Timer.thy ===== *)
theory Timer
  imports Kernel_State
begin

text \<open>
  The time-event queue of \<^verbatim>\<open>kern/traps/timer.c\<close> and the clock of \<^verbatim>\<open>kern/lib/boottime.c\<close>. Every
  reading of the clock is an argument (\<open>now\<close>). What \<open>time_event_action\<close> does with the events that are
  due involves the other components and follows in theory \<open>Time_Action\<close>.
\<close>

section \<open>The code\<close>

text \<open>\<open>boottime_get_now\<close>, given the value of the \<open>time\<close> register; a frequency below 1 MHz divides by zero.\<close>

definition boottime_get_now :: "kst \<Rightarrow> u64 \<Rightarrow> sys_time" where
  "boottime_get_now s time =
     (if k_timebase_freq s = 0 then 0
      else let d = word_of_int (uint (k_timebase_freq s) div SYS_TIME_SECOND) :: u64
           in sint (if d = 0 then - 1 else time div d))"

definition time_event_set_head :: "sys_time \<Rightarrow> kst \<Rightarrow> kst" where
  "time_event_set_head now s =
     (case k_te_queue s of
        [] \<Rightarrow> s\<lparr>k_timer := TimerAt (- 2)\<rparr>
      | te # _ \<Rightarrow>
          if te_time (k_tes s ! te) \<le> now then s\<lparr>k_timer := TimerPending\<rparr>
          else s\<lparr>k_timer := TimerAt (word_of_int (te_time (k_tes s ! te) * (uint (k_timebase_freq s) div SYS_TIME_SECOND)))\<rparr>)"

text \<open>The insertion loop: before the first event that is later, else at the end.\<close>

fun te_insert :: "(nat \<Rightarrow> sys_time) \<Rightarrow> nat \<Rightarrow> sys_time \<Rightarrow> nat list \<Rightarrow> nat list" where
  "te_insert tm te t [] = [te]"
| "te_insert tm te t (i # q) = (if tm i > t then te # i # q else i # te_insert tm te t q)"

text \<open>The process whose \<open>pr_asso_timer\<close> the event is.\<close>

fun te_proc :: "time_event_type \<Rightarrow> nat option" where
  "te_proc (TE_PROCESS_SUSPEND_TIMEOUT p) = Some p"
| "te_proc (TE_PROCESS_DELAYED_START p) = Some p"
| "te_proc (TE_PROCESS_TIMED_WAIT_TIMEOUT p) = Some p"
| "te_proc (TE_BUFFER_BLOCK_TIMEOUT p b) = Some p"
| "te_proc (TE_BLACKBOARD_BLOCK_TIMEOUT p b) = Some p"
| "te_proc (TE_QUEUING_PORT_BLOCK_TIMEOUT p q) = Some p"
| "te_proc TE_SIMPLE = None"
| "te_proc TE_PARTITION_ACTIVATE = None"

definition set_asso_timer :: "nat option \<Rightarrow> time_event_type \<Rightarrow> kst \<Rightarrow> kst" where
  "set_asso_timer v ty s = (case te_proc ty of None \<Rightarrow> s | Some p \<Rightarrow> upd_proc p (\<lambda>x. x\<lparr>pr_asso_timer := v\<rparr>) s)"

definition time_event_alloc :: "sys_time \<Rightarrow> sys_time \<Rightarrow> time_event_type \<Rightarrow> kst \<Rightarrow> kst" where
  "time_event_alloc now time ty s =
     (let te = length (k_tes s);
          s1 = s\<lparr>k_tes := k_tes s @ [\<lparr>te_time = time, te_type = ty\<rparr>]\<rparr>;
          s2 = s1\<lparr>k_te_queue := te_insert (\<lambda>i. te_time (k_tes s1 ! i)) te time (k_te_queue s1)\<rparr>;
          s3 = time_event_set_head now s2
      in set_asso_timer (Some te) ty s3)"

text \<open>
  \<open>time_event_free\<close>: the queue is searched for the event; the fields read afterwards are those of
  the event itself. A \<^verbatim>\<open>NULL\<close> event is dereferenced, which faults.
\<close>

definition time_event_free :: "sys_time \<Rightarrow> nat option \<Rightarrow> kst \<Rightarrow> kst result" where
  "time_event_free now teo s =
     (case teo of
        None \<Rightarrow> PANIC
      | Some te \<Rightarrow>
          (let s1 = s\<lparr>k_te_queue := remove1 te (k_te_queue s)\<rparr>;
               s2 = time_event_set_head now s1
           in OK (set_asso_timer None (te_type (k_tes s2 ! te)) s2)))"

section \<open>The order of the queue\<close>

definition te_times :: "kst \<Rightarrow> sys_time list" where
  "te_times s = map (\<lambda>i. te_time (k_tes s ! i)) (k_te_queue s)"

definition te_ok :: "kst \<Rightarrow> bool" where
  "te_ok s \<longleftrightarrow> sorted (te_times s) \<and> distinct (k_te_queue s) \<and> (\<forall>i \<in> set (k_te_queue s). i < length (k_tes s))"

text \<open>The timer is programmed for the head of the queue.\<close>

definition timer_ok :: "sys_time \<Rightarrow> kst \<Rightarrow> bool" where
  "timer_ok now s \<longleftrightarrow> k_timer s =
     (case te_times s of [] \<Rightarrow> TimerAt (- 2)
      | t # _ \<Rightarrow> if t \<le> now then TimerPending else TimerAt (word_of_int (t * (uint (k_timebase_freq s) div SYS_TIME_SECOND))))"

lemma te_insert_split:
  "te_insert tm te t q = takeWhile (\<lambda>i. tm i \<le> t) q @ te # dropWhile (\<lambda>i. tm i \<le> t) q"
  by (induction q) auto

lemma te_insert_cong: "(\<And>i. i \<in> set q \<Longrightarrow> f i = g i) \<Longrightarrow> te_insert f te t q = te_insert g te t q"
  by (induction q) auto

lemma sorted_insert_split:
  fixes t :: "'a :: linorder"
  assumes "sorted (map f q)"
  shows "sorted (map f (takeWhile (\<lambda>i. f i \<le> t) q) @ t # map f (dropWhile (\<lambda>i. f i \<le> t) q))"
  using assms
proof (induction q)
  case (Cons i q)
  then show ?case by (auto dest: set_takeWhileD set_dropWhileD)
qed simp

lemma set_head_fields [simp]:
  "k_te_queue (time_event_set_head now s) = k_te_queue s" "k_tes (time_event_set_head now s) = k_tes s"
  "k_procs (time_event_set_head now s) = k_procs s" "k_timebase_freq (time_event_set_head now s) = k_timebase_freq s"
  "k_parts (time_event_set_head now s) = k_parts s" "k_cur_part (time_event_set_head now s) = k_cur_part s"
  "k_cur_proc (time_event_set_head now s) = k_cur_proc s" "k_bufs (time_event_set_head now s) = k_bufs s"
  "k_chans (time_event_set_head now s) = k_chans s" "k_bbs (time_event_set_head now s) = k_bbs s"
  "umem (time_event_set_head now s) = umem s" "k_ports (time_event_set_head now s) = k_ports s"
  "k_cpu_context (time_event_set_head now s) = k_cpu_context s" "k_ctx_free_list (time_event_set_head now s) = k_ctx_free_list s"
  "k_contexts (time_event_set_head now s) = k_contexts s" "k_modules (time_event_set_head now s) = k_modules s"
  "k_cur_mod (time_event_set_head now s) = k_cur_mod s" "k_major_frame (time_event_set_head now s) = k_major_frame s"
  "k_sched_parts (time_event_set_head now s) = k_sched_parts s"
  by (simp_all add: time_event_set_head_def umem_def split: list.splits cong: if_cong)

lemma set_head_timer: "timer_ok now (time_event_set_head now s)"
  by (auto simp: timer_ok_def time_event_set_head_def te_times_def split: list.splits)

lemma set_asso_fields [simp]:
  "k_te_queue (set_asso_timer v ty s) = k_te_queue s" "k_tes (set_asso_timer v ty s) = k_tes s"
  "k_timer (set_asso_timer v ty s) = k_timer s" "k_timebase_freq (set_asso_timer v ty s) = k_timebase_freq s"
  "k_parts (set_asso_timer v ty s) = k_parts s" "k_cur_part (set_asso_timer v ty s) = k_cur_part s"
  "k_cur_proc (set_asso_timer v ty s) = k_cur_proc s" "k_bufs (set_asso_timer v ty s) = k_bufs s"
  "k_chans (set_asso_timer v ty s) = k_chans s" "k_bbs (set_asso_timer v ty s) = k_bbs s"
  "umem (set_asso_timer v ty s) = umem s" "k_ports (set_asso_timer v ty s) = k_ports s"
  "length (k_procs (set_asso_timer v ty s)) = length (k_procs s)"
  "k_cpu_context (set_asso_timer v ty s) = k_cpu_context s" "k_ctx_free_list (set_asso_timer v ty s) = k_ctx_free_list s"
  "k_contexts (set_asso_timer v ty s) = k_contexts s" "k_modules (set_asso_timer v ty s) = k_modules s"
  "k_cur_mod (set_asso_timer v ty s) = k_cur_mod s" "k_major_frame (set_asso_timer v ty s) = k_major_frame s"
  "k_sched_parts (set_asso_timer v ty s) = k_sched_parts s"
  by (simp_all add: set_asso_timer_def split: option.splits)

lemma timer_ok_set_asso [simp]: "timer_ok now (set_asso_timer v ty s) = timer_ok now s"
  by (simp add: timer_ok_def te_times_def split: list.split)

lemma time_event_alloc_queue:
  assumes "te_ok s"
  shows "k_te_queue (time_event_alloc now time ty s)
      = takeWhile (\<lambda>i. te_time (k_tes s ! i) \<le> time) (k_te_queue s) @ length (k_tes s)
        # dropWhile (\<lambda>i. te_time (k_tes s ! i) \<le> time) (k_te_queue s)"
    "k_tes (time_event_alloc now time ty s) = k_tes s @ [\<lparr>te_time = time, te_type = ty\<rparr>]"
proof -
  have "te_insert (\<lambda>i. te_time ((k_tes s @ [\<lparr>te_time = time, te_type = ty\<rparr>]) ! i)) (length (k_tes s)) time (k_te_queue s)
      = te_insert (\<lambda>i. te_time (k_tes s ! i)) (length (k_tes s)) time (k_te_queue s)"
    using assms by (intro te_insert_cong) (simp add: te_ok_def nth_append)
  then show "k_te_queue (time_event_alloc now time ty s)
      = takeWhile (\<lambda>i. te_time (k_tes s ! i) \<le> time) (k_te_queue s) @ length (k_tes s)
        # dropWhile (\<lambda>i. te_time (k_tes s ! i) \<le> time) (k_te_queue s)"
    by (simp add: time_event_alloc_def Let_def te_insert_split)
  show "k_tes (time_event_alloc now time ty s) = k_tes s @ [\<lparr>te_time = time, te_type = ty\<rparr>]"
    by (simp add: time_event_alloc_def Let_def)
qed

lemma time_event_alloc_ok:
  assumes ok: "te_ok s"
  shows "te_ok (time_event_alloc now time ty s)"
proof -
  let ?f = "\<lambda>i. te_time (k_tes s ! i)" and ?n = "length (k_tes s)"
  let ?s' = "time_event_alloc now time ty s"
  note Q = time_event_alloc_queue [OF ok, of now time ty]
  have lt: "i < ?n" if "i \<in> set (k_te_queue s)" for i using ok that by (simp add: te_ok_def)
  have times: "te_times ?s' = map ?f (takeWhile (\<lambda>i. ?f i \<le> time) (k_te_queue s)) @ time # map ?f (dropWhile (\<lambda>i. ?f i \<le> time) (k_te_queue s))"
    unfolding te_times_def Q using lt by (auto simp: nth_append dest!: set_takeWhileD set_dropWhileD)
  have set': "set (k_te_queue ?s') = insert ?n (set (k_te_queue s))"
    unfolding Q(1) using takeWhile_dropWhile_id [of "\<lambda>i. ?f i \<le> time" "k_te_queue s"] by (metis Un_insert_right list.simps(15) set_append)
  have "distinct (takeWhile (\<lambda>i. ?f i \<le> time) (k_te_queue s) @ dropWhile (\<lambda>i. ?f i \<le> time) (k_te_queue s))"
    using ok by (simp add: te_ok_def)
  note d = this [unfolded distinct_append]
  have "?n \<notin> set (k_te_queue s)" using lt by blast
  then have "distinct (k_te_queue ?s')" unfolding Q(1) using d by (auto dest: set_takeWhileD set_dropWhileD)
  moreover have "sorted (te_times ?s')" unfolding times by (rule sorted_insert_split) (use ok in \<open>simp add: te_ok_def te_times_def\<close>)
  ultimately show ?thesis using lt unfolding te_ok_def set' Q(2) by (auto simp: less_Suc_eq)
qed

lemma time_event_free_ok:
  assumes ok: "te_ok s" and r: "time_event_free now (Some te) s = OK s'"
  shows "te_ok s'" "k_te_queue s' = remove1 te (k_te_queue s)" "timer_ok now s'"
proof -
  define s1 where "s1 = s\<lparr>k_te_queue := remove1 te (k_te_queue s)\<rparr>"
  have s': "s' = set_asso_timer None (te_type (k_tes s ! te)) (time_event_set_head now s1)"
    using r by (simp add: time_event_free_def Let_def s1_def)
  show q: "k_te_queue s' = remove1 te (k_te_queue s)" by (simp add: s' s1_def)
  show "timer_ok now s'" using set_head_timer by (simp add: s')
  have "sorted (map (\<lambda>i. te_time (k_tes s ! i)) (remove1 te (k_te_queue s)))"
    using ok by (simp add: te_ok_def te_times_def sorted_map_remove1)
  then show "te_ok s'" using ok unfolding te_ok_def te_times_def q by (auto simp: s' s1_def dest: notin_set_remove1)
qed

section \<open>Properties\<close>

text \<open>
  C31 (invariant). Arming an event keeps the queue sorted by time, puts the event behind all events
  that are due no later (so equal times fire in the order they were armed) and before all later
  ones, and programs the timer for the event now at the head.
\<close>

theorem time_event_alloc_sorted:
  assumes "te_ok s"
  shows "let s' = time_event_alloc now time ty s
    in te_ok s' \<and> timer_ok now s' \<and> (\<exists>before after. k_te_queue s = before @ after \<and> k_te_queue s' = before @ length (k_tes s) # after
        \<and> (\<forall>i \<in> set before. te_time (k_tes s ! i) \<le> time) \<and> (\<forall>i \<in> set after. time < te_time (k_tes s ! i)))"
proof -
  let ?P = "\<lambda>i. te_time (k_tes s ! i) \<le> time"
  have "sorted (map (\<lambda>i. te_time (k_tes s ! i)) q) \<Longrightarrow> i \<in> set (dropWhile ?P q) \<Longrightarrow> time < te_time (k_tes s ! i)" for i q
    by (induction q) (auto split: if_splits)
  then have "\<forall>i \<in> set (dropWhile ?P (k_te_queue s)). time < te_time (k_tes s ! i)"
    using assms unfolding te_ok_def te_times_def by blast
  moreover have "\<forall>i \<in> set (takeWhile ?P (k_te_queue s)). ?P i" by (meson set_takeWhileD)
  moreover have "timer_ok now (time_event_alloc now time ty s)"
    by (simp add: time_event_alloc_def Let_def set_head_timer)
  moreover have "k_te_queue s = takeWhile ?P (k_te_queue s) @ dropWhile ?P (k_te_queue s)" by simp
  ultimately show ?thesis
    unfolding Let_def time_event_alloc_queue(1) [OF assms] using time_event_alloc_ok [OF assms, of now time ty] by blast
qed

text \<open>A state with nothing in it; the tables have the capacities of the code.\<close>

definition kst0 :: kst where
  "kst0 = \<lparr>k_procs = [], k_parts = [], k_bufs = [], k_bbs = [], k_chans = [], k_ports = [], k_port_confs = [], k_tes = [],
     k_te_queue = [], k_timer = TimerAt 0, k_timebase_freq = 10000000, k_modules = [], k_sched_parts = [], k_cur_mod = None,
     k_major_frame = 0, k_cur_part = None, k_cur_proc = None, k_contexts = [], k_ctx_free_list = [], k_cpu_context = 0,
     proc_id_map = HASHMAP_ALLOC 128, part_id_map = HASHMAP_ALLOC 128, part_name_map = HASHMAP_ALLOC 128,
     buf_id_map = HASHMAP_ALLOC 64, bb_id_map = HASHMAP_ALLOC 64, queuing_port_id_map = HASHMAP_ALLOC 32,
     queuing_port_name_map = HASHMAP_ALLOC 32, proc_nxt_id = 1, part_nxt_id = 1, buf_nxt_id = 1, bb_nxt_id = 1, qp_nxt_id = 1,
     channel_base = CHAN_BASE, k_asid = asid_init 0xff, k_mm = mm_two [] 0, kern_pgdir = 0x80200000,
     k_part_mem = (\<lambda>_ _. 0), k_chan_mem = (\<lambda>_. 0)\<rparr>"

theorem time_event_alloc_sorted_witness:
  "let s = kst0\<lparr>k_tes := [\<lparr>te_time = 5, te_type = TE_SIMPLE\<rparr>, \<lparr>te_time = 9, te_type = TE_SIMPLE\<rparr>], k_te_queue := [0, 1]\<rparr>;
       s' = time_event_alloc 3 5 TE_PARTITION_ACTIVATE s
   in te_ok s' \<and> k_te_queue s' = [0, 2, 1] \<and> k_timer s' = TimerAt 50"
proof -
  define s where "s = kst0\<lparr>k_tes := [\<lparr>te_time = 5, te_type = TE_SIMPLE\<rparr>, \<lparr>te_time = 9, te_type = TE_SIMPLE\<rparr>], k_te_queue := [0, 1]\<rparr>"
  have "te_ok s" by (simp add: te_ok_def te_times_def s_def)
  then have "te_ok (time_event_alloc 3 5 TE_PARTITION_ACTIVATE s)" using time_event_alloc_sorted by (simp add: Let_def)
  moreover have "k_te_queue (time_event_alloc 3 5 TE_PARTITION_ACTIVATE s) = [0, 2, 1]
      \<and> k_timer (time_event_alloc 3 5 TE_PARTITION_ACTIVATE s) = TimerAt 50"
    by (simp add: time_event_alloc_def Let_def s_def kst0_def set_asso_timer_def time_event_set_head_def SYS_TIME_SECOND_def)
  ultimately show ?thesis unfolding Let_def s_def by blast
qed

end
