(* ===== verification/Sched.thy ===== *)
theory Sched
  imports Multitask Timer
begin

text \<open>
  The scheduler, \<^verbatim>\<open>kern/multitask/sched.c\<close>: the table of partition windows (\<open>sched_module_add\<close>,
  \<open>sched_launch\<close>), the switch to the next window (\<open>sched_global\<close>) and the election of a process
  inside a partition (\<open>sched_proc\<close>, \<open>sched_proc_give_up\<close>). \<open>clk i\<close> is the \<open>i\<close>-th reading of the clock.
\<close>

section \<open>The code\<close>

record sched_conf =
  sc_pa_name :: string
  sc_offset :: sys_time
  sc_duration :: sys_time

definition sched_init :: "kst \<Rightarrow> kst" where
  "sched_init s = s\<lparr>k_cur_part := None, k_cur_proc := None, k_modules := [], k_sched_parts := []\<rparr>"

definition sm_end :: "sched_module \<Rightarrow> sys_time" where
  "sm_end m = swrap64 (sm_offset m + sm_duration m)"

text \<open>\<open>sm_prev_act_time\<close> has no value before \<open>sched_launch\<close> sets it; 0 stands in for the heap's garbage.\<close>

definition sched_module_add :: "sched_conf \<Rightarrow> kst \<Rightarrow> kst \<times> unit result" where
  "sched_module_add conf s =
     (case part_from_name s (sc_pa_name conf) of
        None \<Rightarrow> (s, ERR KER_PART_ER)
      | Some part \<Rightarrow>
          (let module = \<lparr>sm_part = part, sm_offset = sc_offset conf, sm_duration = sc_duration conf, sm_prev_act_time = 0\<rparr>
           in if k_modules s \<noteq> [] \<and> sm_end (last (k_modules s)) > sm_offset module then (s, ERR KER_SCHED_ER)
              else (s\<lparr>k_modules := k_modules s @ [module]\<rparr>, OK ())))"

definition sched_add_part :: "nat \<Rightarrow> kst \<Rightarrow> kst" where
  "sched_add_part p s = s\<lparr>k_sched_parts := k_sched_parts s @ [p]\<rparr>"

text \<open>One round of the last loop of \<open>sched_launch\<close>, for the module at position \<open>i\<close>.\<close>

definition launch_module :: "(nat \<Rightarrow> sys_time) \<Rightarrow> sys_time \<Rightarrow> nat \<Rightarrow> kst \<Rightarrow> kst" where
  "launch_module clk now i s =
     (let t = swrap64 (now + sm_offset (k_modules s ! i));
          s1 = (if i \<noteq> 0 then time_event_alloc (clk i) t TE_PARTITION_ACTIVATE s else s)
      in s1\<lparr>k_modules := (k_modules s1)[i := (k_modules s1 ! i)\<lparr>sm_prev_act_time := t\<rparr>]\<rparr>)"

definition sched_launch :: "(nat \<Rightarrow> sys_time) \<Rightarrow> kst \<Rightarrow> kst \<times> unit result" where
  "sched_launch clk s =
     (if k_sched_parts s = [] then (s, ERR KER_SCHED_ER)
      else
        let s1 = s\<lparr>k_major_frame := fold (\<lambda>p f. lcm_c f (pa_period (k_parts s ! p))) (k_sched_parts s) 1\<rparr>
        in if \<exists>m \<in> set (k_modules s1). sm_end m > k_major_frame s1 then (s1, ERR KER_SCHED_ER)
           else (fold (launch_module clk (clk 0)) [0..<length (k_modules s1)] s1, OK ()))"

definition runnable :: "kst \<Rightarrow> nat \<Rightarrow> bool" where
  "runnable s p \<longleftrightarrow> pr_state (k_procs s ! p) = READY \<or> pr_state (k_procs s ! p) = RUNNING"

text \<open>The two round-robin loops stop at the first process of at least the current priority.\<close>

fun elect_rr :: "kst \<Rightarrow> u64 \<Rightarrow> nat list \<Rightarrow> nat option" where
  "elect_rr s cur_pri [] = None"
| "elect_rr s cur_pri (p # ps) =
     (if runnable s p \<and> pr_cur_pri (k_procs s ! p) \<ge> cur_pri then Some p else elect_rr s cur_pri ps)"

text \<open>The priority loop keeps the first process of the highest priority so far.\<close>

fun elect_pri :: "kst \<Rightarrow> nat list \<Rightarrow> nat option \<Rightarrow> nat option" where
  "elect_pri s [] nxt = nxt"
| "elect_pri s (p # ps) nxt =
     elect_pri s ps (if runnable s p \<and> (case nxt of None \<Rightarrow> True | Some b \<Rightarrow> pr_cur_pri (k_procs s ! p) > pr_cur_pri (k_procs s ! b))
       then Some p else nxt)"

text \<open>
  One pass of the election loop; \<open>None\<close> means that the loop goes round again, with the state as
  interrupts have changed it by then.
\<close>

definition sched_elect_next_proc :: "bool \<Rightarrow> kst \<Rightarrow> nat option" where
  "sched_elect_next_proc round_robin s =
     (let procs = pa_proc_list (sched_cur_part s)
      in if round_robin
         then let cur = sched_cur_proc s; cur_pri = pr_cur_pri (k_procs s ! cur)
              in case elect_rr s cur_pri (tl (dropWhile (\<lambda>q. q \<noteq> cur) procs)) of
                   Some p \<Rightarrow> Some p
                 | None \<Rightarrow> elect_rr s cur_pri procs
         else elect_pri s procs None)"

text \<open>
  \<open>sched_proc\<close>: \<open>OK (s', Some satp)\<close> when a process runs, \<open>OK (s', None)\<close> when the election loop is
  still waiting for one (another pass is another call: the demotion of the current process is
  idempotent).
\<close>

definition sched_proc :: "u64 \<Rightarrow> bool \<Rightarrow> kst \<Rightarrow> (kst \<times> u64 option) result" where
  "sched_proc past round_robin s =
     (let s1 = (case k_cur_proc s of
            None \<Rightarrow> s
          | Some c \<Rightarrow> if pr_state (k_procs s ! c) = RUNNING then upd_proc c (\<lambda>x. x\<lparr>pr_state := READY\<rparr>) s else s)
      in case sched_elect_next_proc round_robin s1 of
           None \<Rightarrow> OK (s1, None)
         | Some p \<Rightarrow>
             (case proc_run past p (upd_proc p (\<lambda>x. x\<lparr>pr_state := RUNNING\<rparr>) (s1\<lparr>k_cur_proc := Some p\<rparr>)) of
                OK (s2, satp) \<Rightarrow> OK (s2, Some satp)
              | ERR e \<Rightarrow> ERR e
              | PANIC \<Rightarrow> PANIC))"

text \<open>\<open>sched_global\<close> up to the call of \<open>sched_proc(0)\<close>: the choice of the next partition.\<close>

definition sched_next_part :: "sys_time \<Rightarrow> kst \<Rightarrow> kst result" where
  "sched_next_part now s =
     (if k_modules s = []
      then if k_sched_parts s = [] then PANIC else OK (s\<lparr>k_cur_part := Some (hd (k_sched_parts s))\<rparr>)
      else
        let i = (case k_cur_mod s of None \<Rightarrow> 0 | Some i \<Rightarrow> if Suc i = length (k_modules s) then 0 else Suc i);
            t = swrap64 (sm_prev_act_time (k_modules s ! i) + k_major_frame s);
            s1 = time_event_alloc now t TE_PARTITION_ACTIVATE (s\<lparr>k_cur_mod := Some i\<rparr>)
        in OK (s1\<lparr>k_modules := (k_modules s1)[i := (k_modules s1 ! i)\<lparr>sm_prev_act_time := t\<rparr>],
                  k_cur_part := Some (sm_part (k_modules s ! i))\<rparr>))"

definition sched_global :: "u64 \<Rightarrow> sys_time \<Rightarrow> kst \<Rightarrow> (kst \<times> u64 option) result" where
  "sched_global past now s = panic_e (sched_next_part now s) (sched_proc past False)"

text \<open>
  \<open>sched_proc_give_up\<close>: the caller keeps the hart when it is elected itself; otherwise its kernel
  registers (\<open>kctx\<close>, which \<open>_sched_proc_give_up\<close> saves) are stacked on it and \<open>sched_proc\<close> is called.
  \<open>Spins\<close> is a first election loop that is still waiting.
\<close>

datatype give_up = Spins | Keeps | Switches "u64 option"

definition sched_proc_give_up :: "u64 \<Rightarrow> trap_context \<Rightarrow> bool \<Rightarrow> kst \<Rightarrow> (kst \<times> give_up) result" where
  "sched_proc_give_up past kctx round_robin s =
     (let proc = sched_cur_proc s
      in case sched_elect_next_proc round_robin s of
           None \<Rightarrow> OK (s, Spins)
         | Some next \<Rightarrow>
             if proc = next then OK (s, Keeps)
             else (case ctx_alloc s of
                     (s1, OK c) \<Rightarrow>
                       (let s2 = upd_ctx c (\<lambda>_. kctx) (upd_proc proc (\<lambda>x. x\<lparr>pr_ctx_list := c # pr_ctx_list x\<rparr>) s1)
                        in case sched_proc past round_robin s2 of
                             OK (s3, r) \<Rightarrow> OK (s3, Switches r)
                           | _ \<Rightarrow> PANIC)
                   | (s1, _) \<Rightarrow> PANIC))"

section \<open>Election\<close>

abbreviation cur_pri_of :: "kst \<Rightarrow> nat \<Rightarrow> u64" where
  "cur_pri_of s p \<equiv> pr_cur_pri (k_procs s ! p)"

lemma elect_pri_Some:
  "elect_pri s ps (Some b) = (case elect_pri s ps None of None \<Rightarrow> Some b
     | Some p \<Rightarrow> if cur_pri_of s b < cur_pri_of s p then Some p else Some b)"
proof (induction ps arbitrary: b)
  case (Cons q ps)
  show ?case
  proof (cases "runnable s q")
    case True
    then show ?thesis
      using Cons.IH [of b] Cons.IH [of q] by (cases "elect_pri s ps None") (auto split: if_splits)
  next
    case False
    then show ?thesis using Cons.IH [of b] by simp
  qed
qed simp

lemma elect_pri_None: "elect_pri s ps None = None \<longleftrightarrow> (\<forall>q \<in> set ps. \<not> runnable s q)"
proof (induction ps)
  case (Cons q ps)
  then show ?case by (auto simp: elect_pri_Some split: option.splits)
qed simp

lemma elect_pri_first:
  assumes "elect_pri s ps None = Some p"
  shows "\<exists>as bs. ps = as @ p # bs \<and> runnable s p
    \<and> (\<forall>q \<in> set as. runnable s q \<longrightarrow> cur_pri_of s q < cur_pri_of s p)
    \<and> (\<forall>q \<in> set bs. runnable s q \<longrightarrow> cur_pri_of s q \<le> cur_pri_of s p)"
  using assms
proof (induction ps)
  case (Cons q ps)
  show ?case
  proof (cases "elect_pri s ps None = Some p \<and> (runnable s q \<longrightarrow> cur_pri_of s q < cur_pri_of s p)")
    case True
    then obtain as bs where "ps = as @ p # bs" "runnable s p" "\<forall>q \<in> set as. runnable s q \<longrightarrow> cur_pri_of s q < cur_pri_of s p"
      "\<forall>q \<in> set bs. runnable s q \<longrightarrow> cur_pri_of s q \<le> cur_pri_of s p" using Cons.IH by blast
    then show ?thesis using True by (intro exI [of _ "q # as"] exI [of _ bs]) auto
  next
    case False
    then have q: "runnable s q" using Cons.prems by (auto split: if_splits)
    then have p: "q = p" using Cons.prems False by (auto simp: elect_pri_Some split: option.splits if_splits)
    have "cur_pri_of s r \<le> cur_pri_of s p" if r: "r \<in> set ps" "runnable s r" for r
    proof (cases "elect_pri s ps None")
      case None
      then show ?thesis using r elect_pri_None by blast
    next
      case (Some x)
      have "\<not> cur_pri_of s q < cur_pri_of s x" using Cons.prems q Some False p by (auto simp: elect_pri_Some split: if_splits)
      moreover have "cur_pri_of s r \<le> cur_pri_of s x"
      proof -
        have "\<And>ps x. elect_pri s ps None = Some x \<Longrightarrow> r \<in> set ps \<Longrightarrow> cur_pri_of s r \<le> cur_pri_of s x"
          subgoal for ps x
            by (induction ps arbitrary: x) (use r(2) elect_pri_None in \<open>auto simp: elect_pri_Some split: option.splits if_splits\<close>)
          done
        then show ?thesis using Some r(1) by blast
      qed
      ultimately show ?thesis using p by simp
    qed
    then show ?thesis using q p by (intro exI [of _ "[]"] exI [of _ ps]) simp
  qed
qed simp

lemma elect_rr_find: "elect_rr s c ps = find (\<lambda>p. runnable s p \<and> cur_pri_of s p \<ge> c) ps"
  by (induction ps) auto

lemma elect_rr_in: "elect_rr s c ps = Some p \<Longrightarrow> p \<in> set ps \<and> runnable s p"
  by (induction ps) (auto split: if_splits)

lemma find_append: "find P (xs @ ys) = (case find P xs of None \<Rightarrow> find P ys | Some x \<Rightarrow> Some x)"
  by (induction xs) auto

text \<open>The two loops together search the circular list from the successor of the current process.\<close>

lemma elect_rr_rotate:
  assumes "distinct xs" "i < length xs"
  shows "(case find P (tl (dropWhile (\<lambda>q. q \<noteq> xs ! i) xs)) of None \<Rightarrow> find P xs | Some p \<Rightarrow> Some p) = find P (rotate (Suc i) xs)"
proof -
  have split: "xs = take i xs @ xs ! i # drop (Suc i) xs" using assms(2) by (simp add: id_take_nth_drop)
  moreover have "xs ! i \<notin> set (take i xs)" using assms by (auto simp: in_set_conv_nth nth_eq_iff_index_eq)
  then have "dropWhile (\<lambda>q. q \<noteq> xs ! i) (take i xs @ xs ! i # drop (Suc i) xs) = xs ! i # drop (Suc i) xs"
    by (subst dropWhile_append2) auto
  ultimately have tl: "tl (dropWhile (\<lambda>q. q \<noteq> xs ! i) xs) = drop (Suc i) xs" by simp
  have rot: "rotate (Suc i) xs = drop (Suc i) xs @ take (Suc i) xs"
    using assms(2) by (cases "Suc i = length xs") (auto simp: rotate_drop_take)
  have "find P xs = find P (take (Suc i) xs @ drop (Suc i) xs)" by simp
  then show ?thesis unfolding tl rot by (simp only: find_append) (auto split: option.splits)
qed

section \<open>Dispatch\<close>

lemma part_from_id_cong: "k_parts s = k_parts t \<Longrightarrow> part_id_map s = part_id_map t \<Longrightarrow> part_from_id s = part_from_id t"
  by (simp add: part_from_id_def [abs_def] part_id_key_of_def [abs_def])

lemma proc_run_spec:
  assumes p: "p < length (k_procs s)" and r: "proc_run past p s = OK (s', satp)"
  shows "ctx_pool s' = ctx_pool s" "pr_ctx_list (k_procs s ! p) = k_cpu_context s' # pr_ctx_list (k_procs s' ! p)"
    "k_cur_proc s' = k_cur_proc s" "k_cur_part s' = k_cur_part s" "map pr_state (k_procs s') = map pr_state (k_procs s)"
    "\<exists>pa. part_from_id s (pr_part_id (k_procs s ! p)) = Some pa
       \<and> (pa < length (k_parts s) \<longrightarrow> satp = satp_value (pa_cpus_asid (k_parts s' ! pa)) (pa_pgdir (k_parts s ! pa)))"
proof -
  obtain c cs where c: "pr_ctx_list (k_procs s ! p) = c # cs"
    using r by (cases "pr_ctx_list (k_procs s ! p)") (simp_all add: proc_run_def)
  define s2 where "s2 = upd_proc p (\<lambda>x. x\<lparr>pr_ctx_list := cs\<rparr>) ((ctx_free (k_cpu_context s) s)\<lparr>k_cpu_context := c\<rparr>)"
  define s3 where "s3 = upd_ctx c (\<lambda>x. x\<lparr>ctx_hartid := SYSCORE\<rparr>) s2"
  have run: "proc_run past p s = (case part_from_id s3 (pr_part_id (k_procs s3 ! p)) of
                None \<Rightarrow> PANIC
              | Some pa \<Rightarrow>
                  (if pa_cpus_asid_generation (k_parts s3 ! pa) < asid_get_generation (k_asid s3)
                   then case asid_renew 2 past (k_asid s3) of
                          None \<Rightarrow> PANIC
                        | Some (a, asid) \<Rightarrow>
                            (let s4 = upd_part pa (\<lambda>x. x\<lparr>pa_cpus_asid := asid, pa_cpus_asid_generation := asid_get_generation a\<rparr>)
                                   (s3\<lparr>k_asid := a\<rparr>)
                             in OK (s4, satp_value asid (pa_pgdir (k_parts s4 ! pa))))
                   else OK (s3, satp_value (pa_cpus_asid (k_parts s3 ! pa)) (pa_pgdir (k_parts s3 ! pa)))))"
    unfolding proc_run_def c by (simp only: list.case Let_def s3_def s2_def)
  have s2: "k_procs s2 = (k_procs s)[p := (k_procs s ! p)\<lparr>pr_ctx_list := cs\<rparr>]" "k_cpu_context s2 = c" "k_parts s2 = k_parts s"
    "k_ctx_free_list s2 = k_cpu_context s # k_ctx_free_list s" "k_cur_proc s2 = k_cur_proc s" "k_cur_part s2 = k_cur_part s"
    "part_id_map s2 = part_id_map s"
    by (simp_all add: s2_def upd_proc_def ctx_free_def)
  have frm: "part_from_id s3 (pr_part_id (k_procs s3 ! p)) = part_from_id s (pr_part_id (k_procs s ! p))"
    using part_from_id_cong [of s3 s] p s2 by (simp add: s3_def upd_ctx_def)
  have "mset (concat (map pr_ctx_list (k_procs s2))) + mset (c # cs) = mset (concat (map pr_ctx_list (k_procs s))) + mset cs"
    using concat_map_update [OF p, of pr_ctx_list "(k_procs s ! p)\<lparr>pr_ctx_list := cs\<rparr>"] c s2(1) by simp
  then have pool: "ctx_pool s3 = ctx_pool s" by (simp add: s3_def ctx_pool_def s2)
  have states: "map pr_state (k_procs s3) = map pr_state (k_procs s)"
    by (simp add: s3_def s2 map_update list_update_same_conv p)
  obtain pa where pa: "part_from_id s (pr_part_id (k_procs s ! p)) = Some pa" using r run frm by (auto split: option.splits)
  have fields: "k_procs s' = k_procs s3" "k_cpu_context s' = k_cpu_context s3" "k_ctx_free_list s' = k_ctx_free_list s3"
    "k_cur_proc s' = k_cur_proc s3" "k_cur_part s' = k_cur_part s3"
    and satp: "pa < length (k_parts s) \<Longrightarrow> satp = satp_value (pa_cpus_asid (k_parts s' ! pa)) (pa_pgdir (k_parts s ! pa))"
    using r unfolding run frm pa
    by (auto simp: Let_def upd_part_def s3_def upd_ctx_def s2 split: if_splits option.splits prod.splits)
  show "ctx_pool s' = ctx_pool s" using pool fields by (simp add: ctx_pool_def)
  show "pr_ctx_list (k_procs s ! p) = k_cpu_context s' # pr_ctx_list (k_procs s' ! p)"
    using c p fields by (simp add: s3_def s2)
  show "k_cur_proc s' = k_cur_proc s" "k_cur_part s' = k_cur_part s" "map pr_state (k_procs s') = map pr_state (k_procs s)"
    using fields states by (simp_all add: s3_def s2)
  show "\<exists>pa. part_from_id s (pr_part_id (k_procs s ! p)) = Some pa
       \<and> (pa < length (k_parts s) \<longrightarrow> satp = satp_value (pa_cpus_asid (k_parts s' ! pa)) (pa_pgdir (k_parts s ! pa)))"
    using pa satp by blast
qed

text \<open>No process but the current one is \<open>RUNNING\<close>; the lists of partitions name existing processes.\<close>

definition running_ok :: "kst \<Rightarrow> bool" where
  "running_ok s \<longleftrightarrow> (\<forall>q < length (k_procs s). pr_state (k_procs s ! q) = RUNNING \<longrightarrow> k_cur_proc s = Some q)"

definition lists_ok :: "kst \<Rightarrow> bool" where
  "lists_ok s \<longleftrightarrow> (\<forall>pa \<in> set (k_parts s). \<forall>p \<in> set (pa_proc_list pa). p < length (k_procs s))
     \<and> (\<forall>c. k_cur_proc s = Some c \<longrightarrow> c < length (k_procs s)) \<and> (\<forall>a. k_cur_part s = Some a \<longrightarrow> a < length (k_parts s))"

lemma elect_in_list:
  assumes "sched_elect_next_proc rr s = Some p"
  shows "p \<in> set (pa_proc_list (sched_cur_part s)) \<and> runnable s p"
proof (cases rr)
  case False
  then show ?thesis using assms elect_pri_first by (fastforce simp: sched_elect_next_proc_def)
next
  case True
  have "set (tl (dropWhile P xs)) \<subseteq> set xs" for P and xs :: "nat list"
    by (metis dropWhile_eq_drop drop_Suc set_drop_subset drop_drop tl_drop)
  then show ?thesis using True assms
    by (auto simp: sched_elect_next_proc_def Let_def split: option.splits dest!: elect_rr_in)
qed

text \<open>The state before the election: a running process is demoted.\<close>

definition demoted :: "kst \<Rightarrow> kst" where
  "demoted s = (case k_cur_proc s of None \<Rightarrow> s
     | Some c \<Rightarrow> if pr_state (k_procs s ! c) = RUNNING then upd_proc c (\<lambda>x. x\<lparr>pr_state := READY\<rparr>) s else s)"

lemma demoted_none_running:
  assumes "running_ok s" "q < length (k_procs (demoted s))"
  shows "pr_state (k_procs (demoted s) ! q) \<noteq> RUNNING"
  using assms by (auto simp: demoted_def running_ok_def nth_upd_proc split: option.splits if_splits)

lemma demoted_fields [simp]:
  "k_parts (demoted s) = k_parts s" "k_cur_part (demoted s) = k_cur_part s" "k_cur_proc (demoted s) = k_cur_proc s"
  "length (k_procs (demoted s)) = length (k_procs s)" "part_id_map (demoted s) = part_id_map s"
  by (auto simp: demoted_def split: option.split)

lemma demoted_proc:
  assumes "q < length (k_procs s)"
  shows "pr_ctx_list (k_procs (demoted s) ! q) = pr_ctx_list (k_procs s ! q)"
    "pr_part_id (k_procs (demoted s) ! q) = pr_part_id (k_procs s ! q)"
    "pr_cur_pri (k_procs (demoted s) ! q) = pr_cur_pri (k_procs s ! q)"
    "runnable (demoted s) q = runnable s q"
  using assms by (auto simp: demoted_def nth_upd_proc runnable_def split: option.split)

lemma demoted_pool:
  assumes "lists_ok s"
  shows "ctx_pool (demoted s) = ctx_pool s"
  using assms by (auto simp: demoted_def lists_ok_def ctx_pool_upd_proc split: option.split)

lemma sched_proc_unfold:
  "sched_proc past rr s = (case sched_elect_next_proc rr (demoted s) of
     None \<Rightarrow> OK (demoted s, None)
   | Some p \<Rightarrow> (case proc_run past p (upd_proc p (\<lambda>x. x\<lparr>pr_state := RUNNING\<rparr>) ((demoted s)\<lparr>k_cur_proc := Some p\<rparr>)) of
                OK (s2, satp) \<Rightarrow> OK (s2, Some satp) | ERR e \<Rightarrow> ERR e | PANIC \<Rightarrow> PANIC))"
  unfolding sched_proc_def demoted_def Let_def by (rule refl)

lemma sched_proc_dispatch:
  assumes ok: "running_ok s" "lists_ok s" "k_cur_part s \<noteq> None" and r: "sched_proc past rr s = OK (s', Some satp)"
  shows "\<exists>p. sched_elect_next_proc rr (demoted s) = Some p \<and> p \<in> set (pa_proc_list (sched_cur_part s)) \<and> runnable s p
    \<and> k_cur_proc s' = Some p \<and> p < length (k_procs s) \<and> length (k_procs s') = length (k_procs s)
    \<and> (\<forall>q < length (k_procs s'). pr_state (k_procs s' ! q) = RUNNING \<longleftrightarrow> q = p)
    \<and> pr_ctx_list (k_procs s ! p) = k_cpu_context s' # pr_ctx_list (k_procs s' ! p) \<and> ctx_pool s' = ctx_pool s
    \<and> (\<exists>pa. part_from_id s (pr_part_id (k_procs s ! p)) = Some pa
         \<and> (pa < length (k_parts s) \<longrightarrow> satp = satp_value (pa_cpus_asid (k_parts s' ! pa)) (pa_pgdir (k_parts s ! pa))))"
proof -
  obtain p where e: "sched_elect_next_proc rr (demoted s) = Some p"
    using r by (auto simp: sched_proc_unfold split: option.splits)
  define t where "t = upd_proc p (\<lambda>x. x\<lparr>pr_state := RUNNING\<rparr>) ((demoted s)\<lparr>k_cur_proc := Some p\<rparr>)"
  have run: "proc_run past p t = OK (s', satp)"
    using r e unfolding sched_proc_unfold t_def by (auto split: result.splits prod.splits)
  have "sched_cur_part (demoted s) = sched_cur_part s" by (simp add: sched_cur_part_def)
  then have p: "p \<in> set (pa_proc_list (sched_cur_part s))" "runnable (demoted s) p" using elect_in_list [OF e] by auto
  have "sched_cur_part s \<in> set (k_parts s)" using ok by (auto simp: lists_ok_def sched_cur_part_def)
  then have pl: "p < length (k_procs s)" using ok(2) p(1) by (auto simp: lists_ok_def)
  have lt: "length (k_procs t) = length (k_procs s)" "p < length (k_procs t)" using pl by (simp_all add: t_def)
  note R = proc_run_spec [OF lt(2) run]
  have len: "length (k_procs s') = length (k_procs s)" using R(5) lt(1) by (metis length_map)
  have "pr_state (k_procs s' ! q) = pr_state (k_procs t ! q)" if "q < length (k_procs s)" for q
    using R(5) that lt(1) len by (metis nth_map)
  moreover have "pr_state (k_procs t ! q) = RUNNING \<longleftrightarrow> q = p" if "q < length (k_procs s)" for q
    using that demoted_none_running [OF ok(1), of q] by (auto simp: t_def nth_upd_proc)
  ultimately have states: "\<forall>q < length (k_procs s'). pr_state (k_procs s' ! q) = RUNNING \<longleftrightarrow> q = p" by (simp add: len)
  have tp: "k_procs t ! p = (k_procs (demoted s) ! p)\<lparr>pr_state := RUNNING\<rparr>" using pl by (simp add: t_def)
  have pool: "ctx_pool t = ctx_pool s"
  proof -
    have "ctx_pool t = ctx_pool ((demoted s)\<lparr>k_cur_proc := Some p\<rparr>)" unfolding t_def using pl by (intro ctx_pool_upd_proc) simp_all
    also have "\<dots> = ctx_pool (demoted s)" by (simp add: ctx_pool_def)
    finally show ?thesis using demoted_pool [OF ok(2)] by simp
  qed
  have parts: "k_parts t = k_parts s" "part_id_map t = part_id_map s" by (simp_all add: t_def)
  then have "part_from_id t = part_from_id s" by (rule part_from_id_cong)
  then show ?thesis
    using e p pl states R len pool parts tp demoted_proc [OF pl]
    by (intro exI [of _ p]) (simp add: t_def)
qed

section \<open>The table of windows\<close>

text \<open>Windows that follow one another.\<close>

definition windows_ok :: "sched_module list \<Rightarrow> bool" where
  "windows_ok ms \<longleftrightarrow> (\<forall>m \<in> set ms. 0 \<le> sm_offset m \<and> 0 \<le> sm_duration m \<and> sm_offset m + sm_duration m < 2 ^ 63)
     \<and> sorted_wrt (\<lambda>m n. sm_offset m + sm_duration m \<le> sm_offset n) ms"

lemma sm_end_eq: "0 \<le> sm_offset m \<Longrightarrow> 0 \<le> sm_duration m \<Longrightarrow> sm_offset m + sm_duration m < 2 ^ 63 \<Longrightarrow> sm_end m = sm_offset m + sm_duration m"
  by (simp add: sm_end_def)

lemma windows_snoc:
  assumes ok: "windows_ok ms" and m: "0 \<le> sm_offset m" "0 \<le> sm_duration m" "sm_offset m + sm_duration m < 2 ^ 63"
    and le: "ms \<noteq> [] \<Longrightarrow> sm_end (last ms) \<le> sm_offset m"
  shows "windows_ok (ms @ [m])"
proof -
  have "sm_offset x + sm_duration x \<le> sm_offset m" if x: "x \<in> set ms" for x
  proof -
    have ne: "ms \<noteq> []" using x by auto
    then have l: "sm_offset (last ms) + sm_duration (last ms) \<le> sm_offset m" "0 \<le> sm_duration (last ms)"
      using le ok sm_end_eq [of "last ms"] by (auto simp: windows_ok_def)
    have "x = last ms \<or> x \<in> set (butlast ms)" using x append_butlast_last_id [OF ne] by (metis Un_iff empty_iff list.set(1) set_ConsD set_append)
    moreover have "sorted_wrt (\<lambda>m n. sm_offset m + sm_duration m \<le> sm_offset n) (butlast ms @ [last ms])"
      using ok ne by (simp add: windows_ok_def)
    then have "\<forall>y \<in> set (butlast ms). sm_offset y + sm_duration y \<le> sm_offset (last ms)" unfolding sorted_wrt_append by simp
    ultimately show ?thesis using l by auto
  qed
  then show ?thesis using ok m by (auto simp: windows_ok_def sorted_wrt_append)
qed

definition conf_ok :: "sched_conf \<Rightarrow> bool" where
  "conf_ok c \<longleftrightarrow> 0 \<le> sc_offset c \<and> 0 \<le> sc_duration c \<and> sc_offset c + sc_duration c < 2 ^ 63"

lemma sched_module_add_ok:
  assumes "windows_ok (k_modules s)" "conf_ok c"
  shows "windows_ok (k_modules (fst (sched_module_add c s)))"
  using assms windows_snoc [OF assms(1)]
  by (auto simp: sched_module_add_def conf_ok_def Let_def split: option.splits)

lemma fold_module_add_ok:
  "windows_ok (k_modules s) \<Longrightarrow> \<forall>c \<in> set cs. conf_ok c \<Longrightarrow> windows_ok (k_modules (fold (\<lambda>c s. fst (sched_module_add c s)) cs s))"
  by (induction cs arbitrary: s) (auto intro: sched_module_add_ok)

lemma time_event_alloc_sched [simp]:
  "k_modules (time_event_alloc now t ty s) = k_modules s" "k_major_frame (time_event_alloc now t ty s) = k_major_frame s"
  "k_cur_mod (time_event_alloc now t ty s) = k_cur_mod s" "k_sched_parts (time_event_alloc now t ty s) = k_sched_parts s"
  "k_parts (time_event_alloc now t ty s) = k_parts s" "k_cur_part (time_event_alloc now t ty s) = k_cur_part s"
  by (simp_all add: time_event_alloc_def Let_def)

text \<open>What \<open>sched_launch\<close> leaves in the table: every module with its first activation time.\<close>

definition launched :: "sys_time \<Rightarrow> sched_module \<Rightarrow> sched_module" where
  "launched now m = m\<lparr>sm_prev_act_time := swrap64 (now + sm_offset m)\<rparr>"

lemma launch_fold:
  "n \<le> length (k_modules s) \<Longrightarrow>
   k_modules (fold (launch_module clk now) [0..<n] s) = map (launched now) (take n (k_modules s)) @ drop n (k_modules s)
   \<and> k_major_frame (fold (launch_module clk now) [0..<n] s) = k_major_frame s
   \<and> k_cur_mod (fold (launch_module clk now) [0..<n] s) = k_cur_mod s
   \<and> k_parts (fold (launch_module clk now) [0..<n] s) = k_parts s
   \<and> k_sched_parts (fold (launch_module clk now) [0..<n] s) = k_sched_parts s"
proof (induction n)
  case (Suc n)
  let ?t = "fold (launch_module clk now) [0..<n] s"
  have IH: "k_modules ?t = map (launched now) (take n (k_modules s)) @ drop n (k_modules s)" using Suc by simp
  have at: "k_modules ?t ! n = k_modules s ! n" using IH Suc.prems by (simp add: nth_append)
  have "(map (launched now) (take n xs) @ drop n xs)[n := launched now (xs ! n)] = map (launched now) (take (Suc n) xs) @ drop (Suc n) xs"
    if "n < length xs" for xs
    using that by (simp add: list_update_append take_Suc_conv_app_nth Cons_nth_drop_Suc [symmetric])
  then have "(k_modules ?t)[n := launched now (k_modules s ! n)] = map (launched now) (take (Suc n) (k_modules s)) @ drop (Suc n) (k_modules s)"
    using IH Suc.prems by simp
  moreover have "k_modules (launch_module clk now n ?t) = (k_modules ?t)[n := launched now (k_modules s ! n)]"
    "k_major_frame (launch_module clk now n ?t) = k_major_frame ?t" "k_cur_mod (launch_module clk now n ?t) = k_cur_mod ?t"
    "k_parts (launch_module clk now n ?t) = k_parts ?t" "k_sched_parts (launch_module clk now n ?t) = k_sched_parts ?t"
    using at by (simp_all add: launch_module_def Let_def launched_def)
  moreover have "fold (launch_module clk now) [0..<Suc n] s = launch_module clk now n ?t" by simp
  ultimately show ?case using Suc.IH Suc.prems by (simp only: Suc_leD)
qed simp

lemma sched_launch_OK:
  assumes "sched_launch clk s = (s', OK ())"
  shows "s' = fold (launch_module clk (clk 0)) [0..<length (k_modules s)]
      (s\<lparr>k_major_frame := fold (\<lambda>p f. lcm_c f (pa_period (k_parts s ! p))) (k_sched_parts s) 1\<rparr>)"
    "\<forall>m \<in> set (k_modules s). sm_end m \<le> fold (\<lambda>p f. lcm_c f (pa_period (k_parts s ! p))) (k_sched_parts s) 1"
proof -
  define t where "t = s\<lparr>k_major_frame := fold (\<lambda>p f. lcm_c f (pa_period (k_parts s ! p))) (k_sched_parts s) 1\<rparr>"
  have t: "k_modules t = k_modules s" "k_major_frame t = fold (\<lambda>p f. lcm_c f (pa_period (k_parts s ! p))) (k_sched_parts s) 1"
    by (simp_all add: t_def)
  have "\<not> (\<exists>m \<in> set (k_modules s). sm_end m > k_major_frame t)" "s' = fold (launch_module clk (clk 0)) [0..<length (k_modules s)] t"
    using assms unfolding sched_launch_def Let_def t_def [symmetric] t(1) by (simp_all split: if_splits)
  then show "s' = fold (launch_module clk (clk 0)) [0..<length (k_modules s)]
      (s\<lparr>k_major_frame := fold (\<lambda>p f. lcm_c f (pa_period (k_parts s ! p))) (k_sched_parts s) 1\<rparr>)"
    "\<forall>m \<in> set (k_modules s). sm_end m \<le> fold (\<lambda>p f. lcm_c f (pa_period (k_parts s ! p))) (k_sched_parts s) 1"
    by (simp_all add: t_def not_less)
qed

lemma windows_launched: "windows_ok (map (launched now) ms) = windows_ok ms"
  by (auto simp: windows_ok_def launched_def sorted_wrt_map)

lemma lcm_fold:
  assumes "\<forall>p \<in> set ps. 0 < per p" "0 < f" "f * prod_list (map per ps) < 2 ^ 63"
  shows "let M = fold (\<lambda>p f. lcm_c f (per p)) ps f in 0 < M \<and> f dvd M \<and> (\<forall>p \<in> set ps. per p dvd M)"
  using assms
proof (induction ps arbitrary: f)
  case (Cons p ps)
  have pos: "0 < prod_list (map per ps)" using Cons.prems(1) by (induction ps) auto
  then have "f * per p \<le> f * per p * prod_list (map per ps)" using Cons.prems by simp
  moreover have big: "f * per p * prod_list (map per ps) < 2 ^ 63" using Cons.prems(3) by (simp add: mult.assoc)
  ultimately have "f * per p < 2 ^ 63" by linarith
  then have lcm: "lcm_c f (per p) = lcm f (per p)" using Cons.prems(1,2) lcm_c_eq [of f "per p"] by simp
  have "lcm f (per p) \<le> f * per p" using Cons.prems(1,2) by (intro zdvd_imp_le) (auto intro: lcm_least)
  then have "lcm f (per p) * prod_list (map per ps) \<le> f * per p * prod_list (map per ps)"
    using pos by (intro mult_right_mono) simp_all
  then have "lcm f (per p) * prod_list (map per ps) < 2 ^ 63" using big by linarith
  moreover have "0 < lcm f (per p)" using Cons.prems by (simp add: lcm_pos_int)
  ultimately have "let M = fold (\<lambda>p f. lcm_c f (per p)) ps (lcm f (per p)) in 0 < M \<and> lcm f (per p) dvd M \<and> (\<forall>p \<in> set ps. per p dvd M)"
    using Cons.IH [of "lcm f (per p)"] Cons.prems(1) by (simp only: list.set Ball_def) blast
  then show ?case using lcm by (auto simp: Let_def)
qed simp

section \<open>The cycle of windows\<close>

text \<open>
  The state of the cycle after \<open>r\<close> switches since a launch at time \<open>t0\<close>: the next module is
  number \<open>r mod n\<close>, and \<open>sm_prev_act_time\<close> is a whole number of major frames after the first
  activation.
\<close>

definition cycle_at :: "nat \<Rightarrow> sys_time \<Rightarrow> kst \<Rightarrow> bool" where
  "cycle_at r t0 s \<longleftrightarrow> (let n = length (k_modules s) in 0 < n
     \<and> k_cur_mod s = (if r = 0 then None else Some ((r - 1) mod n))
     \<and> (\<forall>i < n. sm_prev_act_time (k_modules s ! i)
           = t0 + sm_offset (k_modules s ! i) + k_major_frame s * int (r div n + (if i < r mod n then 1 else 0))))"

lemma next_index:
  assumes "0 < n"
  shows "(case (if r = 0 then None else Some ((r - 1) mod n)) of None \<Rightarrow> 0 | Some i \<Rightarrow> if Suc i = n then 0 else Suc i) = r mod n"
  using assms by (cases r) (auto simp: mod_Suc)

lemma div_mod_step:
  fixes n r i :: nat
  assumes "0 < n" "i < n"
  shows "Suc r div n + (if i < Suc r mod n then 1 else 0)
    = (if i = r mod n then Suc (r div n) else r div n + (if i < r mod n then 1 else 0))"
  using assms by (auto simp: mod_Suc div_Suc)

lemma cycle_at_launch:
  assumes "sched_launch clk s = (s', OK ())" "k_modules s \<noteq> []" "k_cur_mod s = None"
    "\<forall>m \<in> set (k_modules s). 0 \<le> sm_offset m \<and> 0 \<le> clk 0 \<and> clk 0 + sm_offset m < 2 ^ 63"
  shows "cycle_at 0 (clk 0) s'"
proof -
  define s1 where "s1 = s\<lparr>k_major_frame := fold (\<lambda>p f. lcm_c f (pa_period (k_parts s ! p))) (k_sched_parts s) 1\<rparr>"
  have s': "s' = fold (launch_module clk (clk 0)) [0..<length (k_modules s1)] s1"
    using sched_launch_OK(1) [OF assms(1)] by (simp add: s1_def)
  have "k_modules s' = map (launched (clk 0)) (k_modules s)" "k_cur_mod s' = None"
    unfolding s' using launch_fold [of "length (k_modules s1)" s1 clk "clk 0"] assms(3) by (simp_all add: s1_def)
  moreover have "swrap64 (clk 0 + sm_offset (k_modules s ! i)) = clk 0 + sm_offset (k_modules s ! i)" if "i < length (k_modules s)" for i
    using assms(4) nth_mem [OF that] by (intro swrap64_id) fastforce+
  ultimately show ?thesis using assms(2) by (auto simp: cycle_at_def Let_def launched_def)
qed

section \<open>Properties\<close>

text \<open>
  C14 (functional). Without round robin, the election returns the first process of the highest
  priority among those of the current partition that are ready or running, and goes on waiting
  exactly when there is none.
\<close>

theorem elect_highest_priority:
  "(sched_elect_next_proc False s = None \<longleftrightarrow> (\<forall>q \<in> set (pa_proc_list (sched_cur_part s)). \<not> runnable s q))
   \<and> (sched_elect_next_proc False s = Some p \<longrightarrow>
        (\<exists>as bs. pa_proc_list (sched_cur_part s) = as @ p # bs \<and> runnable s p
           \<and> (\<forall>q \<in> set as. runnable s q \<longrightarrow> cur_pri_of s q < cur_pri_of s p)
           \<and> (\<forall>q \<in> set bs. runnable s q \<longrightarrow> cur_pri_of s q \<le> cur_pri_of s p)))"
  using elect_pri_None [of s "pa_proc_list (sched_cur_part s)"] elect_pri_first [of s "pa_proc_list (sched_cur_part s)" p]
  by (simp add: sched_elect_next_proc_def)

definition example_proc :: "u64 \<Rightarrow> u64 \<Rightarrow> u64 \<Rightarrow> proc_state \<Rightarrow> nat list \<Rightarrow> proc" where
  "example_proc i part pri st ctxs = \<lparr>pr_xstacktop = 0, pr_ctx_list = ctxs, pr_name = ''p'', pr_id = i, pr_idx = i, pr_part_id = part,
     pr_ustacktop = 0, pr_ustacksize = 0, pr_entrypoint = 0, pr_base_pri = pri, pr_period = SYSTEM_TIME_INFINITE_VAL,
     pr_time_cap = 0, pr_deadline = 0, pr_cur_pri = pri, pr_deadline_time = 0, pr_state = st, pr_waiting_reason = PREVIOUS_STARTED,
     pr_core_id = SYSCORE, pr_asso_timer = None\<rparr>"

definition example_part :: "string \<Rightarrow> u64 \<Rightarrow> u64 \<Rightarrow> nat list \<Rightarrow> part" where
  "example_part name i pgdir procs = \<lparr>pa_name = name, pa_pgdir = pgdir, pa_cpus_asid = 0, pa_cpus_asid_generation = 1, pa_mem_req = 0x100000,
     pa_mem_rem = 0x100000, pa_ustasktop = USTKLIMIT, pa_xstacktop = XSTKLIMIT, pa_comm_base = COMM_BASE,
     pa_entrypoint = 0, pa_main_proc_stacksize = 0, pa_period = 50, pa_duration = 20, pa_id = i,
     pa_lock_level = 0, pa_op_mode = NORMAL, pa_start_cond = NORMAL_START, pa_num_cores = 1,
     pa_proc_name_map = HASHMAP_ALLOC 16, pa_buf_name_map = HASHMAP_ALLOC 64, pa_bb_name_map = HASHMAP_ALLOC 64,
     pa_proc_list = procs\<rparr>"

text \<open>Two partitions; the first has four processes, one of which has just become ready.\<close>

definition kst_sched :: kst where
  "kst_sched = kst0\<lparr>k_procs := [example_proc 1 1 5 RUNNING [], example_proc 2 1 9 WAITING [3], example_proc 3 1 7 READY [4],
       example_proc 4 1 7 READY [5]],
     k_parts := [example_part ''a'' 1 0x80200000 [0, 1, 2, 3], example_part ''b'' 2 0x80201000 []],
     part_id_map := hashmap_put hash_code_uint64 hash_eq_uint64 (\<lambda>i. of_nat i + 1) (HASHMAP_ALLOC 128) 0,
     k_cur_part := Some 0, k_cur_proc := Some 0, k_ctx_free_list := [1, 2], k_sched_parts := [0, 1],
     k_contexts := replicate 8 zero_context\<rparr>"

lemmas example_defs = kst_sched_def example_proc_def example_part_def kst0_def

lemma kst_sched_elect: "sched_elect_next_proc False kst_sched = Some 2"
  by (simp add: sched_elect_next_proc_def sched_cur_part_def example_defs runnable_def Let_def)

theorem elect_highest_priority_witness:
  "sched_elect_next_proc False kst_sched = Some 2 \<and> (\<exists>as bs. [0, 1, 2, 3] = as @ 2 # bs
      \<and> (\<forall>q \<in> set as. runnable kst_sched q \<longrightarrow> cur_pri_of kst_sched q < cur_pri_of kst_sched 2))"
proof -
  have "pa_proc_list (sched_cur_part kst_sched) = [0, 1, 2, 3]" by (simp add: sched_cur_part_def example_defs)
  then show ?thesis using elect_highest_priority [of kst_sched 2] kst_sched_elect by auto
qed

definition rr_eligible :: "kst \<Rightarrow> nat \<Rightarrow> bool" where
  "rr_eligible s q \<longleftrightarrow> runnable s q \<and> cur_pri_of s (sched_cur_proc s) \<le> cur_pri_of s q"

text \<open>
  C33 (functional). With round robin, the election takes the first process of at least the current
  priority that is ready or running, in circular order from the successor of the current process;
  it goes on waiting exactly when there is none.
\<close>

theorem elect_round_robin:
  assumes "distinct xs" "xs = pa_proc_list (sched_cur_part s)" "i < length xs" "k_cur_proc s = Some (xs ! i)"
  shows "(sched_elect_next_proc True s = None \<longleftrightarrow> (\<forall>q \<in> set xs. \<not> rr_eligible s q))
    \<and> (sched_elect_next_proc True s = Some p \<longleftrightarrow>
         (\<exists>k < length xs. p = xs ! ((Suc i + k) mod length xs) \<and> rr_eligible s p
            \<and> (\<forall>j < k. \<not> rr_eligible s (xs ! ((Suc i + j) mod length xs)))))"
proof -
  have eq: "sched_elect_next_proc True s = find (rr_eligible s) (rotate (Suc i) xs)"
    unfolding elect_rr_rotate [OF assms(1,3), symmetric] using assms(2,4)
    by (simp add: sched_elect_next_proc_def Let_def sched_cur_proc_def elect_rr_find rr_eligible_def [abs_def] cong: option.case_cong)
  have "find (rr_eligible s) (rotate (Suc i) xs) = Some p \<longleftrightarrow>
      (\<exists>k < length xs. p = xs ! ((Suc i + k) mod length xs) \<and> rr_eligible s p
         \<and> (\<forall>j < k. \<not> rr_eligible s (xs ! ((Suc i + j) mod length xs))))"
    unfolding find_Some_iff using assms(3) by (auto simp: nth_rotate simp del: rotate_Suc)
  then show ?thesis unfolding eq by (auto simp: find_None_iff simp del: rotate_Suc)
qed

theorem elect_round_robin_witness:
  "sched_elect_next_proc True (kst_sched\<lparr>k_cur_proc := Some 2\<rparr>) = Some 3
   \<and> sched_elect_next_proc True (kst_sched\<lparr>k_cur_proc := Some 3\<rparr>) = Some 2"
proof -
  have xs: "[0, 1, 2, 3] = pa_proc_list (sched_cur_part (kst_sched\<lparr>k_cur_proc := Some c\<rparr>))" for c
    by (simp add: sched_cur_part_def example_defs)
  have el: "rr_eligible (kst_sched\<lparr>k_cur_proc := Some c\<rparr>) 2" "rr_eligible (kst_sched\<lparr>k_cur_proc := Some c\<rparr>) 3"
    "\<not> rr_eligible (kst_sched\<lparr>k_cur_proc := Some c\<rparr>) 0" "\<not> rr_eligible (kst_sched\<lparr>k_cur_proc := Some c\<rparr>) 1"
    if "c = 2 \<or> c = 3" for c
    using that by (auto simp: example_defs runnable_def rr_eligible_def sched_cur_proc_def)
  have "sched_elect_next_proc True (kst_sched\<lparr>k_cur_proc := Some 2\<rparr>) = Some 3"
    using elect_round_robin [OF _ xs, of 2 2 3] el [of 2] by (simp del: xs [symmetric]) (auto intro!: exI [of _ 0])
  moreover have "sched_elect_next_proc True (kst_sched\<lparr>k_cur_proc := Some 3\<rparr>) = Some 2"
    using elect_round_robin [OF _ xs, of 3 3 2] el [of 3]
    by (simp del: xs [symmetric]) (auto simp: less_Suc_eq numeral_2_eq_2 intro!: exI [of _ 2])
  ultimately show ?thesis by simp
qed

text \<open>
  C15 (invariant). Dispatch: when \<open>sched_proc\<close> starts a process, that process is the one the election
  chose, it is the only one \<open>RUNNING\<close> in the whole system, the hart's trap context is the one on top
  of its stack, no context is lost or duplicated, and the address space is its partition's.
\<close>

theorem sched_proc_dispatches:
  assumes "running_ok s" "lists_ok s" "k_cur_part s \<noteq> None" "sched_proc past rr s = OK (s', Some satp)"
  shows "\<exists>p. sched_elect_next_proc rr (demoted s) = Some p \<and> runnable s p \<and> p \<in> set (pa_proc_list (sched_cur_part s))
    \<and> k_cur_proc s' = Some p \<and> running_ok s' \<and> pr_state (k_procs s' ! p) = RUNNING
    \<and> pr_ctx_list (k_procs s ! p) = k_cpu_context s' # pr_ctx_list (k_procs s' ! p) \<and> ctx_pool s' = ctx_pool s
    \<and> (\<exists>pa. part_from_id s (pr_part_id (k_procs s ! p)) = Some pa
         \<and> (pa < length (k_parts s) \<longrightarrow> satp = satp_value (pa_cpus_asid (k_parts s' ! pa)) (pa_pgdir (k_parts s ! pa))))"
proof -
  obtain p where P: "sched_elect_next_proc rr (demoted s) = Some p" "p \<in> set (pa_proc_list (sched_cur_part s))" "runnable s p"
    "k_cur_proc s' = Some p" "p < length (k_procs s)" "length (k_procs s') = length (k_procs s)"
    "\<forall>q < length (k_procs s'). pr_state (k_procs s' ! q) = RUNNING \<longleftrightarrow> q = p"
    "pr_ctx_list (k_procs s ! p) = k_cpu_context s' # pr_ctx_list (k_procs s' ! p)" "ctx_pool s' = ctx_pool s"
    "\<exists>pa. part_from_id s (pr_part_id (k_procs s ! p)) = Some pa
         \<and> (pa < length (k_parts s) \<longrightarrow> satp = satp_value (pa_cpus_asid (k_parts s' ! pa)) (pa_pgdir (k_parts s ! pa)))"
    using sched_proc_dispatch [OF assms] by blast
  moreover have "running_ok s'" using P(4,7) by (simp add: running_ok_def)
  moreover have "pr_state (k_procs s' ! p) = RUNNING" using P(5,6,7) by simp
  ultimately show ?thesis by blast
qed

lemma kst_sched_part: "part_from_id kst_sched 1 = Some 0"
proof -
  let ?hm = "hashmap_put hash_code_uint64 hash_eq_uint64 (\<lambda>i. of_nat i + 1) (HASHMAP_ALLOC 128) 0"
  have "part_id_key_of kst_sched n = of_nat n + 1" if "n \<in> set (hashmap_nodes ?hm)" for n
    using that hashmap_nodes_put [of hash_code_uint64 hash_eq_uint64 "\<lambda>i. of_nat i + 1" "HASHMAP_ALLOC 128" 0]
    by (auto simp: part_id_key_of_def kst_sched_def example_part_def)
  then have "hashmap_get hash_code_uint64 hash_eq_uint64 (part_id_key_of kst_sched) ?hm
      = hashmap_get hash_code_uint64 hash_eq_uint64 (\<lambda>i. of_nat i + 1) ?hm"
    by (intro hashmap_get_cong [OF hm64.put_ok [OF HASHMAP_ALLOC_ok]]) simp_all
  moreover have "part_id_map kst_sched = ?hm" by (simp add: kst_sched_def)
  ultimately have "part_from_id kst_sched = hashmap_get hash_code_uint64 hash_eq_uint64 (\<lambda>i. of_nat i + 1) ?hm"
    by (simp add: part_from_id_def [abs_def])
  then show ?thesis by (simp add: hm64.lookup_put HASHMAP_ALLOC_ok)
qed

theorem sched_proc_dispatches_witness:
  "\<exists>s' satp. sched_proc 0 False kst_sched = OK (s', Some satp) \<and> running_ok s' \<and> k_cur_proc s' = Some 2
    \<and> ctx_pool s' = ctx_pool kst_sched"
proof -
  have ok: "running_ok kst_sched" "lists_ok kst_sched" "k_cur_part kst_sched \<noteq> None"
    by (auto simp: running_ok_def lists_ok_def example_defs less_Suc_eq numeral_eq_Suc)
  have d: "demoted kst_sched = upd_proc 0 (\<lambda>x. x\<lparr>pr_state := READY\<rparr>) kst_sched" by (simp add: demoted_def example_defs)
  have e: "sched_elect_next_proc False (demoted kst_sched) = Some 2"
    unfolding d by (simp add: sched_elect_next_proc_def sched_cur_part_def example_defs runnable_def Let_def upd_proc_def)
  define t where "t = upd_proc 2 (\<lambda>x. x\<lparr>pr_state := RUNNING\<rparr>) ((demoted kst_sched)\<lparr>k_cur_proc := Some 2\<rparr>)"
  define t3 where "t3 = upd_ctx 4 (\<lambda>x. x\<lparr>ctx_hartid := SYSCORE\<rparr>)
      (upd_proc 2 (\<lambda>x. x\<lparr>pr_ctx_list := []\<rparr>) ((ctx_free (k_cpu_context t) t)\<lparr>k_cpu_context := 4\<rparr>))"
  have tp: "pr_ctx_list (k_procs t ! 2) = [4]" "pr_part_id (k_procs t3 ! 2) = 1" "k_parts t3 = k_parts kst_sched"
    "part_id_map t3 = part_id_map kst_sched" "k_asid t3 = asid_init 0xff"
    unfolding t3_def t_def d by (simp_all add: upd_proc_def ctx_free_def upd_ctx_def example_defs)
  have "part_from_id t3 1 = Some 0" using kst_sched_part part_from_id_cong [OF tp(3,4)] by simp
  then have "\<exists>s' satp. proc_run 0 2 t = OK (s', satp)"
    unfolding proc_run_def tp(1) list.case Let_def t3_def [symmetric] tp(2)
    by (simp add: tp(3,5) example_defs asid_init_def asid_get_generation_def Let_def)
  then obtain s' satp where r: "sched_proc 0 False kst_sched = OK (s', Some satp)"
    unfolding sched_proc_unfold e by (auto simp: t_def)
  from sched_proc_dispatches [OF ok r] e show ?thesis using r by auto
qed


text \<open>Two windows of the two partitions above; a third conf that overlaps the second is refused.\<close>

definition kst_windows :: kst where
  "kst_windows = kst_sched\<lparr>part_name_map := hashmap_put hash_code_str hash_eq_str (\<lambda>i. if i = 0 then ''a'' else ''b'')
     (hashmap_put hash_code_str hash_eq_str (\<lambda>i. if i = 0 then ''a'' else ''b'') (HASHMAP_ALLOC 128) 0) 1\<rparr>"
lemma part_from_name_cong: "k_parts s = k_parts t \<Longrightarrow> part_name_map s = part_name_map t \<Longrightarrow> part_from_name s = part_from_name t"
  by (simp add: part_from_name_def [abs_def] part_name_key_of_def [abs_def])

lemma kst_windows_parts: "part_from_name kst_windows ''a'' = Some 0" "part_from_name kst_windows ''b'' = Some 1"
proof -
  let ?k = "\<lambda>i :: nat. if i = 0 then ''a'' else ''b''"
  let ?h0 = "hashmap_put hash_code_str hash_eq_str ?k (HASHMAP_ALLOC 128) 0"
  let ?hm = "hashmap_put hash_code_str hash_eq_str ?k ?h0 1"
  have "part_name_key_of kst_windows n = ?k n" if "n \<in> set (hashmap_nodes ?hm)" for n
    using that hashmap_nodes_put [of hash_code_str hash_eq_str ?k ?h0 1]
      hashmap_nodes_put [of hash_code_str hash_eq_str ?k "HASHMAP_ALLOC 128" 0]
    by (auto simp: part_name_key_of_def kst_windows_def kst_sched_def example_part_def)
  then have "hashmap_get hash_code_str hash_eq_str (part_name_key_of kst_windows) ?hm = hashmap_get hash_code_str hash_eq_str ?k ?hm"
    by (intro hashmap_get_cong [OF hmstr.put_ok [OF hmstr.put_ok [OF HASHMAP_ALLOC_ok]]]) simp_all
  moreover have "part_name_map kst_windows = ?hm" by (simp add: kst_windows_def)
  ultimately have "part_from_name kst_windows = hashmap_get hash_code_str hash_eq_str ?k ?hm"
    by (simp add: part_from_name_def [abs_def])
  then show "part_from_name kst_windows ''a'' = Some 0" "part_from_name kst_windows ''b'' = Some 1"
    by (simp_all add: hmstr.lookup_put HASHMAP_ALLOC_ok hmstr.put_ok)
qed

lemma kst_windows_adds:
  "fold (\<lambda>c s. fst (sched_module_add c s))
     [\<lparr>sc_pa_name = ''a'', sc_offset = 0, sc_duration = 20\<rparr>, \<lparr>sc_pa_name = ''b'', sc_offset = 20, sc_duration = 10\<rparr>,
      \<lparr>sc_pa_name = ''a'', sc_offset = 25, sc_duration = 5\<rparr>] kst_windows
   = kst_windows\<lparr>k_modules := [\<lparr>sm_part = 0, sm_offset = 0, sm_duration = 20, sm_prev_act_time = 0\<rparr>,
       \<lparr>sm_part = 1, sm_offset = 20, sm_duration = 10, sm_prev_act_time = 0\<rparr>]\<rparr>"
proof -
  have "part_from_name (kst_windows\<lparr>k_modules := ms\<rparr>) = part_from_name kst_windows" for ms
    by (rule part_from_name_cong) simp_all
  moreover have "k_modules kst_windows = []" by (simp add: kst_windows_def example_defs)
  ultimately show ?thesis by (simp add: sched_module_add_def kst_windows_parts sm_end_def Let_def)
qed




end
