(* ===== verification/Loader.thy ===== *)
theory Loader
  imports Sched
begin

unbundle bit_operations_syntax

text \<open>
  Loading programs: \<^verbatim>\<open>lib/elfloader.c\<close> and the second half of \<^verbatim>\<open>kern/multitask/partition.c\<close>
  (\<open>prog_find_by_name\<close>, \<open>part_load_prog\<close>, \<open>part_create\<close>). The ELF images are linked into the kernel;
  \<open>img\<close> is the memory they lie in, read through the field offsets that the ELF64 format fixes (the C
  library's \<^verbatim>\<open>elf.h\<close>). A segment goes through a mapper callback page by page; the mapper of the kernel takes a
  frame, maps it and copies bytes into it. Physical memory is the word-addressed \<open>cells\<close> of the
  page-table theory, here with a byte view.
\<close>

section \<open>Bytes of physical memory\<close>

definition pbyte :: "(u64 \<Rightarrow> u64) \<Rightarrow> mem" where
  "pbyte c x = ucast (drop_bit (8 * unat (take_bit 3 x)) (c (x AND NOT (mask 3))))"

definition pbyte_set :: "(u64 \<Rightarrow> u64) \<Rightarrow> u64 \<Rightarrow> u8 \<Rightarrow> u64 \<Rightarrow> u64" where
  "pbyte_set c x b =
     (let w = x AND NOT (mask 3); k = 8 * unat (take_bit 3 x)
      in c(w := (c w AND NOT (push_bit k (mask 8))) OR push_bit k (ucast b)))"

text \<open>\<open>memcpy\<close> into physical memory.\<close>

fun pcopy :: "(u64 \<Rightarrow> u64) \<Rightarrow> u64 \<Rightarrow> u8 list \<Rightarrow> u64 \<Rightarrow> u64" where
  "pcopy c a [] = c"
| "pcopy c a (b # bs) = pcopy (pbyte_set c a b) (a + 1) bs"

section \<open>ELF64 structures\<close>

definition get16 :: "mem \<Rightarrow> u64 \<Rightarrow> u64" where "get16 m a = word_of (mem_read m a 2)"
definition get32 :: "mem \<Rightarrow> u64 \<Rightarrow> u64" where "get32 m a = word_of (mem_read m a 4)"
definition get64 :: "mem \<Rightarrow> u64 \<Rightarrow> u64" where "get64 m a = word_of (mem_read m a 8)"

record Elf64_Phdr =
  p_type :: u64
  p_flags :: u64
  p_offset :: u64
  p_vaddr :: u64
  p_filesz :: u64
  p_memsz :: u64

definition phdr_at :: "mem \<Rightarrow> u64 \<Rightarrow> Elf64_Phdr" where
  "phdr_at m a = \<lparr>p_type = get32 m a, p_flags = get32 m (a + 4), p_offset = get64 m (a + 8), p_vaddr = get64 m (a + 16),
     p_filesz = get64 m (a + 32), p_memsz = get64 m (a + 40)\<rparr>"

definition PT_LOAD :: u64 where "PT_LOAD = 1"
definition PF_X :: u64 where "PF_X = 1"
definition PF_W :: u64 where "PF_W = 2"
definition PF_R :: u64 where "PF_R = 4"
definition SHT_SYMTAB :: u64 where "SHT_SYMTAB = 2"
definition SHT_STRTAB :: u64 where "SHT_STRTAB = 3"
definition EM_RISCV :: u64 where "EM_RISCV = 243"

text \<open>
  \<open>elf64_from\<close>: the magic number, class, byte order, version and machine. The argument \<open>size\<close> is not
  used by the code.
\<close>

definition elf64_from :: "mem \<Rightarrow> u64 \<Rightarrow> u64 \<Rightarrow> u64 option" where
  "elf64_from img addr sz =
     (if addr mod 64 \<noteq> 0 then None
      else if img addr \<noteq> 0x7f \<or> img (addr + 1) \<noteq> 0x45 \<or> img (addr + 2) \<noteq> 0x4c \<or> img (addr + 3) \<noteq> 0x46 then None
      else if img (addr + 4) \<noteq> 2 then None
      else if img (addr + 5) \<noteq> 1 then None
      else if img (addr + 6) \<noteq> 1 then None
      else if get16 img (addr + 18) \<noteq> EM_RISCV then None
      else Some addr)"

text \<open>
  \<open>ELF_PHDR_ITER\<close> and \<open>ELF_SHDR_ITER\<close>: the addresses of the headers. A header size of 0 makes the loop
  condition divide by zero, which is \<open>None\<close>.
\<close>

definition elf_iter :: "u64 \<Rightarrow> u64 \<Rightarrow> u64 \<Rightarrow> u64 list option" where
  "elf_iter base entsize num =
     (if entsize = 0 then None else Some (map (\<lambda>k. base + of_nat k * entsize) [0..<unat num]))"

definition elf_phdrs :: "mem \<Rightarrow> u64 \<Rightarrow> u64 list option" where
  "elf_phdrs img ehdr = elf_iter (ehdr + get64 img (ehdr + 32)) (get16 img (ehdr + 54)) (get16 img (ehdr + 56))"

definition elf_shdrs :: "mem \<Rightarrow> u64 \<Rightarrow> u64 list option" where
  "elf_shdrs img ehdr = elf_iter (ehdr + get64 img (ehdr + 40)) (get16 img (ehdr + 58)) (get16 img (ehdr + 60))"

section \<open>Loading a segment\<close>

text \<open>A mapper gets the address, the offset in the page, the source (\<open>None\<close> for \<^verbatim>\<open>NULL\<close>) and its length.\<close>

type_synonym 's elf_mapper = "u64 \<Rightarrow> u64 \<Rightarrow> u64 option \<Rightarrow> u64 \<Rightarrow> 's \<Rightarrow> 's \<times> unit result"

text \<open>The two loops of \<open>elf64_load_prog\<close>; they leave the value of \<open>i\<close> they stop at.\<close>

fun load_file :: "nat \<Rightarrow> 's elf_mapper \<Rightarrow> u64 \<Rightarrow> u64 \<Rightarrow> u64 \<Rightarrow> u64 \<Rightarrow> 's \<Rightarrow> ('s \<times> u64 result) option" where
  "load_file 0 cb prog_addr elf_addr prog_size i s = None"
| "load_file (Suc fuel) cb prog_addr elf_addr prog_size i s =
     (if i < prog_size
      then let src_len = (if prog_size - i < PGSIZE_W then prog_size - i else PGSIZE_W)
           in case cb (prog_addr + i) 0 (Some (elf_addr + i)) src_len s of
                (s1, OK _) \<Rightarrow> load_file fuel cb prog_addr elf_addr prog_size (i + PGSIZE_W) s1
              | (s1, ERR e) \<Rightarrow> Some (s1, ERR e)
              | (s1, PANIC) \<Rightarrow> Some (s1, PANIC)
      else Some (s, OK i))"

fun load_zero :: "nat \<Rightarrow> 's elf_mapper \<Rightarrow> u64 \<Rightarrow> u64 \<Rightarrow> u64 \<Rightarrow> 's \<Rightarrow> ('s \<times> unit result) option" where
  "load_zero 0 cb prog_addr mem_size i s = None"
| "load_zero (Suc fuel) cb prog_addr mem_size i s =
     (if i < mem_size
      then case cb (prog_addr + i) 0 None 0 s of
             (s1, OK _) \<Rightarrow> load_zero fuel cb prog_addr mem_size (i + PGSIZE_W) s1
           | (s1, ERR e) \<Rightarrow> Some (s1, ERR e)
           | (s1, PANIC) \<Rightarrow> Some (s1, PANIC)
      else Some (s, OK ()))"

definition elf64_load_prog :: "Elf64_Phdr \<Rightarrow> u64 \<Rightarrow> 's elf_mapper \<Rightarrow> 's \<Rightarrow> ('s \<times> unit result) option" where
  "elf64_load_prog phdr elf_addr cb s =
     (let prog_addr = p_vaddr phdr; prog_size = p_filesz phdr; mem_size = p_memsz phdr;
          offset = prog_addr - align_down prog_addr PGSIZE_W;
          src_len = (if prog_size < PGSIZE_W - offset then prog_size else PGSIZE_W - offset)
      in case (if offset \<noteq> 0 then cb prog_addr offset (Some elf_addr) src_len s else (s, OK ())) of
           (s1, OK _) \<Rightarrow>
             (case load_file PG_FUEL cb prog_addr elf_addr prog_size (if offset \<noteq> 0 then src_len else 0) s1 of
                None \<Rightarrow> None
              | Some (s2, OK i) \<Rightarrow> load_zero PG_FUEL cb prog_addr mem_size i s2
              | Some (s2, ERR e) \<Rightarrow> Some (s2, ERR e)
              | Some (s2, PANIC) \<Rightarrow> Some (s2, PANIC))
         | (s1, ERR e) \<Rightarrow> Some (s1, ERR e)
         | (s1, PANIC) \<Rightarrow> Some (s1, PANIC))"

section \<open>Loading a program\<close>

record prog_def_t =
  pg_name :: string
  pg_elf_bin :: u64
  pg_elf_size :: u64

fun prog_find_by_name :: "prog_def_t list \<Rightarrow> string \<Rightarrow> prog_def_t option" where
  "prog_find_by_name [] prog_name = None"
| "prog_find_by_name (p # ps) prog_name = (if pg_name p = prog_name then Some p else prog_find_by_name ps prog_name)"

definition segment_perm :: "Elf64_Phdr \<Rightarrow> u64" where
  "segment_perm phdr = 0x11 OR (if p_flags phdr AND PF_X \<noteq> 0 then 8 else 0)
     OR (if p_flags phdr AND PF_W \<noteq> 0 then 4 else 0) OR (if p_flags phdr AND PF_R \<noteq> 0 then 2 else 0)"

definition part_load_prog_mapper :: "mem \<Rightarrow> nat \<Rightarrow> Elf64_Phdr \<Rightarrow> kst elf_mapper" where
  "part_load_prog_mapper img part phdr va offset src src_len s =
     (case part_pt_alloc part va (segment_perm phdr) s of
        (s1, OK pa) \<Rightarrow>
          (case src of
             Some a \<Rightarrow> (s1\<lparr>k_mm := (k_mm s1)\<lparr>cells := pcopy (cells (k_mm s1)) (pa + offset) (mem_read img a (unat src_len))\<rparr>\<rparr>, OK ())
           | None \<Rightarrow> (s1, OK ()))
      | (s1, ERR e) \<Rightarrow> (s1, ERR e)
      | (s1, PANIC) \<Rightarrow> (s1, PANIC))"

text \<open>The loop over the program headers; other types of segment are passed over.\<close>

fun load_segments :: "mem \<Rightarrow> nat \<Rightarrow> u64 \<Rightarrow> u64 list \<Rightarrow> kst \<Rightarrow> (kst \<times> unit result) option" where
  "load_segments img part bin [] s = Some (s, OK ())"
| "load_segments img part bin (a # as) s =
     (let phdr = phdr_at img a
      in if p_type phdr = PT_LOAD
         then case elf64_load_prog phdr (bin + p_offset phdr) (part_load_prog_mapper img part phdr) s of
                Some (s1, OK _) \<Rightarrow> load_segments img part bin as s1
              | r \<Rightarrow> r
         else load_segments img part bin as s)"

text \<open>The first string table, and the symbol that holds the top of the main process's stack.\<close>

definition sh_type :: "mem \<Rightarrow> u64 \<Rightarrow> u64" where "sh_type img a = get32 img (a + 4)"
definition sh_offset :: "mem \<Rightarrow> u64 \<Rightarrow> u64" where "sh_offset img a = get64 img (a + 24)"
definition sh_size :: "mem \<Rightarrow> u64 \<Rightarrow> u64" where "sh_size img a = get64 img (a + 32)"
definition sh_entsize :: "mem \<Rightarrow> u64 \<Rightarrow> u64" where "sh_entsize img a = get64 img (a + 56)"

definition find_strtab :: "mem \<Rightarrow> u64 \<Rightarrow> u64 list \<Rightarrow> u64 option" where
  "find_strtab img bin shdrs = map_option (\<lambda>a. bin + sh_offset img a) (find (\<lambda>a. sh_type img a = SHT_STRTAB) shdrs)"

definition str_at :: "mem \<Rightarrow> u64 \<Rightarrow> string \<Rightarrow> bool" where
  "str_at m a n \<longleftrightarrow> mem_read m a (Suc (length n)) = map of_char n @ [0]"

definition UMAINSTKTOP_SYM :: string where "UMAINSTKTOP_SYM = ''_main_proc_stacktop''"

definition find_sym :: "mem \<Rightarrow> u64 \<Rightarrow> u64 \<Rightarrow> nat \<Rightarrow> u64 option" where
  "find_sym img strtab symtab num =
     map_option (\<lambda>a. get64 img (a + 8))
       (find (\<lambda>a. str_at img (strtab + get32 img a) UMAINSTKTOP_SYM) (map (\<lambda>k. symtab + of_nat k * 24) [0..<num]))"

fun main_stacktop :: "mem \<Rightarrow> u64 \<Rightarrow> u64 \<Rightarrow> u64 list \<Rightarrow> u64 \<Rightarrow> u64 option" where
  "main_stacktop img bin strtab [] stktop = Some stktop"
| "main_stacktop img bin strtab (a # as) stktop =
     (if sh_type img a = SHT_SYMTAB
      then if sh_entsize img a = 0 then None
           else case find_sym img strtab (bin + sh_offset img a) (unat (sh_size img a div sh_entsize img a)) of
                  Some v \<Rightarrow> main_stacktop img bin strtab as v
                | None \<Rightarrow> main_stacktop img bin strtab as stktop
      else main_stacktop img bin strtab as top)"

definition part_load_prog :: "mem \<Rightarrow> nat \<Rightarrow> prog_def_t \<Rightarrow> kst \<Rightarrow> (kst \<times> unit result) option" where
  "part_load_prog img part prog s =
     (let bin = pg_elf_bin prog
      in case elf64_from img bin (pg_elf_size prog) of
           None \<Rightarrow> Some (s, ERR KER_ELF_ER)
         | Some ehdr \<Rightarrow>
             do {
               phdrs \<leftarrow> elf_phdrs img ehdr;
               (s1, r) \<leftarrow> load_segments img part bin phdrs s;
               case r of
                 OK _ \<Rightarrow>
                   do {
                     shdrs \<leftarrow> elf_shdrs img ehdr;
                     case find_strtab img bin shdrs of
                       None \<Rightarrow> Some (s1, ERR KER_ELF_ER)
                     | Some strtab \<Rightarrow>
                         do {
                           stktop \<leftarrow> main_stacktop img bin strtab shdrs 0;
                           if stktop > USTKLIMIT then Some (s1, ERR KER_ELF_ER)
                           else Some (upd_part part (\<lambda>x. x\<lparr>pa_main_proc_stacksize := USTKLIMIT - stktop,
                                  pa_entrypoint := get64 img (ehdr + 24)\<rparr>) s1, OK ())
                         }
                   }
               | _ \<Rightarrow> Some (s1, r)
             })"

section \<open>Creating a partition\<close>

text \<open>What a partition sees at an address that user mode may access: permission bits and the byte.\<close>

definition upage :: "kst \<Rightarrow> nat \<Rightarrow> u64 \<Rightarrow> u64 option" where
  "upage s part x = (case xlate (cells (k_mm s)) (pa_pgdir (k_parts s ! part)) x of
     Some w \<Rightarrow> if bit w 4 then Some w else None | None \<Rightarrow> None)"

definition ubyte :: "kst \<Rightarrow> nat \<Rightarrow> u64 \<Rightarrow> (u64 \<times> u8) option" where
  "ubyte s part x =
     map_option (\<lambda>w. (take_bit 10 w, pbyte (cells (k_mm s)) (pte2pa w + take_bit 12 x))) (upage s part x)"

definition part_view :: "kst \<Rightarrow> nat \<Rightarrow> mem" where
  "part_view s part x = (case ubyte s part x of Some (_, b) \<Rightarrow> b | None \<Rightarrow> 0)"

text \<open>
  \<open>pc_name\<close> to \<open>pc_duration\<close> are the members \<open>pa_name\<close> to \<open>pa_duration\<close> of \<open>struct part_conf\<close>. The memory the
  partition starts with, which the handlers read and write as \<open>k_part_mem\<close>, is what its page
  table shows.
\<close>

record part_conf =
  pc_name :: string
  pc_prog :: string
  pc_mem_req :: u64
  pc_period :: sys_time
  pc_duration :: sys_time

definition part_create :: "prog_def_t list \<Rightarrow> mem \<Rightarrow> part_conf \<Rightarrow> kst \<Rightarrow> (kst \<times> unit result) option" where
  "part_create progs img conf s =
     (case prog_find_by_name progs (pc_prog conf) of
        None \<Rightarrow> Some (s, ERR KER_PART_ER)
      | Some prog_def \<Rightarrow>
          (case part_alloc (pc_name conf) (pc_mem_req conf) (pc_period conf) (pc_duration conf) s of
             (s1, OK part) \<Rightarrow>
               (case part_load_prog img part prog_def s1 of
                  None \<Rightarrow> None
                | Some (s2, OK _) \<Rightarrow>
                    (case proc_alloc part ''main'' 0 0 (pa_entrypoint (k_parts s2 ! part))
                        (pa_main_proc_stacksize (k_parts s2 ! part)) 0 SOFT s2 of
                       (s3, OK main_proc) \<Rightarrow>
                         (let s4 = upd_proc main_proc (\<lambda>x. x\<lparr>pr_state := READY\<rparr>) s3;
                              s5 = s4\<lparr>k_part_mem := (k_part_mem s4)(part := part_view s4 part)\<rparr>
                          in Some (sched_add_part part s5, OK ()))
                     | (s3, ERR e) \<Rightarrow> Some (s3, ERR e)
                     | (s3, PANIC) \<Rightarrow> Some (s3, PANIC))
                | Some (s2, _) \<Rightarrow> Some (s2, PANIC))
           | (s1, ERR e) \<Rightarrow> Some (s1, ERR e)
           | (s1, PANIC) \<Rightarrow> Some (s1, PANIC)))"

section \<open>Bytes and words of physical memory\<close>

lemma pbyte_same_word:
  fixes x y :: u64
  assumes "x AND NOT (mask 3) = y AND NOT (mask 3)" "take_bit 3 x = take_bit 3 y"
  shows "x = y"
proof (rule bit_word_eqI)
  fix n
  show "bit x n \<longleftrightarrow> bit y n"
    using arg_cong [OF assms(1), of "\<lambda>w. bit w n"] arg_cong [OF assms(2), of "\<lambda>w. bit w n"]
    by (cases "n < 3") (auto simp: bit_simps dest: bit_imp_le_length)
qed

lemma pbyte_set: "pbyte (pbyte_set c x b) y = (if y = x then b else pbyte c y)"
proof (cases "x AND NOT (mask 3) = y AND NOT (mask 3)")
  case True
  define k j where "k = unat (take_bit 3 x)" and "j = unat (take_bit 3 y)"
  have kj: "k < 8" "j < 8" using unsigned_take_bit_eq [of 3 x, where 'a = nat] unsigned_take_bit_eq [of 3 y, where 'a = nat]
    by (simp_all add: k_def j_def unsigned_take_bit_eq take_bit_eq_mod)
  have "k = j \<longleftrightarrow> x = y" using pbyte_same_word [OF True] by (metis k_def j_def word_unat_eq_iff)
  moreover have "ucast (drop_bit (8 * j) (c w AND NOT (push_bit (8 * k) (mask 8)) OR push_bit (8 * k) (ucast b)))
      = (if k = j then b else (ucast (drop_bit (8 * j) (c w)) :: u8))" for w
  proof (rule bit_word_eqI)
    fix n assume "n < LENGTH(8)"
    then have n: "n < 8" by simp
    have "8 * k \<le> 8 * j + n \<and> 8 * j + n - 8 * k < 8 \<longleftrightarrow> k = j" using n by auto
    then show "bit (ucast (drop_bit (8 * j) (c w AND NOT (push_bit (8 * k) (mask 8)) OR push_bit (8 * k) (ucast b))) :: u8) n
      \<longleftrightarrow> bit (if k = j then b else ucast (drop_bit (8 * j) (c w))) n"
      using n kj by (auto simp: bit_simps dest: bit_imp_le_length)
  qed
  ultimately show ?thesis using True by (simp add: pbyte_def pbyte_set_def Let_def k_def j_def)
qed (auto simp: pbyte_def pbyte_set_def Let_def)

lemma pbyte_pcopy: "length bs \<le> 2 ^ 64 \<Longrightarrow> pbyte (pcopy c a bs) = mem_write (pbyte c) a bs"
proof (induction bs arbitrary: c a)
  case Nil
  then show ?case by (simp add: mem_write_def)
next
  case (Cons b bs)
  have one: "pbyte (pbyte_set c a b) = mem_write (pbyte c) a [b]"
    by (rule ext) (auto simp: pbyte_set mem_write_def unat_eq_zero)
  show ?case
    using Cons.IH [of "pbyte_set c a b" "a + 1"] Cons.prems mem_write_append [of "[b]" bs "pbyte c" a] by (simp add: one)
qed

lemma pcopy_outside:
  assumes "\<And>i. i < length bs \<Longrightarrow> (a + of_nat i) AND NOT (mask 3) \<noteq> y"
  shows "pcopy c a bs y = c y"
  using assms
proof (induction bs arbitrary: c a)
  case (Cons b bs)
  have "(a + 1 + of_nat i) AND NOT (mask 3) \<noteq> y" if "i < length bs" for i
    using Cons.prems [of "Suc i"] that by (simp add: add.assoc)
  moreover have "a AND NOT (mask 3) \<noteq> y" using Cons.prems [of 0] by simp
  ultimately show ?case using Cons.IH [of "a + 1"] by (simp add: pbyte_set_def Let_def)
qed simp

text \<open>Addresses within a page.\<close>

lemma in_page_div:
  assumes "page_ok p"
  shows "in_page p x \<longleftrightarrow> unat x div 4096 = unat p div 4096"
proof -
  obtain k where k: "unat p = 4096 * k" using page_ok_nat(1) [OF assms] by (meson dvdE mod_0_imp_dvd)
  have "unat (x - p) = (if unat p \<le> unat x then unat x - unat p else unat x + 2 ^ 64 - unat p)"
    by (subst unat_sub_if_size) (simp add: word_size)
  then show ?thesis
    using page_ok_nat(2) [OF assms] k by (auto simp: in_page_def layout_simps word_less_nat_alt)
qed

lemma page_add:
  assumes "page_ok p" "unat d < 4096"
  shows "unat (p + d) = unat p + unat d" "in_page p (p + d)"
proof -
  show 1: "unat (p + d) = unat p + unat d" using page_ok_nat(2) [OF assms(1)] assms(2) by (simp add: unat_word_ariths)
  obtain k where "unat p = 4096 * k" using page_ok_nat(1) [OF assms(1)] by (meson dvdE mod_0_imp_dvd)
  then show "in_page p (p + d)" using assms 1 by (simp add: in_page_div)
qed

lemma unat_drop_bit_div: "unat (drop_bit n (x :: u64)) = unat x div 2 ^ n"
  unfolding unsigned_drop_bit_eq using take_bit_nat_eq_self [OF unat_lt64, of x] by (simp add: drop_bit_eq_div)

lemma in_page_word:
  assumes "page_ok p"
  shows "in_page p (x AND NOT (mask 3)) = in_page p x"
proof -
  have "drop_bit 12 (x AND NOT (mask 3)) = drop_bit 12 x"
    by (rule bit_word_eqI) (auto simp: bit_simps dest: bit_imp_le_length)
  then have "unat (x AND NOT (mask 3)) div 2 ^ 12 = unat x div 2 ^ 12" by (metis unat_drop_bit_div)
  then show ?thesis using assms by (simp add: in_page_div)
qed

lemma in_page_disjoint:
  assumes "page_ok p" "page_ok q" "in_page p x" "in_page q x"
  shows "p = q"
proof -
  have "unat p div 4096 = unat q div 4096" using assms in_page_div by metis
  then show ?thesis using page_ok_nat(1) [OF assms(1)] page_ok_nat(1) [OF assms(2)]
    by (metis div_mult_mod_eq word_unat_eq_iff)
qed

section \<open>What a mapper promises, and what loading does with it\<close>

text \<open>The byte a freshly mapped page shows at offset \<open>d\<close>.\<close>

definition page_byte :: "mem \<Rightarrow> u64 \<Rightarrow> u64 option \<Rightarrow> u64 \<Rightarrow> u64 \<Rightarrow> u8" where
  "page_byte img offset src len d =
     (case src of
        Some a \<Rightarrow> if unat offset \<le> unat d \<and> unat d < unat offset + unat len then img (a + (d - offset)) else 0
      | None \<Rightarrow> 0)"

lemma unat_take_bit_12: "unat (take_bit 12 (x :: u64)) = unat x mod 4096"
  unfolding unsigned_take_bit_eq by (simp add: take_bit_eq_mod)

lemma same_page_div:
  assumes "unat x < 2 ^ 39" "unat y < 2 ^ 39"
  shows "same_page x y \<longleftrightarrow> unat x div 4096 = unat y div 4096"
proof -
  have v: "unat (va_vpn l z) = unat z div 2 ^ (12 + 9 * l) mod 512" for l and z :: u64
    unfolding va_vpn_def unsigned_take_bit_eq unat_drop_bit_div by (simp add: take_bit_eq_mod)
  have split: "p = (p div 262144 mod 512) * 262144 + (p div 512 mod 512) * 512 + p mod 512" if "p < 2 ^ 27" for p :: nat
  proof -
    have "p div 262144 mod 512 = p div 262144" using that by (simp add: less_mult_imp_div_less)
    moreover have "p div 512 = (p div 262144) * 512 + p div 512 mod 512"
      using div_mult_mod_eq [of "p div 512" 512] by (simp add: div_mult2_eq [symmetric])
    ultimately show ?thesis using div_mult_mod_eq [of p 512] by linarith
  qed
  define p q where "p = unat x div 4096" and "q = unat y div 4096"
  have pq: "p < 2 ^ 27" "q < 2 ^ 27" using assms by (simp_all add: p_def q_def less_mult_imp_div_less)
  have "same_page x y \<longleftrightarrow> p div 262144 mod 512 = q div 262144 mod 512 \<and> p div 512 mod 512 = q div 512 mod 512 \<and> p mod 512 = q mod 512"
    unfolding same_page_def word_unat_eq_iff v p_def q_def div_mult2_eq [symmetric] by simp
  also have "\<dots> \<longleftrightarrow> p = q" using split [OF pq(1)] split [OF pq(2)] by metis
  finally show ?thesis by (simp add: p_def q_def)
qed

locale segment_mapper =
  fixes cb :: "'s elf_mapper" and img :: mem and ok :: "'s \<Rightarrow> bool" and unmapped :: "'s \<Rightarrow> u64 \<Rightarrow> bool"
    and view :: "'s \<Rightarrow> u64 \<Rightarrow> (u64 \<times> u8) option" and room :: "'s \<Rightarrow> nat" and perm :: u64
  assumes cb_law: "ok s \<Longrightarrow> unmapped s va \<Longrightarrow> unat offset + unat len \<le> 4096 \<Longrightarrow> cb va offset src len s = (s', r) \<Longrightarrow>
      (r \<noteq> OK () \<and> room s = 0)
      \<or> (r = OK () \<and> ok s' \<and> room s \<le> Suc (room s')
          \<and> (\<forall>x. view s' x = (if same_page va x then Some (perm, page_byte img offset src len (take_bit 12 x)) else view s x))
          \<and> (\<forall>x. unmapped s' x \<longleftrightarrow> unmapped s x \<and> \<not> same_page va x))"
begin

text \<open>The user addresses from \<open>a\<close> up to \<open>b\<close> were unmapped and show the bytes \<open>g\<close> now; others are as they were.\<close>

definition filled :: "nat \<Rightarrow> nat \<Rightarrow> (u64 \<Rightarrow> u8) \<Rightarrow> 's \<Rightarrow> 's \<Rightarrow> bool" where
  "filled a b g s s' \<longleftrightarrow> ok s' \<and> a \<le> b \<and> room s \<le> room s' + (b - a) div 4096
     \<and> (\<forall>x. unat x < 2 ^ 39 \<longrightarrow> view s' x = (if a \<le> unat x \<and> unat x < b then Some (perm, g x) else view s x)
          \<and> (unmapped s' x \<longleftrightarrow> unmapped s x \<and> \<not> (a \<le> unat x \<and> unat x < b)))"

lemma filled_refl: "ok s \<Longrightarrow> filled a a g s s"
  by (auto simp: filled_def)

lemma filled_trans:
  assumes "filled a b g s s1" "filled b c g s1 s2" "4096 dvd b - a"
  shows "filled a c g s s2"
proof -
  obtain k where k: "b - a = 4096 * k" using assms(3) by blast
  moreover have "a \<le> b" "b \<le> c" using assms(1,2) by (simp_all add: filled_def)
  ultimately have "c - a = 4096 * k + (c - b)" by simp
  then have "(c - a) div 4096 = (b - a) div 4096 + (c - b) div 4096" using k by simp
  then show ?thesis using assms(1,2) unfolding filled_def by (auto split: if_splits)
qed

lemma cb_fills:
  assumes "ok s" "4096 dvd a" "a + 4096 \<le> 2 ^ 39" "a \<le> unat va" "unat va < a + 4096" "unat offset + unat len \<le> 4096"
    and "\<And>x. a \<le> unat x \<Longrightarrow> unat x < a + 4096 \<Longrightarrow> unmapped s x \<and> g x = page_byte img offset src len (take_bit 12 x)"
    and r: "cb va offset src len s = (s', r)"
  shows "(r \<noteq> OK () \<and> room s = 0) \<or> (r = OK () \<and> filled a (a + 4096) g s s')"
proof -
  obtain k where k: "a = 4096 * k" using assms(2) by blast
  have "same_page va x \<longleftrightarrow> a \<le> unat x \<and> unat x < a + 4096" if "unat x < 2 ^ 39" for x
  proof -
    have "unat va div 4096 = k" using assms(4,5) k by simp
    then have "same_page va x \<longleftrightarrow> unat x div 4096 = k" using same_page_div [of va x] that assms(3,5) by auto
    then show ?thesis using k by auto
  qed
  then show ?thesis
    using cb_law [OF assms(1) _ assms(6) r] assms(4,5,7) unfolding filled_def by auto
qed

end

context segment_mapper
begin

lemma load_zero_fills:
  assumes "ok s" "4096 dvd unat prog_addr + unat i" "n = (unat mem_size - unat i + 4095) div 4096" "n < fuel"
    "unat prog_addr + unat i + 4096 * n \<le> 2 ^ 39"
    "\<And>x. unat prog_addr + unat i \<le> unat x \<Longrightarrow> unat x < unat prog_addr + unat i + 4096 * n \<Longrightarrow> unmapped s x \<and> g x = 0"
  shows "\<exists>s' r. load_zero fuel cb prog_addr mem_size i s = Some (s', r)
    \<and> ((r \<noteq> OK () \<and> room s < n) \<or> (r = OK () \<and> filled (unat prog_addr + unat i) (unat prog_addr + unat i + 4096 * n) g s s'))"
  using assms
proof (induction n arbitrary: i s fuel)
  case 0
  then obtain k where "fuel = Suc k" by (cases fuel) auto
  then show ?case using 0 filled_refl [OF 0(1)] by (simp add: word_less_nat_alt div_eq_0_iff)
next
  case (Suc n)
  let ?a = "unat prog_addr + unat i"
  obtain k where k: "fuel = Suc k" "n < k" using Suc.prems(4) by (cases fuel) auto
  have lt: "unat i < unat mem_size" using Suc.prems(3) by (cases "unat i < unat mem_size") auto
  have va: "unat (prog_addr + i) = ?a" using Suc.prems(5) by (simp add: unat_word_ariths)
  have i': "unat (i + PGSIZE_W) = unat i + 4096" using Suc.prems(5) by (simp add: unat_word_ariths layout_simps)
  obtain s1 r1 where c: "cb (prog_addr + i) 0 None 0 s = (s1, r1)" by fastforce
  have "(r1 \<noteq> OK () \<and> room s = 0) \<or> (r1 = OK () \<and> filled ?a (?a + 4096) g s s1)"
    using Suc.prems(5,6) by (intro cb_fills [OF Suc.prems(1,2) _ _ _ _ _ c]) (auto simp: va page_byte_def)
  then show ?case
  proof (elim disjE conjE)
    assume "r1 \<noteq> OK ()" "room s = 0"
    then show ?thesis using c k lt by (cases r1) (auto simp: word_less_nat_alt)
  next
    assume f: "r1 = OK ()" "filled ?a (?a + 4096) g s s1"
    have "unmapped s1 x \<and> g x = 0" if "?a + 4096 \<le> unat x" "unat x < ?a + 4096 + 4096 * n" for x
      using f(2) that Suc.prems(5,6) by (auto simp: filled_def)
    note rest = Suc.IH [where s = s1 and i = "i + PGSIZE_W" and fuel = k, unfolded i' add.assoc [symmetric], OF _ _ _ k(2) _ this]
    have "\<exists>s' r. load_zero k cb prog_addr mem_size (i + PGSIZE_W) s1 = Some (s', r)
      \<and> ((r \<noteq> OK () \<and> room s1 < n) \<or> (r = OK () \<and> filled (?a + 4096) (?a + 4096 + 4096 * n) g s1 s'))"
      using Suc.prems(2,3,5) lt f(2) by (intro rest) (auto simp: filled_def)
    moreover have "room s \<le> Suc (room s1)" using f(2) by (simp add: filled_def)
    ultimately show ?thesis
      using c k lt f filled_trans [OF f(2)] by (fastforce simp: word_less_nat_alt add.assoc)
  qed
qed

end

text \<open>The bytes of a segment: the file's, then zeros.\<close>

definition segment_byte :: "mem \<Rightarrow> u64 \<Rightarrow> u64 \<Rightarrow> u64 \<Rightarrow> u64 \<Rightarrow> u8" where
  "segment_byte img prog_addr elf_addr prog_size x =
     (if unat prog_addr \<le> unat x \<and> unat x < unat prog_addr + unat prog_size then img (elf_addr + (x - prog_addr)) else 0)"

lemma page_offset:
  fixes va x :: u64
  assumes "4096 dvd unat va" "unat va \<le> unat x" "unat x < unat va + 4096"
  shows "unat (take_bit 12 x) = unat x - unat va" "take_bit 12 x = x - va"
proof -
  obtain k where "unat va = 4096 * k" using assms(1) by blast
  then have "unat x mod 4096 = unat x - 4096 * k" using assms(2,3) by (metis add_less_cancel_left le_add_diff_inverse mod_less mod_mult_self4)
  then show 1: "unat (take_bit 12 x) = unat x - unat va" using \<open>unat va = 4096 * k\<close> by (simp add: unat_take_bit_12)
  have "unat (x - va) = unat x - unat va" using assms(2) by (simp add: unat_sub word_le_nat_alt)
  then show "take_bit 12 x = x - va" using 1 by (simp only: word_unat_eq_iff)
qed

lemma file_page_byte:
  assumes "4096 dvd unat prog_addr + unat i" "unat (prog_addr + i) = unat prog_addr + unat i" "unat i < unat prog_size"
    "src_len = (if prog_size - i < PGSIZE_W then prog_size - i else PGSIZE_W)"
    "unat prog_addr + unat i \<le> unat x" "unat x < unat prog_addr + unat i + 4096"
  shows "segment_byte img prog_addr elf_addr prog_size x = page_byte img 0 (Some (elf_addr + i)) src_len (take_bit 12 x)"
    "unat src_len \<le> 4096"
proof -
  note d = page_offset [of "prog_addr + i" x, unfolded assms(2), OF assms(1,5,6)]
  have "unat (prog_size - i) = unat prog_size - unat i" using assms(3) by (simp add: unat_sub word_le_nat_alt)
  then have len: "unat src_len = min (unat prog_size - unat i) 4096" using assms(4) by (simp add: layout_simps word_less_nat_alt min_def)
  then show "unat src_len \<le> 4096" by simp
  have "unat (take_bit 12 x) < unat src_len \<longleftrightarrow> unat x < unat prog_addr + unat prog_size"
    unfolding d(1) len using assms(3,5,6) by auto
  moreover have "elf_addr + i + take_bit 12 x = elf_addr + (x - prog_addr)" unfolding d(2) by simp
  ultimately show "segment_byte img prog_addr elf_addr prog_size x = page_byte img 0 (Some (elf_addr + i)) src_len (take_bit 12 x)"
    using assms(5) by (simp add: segment_byte_def page_byte_def add.assoc)
qed

context segment_mapper
begin

lemma load_file_fills:
  assumes "ok s" "4096 dvd unat prog_addr + unat i" "n = (unat prog_size - unat i + 4095) div 4096" "n < fuel"
    "unat prog_addr + unat i + 4096 * n \<le> 2 ^ 39"
    "\<And>x. unat prog_addr + unat i \<le> unat x \<Longrightarrow> unat x < unat prog_addr + unat i + 4096 * n \<Longrightarrow> unmapped s x"
  shows "\<exists>s' r. load_file fuel cb prog_addr elf_addr prog_size i s = Some (s', r)
    \<and> (((\<forall>j. r \<noteq> OK j) \<and> room s < n) \<or> (\<exists>j. r = OK j \<and> unat j = unat i + 4096 * n
        \<and> filled (unat prog_addr + unat i) (unat prog_addr + unat i + 4096 * n) (segment_byte img prog_addr elf_addr prog_size) s s'))"
  using assms
proof (induction n arbitrary: i s fuel)
  case 0
  then obtain k where "fuel = Suc k" by (cases fuel) auto
  then show ?case using 0 filled_refl [OF 0(1)] by (simp add: word_less_nat_alt div_eq_0_iff)
next
  case (Suc n)
  let ?a = "unat prog_addr + unat i" and ?g = "segment_byte img prog_addr elf_addr prog_size"
  obtain k where k: "fuel = Suc k" "n < k" using Suc.prems(4) by (cases fuel) auto
  have lt: "unat i < unat prog_size" using Suc.prems(3) by (cases "unat i < unat prog_size") auto
  have va: "unat (prog_addr + i) = ?a" using Suc.prems(5) by (simp add: unat_word_ariths)
  have i': "unat (i + PGSIZE_W) = unat i + 4096" using Suc.prems(5) by (simp add: unat_word_ariths layout_simps)
  define src_len where "src_len = (if prog_size - i < PGSIZE_W then prog_size - i else PGSIZE_W)"
  note B = file_page_byte [OF Suc.prems(2) va lt src_len_def]
  obtain s1 r1 where c: "cb (prog_addr + i) 0 (Some (elf_addr + i)) src_len s = (s1, r1)" by fastforce
  have "unat src_len \<le> 4096" using B(2) [of "prog_addr + i"] va by simp
  then have "(r1 \<noteq> OK () \<and> room s = 0) \<or> (r1 = OK () \<and> filled ?a (?a + 4096) ?g s s1)"
    using Suc.prems(5,6) B(1) by (intro cb_fills [OF Suc.prems(1,2) _ _ _ _ _ c]) (auto simp: va)
  then show ?case
  proof (elim disjE conjE)
    assume "r1 \<noteq> OK ()" "room s = 0"
    then show ?thesis using c k lt by (cases r1) (auto simp: word_less_nat_alt src_len_def Let_def)
  next
    assume f: "r1 = OK ()" "filled ?a (?a + 4096) ?g s s1"
    have "unmapped s1 x" if "?a + 4096 \<le> unat x" "unat x < ?a + 4096 + 4096 * n" for x
      using f(2) that Suc.prems(5,6) by (auto simp: filled_def)
    note rest = Suc.IH [where s = s1 and i = "i + PGSIZE_W" and fuel = k, unfolded i' add.assoc [symmetric], OF _ _ _ k(2) _ this]
    have "\<exists>s' r. load_file k cb prog_addr elf_addr prog_size (i + PGSIZE_W) s1 = Some (s', r)
      \<and> (((\<forall>j. r \<noteq> OK j) \<and> room s1 < n) \<or> (\<exists>j. r = OK j \<and> unat j = unat i + 4096 + 4096 * n
          \<and> filled (?a + 4096) (?a + 4096 + 4096 * n) ?g s1 s'))"
      using Suc.prems(2,3,5) lt f(2) by (intro rest) (auto simp: filled_def)
    moreover have "load_file fuel cb prog_addr elf_addr prog_size i s = load_file k cb prog_addr elf_addr prog_size (i + PGSIZE_W) s1"
      using c k f(1) lt by (simp add: word_less_nat_alt src_len_def Let_def)
    moreover have "room s \<le> Suc (room s1)" using f(2) by (simp add: filled_def)
    ultimately show ?thesis
      using filled_trans [OF f(2)] by (fastforce simp: add.assoc)
  qed
qed

end

text \<open>The number of pages of a segment, and of what is left of it behind \<open>i\<close> bytes.\<close>

definition segment_pages :: "u64 \<Rightarrow> u64 \<Rightarrow> nat" where
  "segment_pages prog_addr mem_size = (unat prog_addr mod 4096 + unat mem_size + 4095) div 4096"

lemma pages_split:
  fixes f m i :: nat
  assumes "f \<le> m"
  shows "(f - i + 4095) div 4096 + (m - (i + 4096 * ((f - i + 4095) div 4096)) + 4095) div 4096 = (m - i + 4095) div 4096"
proof -
  define n where "n = (f - i + 4095) div 4096"
  show ?thesis
  proof (cases "i + 4096 * n \<le> m")
    case True
    then have "m - i + 4095 = 4096 * n + (m - (i + 4096 * n) + 4095)" by simp
    then have "(m - i + 4095) div 4096 = n + (m - (i + 4096 * n) + 4095) div 4096" by simp
    then show ?thesis by (simp add: n_def)
  next
    case False
    have "4096 * n \<le> f - i + 4095" by (simp add: n_def)
    then have "m - i + 4095 < 4096 * n + 4096" "4096 * n \<le> m - i + 4095" using False assms by auto
    then have "(m - i + 4095) div 4096 = n" by (simp add: div_nat_eqI mult.commute)
    moreover have "m - (i + 4096 * n) = 0" using False by simp
    ultimately show ?thesis unfolding n_def [symmetric] by simp
  qed
qed

context segment_mapper
begin

lemma load_rest_fills:
  assumes "ok s" "4096 dvd unat prog_addr + unat i" "n = (unat mem_size - unat i + 4095) div 4096"
    "unat prog_addr + unat i + 4096 * n \<le> 2 ^ 39" "unat prog_size \<le> unat mem_size"
    "\<And>x. unat prog_addr + unat i \<le> unat x \<Longrightarrow> unat x < unat prog_addr + unat i + 4096 * n \<Longrightarrow> unmapped s x"
  shows "\<exists>s' r. (case load_file PG_FUEL cb prog_addr elf_addr prog_size i s of
        None \<Rightarrow> None
      | Some (s2, OK i) \<Rightarrow> load_zero PG_FUEL cb prog_addr mem_size i s2
      | Some (s2, ERR e) \<Rightarrow> Some (s2, ERR e)
      | Some (s2, PANIC) \<Rightarrow> Some (s2, PANIC)) = Some (s', r)
    \<and> ((r \<noteq> OK () \<and> room s < n) \<or> (r = OK ()
        \<and> filled (unat prog_addr + unat i) (unat prog_addr + unat i + 4096 * n) (segment_byte img prog_addr elf_addr prog_size) s s'))"
proof -
  let ?a = "unat prog_addr + unat i" and ?g = "segment_byte img prog_addr elf_addr prog_size"
  define n2 where "n2 = (unat prog_size - unat i + 4095) div 4096"
  define n3 where "n3 = (unat mem_size - (unat i + 4096 * n2) + 4095) div 4096"
  have n: "n2 + n3 = n" using pages_split [OF assms(5)] by (simp add: n2_def n3_def assms(3))
  have fuel: "n2 < PG_FUEL" "n3 < PG_FUEL" using assms(4) n by (simp_all add: PG_FUEL_def)
  have "\<exists>s' r. load_file PG_FUEL cb prog_addr elf_addr prog_size i s = Some (s', r)
    \<and> (((\<forall>j. r \<noteq> OK j) \<and> room s < n2) \<or> (\<exists>j. r = OK j \<and> unat j = unat i + 4096 * n2 \<and> filled ?a (?a + 4096 * n2) ?g s s'))"
    using assms(4,6) n by (intro load_file_fills [OF assms(1,2) n2_def fuel(1)]) auto
  then obtain s1 r1 where f: "load_file PG_FUEL cb prog_addr elf_addr prog_size i s = Some (s1, r1)"
    "((\<forall>j. r1 \<noteq> OK j) \<and> room s < n2) \<or> (\<exists>j. r1 = OK j \<and> unat j = unat i + 4096 * n2 \<and> filled ?a (?a + 4096 * n2) ?g s s1)" by blast
  from f(2) show ?thesis
  proof (elim disjE exE conjE)
    assume "\<forall>j. r1 \<noteq> OK j" "room s < n2"
    then show ?thesis using f(1) n by (cases r1) auto
  next
    fix j
    assume j: "r1 = OK j" "unat j = unat i + 4096 * n2" "filled ?a (?a + 4096 * n2) ?g s s1"
    have jn: "unat prog_addr + unat j = ?a + 4096 * n2" "unat prog_addr + unat j + 4096 * n3 = ?a + 4096 * n" using j(2) n by auto
    have pj: "unat prog_size \<le> unat j" using j(2) by (simp add: n2_def)
    have seg: "unmapped s1 x \<and> ?g x = 0" if x: "unat prog_addr + unat j \<le> unat x" "unat x < unat prog_addr + unat j + 4096 * n3" for x
    proof
      have x': "?a + 4096 * n2 \<le> unat x" "unat x < ?a + 4096 * n" using x jn by simp_all
      then have "unmapped s x" "unat x < 2 ^ 39" using assms(4,6) by simp_all
      then show "unmapped s1 x" using j(3) x'(1) by (simp add: filled_def)
      show "?g x = 0" using x(1) pj by (simp add: segment_byte_def)
    qed
    have "\<exists>s' r. load_zero PG_FUEL cb prog_addr mem_size j s1 = Some (s', r)
      \<and> ((r \<noteq> OK () \<and> room s1 < n3) \<or> (r = OK () \<and> filled (unat prog_addr + unat j) (unat prog_addr + unat j + 4096 * n3) ?g s1 s'))"
    proof (rule load_zero_fills [OF _ _ _ fuel(2)])
      show "ok s1" using j(3) by (simp add: filled_def)
      show "4096 dvd unat prog_addr + unat j" using assms(2) unfolding jn by simp
      show "unat prog_addr + unat j + 4096 * n3 \<le> 2 ^ 39" using assms(4) jn(2) by simp
      show "n3 = (unat mem_size - unat j + 4095) div 4096" by (simp add: n3_def j(2))
    qed (rule seg)
    then obtain s2 r2 where z: "load_zero PG_FUEL cb prog_addr mem_size j s1 = Some (s2, r2)"
      "(r2 \<noteq> OK () \<and> room s1 < n3) \<or> (r2 = OK () \<and> filled (?a + 4096 * n2) (?a + 4096 * n) ?g s1 s2)" unfolding jn(2) unfolding jn(1) by blast
    moreover have "room s \<le> room s1 + n2" using j(3) by (simp add: filled_def)
    moreover have "filled ?a (?a + 4096 * n) ?g s s2" if "filled (?a + 4096 * n2) (?a + 4096 * n) ?g s1 s2"
      using filled_trans [OF j(3) that] by simp
    ultimately have "(r2 \<noteq> OK () \<and> room s < n) \<or> (r2 = OK () \<and> filled ?a (?a + 4096 * n) ?g s s2)" using n by auto
    then show ?thesis using f(1) j(1) z(1) by simp
  qed
qed

end

lemma align_down_offset: "unat (x - align_down x PGSIZE_W) = unat x mod 4096"
  using align_down_le [of x PGSIZE_W] by (simp add: unat_sub align_down_dvd layout_simps)

text \<open>The first page of a segment that does not start at a page boundary.\<close>

lemma first_page_byte:
  assumes "unat offset = unat prog_addr mod 4096" "4096 \<le> unat prog_addr mod 4096 + unat prog_size" "unat src_len = 4096 - unat offset"
    "unat prog_addr - unat prog_addr mod 4096 \<le> unat x" "unat x < unat prog_addr - unat prog_addr mod 4096 + 4096"
  shows "segment_byte img prog_addr elf_addr prog_size x = page_byte img offset (Some elf_addr) src_len (take_bit 12 x)"
proof -
  let ?v = "unat prog_addr"
  obtain q where q: "?v = 4096 * q + ?v mod 4096" using mult_div_mod_eq [of 4096 ?v] by metis
  then have a: "?v - ?v mod 4096 = 4096 * q" by linarith
  then have d: "unat (take_bit 12 x) = unat x - 4096 * q"
    using assms(4,5) unfolding unat_take_bit_12 by (metis add_less_cancel_left le_add_diff_inverse mod_less mod_mult_self4)
  have le: "unat offset \<le> unat (take_bit 12 x) \<longleftrightarrow> ?v \<le> unat x" unfolding d using q assms(1,4) a by linarith
  have lt: "unat x < ?v + unat prog_size" using assms(2,5) q a by linarith
  have "unat (take_bit 12 x) < unat offset + unat src_len" using assms(1,3) d a assms(5) by simp
  moreover have "take_bit 12 x - offset = x - prog_addr" if "?v \<le> unat x"
  proof -
    have "unat (take_bit 12 x - offset) = unat x - 4096 * q - ?v mod 4096"
      using that le d assms(1) by (simp add: unat_sub word_le_nat_alt)
    also have "\<dots> = unat x - ?v" using q by linarith
    also have "\<dots> = unat (x - prog_addr)" using that by (simp add: unat_sub word_le_nat_alt)
    finally show ?thesis by (simp only: word_unat_eq_iff)
  qed
  ultimately show ?thesis using le lt by (simp add: segment_byte_def page_byte_def)
qed

context segment_mapper
begin

lemma elf64_load_prog_fills:
  assumes s: "ok s" and sizes: "unat (p_filesz phdr) \<le> unat (p_memsz phdr)" "unat (p_vaddr phdr) + unat (p_memsz phdr) \<le> 2 ^ 39"
    and start: "unat (p_vaddr phdr) mod 4096 = 0 \<or> 4096 \<le> unat (p_vaddr phdr) mod 4096 + unat (p_filesz phdr)"
    and a: "a = unat (p_vaddr phdr) - unat (p_vaddr phdr) mod 4096" and n: "n = segment_pages (p_vaddr phdr) (p_memsz phdr)"
    and free: "\<And>x. a \<le> unat x \<Longrightarrow> unat x < a + 4096 * n \<Longrightarrow> unmapped s x"
  shows "\<exists>s' r. elf64_load_prog phdr elf_addr cb s = Some (s', r)
    \<and> ((r \<noteq> OK () \<and> room s < n) \<or> (r = OK () \<and> filled a (a + 4096 * n) (segment_byte img (p_vaddr phdr) elf_addr (p_filesz phdr)) s s'))"
proof -
  let ?v = "unat (p_vaddr phdr)" and ?g = "segment_byte img (p_vaddr phdr) elf_addr (p_filesz phdr)"
  define offset where "offset = p_vaddr phdr - align_down (p_vaddr phdr) PGSIZE_W"
  define src_len where "src_len = (if p_filesz phdr < PGSIZE_W - offset then p_filesz phdr else PGSIZE_W - offset)"
  have off: "unat offset = ?v mod 4096" unfolding offset_def by (rule align_down_offset)
  have av: "?v = a + ?v mod 4096" "4096 dvd a" unfolding a by (simp_all add: minus_mod_eq_mult_div)
  obtain q where q: "a = 4096 * q" using av(2) by blast
  have "a + 4096 * n \<le> ?v + unat (p_memsz phdr) + 4095" using av(1) by (simp add: n segment_pages_def)
  then have "4096 * (q + n) < 4096 * (2 ^ 27 + 1)" using sizes(2) q by simp
  then have "q + n \<le> 2 ^ 27" by simp
  then have lim: "a + 4096 * n \<le> 2 ^ 39" using q by simp
  show ?thesis
  proof (cases "offset = 0")
    case True
    then have v: "?v mod 4096 = 0" "?v = a" using off av(1) by simp_all
    have z: "unat (p_vaddr phdr) + unat (0 :: u64) = a" using v(2) by simp
    have n0: "n = (unat (p_memsz phdr) - unat (0 :: u64) + 4095) div 4096" by (simp add: n segment_pages_def v(1))
    note rest = load_rest_fills [of s "p_vaddr phdr" 0 n, unfolded z, OF s av(2) n0 lim sizes(1) free]
    show ?thesis using rest [where elf_addr = elf_addr] True unfolding elf64_load_prog_def Let_def offset_def [symmetric] by simp
  next
    case False
    then have "unat offset \<noteq> 0" by (simp add: unat_eq_zero)
    then have nz: "0 < ?v mod 4096" "4096 \<le> ?v mod 4096 + unat (p_filesz phdr)" using off start by simp_all
    have "unat (PGSIZE_W - offset) = 4096 - ?v mod 4096" using off by (simp add: unat_sub word_le_nat_alt layout_simps)
    then have len: "unat src_len = 4096 - ?v mod 4096" using nz(2) by (auto simp: src_len_def word_less_nat_alt)
    obtain k where k: "n = Suc k" using nz(1) by (cases n) (simp_all add: n segment_pages_def)
    obtain s1 r1 where c: "cb (p_vaddr phdr) offset (Some elf_addr) src_len s = (s1, r1)" by fastforce
    have c1: "(r1 \<noteq> OK () \<and> room s = 0) \<or> (r1 = OK () \<and> filled a (a + 4096) ?g s s1)"
    proof (rule cb_fills [OF s av(2) _ _ _ _ _ c])
      show "a + 4096 \<le> 2 ^ 39" using lim k by simp
      show "a \<le> ?v" "?v < a + 4096" using av(1) by simp_all
      show "unat offset + unat src_len \<le> 4096" using off len by simp
      show "unmapped s x \<and> ?g x = page_byte img offset (Some elf_addr) src_len (take_bit 12 x)"
        if "a \<le> unat x" "unat x < a + 4096" for x
      proof
        show "unmapped s x" using free [of x] that k by simp
        show "?g x = page_byte img offset (Some elf_addr) src_len (take_bit 12 x)"
          using that unfolding a by (intro first_page_byte [OF off nz(2)]) (simp_all add: len off)
      qed
    qed
    have body: "elf64_load_prog phdr elf_addr cb s = (case r1 of
        OK _ \<Rightarrow> (case load_file PG_FUEL cb (p_vaddr phdr) elf_addr (p_filesz phdr) src_len s1 of
                None \<Rightarrow> None
              | Some (s2, OK i) \<Rightarrow> load_zero PG_FUEL cb (p_vaddr phdr) (p_memsz phdr) i s2
              | Some (s2, ERR e) \<Rightarrow> Some (s2, ERR e)
              | Some (s2, PANIC) \<Rightarrow> Some (s2, PANIC))
      | ERR e \<Rightarrow> Some (s1, ERR e) | PANIC \<Rightarrow> Some (s1, PANIC))"
      using False c unfolding elf64_load_prog_def Let_def offset_def [symmetric] src_len_def [symmetric] by simp
    from c1 show ?thesis
    proof (elim disjE conjE)
      assume "r1 \<noteq> OK ()" "room s = 0"
      then show ?thesis unfolding body using k by (cases r1) auto
    next
      assume f: "r1 = OK ()" "filled a (a + 4096) ?g s s1"
      have z: "?v + unat src_len = a + 4096" "a + 4096 + 4096 * k = a + 4096 * n" using av(1) len nz(1) k by simp_all
      have m: "unat (p_memsz phdr) \<ge> unat src_len" using sizes(1) len nz(2) by simp
      have "?v mod 4096 + unat (p_memsz phdr) + 4095 = 4096 + (unat (p_memsz phdr) - unat src_len + 4095)" using m len nz(1) by simp
      then have k': "k = (unat (p_memsz phdr) - unat src_len + 4095) div 4096" using k by (simp add: n segment_pages_def)
      have "unmapped s1 x" if "a + 4096 \<le> unat x" "unat x < a + 4096 + 4096 * k" for x
        using that f(2) free lim z(2) by (simp add: filled_def)
      moreover have "ok s1" "4096 dvd a + 4096" "a + 4096 + 4096 * k \<le> 2 ^ 39" using f(2) av(2) lim z(2) by (simp_all add: filled_def)
      ultimately have "\<exists>s' r. elf64_load_prog phdr elf_addr cb s = Some (s', r)
        \<and> ((r \<noteq> OK () \<and> room s1 < k) \<or> (r = OK () \<and> filled (a + 4096) (a + 4096 * n) ?g s1 s'))"
        using load_rest_fills [of s1 "p_vaddr phdr" src_len k, unfolded z(1), OF _ _ k' _ sizes(1), where elf_addr = elf_addr] z(2)
        unfolding body f(1) by simp
      moreover have "room s \<le> Suc (room s1)" using f(2) by (simp add: filled_def)
      ultimately show ?thesis using k filled_trans [OF f(2)] by fastforce
    qed
  qed
qed

end

section \<open>The kernel's mapper\<close>

text \<open>
  The address space of a partition is sound: its tables are, and no page that user mode sees is free or a
  table. Pages of the kernel (without the user bit) map all of physical memory and are exempt.
\<close>

definition space_ok :: "kst \<Rightarrow> nat \<Rightarrow> bool" where
  "space_ok s part \<longleftrightarrow> part < length (k_parts s) \<and> pt_ok (k_mm s) (pa_pgdir (k_parts s ! part))
     \<and> (\<forall>x w. upage s part x = Some w \<longrightarrow>
          pte2pa w \<notin> free_pages (k_mm s) \<union> tables (cells (k_mm s)) (pa_pgdir (k_parts s ! part)))"

text \<open>How many pages the partition can surely still map: each costs a frame and up to two tables.\<close>

definition part_room :: "nat \<Rightarrow> kst \<Rightarrow> nat" where
  "part_room part s = min (unat (pa_mem_rem (k_parts s ! part)) div 4096) (card (free_frames (k_mm s)) div 3)"

lemma table_page_ok: "page_ok root \<Longrightarrow> q \<in> tables m root \<Longrightarrow> page_ok q"
  by (auto simp: tables_def l_page_ok)

lemma page_ok_clear:
  assumes "page_ok p"
  shows "pp_off_clear p = p" "push_bit 12 (pa_ppn p) = p"
proof -
  have z: "take_bit 12 p = 0" "take_bit 56 p = p" using assms by (simp_all add: page_ok_def)
  show "pp_off_clear p = p"
    using bit_low_zero [OF z(1)] by (intro bit_word_eqI) (auto simp: pp_off_clear_def bit_simps)
  show "push_bit 12 (pa_ppn p) = p"
  proof (rule bit_word_eqI)
    fix n assume "n < LENGTH(64)"
    then show "bit (push_bit 12 (pa_ppn p)) n \<longleftrightarrow> bit p n"
      using bit_low_zero [OF z(1), of n] bit_high_zero [OF z(2), of n]
      by (cases "12 \<le> n"; cases "n < 56") (auto simp: pa_ppn_def bit_simps)
  qed
qed

lemma free_page_ok:
  assumes ok: "mm_free_ok s" and p: "p \<in> free_pages s"
  shows "page_ok p"
proof -
  have g: "mm_geom s" using ok by (simp add: mm_free_ok_def)
  obtain f i where f: "frame2pa s f = OK p" "i < length (mems s)" "f \<in> set (pf_free_list s ! i)"
    using p free_frames_iff [OF g] by (auto simp: free_pages_def)
  then obtain j where j: "j < unat (pf_array_len s ! i)" "f = frame_at s i j" using mm_free_okD(3) [OF ok f(2)] by blast
  then show ?thesis using frame2pa_frame_at [OF g f(2) j(1)] page_at_ok [OF g f(2) j(1)] f(1) by simp
qed

lemma pt_pages_ok: "pt_ok s root \<Longrightarrow> q \<in> free_pages s \<union> tables (cells s) root \<Longrightarrow> page_ok q"
  using free_page_ok [of s q] table_page_ok [of root q "cells s"] tree_okD(1) [of "cells s" root] by (auto simp: pt_ok_def)

text \<open>A frame from the allocator, seen as a page.\<close>

lemma phy_frame_alloc_page:
  assumes ok: "mm_free_ok s" and r: "phy_frame_alloc s = (s', r)"
  shows "(r = ERR KER_MEM_ER \<and> free_frames s = {})
    \<or> (\<exists>f p. r = OK f \<and> frame2pa s' f = OK p \<and> page_ok p \<and> p \<in> free_pages s \<and> free_pages s' = free_pages s - {p}
        \<and> f \<in> free_frames s \<and> free_frames s' = free_frames s - {f} \<and> pa2frame s' p = OK f \<and> mm_free_ok s'
        \<and> cells s' = zero_page (cells s) p \<and> pt_phy s' = pt_phy s \<and> mems s' = mems s \<and> pf_array s' = pf_array s)"
  using phy_frame_alloc_spec [OF ok r]
proof (elim disjE exE conjE)
  fix f pa i j
  assume A: "r = OK f" "frame2pa s f = OK pa" "f \<in> free_frames s" "free_frames s' = free_frames s - {f}" "mm_free_ok s'"
    "cells s' = zero_page (cells s) pa" "mems s' = mems s" "pf_array s' = pf_array s"
    "pf_array_len s' = pf_array_len s" "pt_phy s' = pt_phy s"
    and ij: "i < length (mems s)" "j < unat (pf_array_len s ! i)" "pa = page_at s i j"
  have g: "mm_geom s" using ok by (simp add: mm_free_ok_def)
  have f2: "frame2pa s' x = frame2pa s x" for x using A(7-9) by (simp add: frame2pa_def frame2sel_def)
  have "free_pages s' = free_pages s - {pa}"
    using frame2pa_inj [OF ok A(3) _ A(2)] A(2) unfolding free_pages_def f2 A(4) by auto
  moreover have "pa2frame s' pa = OK f"
    using free_page_frame [OF ok A(3,2)] A(7,8) by (simp add: pa2frame_def pa2sel_def)
  moreover have "pa \<in> free_pages s" using A(2,3) by (auto simp: free_pages_def)
  moreover have "page_ok pa" using page_at_ok [OF g ij(1,2)] ij(3) by simp
  ultimately show ?thesis using A f2 by metis
qed simp

lemma zero_page_pt:
  assumes ok: "pt_ok s root" and p: "page_ok p" "p \<in> free_pages s"
    and s': "cells s' = zero_page (cells s) p" "mm_free_ok s'" "pt_phy s'" "free_pages s' = free_pages s - {p}"
  shows "pt_ok s' root" "tables (cells s') root = tables (cells s) root" "xlate (cells s') root va = xlate (cells s) root va"
proof -
  have s: "tree_ok (cells s) root" "tables (cells s) root \<inter> free_pages s = {}" using ok by (simp_all add: pt_ok_def)
  have "cells s' (q + 8 * i) = cells s (q + 8 * i)" if "q \<in> tables (cells s) root" "i < 512" for q i
    using in_page_entry [OF p(1) table_page_ok [OF tree_okD(1) [OF s(1)] that(1)] that(2)] that(1) s(2) p(2)
    by (auto simp: s'(1) zero_page_def)
  note C = tree_cong [where m = "cells s" and m' = "cells s'", OF this]
  show "pt_ok s' root" using s s'(2-4) C(1,2) by (auto simp: pt_ok_def)
  show "tables (cells s') root = tables (cells s) root" "xlate (cells s') root va = xlate (cells s) root va"
    using C(2,3) by simp_all
qed

lemma part_pt_alloc_spec:
  assumes ok: "space_ok s part" and root: "root = pa_pgdir (k_parts s ! part)" and va: "xlate (cells (k_mm s)) root va = None"
    and r: "part_pt_alloc part va perm s = (s', r)"
  shows "((\<forall>p. r \<noteq> OK p) \<and> part_room part s = 0)
    \<or> (\<exists>p w. r = OK p \<and> page_ok p \<and> p \<in> free_pages (k_mm s) \<and> p \<notin> free_pages (k_mm s') \<union> tables (cells (k_mm s')) root
        \<and> pt_ok (k_mm s') root \<and> touches_tables 3 (k_mm s) (k_mm s') root \<and> pte2pa w = p \<and> take_bit 10 w = take_bit 10 (perm OR 1)
        \<and> (\<forall>x. in_page p x \<longrightarrow> cells (k_mm s') x = 0)
        \<and> (\<forall>va'. xlate (cells (k_mm s')) root va' = (if same_page va va' then Some w else xlate (cells (k_mm s)) root va'))
        \<and> PGSIZE_W \<le> pa_mem_rem (k_parts s ! part)
        \<and> k_parts s' = (k_parts s)[part := (k_parts s ! part)\<lparr>pa_mem_rem := pa_mem_rem (k_parts s ! part) - PGSIZE_W\<rparr>])"
proof -
  have pt: "pt_ok (k_mm s) root" and part: "part < length (k_parts s)" using ok root by (simp_all add: space_ok_def)
  then have fr: "mm_free_ok (k_mm s)" "pt_phy (k_mm s)" "tables (cells (k_mm s)) root \<inter> free_pages (k_mm s) = {}" by (simp_all add: pt_ok_def)
  let ?s1 = "upd_part part (\<lambda>x. x\<lparr>pa_mem_rem := pa_mem_rem x - PGSIZE_W\<rparr>) s"
  have parts: "k_parts ?s1 = (k_parts s)[part := (k_parts s ! part)\<lparr>pa_mem_rem := pa_mem_rem (k_parts s ! part) - PGSIZE_W\<rparr>]" "k_mm ?s1 = k_mm s"
    by (simp_all add: upd_part_def)
  have root1: "pa_pgdir (k_parts ?s1 ! part) = root" using part root by (simp add: parts)
  show ?thesis
  proof (cases "pa_mem_rem (k_parts s ! part) < PGSIZE_W")
    case True
    then have "r = ERR KER_PART_ER" "part_room part s = 0"
      using r by (simp_all add: part_pt_alloc_def part_room_def word_less_nat_alt layout_simps)
    then show ?thesis by simp
  next
    case mem: False
    obtain m1 r1 where 1: "phy_frame_alloc (k_mm s) = (m1, r1)" by fastforce
    from phy_frame_alloc_page [OF fr(1) 1] show ?thesis
    proof (elim disjE exE conjE)
      assume "r1 = ERR KER_MEM_ER" "free_frames (k_mm s) = {}"
      then have "r = ERR KER_MEM_ER" "part_room part s = 0"
        using r mem 1 by (auto simp: part_pt_alloc_def part_room_def Let_def parts)
      then show ?thesis by simp
    next
      fix f p
      assume A: "r1 = OK f" "frame2pa m1 f = OK p" "page_ok p" "p \<in> free_pages (k_mm s)" "free_pages m1 = free_pages (k_mm s) - {p}"
        "f \<in> free_frames (k_mm s)" "free_frames m1 = free_frames (k_mm s) - {f}" "pa2frame m1 p = OK f" "mm_free_ok m1"
        "cells m1 = zero_page (cells (k_mm s)) p" "pt_phy m1 = pt_phy (k_mm s)"
        "mems m1 = mems (k_mm s)" "pf_array m1 = pf_array (k_mm s)"
      have phy: "pt_phy m1" using A(11) fr(2) by simp
      note Z = zero_page_pt [OF pt A(3,4,10,9) phy A(5)]
      obtain m2 r2 where 2: "pt_map m1 root va p perm = (m2, r2)" by fastforce
      have va1: "xlate (cells m1) root va = None" using va Z(3) by simp
      have nf: "g \<notin> free_frames m1" if "pa2frame m1 (pp_off_clear p) = OK g" for g
        using that A(7,8) by (simp add: page_ok_clear [OF A(3)])
      have card: "card (free_frames (k_mm s)) \<le> card (free_frames m1) + 1" unfolding A(7) using A(6) by (simp add: card_Diff_singleton)
      have body: "(s', r) = (case r2 of OK _ \<Rightarrow> (?s1\<lparr>k_mm := m2\<rparr>, OK p) | _ \<Rightarrow> (s', r))" if "r2 = OK ()"
        using r mem 1 A(1,2) 2 that by (simp add: part_pt_alloc_def Let_def parts(2) root1)
      consider (full) "r2 = ERR KER_MEM_ER" "card (free_frames m1) < 2"
        | (mapped) w where "r2 = OK ()" "pt_ok m2 root" "touches_tables 2 m1 m2 root" "pte_ppn w = pa_ppn p"
          "take_bit 10 w = take_bit 10 (perm OR 1)"
          "\<forall>va'. xlate (cells m2) root va' = (if same_page va va' then Some w else xlate (cells m1) root va')"
        using pt_map_spec [OF Z(1) va1 nf 2] by blast
      then show ?thesis
      proof cases
        case e: full
        have "\<forall>q. r \<noteq> OK q"
          using r mem 1 A(1,2) 2 e(1) by (auto simp: part_pt_alloc_def Let_def parts(2) root1 split: prod.splits result.splits)
        then show ?thesis using card e(2) by (simp add: part_room_def)
      next
        case w: mapped
        have s': "k_mm s' = m2" "r = OK p" "k_parts s' = k_parts ?s1" using body [OF w(1)] w(1) by simp_all
        have "touches_tables 1 (k_mm s) m1 root"
          unfolding touches_tables_def using Z(2) A(4,5,7,10,12,13) card by (auto simp: zero_page_def)
        from touches_tables_trans [OF this w(3)] have t: "touches_tables 3 (k_mm s) m2 root" by (simp add: numeral_3_eq_3)
        have p: "p \<notin> free_pages m1 \<union> tables (cells m1) root" using A(4,5) fr(3) Z(2) by auto
        then have p2: "p \<notin> free_pages m2 \<union> tables (cells m2) root" using w(3) by (auto simp: touches_tables_def)
        have "page_ok q" if "q \<in> free_pages m1 \<union> tables (cells m1) root" for q
          using that pt_pages_ok [OF Z(1)] by blast
        then have "\<not> in_page q x" if "in_page p x" "q \<in> tables (cells m1) root \<union> free_pages m1" for q x
          using that p in_page_disjoint [OF A(3) _ that(1)] by blast
        then have z: "cells m2 x = 0" if "in_page p x" for x
          using that w(3) A(10) by (simp add: touches_tables_def zero_page_def)
        have "pte2pa w = p" using w(4) page_ok_clear(2) [OF A(3)] by (simp add: pte2pa_def)
        then show ?thesis using s' A(3,4) p2 w(2,5,6) t z mem Z(3) parts by auto
      qed
    qed
  qed
qed

text \<open>Bytes copied into a page stay in the page.\<close>

lemma pbyte_page_cong:
  assumes "page_ok q" "unat d < 4096" "\<And>y. in_page q y \<Longrightarrow> c' y = c y"
  shows "pbyte c' (q + d) = pbyte c (q + d)"
  using assms(3) in_page_word [OF assms(1)] page_add(2) [OF assms(1,2)] by (simp add: pbyte_def)

lemma pcopy_page:
  assumes p: "page_ok p" and len: "unat offset + length bs \<le> 4096"
  shows "\<not> in_page p y \<Longrightarrow> pcopy c (p + offset) bs y = c y"
    and "unat d < 4096 \<Longrightarrow> (\<And>y. in_page p y \<Longrightarrow> c y = 0) \<Longrightarrow> pbyte (pcopy c (p + offset) bs) (p + d)
      = (if unat offset \<le> unat d \<and> unat d < unat offset + length bs then bs ! (unat d - unat offset) else 0)"
proof -
  assume y: "\<not> in_page p y"
  have "in_page p (p + offset + of_nat i)" if "i < length bs" for i
  proof -
    have "unat (offset + of_nat i) = unat offset + i" using that len by (simp add: unat_word_ariths)
    then show ?thesis using page_add(2) [OF p, of "offset + of_nat i"] that len by (simp add: add.assoc)
  qed
  then show "pcopy c (p + offset) bs y = c y"
    using y in_page_word [OF p] by (intro pcopy_outside) metis
next
  assume d: "unat d < 4096" and z: "\<And>y. in_page p y \<Longrightarrow> c y = 0"
  have "pbyte c (p + d) = 0" using pbyte_page_cong [OF p d, of c "\<lambda>_. 0"] z by (simp add: pbyte_def)
  moreover have "p + d - (p + offset) = d - offset" by simp
  moreover have "unat (d - offset) = (if unat offset \<le> unat d then unat d - unat offset else unat d + 2 ^ 64 - unat offset)"
    by (subst unat_sub_if_size) (simp add: word_size)
  ultimately show "pbyte (pcopy c (p + offset) bs) (p + d)
      = (if unat offset \<le> unat d \<and> unat d < unat offset + length bs then bs ! (unat d - unat offset) else 0)"
    using d len by (subst pbyte_pcopy) (auto simp: mem_write_def)
qed

lemma segment_perm_bits: "take_bit 10 (segment_perm phdr OR 1) = segment_perm phdr" "bit (segment_perm phdr) 4"
  by (auto simp: segment_perm_def)

lemma part_load_prog_mapper_unfold:
  "part_load_prog_mapper img part phdr va offset src len s =
     (case part_pt_alloc part va (segment_perm phdr) s of
        (s1, OK p) \<Rightarrow> (s1\<lparr>k_mm := (k_mm s1)\<lparr>cells := pcopy (cells (k_mm s1)) (p + offset)
            (case src of Some a \<Rightarrow> mem_read img a (unat len) | None \<Rightarrow> [])\<rparr>\<rparr>, OK ())
      | (s1, ERR e) \<Rightarrow> (s1, ERR e) | (s1, PANIC) \<Rightarrow> (s1, PANIC))"
  by (auto simp: part_load_prog_mapper_def split: option.splits prod.splits result.splits)

lemma mapper_spec:
  assumes ok: "space_ok s part" and va: "xlate (cells (k_mm s)) (pa_pgdir (k_parts s ! part)) va = None"
    and len: "unat offset + unat len \<le> 4096" and r: "part_load_prog_mapper img part phdr va offset src len s = (s', r)"
  shows "(r \<noteq> OK () \<and> part_room part s = 0)
    \<or> (r = OK () \<and> space_ok s' part \<and> part_room part s \<le> Suc (part_room part s')
        \<and> (\<forall>x. ubyte s' part x = (if same_page va x then Some (segment_perm phdr, page_byte img offset src len (take_bit 12 x))
              else ubyte s part x))
        \<and> (\<forall>x. xlate (cells (k_mm s')) (pa_pgdir (k_parts s' ! part)) x = None
              \<longleftrightarrow> xlate (cells (k_mm s)) (pa_pgdir (k_parts s ! part)) x = None \<and> \<not> same_page va x))"
proof -
  define root where "root = pa_pgdir (k_parts s ! part)"
  obtain s1 r1 where 1: "part_pt_alloc part va (segment_perm phdr) s = (s1, r1)" by fastforce
  from part_pt_alloc_spec [OF ok root_def va [folded root_def] 1] show ?thesis
  proof (elim disjE exE conjE)
    assume "\<forall>p. r1 \<noteq> OK p" "part_room part s = 0"
    then show ?thesis using r 1 unfolding part_load_prog_mapper_unfold by (cases r1) auto
  next
    fix p w
    assume A: "r1 = OK p" "page_ok p" "p \<in> free_pages (k_mm s)" "p \<notin> free_pages (k_mm s1) \<union> tables (cells (k_mm s1)) root"
      "pt_ok (k_mm s1) root" "touches_tables 3 (k_mm s) (k_mm s1) root" "pte2pa w = p" "take_bit 10 w = take_bit 10 (segment_perm phdr OR 1)"
      "\<forall>x. in_page p x \<longrightarrow> cells (k_mm s1) x = 0"
      "\<forall>va'. xlate (cells (k_mm s1)) root va' = (if same_page va va' then Some w else xlate (cells (k_mm s)) root va')"
      "PGSIZE_W \<le> pa_mem_rem (k_parts s ! part)"
      "k_parts s1 = (k_parts s)[part := (k_parts s ! part)\<lparr>pa_mem_rem := pa_mem_rem (k_parts s ! part) - PGSIZE_W\<rparr>]"
    define bs where "bs = (case src of Some a \<Rightarrow> mem_read img a (unat len) | None \<Rightarrow> [])"
    define c where "c = pcopy (cells (k_mm s1)) (p + offset) bs"
    have s': "s' = s1\<lparr>k_mm := (k_mm s1)\<lparr>cells := c\<rparr>\<rparr>" "r = OK ()"
      using r 1 A(1) unfolding part_load_prog_mapper_unfold by (simp_all add: bs_def c_def)
    have bs: "unat offset + length bs \<le> 4096" using len by (simp add: bs_def split: option.splits)
    note P = pcopy_page [OF A(2) bs, where c = "cells (k_mm s1)", folded c_def]
    have part: "part < length (k_parts s)" using ok by (simp add: space_ok_def)
    have rt: "pa_pgdir (k_parts s1 ! part) = root" "k_parts s' = k_parts s1" "k_mm s' = (k_mm s1)\<lparr>cells := c\<rparr>"
      using part by (simp_all add: s' A(12) root_def)
    have tp: "page_ok q" if "q \<in> free_pages (k_mm s) \<union> tables (cells (k_mm s)) root" for q
      using that pt_pages_ok [of "k_mm s" root q] ok by (simp add: space_ok_def root_def)
    have "c (q + 8 * i) = cells (k_mm s1) (q + 8 * i)" if "q \<in> tables (cells (k_mm s1)) root" "i < 512" for q i
      using that A(4) in_page_entry [OF A(2) _ that(2), of q] pt_pages_ok [OF A(5), of q] by (intro P(1)) auto
    note C = tree_cong [where m = "cells (k_mm s1)" and m' = c, OF this]
    have X: "xlate c root x = (if same_page va x then Some w else xlate (cells (k_mm s)) root x)" for x
      using A(10) C(3) by simp
    have w4: "bit w 4" using arg_cong [OF A(8), of "\<lambda>z. bit z 4"] segment_perm_bits(2) by (simp add: bit_simps)
    have U: "upage s' part x = (if same_page va x then Some w else upage s part x)" for x
      using w4 by (simp add: upage_def rt X root_def [symmetric])
    have "pbyte c (pte2pa v + take_bit 12 x) = pbyte (cells (k_mm s)) (pte2pa v + take_bit 12 x)" if "upage s part x = Some v" for x v
    proof (rule pbyte_page_cong [OF pte2pa_page_ok])
      fix y assume y: "in_page (pte2pa v) y"
      have q: "pte2pa v \<notin> free_pages (k_mm s) \<union> tables (cells (k_mm s)) root" using ok that by (auto simp: space_ok_def root_def)
      then have n: "\<not> in_page q y" if "q \<in> tables (cells (k_mm s)) root \<union> free_pages (k_mm s)" for q
        using in_page_disjoint [OF pte2pa_page_ok tp y] that by blast
      then show "c y = cells (k_mm s) y" using P(1) [of y] A(3,6) by (auto simp: touches_tables_def)
    qed (simp add: unat_take_bit_12)
    then have old: "ubyte s' part x = ubyte s part x" if "\<not> same_page va x" for x
      using that U by (cases "upage s part x") (simp_all add: ubyte_def rt)
    have "page_byte img offset src len d = (if unat offset \<le> unat d \<and> unat d < unat offset + length bs then bs ! (unat d - unat offset) else 0)" for d
      by (auto simp: page_byte_def bs_def mem_read_def of_nat_diff split: option.splits)
    then have new: "ubyte s' part x = Some (segment_perm phdr, page_byte img offset src len (take_bit 12 x))" if "same_page va x" for x
      using that U P(2) [of "take_bit 12 x"] A(7-9) segment_perm_bits(1) by (simp add: ubyte_def rt unat_take_bit_12)
    have pt': "pt_ok (k_mm s') root" using A(5) C(1,2) by (simp add: rt pt_ok_def)
    have "pte2pa v \<notin> free_pages (k_mm s') \<union> tables (cells (k_mm s')) root" if "upage s' part x = Some v" for x v
      using that U [of x] A(4,6,7) ok C(2) by (auto simp: rt space_ok_def touches_tables_def root_def [symmetric] split: if_splits)
    moreover have "part < length (k_parts s')" using part by (simp add: rt A(12))
    ultimately have "space_ok s' part" using pt' unfolding space_ok_def by (simp add: rt)
    moreover have "part_room part s \<le> Suc (part_room part s')"
    proof -
      let ?m = "unat (pa_mem_rem (k_parts s ! part))" and ?f = "card (free_frames (k_mm s1))"
      have "?m div 4096 = Suc ((?m - 4096) div 4096)" using A(11) by (intro le_div_geq) (simp_all add: word_le_nat_alt layout_simps)
      moreover have "unat (pa_mem_rem (k_parts s' ! part)) = ?m - 4096"
        using A(11) part by (simp add: rt A(12) unat_sub layout_simps)
      moreover have "card (free_frames (k_mm s)) div 3 \<le> Suc (?f div 3)"
        using A(6) div_le_mono [of "card (free_frames (k_mm s))" "?f + 3" 3] by (simp add: touches_tables_def)
      ultimately show ?thesis by (auto simp: part_room_def rt min_def)
    qed
    ultimately show ?thesis using s'(2) old new X by (auto simp: rt root_def [symmetric])
  qed
qed

text \<open>Every page of a segment holds an address of it.\<close>

lemma segment_page_hit:
  fixes v m x :: nat
  assumes "v mod 4096 = 0 \<or> 0 < m" "v - v mod 4096 \<le> x" "x < v - v mod 4096 + 4096 * ((v mod 4096 + m + 4095) div 4096)"
  obtains i where "i < m" "(v + i) div 4096 = x div 4096"
proof -
  define q d where "q = v div 4096" and "d = v mod 4096"
  have v: "v = 4096 * q + d" "d < 4096" by (simp_all add: q_def d_def)
  define n where "n = (d + m + 4095) div 4096"
  have n: "4096 * n \<le> d + m + 4095" "d + m \<le> 4096 * n" unfolding n_def by linarith+
  have x: "4096 * q \<le> x" "x < 4096 * q + 4096 * n" using assms(2,3) v unfolding n_def d_def by linarith+
  have m: "0 < m" using assms(1) x n v(2) by (cases n) (auto simp: d_def [symmetric])
  consider "x < v" | "v \<le> x" "x < v + m" | "v + m \<le> x" by linarith
  then show thesis
  proof cases
    case 1
    then have "x < 4096 * q + 4096" using v by linarith
    then have "v div 4096 = x div 4096" using x(1) v by (simp add: div_nat_eqI mult.commute)
    then show ?thesis using that [of 0] m by simp
  next
    case 2
    then show ?thesis using that [of "x - v"] by simp
  next
    case 3
    then have "4096 * (q + n - 1) \<le> v + m - 1" "v + m - 1 \<le> x" "x < 4096 * (q + n - 1) + 4096" using v n(1) m x(2) by (cases n; simp)+
    then have "(v + m - 1) div 4096 = q + n - 1" "x div 4096 = q + n - 1" by (simp_all add: div_nat_eqI mult.commute)
    then show ?thesis using that [of "m - 1"] m by simp
  qed
qed

text \<open>The kernel's mapper keeps the contract, so loading does what the contract gives.\<close>

interpretation pm: segment_mapper "part_load_prog_mapper img part phdr" img "\<lambda>s. space_ok s part"
    "\<lambda>s x. xlate (cells (k_mm s)) (pa_pgdir (k_parts s ! part)) x = None" "\<lambda>s. ubyte s part" "part_room part" "segment_perm phdr"
  for img part phdr
  by unfold_locales (rule mapper_spec)

section \<open>Properties\<close>

text \<open>
  C13 (functional). Loading a segment into a sound address space where its pages are not mapped yet: if it
  succeeds, user mode sees the bytes of the file at the addresses of the segment, zeros behind them up to the size in
  memory, with the permissions of the segment, every other page of the partition is as before and the address space is
  sound; it fails only when the partition's memory budget or the free frames (three for each page) do not cover
  the pages; the loops always end. The segment lies below \<open>2^39\<close> and, if it does not start at a page boundary, has file contents up
  to the next one.
\<close>

theorem elf_segment_loaded:
  assumes "space_ok s part" "unat (p_filesz phdr) \<le> unat (p_memsz phdr)" "unat (p_vaddr phdr) + unat (p_memsz phdr) \<le> 2 ^ 39"
    "unat (p_vaddr phdr) mod 4096 = 0 \<or> 4096 \<le> unat (p_vaddr phdr) mod 4096 + unat (p_filesz phdr)"
    "\<And>i. i < unat (p_memsz phdr) \<Longrightarrow> xlate (cells (k_mm s)) (pa_pgdir (k_parts s ! part)) (p_vaddr phdr + of_nat i) = None"
  shows "case elf64_load_prog phdr elf_addr (part_load_prog_mapper img part phdr) s of
      Some (s', OK _) \<Rightarrow> space_ok s' part
        \<and> (\<forall>i < unat (p_memsz phdr). ubyte s' part (p_vaddr phdr + of_nat i)
            = Some (segment_perm phdr, if i < unat (p_filesz phdr) then img (elf_addr + of_nat i) else 0))
        \<and> (\<forall>x. unat x < 2 ^ 39 \<and> (\<forall>i < unat (p_memsz phdr). \<not> same_page (p_vaddr phdr + of_nat i) x) \<longrightarrow> ubyte s' part x = ubyte s part x)
    | Some (s', _) \<Rightarrow> part_room part s < segment_pages (p_vaddr phdr) (p_memsz phdr)
    | None \<Rightarrow> False"
proof -
  let ?v = "unat (p_vaddr phdr)" and ?m = "unat (p_memsz phdr)"
  define a n where "a = ?v - ?v mod 4096" and "n = segment_pages (p_vaddr phdr) (p_memsz phdr)"
  have at: "unat (p_vaddr phdr + of_nat i) = ?v + i" if "i < ?m" for i
    using that assms(3) by (simp add: unat_word_ariths)
  have inside: "\<exists>i < ?m. same_page (p_vaddr phdr + of_nat i) x" if x: "a \<le> unat x" "unat x < a + 4096 * n" for x
  proof -
    have "?v mod 4096 < 4096" by simp
    then have "?v mod 4096 = 0 \<or> 0 < ?m" using assms(2,4) by linarith
    then obtain i where i: "i < ?m" "(?v + i) div 4096 = unat x div 4096"
      by (rule segment_page_hit) (use x in \<open>simp_all add: a_def n_def segment_pages_def\<close>)
    then have "?v + i < 2 ^ 39" using assms(3) by simp
    moreover have "unat x < 2 ^ 39"
    proof -
      have "unat x div 4096 < 2 ^ 27" unfolding i(2) [symmetric] using \<open>?v + i < 2 ^ 39\<close> by (simp add: less_mult_imp_div_less)
      then show ?thesis by (simp add: div_less_iff_less_mult)
    qed
    ultimately show ?thesis using i same_page_div at by metis
  qed
  have "xlate (cells (k_mm s)) (pa_pgdir (k_parts s ! part)) x = None" if "a \<le> unat x" "unat x < a + 4096 * n" for x
    using inside [OF that] assms(5) unfolding xlate_def same_page_def by metis
  then obtain s' r where l: "elf64_load_prog phdr elf_addr (part_load_prog_mapper img part phdr) s = Some (s', r)"
    "(r \<noteq> OK () \<and> part_room part s < n) \<or> (r = OK () \<and> pm.filled part phdr a (a + 4096 * n) (segment_byte img (p_vaddr phdr) elf_addr (p_filesz phdr)) s s')"
    using pm.elf64_load_prog_fills [OF assms(1-4) a_def n_def, where elf_addr = elf_addr and img = img] by blast
  have seg: "a \<le> ?v + i \<and> ?v + i < a + 4096 * n" if "i < ?m" for i
  proof -
    have "?v mod 4096 + ?m \<le> 4096 * n" unfolding n_def segment_pages_def by linarith
    then show ?thesis using that by (simp add: a_def) (use mod_less_eq_dividend [of ?v 4096] in linarith)
  qed
  have out: "\<not> (a \<le> unat x \<and> unat x < a + 4096 * n)" if "\<forall>i < ?m. \<not> same_page (p_vaddr phdr + of_nat i) x" for x
    using inside that by blast
  show ?thesis
    using l(2) assms(3) at seg out unfolding l(1) n_def [symmetric]
    by (cases r) (auto simp: pm.filled_def segment_byte_def)
qed

text \<open>A partition with an empty page table in a bank of five pages, four of them free.\<close>

definition mm_five :: mm where
  "mm_five = \<lparr>kern_end = 0x80000000, mems = [(0x80000000, 0x5000)], freemem_base = 0x80000000, pf_array = [0x1000],
     pf_array_len = [5], pf_free_list = [[0x1018, 0x1030, 0x1048, 0x1060]], pf_ref = (\<lambda>_. 0), cells = (\<lambda>_. 0), pt_phy = True\<rparr>"

definition kst_load :: kst where
  "kst_load = kst0\<lparr>k_mm := mm_five, k_parts := [example_part ''a'' 1 0x80000000 []]\<rparr>"

lemma xlate_empty: "xlate (\<lambda>_. 0) root va = None"
  by (simp add: xlate_def leaf_def v0_def v1_def pte_v_def)

lemma kst_load_ok: "space_ok kst_load 0" "part_room 0 kst_load = 1"
proof -
  have g: "mm_geom mm_five" by (auto simp: mm_geom_def mm_five_def bank_ok_def)
  have j: "\<exists>j < 5. (0x1018 :: u64) = 0x1000 + of_nat (j * 24)" "\<exists>j < 5. (0x1030 :: u64) = 0x1000 + of_nat (j * 24)"
    "\<exists>j < 5. (0x1048 :: u64) = 0x1000 + of_nat (j * 24)" "\<exists>j < 5. (0x1060 :: u64) = 0x1000 + of_nat (j * 24)"
    by (auto intro: exI [of _ 1] exI [of _ 2] exI [of _ 3] exI [of _ 4])
  have "mm_free_ok mm_five" unfolding mm_free_ok_def using g j by (simp add: frame_at_def mm_five_def)
  moreover have "free_pages mm_five = {0x80001000, 0x80002000, 0x80003000, 0x80004000}"
    by (auto simp: free_pages_def free_frames_def frame2pa_def frame2sel_def mm_five_def layout_simps)
  moreover have "cells mm_five = (\<lambda>_. 0)" "pt_phy mm_five" by (simp_all add: mm_five_def)
  ultimately have "pt_ok mm_five 0x80000000" using tree_ok_empty by (simp add: pt_ok_def)
  then show "space_ok kst_load 0"
    by (simp add: space_ok_def upage_def kst_load_def mm_five_def xlate_empty example_part_def)
  show "part_room 0 kst_load = 1" by (simp add: part_room_def kst_load_def mm_five_def free_frames_def example_part_def)
qed

theorem elf_segment_loaded_witness:
  "\<exists>s'. elf64_load_prog \<lparr>p_type = 1, p_flags = 5, p_offset = 0x1000, p_vaddr = 0x400000, p_filesz = 16, p_memsz = 32\<rparr> 0x1000
      (part_load_prog_mapper (\<lambda>a. ucast a) 0 \<lparr>p_type = 1, p_flags = 5, p_offset = 0x1000, p_vaddr = 0x400000, p_filesz = 16, p_memsz = 32\<rparr>)
      kst_load = Some (s', OK ()) \<and> ubyte s' 0 0x400004 = Some (0x1b, 4) \<and> ubyte s' 0 0x40001f = Some (0x1b, 0)"
proof -
  let ?p = "\<lparr>p_type = 1, p_flags = 5, p_offset = 0x1000, p_vaddr = 0x400000, p_filesz = 16, p_memsz = 32\<rparr> :: Elf64_Phdr"
  obtain x where x: "elf64_load_prog ?p 0x1000 (part_load_prog_mapper (\<lambda>a. ucast a) 0 ?p) kst_load = x" by simp
  have u: "xlate (cells (k_mm kst_load)) (pa_pgdir (k_parts kst_load ! 0)) va = None" for va
    by (simp add: kst_load_def mm_five_def xlate_empty)
  have "segment_pages (p_vaddr ?p) (p_memsz ?p) = 1" by (simp add: segment_pages_def)
  then obtain s' where "x = Some (s', OK ())" and b: "\<And>i. i < 32 \<Longrightarrow> ubyte s' 0 (0x400000 + of_nat i)
      = Some (segment_perm ?p, if i < 16 then ucast (0x1000 + of_nat i :: u64) else 0)"
    using elf_segment_loaded [where s = kst_load and part = 0 and phdr = ?p and elf_addr = "0x1000" and img = "\<lambda>a. ucast a"] kst_load_ok(1) u kst_load_ok(2) unfolding x
    by (auto split: option.splits prod.splits result.splits)
  moreover have "segment_perm ?p = 0x1b" by (simp add: segment_perm_def PF_X_def PF_W_def PF_R_def)
  ultimately show ?thesis using x b [of 4] b [of 31] by simp
qed

text \<open>A mapper that only records its calls.\<close>

definition log_mapper :: "(u64 \<times> u64 \<times> u64 option \<times> u64) list elf_mapper" where
  "log_mapper va offset src src_len l = (l @ [(va, offset, src, src_len)], OK ())"

text \<open>
  C36 (error). A segment that starts inside a page and whose file contents end before the end of
  that page, but whose memory goes on (a small \<^verbatim>\<open>.data\<close> with \<^verbatim>\<open>.bss\<close>): the page is mapped
  a second time, as a page of zeros, and the contents that were copied into it are lost.
\<close>

theorem small_segment_mapped_twice:
  assumes "0 < unat (p_vaddr phdr) mod 4096" "unat (p_vaddr phdr) mod 4096 + unat (p_filesz phdr) < 4096"
    "unat (p_filesz phdr) < unat (p_memsz phdr)" "unat (p_memsz phdr) \<le> 4096" "unat (p_vaddr phdr) < 2 ^ 39"
  shows "elf64_load_prog phdr elf_addr log_mapper [] = Some
      ([(p_vaddr phdr, of_nat (unat (p_vaddr phdr) mod 4096), Some elf_addr, p_filesz phdr),
        (p_vaddr phdr + p_filesz phdr, 0, None, 0)], OK ())
    \<and> same_page (p_vaddr phdr) (p_vaddr phdr + p_filesz phdr)"
proof -
  define v f m where "v = p_vaddr phdr" and "f = p_filesz phdr" and "m = p_memsz phdr"
  define offset where "offset = v - align_down v PGSIZE_W"
  have off: "unat offset = unat v mod 4096" unfolding offset_def by (rule align_down_offset)
  have b: "0 < unat v mod 4096" "unat v mod 4096 + unat f < 4096" "unat f < unat m" "unat m \<le> 4096" "unat v < 2 ^ 39"
    using assms by (simp_all add: v_def f_def m_def)
  have nz: "offset \<noteq> 0" using off b(1) by auto
  have "unat (PGSIZE_W - offset) = 4096 - unat offset" using off by (simp add: unat_sub word_le_nat_alt layout_simps)
  then have len: "f < PGSIZE_W - offset" using off b(2) by (simp add: word_less_nat_alt)
  have "unat (f + PGSIZE_W) = unat f + 4096" using b(2) by (simp add: unat_word_ariths layout_simps)
  then have stop: "\<not> f + PGSIZE_W < m" using b(4) by (simp add: word_less_nat_alt)
  obtain k where fuel: "PG_FUEL = Suc (Suc k)" by (simp add: PG_FUEL_def)
  have zero: "load_zero PG_FUEL log_mapper v m f l = Some (l @ [(v + f, 0, None, 0)], OK ())" for l
    unfolding fuel using b(3) stop by (simp add: log_mapper_def word_less_nat_alt)
  have f0: "load_file PG_FUEL log_mapper v elf_addr f f l = Some (l, OK f)" for l
    unfolding fuel by simp
  have "elf64_load_prog phdr elf_addr log_mapper [] = Some ([(v, offset, Some elf_addr, f), (v + f, 0, None, 0)], OK ())"
    unfolding elf64_load_prog_def Let_def v_def [symmetric] f_def [symmetric] m_def [symmetric] offset_def [symmetric]
    using nz len zero f0 by (simp add: log_mapper_def)
  moreover have "offset = of_nat (unat v mod 4096)" unfolding off [symmetric] by simp
  moreover have "same_page v (v + f)"
  proof -
    obtain q where q: "unat v = 4096 * q + unat v mod 4096" using mult_div_mod_eq [of 4096 "unat v"] by metis
    have s: "unat (v + f) = unat v + unat f" using b(2,5) by (simp add: unat_word_ariths)
    have "unat v div 4096 = q" "unat (v + f) div 4096 = q" using q s b(2) by (simp_all add: div_nat_eqI mult.commute)
    moreover have "unat (v + f) < 2 ^ 39"
    proof -
      have "q < 2 ^ 27" using q b(5) by simp
      then show ?thesis using s q b(2) by simp
    qed
    ultimately show ?thesis using b(5) by (simp add: same_page_div)
  qed
  ultimately show ?thesis by (simp add: v_def f_def)
qed

theorem small_segment_mapped_twice_witness:
  "elf64_load_prog \<lparr>p_type = 1, p_flags = 6, p_offset = 0x100, p_vaddr = 0x400100, p_filesz = 16, p_memsz = 32\<rparr> 0x1000 log_mapper []
    = Some ([(0x400100, 0x100, Some 0x1000, 16), (0x400110, 0, None, 0)], OK ())"
  using small_segment_mapped_twice [of "\<lparr>p_type = 1, p_flags = 6, p_offset = 0x100, p_vaddr = 0x400100, p_filesz = 16, p_memsz = 32\<rparr>" "0x1000"]
  by simp

end
