(* ===== verification/Comm.thy ===== *)
theory Comm
  imports Sched
begin

text \<open>
  Intra-partition communication: ARINC buffers (\<^verbatim>\<open>kern/comm/buffer.c\<close>) and blackboards
  (\<^verbatim>\<open>kern/comm/blackboard.c\<close>). Message bytes are in the memory of the current partition (\<open>umem\<close>),
  which is where \<open>part_comm_alloc\<close> hands out space. \<open>PANIC\<close> is an assertion that fails or a copy that
  runs over the end of the address space. The waiting lists are lists of process numbers; the
  intrusive links of the code allow a process in one such list at a time.
\<close>

section \<open>Buffers\<close>

definition COMM_MSG_HDR :: u64 where [layout_simps]: "COMM_MSG_HDR = 8"

definition buf_id_key_of :: "kst \<Rightarrow> nat \<Rightarrow> u64" where
  "buf_id_key_of s b = buf_id (k_bufs s ! b)"

definition buf_id_alloc :: "kst \<Rightarrow> kst \<times> u64" where
  "buf_id_alloc s = (s\<lparr>buf_nxt_id := buf_nxt_id s + 1\<rparr>, buf_nxt_id s)"

definition buffer_from_id :: "kst \<Rightarrow> u64 \<Rightarrow> nat option" where
  "buffer_from_id s i = hashmap_get hash_code_uint64 hash_eq_uint64 (buf_id_key_of s) (buf_id_map s) i"

definition buffer_alloc :: "nat \<Rightarrow> string \<Rightarrow> u64 \<Rightarrow> u64 \<Rightarrow> u32 \<Rightarrow> kst \<Rightarrow> kst \<times> nat result" where
  "buffer_alloc pa name max_msg_size max_nb_msg que_disc s =
     (let (s1, i) = buf_id_alloc s
      in case part_comm_alloc pa (max_nb_msg * (max_msg_size + COMM_MSG_HDR)) s1 of
           (s2, OK buf_data) \<Rightarrow>
             (let tmp = \<lparr>buf_name = name, buf_id = i, buf_part_id = pa_id (k_parts s1 ! pa), buf_que_disc = que_disc,
                    buf_max_msg_size = max_msg_size, buf_max_nb_msg = max_nb_msg,
                    buf_body = circbuf_init buf_data (max_msg_size + COMM_MSG_HDR) max_nb_msg, buf_waiting_procs = []\<rparr>;
                  b = length (k_bufs s2);
                  s3 = part_add_buf_name pa b (s2\<lparr>k_bufs := k_bufs s2 @ [tmp]\<rparr>)
              in (s3\<lparr>buf_id_map := hashmap_put hash_code_uint64 hash_eq_uint64 (buf_id_key_of s3) (buf_id_map s3) b\<rparr>, OK b))
         | (s2, ERR e) \<Rightarrow> (s2, ERR e)
         | (s2, PANIC) \<Rightarrow> (s2, PANIC))"

definition buffer_free :: "nat \<Rightarrow> kst \<Rightarrow> kst \<times> unit result" where
  "buffer_free b s = (s, OK ())"

definition buffer_is_full :: "kst \<Rightarrow> nat \<Rightarrow> bool" where
  "buffer_is_full s b \<longleftrightarrow> circbuf_is_full (buf_body (k_bufs s ! b))"

definition buffer_is_empty :: "kst \<Rightarrow> nat \<Rightarrow> bool" where
  "buffer_is_empty s b \<longleftrightarrow> circbuf_is_empty (buf_body (k_bufs s ! b))"

definition buffer_send :: "nat \<Rightarrow> u64 \<Rightarrow> u64 \<Rightarrow> kst \<Rightarrow> kst result" where
  "buffer_send b msg_addr msg_len s =
     (if buffer_is_full s b then PANIC
      else case comm_msg_send (umem s) (buf_body (k_bufs s ! b)) msg_addr msg_len of
             None \<Rightarrow> PANIC
           | Some (m, cc) \<Rightarrow> OK (upd_buf b (\<lambda>x. x\<lparr>buf_body := cc\<rparr>) (set_umem m s)))"

text \<open>
  \<open>*msg_len\<close> is stored, and read back for the copy, before the data moves; \<open>recv_store\<close> is shared with
  the ports.
\<close>

definition recv_store :: "circbuf \<Rightarrow> u64 \<Rightarrow> u64 \<Rightarrow> kst \<Rightarrow> (kst \<times> circbuf) option" where
  "recv_store cc msg_addr msg_len_addr s =
     (let (cc1, head) = circbuf_dequ_st cc;
          msg = cc_buf cc1 + head;
          s1 = store64 msg_len_addr (load64 s msg) s
      in map_option (\<lambda>m. (set_umem m s1, circbuf_dequ_ed cc1)) (memcpy (umem s1) msg_addr (msg + 8) (load64 s1 msg_len_addr)))"

definition buffer_recv :: "nat \<Rightarrow> u64 \<Rightarrow> u64 \<Rightarrow> kst \<Rightarrow> kst result" where
  "buffer_recv b msg_addr msg_len_addr s =
     (if buffer_is_empty s b then PANIC
      else case recv_store (buf_body (k_bufs s ! b)) msg_addr msg_len_addr s of
             None \<Rightarrow> PANIC
           | Some (s1, cc) \<Rightarrow> OK (upd_buf b (\<lambda>x. x\<lparr>buf_body := cc\<rparr>) s1))"

definition buffer_add_waiting_proc :: "nat \<Rightarrow> nat \<Rightarrow> kst \<Rightarrow> kst" where
  "buffer_add_waiting_proc b p s = upd_buf b (\<lambda>x. x\<lparr>buf_waiting_procs := buf_waiting_procs x @ [p]\<rparr>) s"

definition buffer_del_waiting_proc :: "nat \<Rightarrow> nat \<Rightarrow> kst \<Rightarrow> kst" where
  "buffer_del_waiting_proc b p s = upd_buf b (\<lambda>x. x\<lparr>buf_waiting_procs := remove1 p (buf_waiting_procs x)\<rparr>) s"

text \<open>The loop that looks for the waiting process of the highest priority.\<close>

fun max_pri_proc :: "kst \<Rightarrow> nat list \<Rightarrow> nat option \<Rightarrow> nat option" where
  "max_pri_proc s [] m = m"
| "max_pri_proc s (p # ps) m =
     max_pri_proc s ps (if case m of None \<Rightarrow> True | Some q \<Rightarrow> pr_cur_pri (k_procs s ! p) > pr_cur_pri (k_procs s ! q) then Some p else m)"

text \<open>The choice that a queuing discipline makes among the waiting processes.\<close>

definition choose_waiting :: "kst \<Rightarrow> u32 \<Rightarrow> nat list \<Rightarrow> nat option" where
  "choose_waiting s disc ps =
     (if ps = [] then None else if disc = FIFO then Some (hd ps) else max_pri_proc s ps None)"

definition buffer_wakeup_waiting_proc :: "nat \<Rightarrow> kst \<Rightarrow> kst \<times> nat option" where
  "buffer_wakeup_waiting_proc b s =
     (case choose_waiting s (buf_que_disc (k_bufs s ! b)) (buf_waiting_procs (k_bufs s ! b)) of
        None \<Rightarrow> (s, None)
      | Some p \<Rightarrow> (buffer_del_waiting_proc b p s, Some p))"

definition buffer_get_waiting_proc_nb :: "kst \<Rightarrow> nat \<Rightarrow> u64" where
  "buffer_get_waiting_proc_nb s b = fold (\<lambda>_ nb. nb + 1) (buf_waiting_procs (k_bufs s ! b)) 0"

definition buffer_get_nb_message :: "kst \<Rightarrow> nat \<Rightarrow> u64" where
  "buffer_get_nb_message s b = cc_cnt (buf_body (k_bufs s ! b))"

section \<open>Blackboards\<close>

definition bb_id_key_of :: "kst \<Rightarrow> nat \<Rightarrow> u64" where
  "bb_id_key_of s b = bb_id (k_bbs s ! b)"

definition bb_id_alloc :: "kst \<Rightarrow> kst \<times> u64" where
  "bb_id_alloc s = (s\<lparr>bb_nxt_id := bb_nxt_id s + 1\<rparr>, bb_nxt_id s)"

definition blackboard_from_id :: "kst \<Rightarrow> u64 \<Rightarrow> nat option" where
  "blackboard_from_id s i = hashmap_get hash_code_uint64 hash_eq_uint64 (bb_id_key_of s) (bb_id_map s) i"

definition blackboard_alloc :: "nat \<Rightarrow> string \<Rightarrow> u64 \<Rightarrow> kst \<Rightarrow> kst \<times> nat result" where
  "blackboard_alloc pa name max_msg_size s =
     (let (s1, i) = bb_id_alloc s
      in case part_comm_alloc pa max_msg_size s1 of
           (s2, OK data) \<Rightarrow>
             (let tmp = \<lparr>bb_name = name, bb_id = i, bb_part_id = pa_id (k_parts s1 ! pa), bb_empty_ind = EMPTY,
                    bb_max_msg_size = max_msg_size, bb_data = data, bb_len = 0, bb_waiting_procs = []\<rparr>;
                  b = length (k_bbs s2);
                  s3 = part_add_bb_name pa b (s2\<lparr>k_bbs := k_bbs s2 @ [tmp]\<rparr>)
              in (s3\<lparr>bb_id_map := hashmap_put hash_code_uint64 hash_eq_uint64 (bb_id_key_of s3) (bb_id_map s3) b\<rparr>, OK b))
         | (s2, ERR e) \<Rightarrow> (s2, ERR e)
         | (s2, PANIC) \<Rightarrow> (s2, PANIC))"

definition blackboard_free :: "nat \<Rightarrow> kst \<Rightarrow> kst \<times> unit result" where
  "blackboard_free b s = (s, OK ())"

definition blackboard_is_full :: "kst \<Rightarrow> nat \<Rightarrow> bool" where
  "blackboard_is_full s b \<longleftrightarrow> bb_empty_ind (k_bbs s ! b) = OCCUPIED"

definition blackboard_is_empty :: "kst \<Rightarrow> nat \<Rightarrow> bool" where
  "blackboard_is_empty s b \<longleftrightarrow> bb_empty_ind (k_bbs s ! b) = EMPTY"

definition blackboard_display :: "nat \<Rightarrow> u64 \<Rightarrow> u64 \<Rightarrow> kst \<Rightarrow> kst result" where
  "blackboard_display b msg_addr msg_len s =
     (case memcpy (umem s) (bb_data (k_bbs s ! b)) msg_addr msg_len of
        None \<Rightarrow> PANIC
      | Some m \<Rightarrow> OK (upd_bb b (\<lambda>x. x\<lparr>bb_len := msg_len, bb_empty_ind := OCCUPIED\<rparr>) (set_umem m s)))"

definition blackboard_read :: "nat \<Rightarrow> u64 \<Rightarrow> u64 \<Rightarrow> kst \<Rightarrow> kst result" where
  "blackboard_read b msg_addr msg_len_addr s =
     (case memcpy (umem s) msg_addr (bb_data (k_bbs s ! b)) (bb_len (k_bbs s ! b)) of
        None \<Rightarrow> PANIC
      | Some m \<Rightarrow> OK (store64 msg_len_addr (bb_len (k_bbs s ! b)) (set_umem m s)))"

definition blackboard_clear :: "nat \<Rightarrow> kst \<Rightarrow> kst" where
  "blackboard_clear b s = upd_bb b (\<lambda>x. x\<lparr>bb_empty_ind := EMPTY\<rparr>) s"

definition blackboard_add_waiting_proc :: "nat \<Rightarrow> nat \<Rightarrow> kst \<Rightarrow> kst" where
  "blackboard_add_waiting_proc b p s = upd_bb b (\<lambda>x. x\<lparr>bb_waiting_procs := bb_waiting_procs x @ [p]\<rparr>) s"

definition blackboard_del_waiting_proc :: "nat \<Rightarrow> nat \<Rightarrow> kst \<Rightarrow> kst" where
  "blackboard_del_waiting_proc b p s = upd_bb b (\<lambda>x. x\<lparr>bb_waiting_procs := remove1 p (bb_waiting_procs x)\<rparr>) s"

definition blackboard_wakeup_waiting_proc :: "nat \<Rightarrow> kst \<Rightarrow> kst \<times> nat option" where
  "blackboard_wakeup_waiting_proc b s =
     (case bb_waiting_procs (k_bbs s ! b) of
        [] \<Rightarrow> (s, None)
      | p # ps \<Rightarrow> (upd_bb b (\<lambda>x. x\<lparr>bb_waiting_procs := ps\<rparr>) s, Some p))"

definition blackboard_get_waiting_proc_nb :: "kst \<Rightarrow> nat \<Rightarrow> u64" where
  "blackboard_get_waiting_proc_nb s b = fold (\<lambda>_ nb. nb + 1) (bb_waiting_procs (k_bbs s ! b)) 0"

end
