(* ===== verification/Chan.thy ===== *)
theory Chan
  imports Comm
begin

text \<open>
  Communication between partitions: channels (\<^verbatim>\<open>kern/chan/channel.c\<close>) and queuing ports
  (\<^verbatim>\<open>kern/chan/queuing.c\<close>). A channel is created from boot arguments, before any partition runs; a
  sampling channel is \<open>UNIMPLEMENTED\<close> in the code, which is fatal. The configurations are the list
  \<open>k_port_confs\<close>, head first. The state of a channel that \<open>channel_create\<close> gives up on stays referred to
  by the configurations (the code frees the object but not those pointers).
\<close>

section \<open>The code\<close>

definition queuing_port_id_key_of :: "kst \<Rightarrow> nat \<Rightarrow> u64" where
  "queuing_port_id_key_of s q = qp_id (k_ports s ! q)"

definition queuing_port_name_key_of :: "kst \<Rightarrow> nat \<Rightarrow> string" where
  "queuing_port_name_key_of s q = qp_name (k_ports s ! q)"

definition queuing_port_id_alloc :: "kst \<Rightarrow> kst \<times> u64" where
  "queuing_port_id_alloc s = (s\<lparr>qp_nxt_id := qp_nxt_id s + 1\<rparr>, qp_nxt_id s)"

definition queuing_port_from_id :: "kst \<Rightarrow> u64 \<Rightarrow> nat option" where
  "queuing_port_from_id s i = hashmap_get hash_code_uint64 hash_eq_uint64 (queuing_port_id_key_of s) (queuing_port_id_map s) i"

definition queuing_port_from_name :: "kst \<Rightarrow> string \<Rightarrow> nat option" where
  "queuing_port_from_name s n = hashmap_get hash_code_str hash_eq_str (queuing_port_name_key_of s) (queuing_port_name_map s) n"

fun conf_validate :: "queuing_port_conf list \<Rightarrow> string \<Rightarrow> string \<Rightarrow> u32 \<Rightarrow> u64 \<Rightarrow> u64 \<Rightarrow> bool" where
  "conf_validate [] part_name port_name direction max_msg_size max_nb_msg = False"
| "conf_validate (p # ps) part_name port_name direction max_msg_size max_nb_msg =
     (if qpc_dir p \<noteq> direction \<or> qpc_max_msg_size p \<noteq> max_msg_size \<or> qpc_max_nb_msg p \<noteq> max_nb_msg
         \<or> strcmp_str (qpc_pa_name p) part_name \<noteq> 0 \<or> strcmp_str (qpc_name p) port_name \<noteq> 0
      then conf_validate ps part_name port_name direction max_msg_size max_nb_msg
      else True)"

definition queuing_port_conf_validate :: "kst \<Rightarrow> nat \<Rightarrow> string \<Rightarrow> u32 \<Rightarrow> u64 \<Rightarrow> u64 \<Rightarrow> bool" where
  "queuing_port_conf_validate s pa port_name direction max_msg_size max_nb_msg =
     conf_validate (k_port_confs s) (pa_name (k_parts s ! pa)) port_name direction max_msg_size max_nb_msg"

text \<open>The position of the first configuration with the name.\<close>

fun conf_index :: "queuing_port_conf list \<Rightarrow> string \<Rightarrow> nat option" where
  "conf_index [] name = None"
| "conf_index (p # ps) name = (if strcmp_str (qpc_name p) name = 0 then Some 0 else map_option Suc (conf_index ps name))"

definition queuing_port_alloc :: "nat \<Rightarrow> string \<Rightarrow> u32 \<Rightarrow> u64 \<Rightarrow> u64 \<Rightarrow> u32 \<Rightarrow> kst \<Rightarrow> kst \<times> nat result" where
  "queuing_port_alloc pa port_name direction max_msg_size max_nb_msg disc s =
     (case (case conf_index (k_port_confs s) port_name of None \<Rightarrow> None | Some i \<Rightarrow> qpc_channel (k_port_confs s ! i)) of
        None \<Rightarrow> (s, ERR KER_PORT_ER)
      | Some chan \<Rightarrow>
          (let (s1, i) = queuing_port_id_alloc s;
               tmp = \<lparr>qp_id = i, qp_name = port_name, qp_part_id = pa_id (k_parts s1 ! pa), qp_dir = direction, qp_disc = disc,
                 qp_channel = chan\<rparr>;
               q = length (k_ports s1);
               s2 = s1\<lparr>k_ports := k_ports s1 @ [tmp]\<rparr>;
               s3 = s2\<lparr>queuing_port_id_map := hashmap_put hash_code_uint64 hash_eq_uint64 (queuing_port_id_key_of s2) (queuing_port_id_map s2) q\<rparr>
           in (s3\<lparr>queuing_port_name_map := hashmap_put hash_code_str hash_eq_str (queuing_port_name_key_of s3) (queuing_port_name_map s3) q\<rparr>,
               OK q)))"

definition queuing_port_conf_chan :: "string \<Rightarrow> nat \<Rightarrow> kst \<Rightarrow> kst \<times> unit result" where
  "queuing_port_conf_chan port_name chan s =
     (case conf_index (k_port_confs s) port_name of
        None \<Rightarrow> (s, ERR KER_PORT_ER)
      | Some i \<Rightarrow>
          (let qpc = k_port_confs s ! i
           in (upd_chan chan (\<lambda>c. c\<lparr>ch_max_msg_size := qpc_max_msg_size qpc, ch_max_nb_msg := qpc_max_nb_msg qpc\<rparr>)
                 (s\<lparr>k_port_confs := (k_port_confs s)[i := qpc\<lparr>qpc_channel := Some chan\<rparr>]\<rparr>), OK ())))"

definition queuing_port_register :: "queuing_port_conf \<Rightarrow> kst \<Rightarrow> kst" where
  "queuing_port_register qpc s = s\<lparr>k_port_confs := qpc\<lparr>qpc_channel := None\<rparr> # k_port_confs s\<rparr>"

definition port_chan :: "kst \<Rightarrow> nat \<Rightarrow> channel" where
  "port_chan s q = k_chans s ! qp_channel (k_ports s ! q)"

definition queuing_port_is_full :: "kst \<Rightarrow> nat \<Rightarrow> bool" where
  "queuing_port_is_full s q \<longleftrightarrow> circbuf_is_full (ch_body (port_chan s q))"

definition queuing_port_is_empty :: "kst \<Rightarrow> nat \<Rightarrow> bool" where
  "queuing_port_is_empty s q \<longleftrightarrow> circbuf_is_empty (ch_body (port_chan s q))"

definition queuing_port_send :: "nat \<Rightarrow> u64 \<Rightarrow> u64 \<Rightarrow> kst \<Rightarrow> kst result" where
  "queuing_port_send q msg_addr msg_len s =
     (if queuing_port_is_full s q \<or> qp_dir (k_ports s ! q) \<noteq> SOURCE then PANIC
      else case comm_msg_send (umem s) (ch_body (port_chan s q)) msg_addr msg_len of
             None \<Rightarrow> PANIC
           | Some (m, cc) \<Rightarrow> OK (upd_chan (qp_channel (k_ports s ! q)) (\<lambda>x. x\<lparr>ch_body := cc\<rparr>) (set_umem m s)))"

definition queuing_port_recv :: "nat \<Rightarrow> u64 \<Rightarrow> u64 \<Rightarrow> kst \<Rightarrow> kst result" where
  "queuing_port_recv q msg_addr msg_len_addr s =
     (if queuing_port_is_empty s q \<or> qp_dir (k_ports s ! q) \<noteq> DESTINATION then PANIC
      else case recv_store (ch_body (port_chan s q)) msg_addr msg_len_addr s of
             None \<Rightarrow> PANIC
           | Some (s1, cc) \<Rightarrow> OK (upd_chan (qp_channel (k_ports s ! q)) (\<lambda>x. x\<lparr>ch_body := cc\<rparr>) s1))"

definition queuing_port_add_waiting_proc :: "nat \<Rightarrow> nat \<Rightarrow> kst \<Rightarrow> kst" where
  "queuing_port_add_waiting_proc q p s =
     upd_chan (qp_channel (k_ports s ! q)) (\<lambda>x. x\<lparr>ch_waiting_procs := ch_waiting_procs x @ [p]\<rparr>) s"

definition queuing_port_del_waiting_proc :: "nat \<Rightarrow> nat \<Rightarrow> kst \<Rightarrow> kst" where
  "queuing_port_del_waiting_proc q p s =
     upd_chan (qp_channel (k_ports s ! q)) (\<lambda>x. x\<lparr>ch_waiting_procs := remove1 p (ch_waiting_procs x)\<rparr>) s"

definition queuing_port_wakeup_waiting_proc :: "nat \<Rightarrow> kst \<Rightarrow> kst \<times> nat option" where
  "queuing_port_wakeup_waiting_proc q s =
     (case choose_waiting s (qp_disc (k_ports s ! q)) (ch_waiting_procs (port_chan s q)) of
        None \<Rightarrow> (s, None)
      | Some p \<Rightarrow> (queuing_port_del_waiting_proc q p s, Some p))"

definition queuing_port_get_wait_proc_nb :: "kst \<Rightarrow> nat \<Rightarrow> u64" where
  "queuing_port_get_wait_proc_nb s q = fold (\<lambda>_ nb. nb + 1) (ch_waiting_procs (port_chan s q)) 0"

definition queuing_port_get_nb_message :: "kst \<Rightarrow> nat \<Rightarrow> u64" where
  "queuing_port_get_nb_message s q = cc_cnt (ch_body (port_chan s q))"

subsection \<open>Channels\<close>

datatype channel_media = CM_MEMORY
datatype channel_type = CT_SAMPLING | CT_QUEUING

record channel_conf =
  cc_media :: channel_media
  cc_type :: channel_type
  cc_port_names :: "string list"

text \<open>The loop over the port names; the result is the count of ports.\<close>

fun chan_ports :: "nat \<Rightarrow> string list \<Rightarrow> nat \<Rightarrow> kst \<Rightarrow> kst \<times> nat result" where
  "chan_ports ch [] cnt s = (s, OK cnt)"
| "chan_ports ch (n # ns) cnt s =
     (case queuing_port_conf_chan n ch s of
        (s1, OK _) \<Rightarrow> chan_ports ch ns (Suc cnt) s1
      | (s1, ERR e) \<Rightarrow> (s1, ERR e)
      | (s1, PANIC) \<Rightarrow> (s1, PANIC))"

definition zero_channel :: channel where
  "zero_channel = \<lparr>ch_max_msg_size = 0, ch_max_nb_msg = 0, ch_body = circbuf_init 0 0 0, ch_waiting_procs = []\<rparr>"

definition channel_create :: "channel_conf \<Rightarrow> kst \<Rightarrow> kst \<times> unit result" where
  "channel_create cc s =
     (let ch = length (k_chans s); s1 = s\<lparr>k_chans := k_chans s @ [zero_channel]\<rparr>
      in if cc_type cc = CT_QUEUING
         then case chan_ports ch (cc_port_names cc) 0 s1 of
                (s2, OK port_cnt) \<Rightarrow>
                  (if port_cnt \<noteq> 2 then (s2, ERR KER_PORT_ER)
                   else let c = k_chans s2 ! ch;
                            ele = ch_max_msg_size c + COMM_MSG_HDR
                        in (upd_chan ch (\<lambda>c. c\<lparr>ch_body := circbuf_init (channel_base s2) ele (ch_max_nb_msg c), ch_waiting_procs := []\<rparr>)
                              (s2\<lparr>channel_base := channel_base s2 + ele * ch_max_nb_msg c\<rparr>), OK ()))
              | (s2, ERR e) \<Rightarrow> (s2, ERR e)
              | (s2, PANIC) \<Rightarrow> (s2, PANIC)
         else (s1, PANIC))"

text \<open>
  \<open>channel_mem_setup\<close> maps the pages of the region, from \<open>CHAN_BASE\<close> up to \<open>channel_base\<close>; the loop
  variable is a 64-bit address.
\<close>

definition PERM_GRW :: u64 where "PERM_GRW = 0x26"

fun chan_map :: "u64 \<Rightarrow> u64 list \<Rightarrow> mm \<Rightarrow> mm \<times> unit result" where
  "chan_map pgdir [] m = (m, OK ())"
| "chan_map pgdir (va # vas) m =
     (case phy_frame_alloc m of
        (m1, OK frame) \<Rightarrow>
          (case frame2pa m1 frame of
             OK pa \<Rightarrow>
               (case pt_map m1 pgdir va pa PERM_GRW of
                  (m2, OK _) \<Rightarrow> chan_map pgdir vas m2
                | (m2, _) \<Rightarrow> (m2, PANIC))
           | _ \<Rightarrow> (m1, PANIC))
      | (m1, ERR e) \<Rightarrow> (m1, ERR e)
      | (m1, PANIC) \<Rightarrow> (m1, PANIC))"

definition channel_mem_setup :: "kst \<Rightarrow> kst \<times> unit result" where
  "channel_mem_setup s =
     (let pages = map (\<lambda>k. CHAN_BASE + of_nat k * PGSIZE_W) [0..<(unat (channel_base s) - unat CHAN_BASE + 4095) div 4096]
      in case chan_map (kern_pgdir s) pages (k_mm s) of
           (m, OK _) \<Rightarrow> (part_pt_sync_kern_pgdir (s\<lparr>k_mm := m\<rparr>), OK ())
         | (m, e) \<Rightarrow> (s\<lparr>k_mm := m\<rparr>, e))"

end
