(* ===== verification/Bootargs.thy ===== *)
theory Bootargs
  imports Argparser Loader Chan "HOL-Library.Multiset"
begin

text \<open>
  The boot arguments, \<^verbatim>\<open>kern/lib/bootargs.c\<close>: splitting the command line (\<open>args_evaluate\<close>), the four
  configuration strings (\<open>do_partitions_create\<close>, \<open>do_sched_create\<close>, \<open>do_queuing_ports_register\<close>,
  \<open>do_channel_create\<close>) and the actions they ask for (\<open>args_action\<close>). The strings are buffers of characters as in
  \<open>Argparser\<close>.
\<close>

section \<open>The command line\<close>

record bootargs =
  args_test :: "nat option"
  args_debug_dt :: int
  args_debug_as_switch :: int
  args_debug_tick_interval :: int
  args_debug_tick_num :: int
  args_partitions_conf :: "nat option"
  args_scheduler_conf :: "nat option"
  args_sampling_ports_conf :: "nat option"
  args_queuing_ports_conf :: "nat option"
  args_channel_conf :: "nat option"

definition bootargs0 :: bootargs where
  "bootargs0 = \<lparr>args_test = None, args_debug_dt = 0, args_debug_as_switch = 0, args_debug_tick_interval = 0, args_debug_tick_num = 0,
     args_partitions_conf = None, args_scheduler_conf = None, args_sampling_ports_conf = None, args_queuing_ports_conf = None,
     args_channel_conf = None\<rparr>"

fun to_str :: "((nat option \<Rightarrow> nat option) \<Rightarrow> bootargs \<Rightarrow> bootargs) \<Rightarrow> arg_val \<Rightarrow> bootargs \<Rightarrow> bootargs" where
  "to_str upd (StrVal a) v = upd (\<lambda>_. Some a) v"
| "to_str upd (IntVal n) v = v"

fun to_int :: "((int \<Rightarrow> int) \<Rightarrow> bootargs \<Rightarrow> bootargs) \<Rightarrow> arg_val \<Rightarrow> bootargs \<Rightarrow> bootargs" where
  "to_int upd (IntVal n) v = upd (\<lambda>_. n) v"
| "to_int upd (StrVal a) v = v"

definition arg_of_str :: "char \<Rightarrow> string \<Rightarrow> ((nat option \<Rightarrow> nat option) \<Rightarrow> bootargs \<Rightarrow> bootargs) \<Rightarrow> bootargs arg_opt" where
  "arg_of_str s l t = \<lparr>arg_type = ARG_STRING, arg_short_name = s, arg_long_name = l, arg_target = to_str t\<rparr>"

definition arg_of_bool :: "char \<Rightarrow> string \<Rightarrow> ((int \<Rightarrow> int) \<Rightarrow> bootargs \<Rightarrow> bootargs) \<Rightarrow> bootargs arg_opt" where
  "arg_of_bool s l t = \<lparr>arg_type = ARG_BOOLEAN, arg_short_name = s, arg_long_name = l, arg_target = to_int t\<rparr>"

definition arg_of_int :: "char \<Rightarrow> string \<Rightarrow> ((int \<Rightarrow> int) \<Rightarrow> bootargs \<Rightarrow> bootargs) \<Rightarrow> bootargs arg_opt" where
  "arg_of_int s l t = \<lparr>arg_type = ARG_INTEGER, arg_short_name = s, arg_long_name = l, arg_target = to_int t\<rparr>"

definition args_collections :: "bootargs arg_opt list" where
  "args_collections =
     [arg_of_str (CHR ''t'') ''test'' args_test_update,
      arg_of_str (CHR ''p'') ''pa-conf'' args_partitions_conf_update,
      arg_of_str (CHR ''h'') ''sc-conf'' args_scheduler_conf_update,
      arg_of_str (CHR ''s'') ''sp-conf'' args_sampling_ports_conf_update,
      arg_of_str (CHR ''q'') ''qp-conf'' args_queuing_ports_conf_update,
      arg_of_str (CHR ''c'') ''ch-conf'' args_channel_conf_update,
      arg_of_bool NUL ''debug-dt'' args_debug_dt_update,
      arg_of_bool NUL ''debug-as-switch'' args_debug_as_switch_update,
      arg_of_int NUL ''debug-tick-interval'' args_debug_tick_interval_update,
      arg_of_int NUL ''debug-tick-num'' args_debug_tick_num_update,
      \<lparr>arg_type = ARG_END, arg_short_name = NUL, arg_long_name = [], arg_target = (\<lambda>_ v. v)\<rparr>]"

text \<open>
  The first space behind a word becomes its end; further spaces stay and belong to the next word. The
  result is the buffer and the count of words.
\<close>

fun args_split :: "bool \<Rightarrow> string \<Rightarrow> string \<times> nat" where
  "args_split k [] = ([], 0)"
| "args_split k (c # cs) =
     (if c = CHR '' ''
      then if k then let (r, n) = args_split False cs in (NUL # r, Suc n)
           else let (r, n) = args_split False cs in (c # r, n)
      else let (r, n) = args_split True cs in (c # r, n))"

fun args_trim :: "string \<Rightarrow> nat \<Rightarrow> nat" where
  "args_trim b 0 = 0"
| "args_trim b (Suc n) = (if 0 < n \<and> b ! n = CHR '' '' then args_trim b n else Suc n)"

text \<open>The positions of the words; the \<open>do\<close> loop enters at least one.\<close>

fun args_words :: "string \<Rightarrow> nat \<Rightarrow> nat \<Rightarrow> nat list option" where
  "args_words raw 0 q = Some []"
| "args_words raw (Suc n) q =
     do { q' \<leftarrow> skip_str raw q; ws \<leftarrow> args_words raw n q'; Some (q # ws) }"

text \<open>
  \<open>args_raw\<close> is allocated with \<open>bootargs_len + 1\<close> bytes and filled with one more. The result is the buffer, which the string
  options point into, the variables and the return value.
\<close>

definition args_evaluate :: "(u64 \<Rightarrow> u64) \<Rightarrow> string option \<Rightarrow> bootargs \<Rightarrow> (string \<times> bootargs \<times> unit result) option" where
  "args_evaluate junk bootargs v =
     (case bootargs of
        None \<Rightarrow> Some ([], v, OK ())
      | Some bs \<Rightarrow>
          (let b = dropWhile (\<lambda>c. c = CHR '' '') bs; len = args_trim b (length b)
           in if len = 0 then Some ([], v, OK ())
              else let (r, cnt) = args_split False (take len b @ [CHR '' '']); raw = r @ [NUL]
                   in do {
                     argv \<leftarrow> args_words raw (max 1 cnt) 0;
                     (ret, v') \<leftarrow> args_parse raw args_collections (take cnt argv) junk v;
                     Some (raw, v', if pr_error ret \<noteq> ARGP_SUCCESS then ERR KER_ARG_ER else OK ())
                   }))"

section \<open>Configuration strings\<close>

text \<open>A parser accepts, takes the \<^verbatim>\<open>goto error\<close>, or reads outside its buffer.\<close>

datatype 'a parse = Parsed 'a | Reject | Fault

definition conf_split :: "string \<Rightarrow> string" where
  "conf_split conf = map (\<lambda>c. if c = CHR '';'' \<or> c = CHR '','' \<or> c = CHR ''='' then NUL else c) conf @ [NUL]"

definition conf_count :: "string \<Rightarrow> nat" where
  "conf_count conf = Suc (length (filter (\<lambda>c. c = CHR '';'') conf))"

text \<open>
  A handler gets a key and the string behind it (\<open>None\<close>: outside the buffer), and returns the new
  structure and what it leaves of the value in the buffer.
\<close>

type_synonym 'c key_handler = "string \<Rightarrow> string option \<Rightarrow> 'c \<Rightarrow> ('c \<times> string) parse"

definition with_val :: "string option \<Rightarrow> (string \<Rightarrow> 'a parse) \<Rightarrow> 'a parse" where
  "with_val val f = (case val of None \<Rightarrow> Fault | Some v \<Rightarrow> f v)"

text \<open>The inner loop of the four functions, for \<open>n\<close> more keys of one structure.\<close>

fun conf_keys :: "nat \<Rightarrow> 'c key_handler \<Rightarrow> nat \<Rightarrow> string \<Rightarrow> nat \<Rightarrow> 'c \<Rightarrow> (string \<times> nat \<times> 'c) parse" where
  "conf_keys conf_len h 0 raw q c = Parsed (raw, q, c)"
| "conf_keys conf_len h (Suc n) raw q c =
     (if q > conf_len then Reject
      else case str_from raw q of
        None \<Rightarrow> Fault
      | Some key \<Rightarrow>
          (let a = q + length key + 1
           in case h key (str_from raw a) c of
                Parsed (c', val) \<Rightarrow>
                  (let raw' = put_at raw a val
                   in case Option.bind (skip_str raw' q) (skip_str raw') of
                        None \<Rightarrow> Fault
                      | Some q' \<Rightarrow> conf_keys conf_len h n raw' q' c')
              | Reject \<Rightarrow> Reject
              | Fault \<Rightarrow> Fault))"

text \<open>The outer loop, for \<open>n\<close> more structures, each starting uninitialised as \<open>c0\<close>.\<close>

fun conf_structs :: "nat \<Rightarrow> 'c key_handler \<Rightarrow> nat \<Rightarrow> 'c \<Rightarrow> nat \<Rightarrow> string \<Rightarrow> nat \<Rightarrow> 'c list parse" where
  "conf_structs conf_len h keys c0 0 raw q = Parsed []"
| "conf_structs conf_len h keys c0 (Suc n) raw q =
     (case conf_keys conf_len h keys raw q c0 of
        Parsed (raw', q', c) \<Rightarrow>
          (case conf_structs conf_len h keys c0 n raw' q' of Parsed cs \<Rightarrow> Parsed (c # cs) | Reject \<Rightarrow> Reject | Fault \<Rightarrow> Fault)
      | Reject \<Rightarrow> Reject
      | Fault \<Rightarrow> Fault)"

definition conf_parse :: "'c key_handler \<Rightarrow> nat \<Rightarrow> 'c \<Rightarrow> string \<Rightarrow> 'c list parse" where
  "conf_parse h keys c0 conf = conf_structs (length conf) h keys c0 (conf_count conf) (conf_split conf) 0"

text \<open>
  The last loop: each structure goes to its consumer, an error is \<open>-KER_ARG_ER\<close>; \<open>use c\<close> is \<open>None\<close> when a member of \<open>c\<close> was
  never set.
\<close>

fun conf_use :: "('c \<Rightarrow> (kst \<Rightarrow> (kst \<times> unit result) option) option) \<Rightarrow> 'c list \<Rightarrow> kst \<Rightarrow> (kst \<times> unit result) option" where
  "conf_use f [] s = Some (s, OK ())"
| "conf_use f (c # cs) s =
     do {
       g \<leftarrow> f c;
       (s', r) \<leftarrow> g s;
       case r of OK _ \<Rightarrow> conf_use f cs s' | ERR e \<Rightarrow> Some (s', ERR KER_ARG_ER) | PANIC \<Rightarrow> Some (s', PANIC)
     }"

definition conf_run :: "'c list parse \<Rightarrow> ('c \<Rightarrow> (kst \<Rightarrow> (kst \<times> unit result) option) option) \<Rightarrow> kst \<Rightarrow> (kst \<times> unit result) option" where
  "conf_run p f s = (case p of Parsed cs \<Rightarrow> conf_use f cs s | Reject \<Rightarrow> Some (s, ERR KER_ARG_ER) | Fault \<Rightarrow> None)"

subsection \<open>Partitions\<close>

record part_conf_in =
  pi_name :: "string option"
  pi_prog :: "string option"
  pi_mem_req :: "u64 option"
  pi_period :: "sys_time option"
  pi_duration :: "sys_time option"

definition part_conf_in0 :: part_conf_in where
  "part_conf_in0 = \<lparr>pi_name = None, pi_prog = None, pi_mem_req = None, pi_period = None, pi_duration = None\<rparr>"

definition part_key :: "part_conf_in key_handler" where
  "part_key key val pc =
     (if key = ''name'' then with_val val (\<lambda>v. Parsed (pc\<lparr>pi_name := Some v\<rparr>, v))
      else if key = ''prog'' then with_val val (\<lambda>v. Parsed (pc\<lparr>pi_prog := Some v\<rparr>, v))
      else if key = ''memory''
      then with_val val (\<lambda>v. if atoi_of v = 0 then Reject else Parsed (pc\<lparr>pi_mem_req := Some (word_of_int (atoi_of v))\<rparr>, v))
      else if key = ''period'' then with_val val (\<lambda>v. Parsed (pc\<lparr>pi_period := Some (atoi_of v)\<rparr>, v))
      else if key = ''duration'' then with_val val (\<lambda>v. Parsed (pc\<lparr>pi_duration := Some (atoi_of v)\<rparr>, v))
      else Reject)"

definition part_conf_of :: "part_conf_in \<Rightarrow> part_conf option" where
  "part_conf_of pc =
     do {
       name \<leftarrow> pi_name pc; prog \<leftarrow> pi_prog pc; mem_req \<leftarrow> pi_mem_req pc; period \<leftarrow> pi_period pc; duration \<leftarrow> pi_duration pc;
       Some \<lparr>pc_name = name, pc_prog = prog, pc_mem_req = mem_req, pc_period = period, pc_duration = duration\<rparr>
     }"

definition do_partitions_create :: "prog_def_t list \<Rightarrow> mem \<Rightarrow> string \<Rightarrow> kst \<Rightarrow> (kst \<times> unit result) option" where
  "do_partitions_create progs img conf =
     conf_run (conf_parse part_key 5 part_conf_in0 conf) (\<lambda>pc. map_option (part_create progs img) (part_conf_of pc))"

subsection \<open>Scheduling windows\<close>

record sched_conf_in =
  si_pa_name :: "string option"
  si_offset :: "sys_time option"
  si_duration :: "sys_time option"

definition sched_conf_in0 :: sched_conf_in where
  "sched_conf_in0 = \<lparr>si_pa_name = None, si_offset = None, si_duration = None\<rparr>"

definition sched_key :: "sched_conf_in key_handler" where
  "sched_key key val sc =
     (if key = ''part'' then with_val val (\<lambda>v. Parsed (sc\<lparr>si_pa_name := Some v\<rparr>, v))
      else if key = ''offset'' then with_val val (\<lambda>v. Parsed (sc\<lparr>si_offset := Some (atoi_of v)\<rparr>, v))
      else if key = ''duration'' then with_val val (\<lambda>v. Parsed (sc\<lparr>si_duration := Some (atoi_of v)\<rparr>, v))
      else Reject)"

definition sched_conf_of :: "sched_conf_in \<Rightarrow> sched_conf option" where
  "sched_conf_of sc =
     do {
       name \<leftarrow> si_pa_name sc; offset \<leftarrow> si_offset sc; duration \<leftarrow> si_duration sc;
       Some \<lparr>sc_pa_name = name, sc_offset = offset, sc_duration = duration\<rparr>
     }"

definition do_sched_create :: "string \<Rightarrow> kst \<Rightarrow> (kst \<times> unit result) option" where
  "do_sched_create conf =
     conf_run (conf_parse sched_key 3 sched_conf_in0 conf) (\<lambda>sc. map_option (\<lambda>c s. Some (sched_module_add c s)) (sched_conf_of sc))"

subsection \<open>Ports\<close>

text \<open>\<^verbatim>\<open>UNIMPLEMENTED\<close> stops the kernel.\<close>

definition do_sampling_ports_register :: "string \<Rightarrow> kst \<Rightarrow> (kst \<times> unit result) option" where
  "do_sampling_ports_register conf s = Some (s, PANIC)"

record port_conf_in =
  qi_name :: "string option"
  qi_pa_name :: "string option"
  qi_dir :: "u32 option"
  qi_max_msg_size :: "u64 option"
  qi_max_nb_msg :: "u64 option"

definition port_conf_in0 :: port_conf_in where
  "port_conf_in0 = \<lparr>qi_name = None, qi_pa_name = None, qi_dir = None, qi_max_msg_size = None, qi_max_nb_msg = None\<rparr>"

definition port_key :: "port_conf_in key_handler" where
  "port_key key val pc =
     (if key = ''name'' then with_val val (\<lambda>v. Parsed (pc\<lparr>qi_name := Some v\<rparr>, v))
      else if key = ''part'' then with_val val (\<lambda>v. Parsed (pc\<lparr>qi_pa_name := Some v\<rparr>, v))
      else if key = ''direction''
      then with_val val (\<lambda>v. if v = ''src'' then Parsed (pc\<lparr>qi_dir := Some SOURCE\<rparr>, v)
             else if v = ''dst'' then Parsed (pc\<lparr>qi_dir := Some DESTINATION\<rparr>, v) else Reject)
      else if key = ''max-msg-size'' then with_val val (\<lambda>v. Parsed (pc\<lparr>qi_max_msg_size := Some (word_of_int (atoi_of v))\<rparr>, v))
      else if key = ''max-nb-msg'' then with_val val (\<lambda>v. Parsed (pc\<lparr>qi_max_nb_msg := Some (word_of_int (atoi_of v))\<rparr>, v))
      else Reject)"

definition port_conf_of :: "port_conf_in \<Rightarrow> queuing_port_conf option" where
  "port_conf_of pc =
     do {
       name \<leftarrow> qi_name pc; pa_name \<leftarrow> qi_pa_name pc; dir \<leftarrow> qi_dir pc; msg_size \<leftarrow> qi_max_msg_size pc; nb_msg \<leftarrow> qi_max_nb_msg pc;
       Some \<lparr>qpc_name = name, qpc_pa_name = pa_name, qpc_dir = dir, qpc_max_msg_size = msg_size, qpc_max_nb_msg = nb_msg,
         qpc_channel = None\<rparr>
     }"

definition do_queuing_ports_register :: "string \<Rightarrow> kst \<Rightarrow> (kst \<times> unit result) option" where
  "do_queuing_ports_register conf =
     conf_run (conf_parse port_key 5 port_conf_in0 conf)
       (\<lambda>pc. map_option (\<lambda>c s. Some (queuing_port_register c s, OK ())) (port_conf_of pc))"

subsection \<open>Channels\<close>

record chan_conf_in =
  ci_media :: "channel_media option"
  ci_type :: "channel_type option"
  ci_port_names :: "string list option"

definition chan_conf_in0 :: chan_conf_in where
  "chan_conf_in0 = \<lparr>ci_media = None, ci_type = None, ci_port_names = None\<rparr>"

text \<open>The names between the \<^verbatim>\<open>&\<close> signs, and the buffer with the signs overwritten.\<close>

fun split_ports :: "string \<Rightarrow> string list" where
  "split_ports [] = [[]]"
| "split_ports (c # cs) =
     (if c = CHR ''&'' then [] # split_ports cs else (c # hd (split_ports cs)) # tl (split_ports cs))"

definition cut_ports :: "string \<Rightarrow> string" where
  "cut_ports v = map (\<lambda>c. if c = CHR ''&'' then NUL else c) v"

definition chan_key :: "chan_conf_in key_handler" where
  "chan_key key val cc =
     (if key = ''media'' then with_val val (\<lambda>v. if v = ''memory'' then Parsed (cc\<lparr>ci_media := Some CM_MEMORY\<rparr>, v) else Reject)
      else if key = ''type''
      then with_val val (\<lambda>v. if v = ''queuing'' then Parsed (cc\<lparr>ci_type := Some CT_QUEUING\<rparr>, v)
             else if v = ''sampling'' then Parsed (cc\<lparr>ci_type := Some CT_SAMPLING\<rparr>, v) else Reject)
      else if key = ''ports'' then with_val val (\<lambda>v. Parsed (cc\<lparr>ci_port_names := Some (split_ports v)\<rparr>, cut_ports v))
      else Reject)"

definition chan_conf_of :: "chan_conf_in \<Rightarrow> channel_conf option" where
  "chan_conf_of cc =
     do {
       media \<leftarrow> ci_media cc; type \<leftarrow> ci_type cc; names \<leftarrow> ci_port_names cc;
       Some \<lparr>cc_media = media, cc_type = type, cc_port_names = names\<rparr>
     }"

definition do_channel_create :: "string \<Rightarrow> kst \<Rightarrow> (kst \<times> unit result) option" where
  "do_channel_create conf =
     conf_run (conf_parse chan_key 3 chan_conf_in0 conf) (\<lambda>cc. map_option (\<lambda>c s. Some (channel_create c s)) (chan_conf_of cc))"

section \<open>Actions\<close>

text \<open>
  The debug ticks of \<open>args_action\<close>: \<open>args_debug_tick_num\<close> simple events; the arrays that record their times are left out. The
  counter is compared as a \<^verbatim>\<open>size_t\<close>; a negative number of ticks asks for more memory than there is and is \<open>None\<close>.
\<close>

definition debug_ticks :: "(nat \<Rightarrow> sys_time) \<Rightarrow> bootargs \<Rightarrow> kst \<Rightarrow> kst option" where
  "debug_ticks clk v s =
     (let now = clk 0; delay = 2 * max SYS_TIME_SECOND (args_debug_tick_interval v)
      in if args_debug_tick_num v < 0 then None
         else Some (fold (\<lambda>i. time_event_alloc (clk (Suc i)) (swrap64 (delay + now + int i * args_debug_tick_interval v)) TE_SIMPLE)
                [0..<nat (args_debug_tick_num v)] s))"

text \<open>
  \<open>args_action\<close>. A test run and the printing of the device tree end in \<open>halt\<close>, and \<open>do_sampling_ports_register\<close> is unimplemented: all
  three do not return, like a panic.
\<close>

definition conf_step :: "string \<Rightarrow> nat option \<Rightarrow> (string \<Rightarrow> kst \<Rightarrow> (kst \<times> unit result) option)
    \<Rightarrow> (kst \<Rightarrow> (kst \<times> unit result) option) \<Rightarrow> kst \<Rightarrow> (kst \<times> unit result) option" where
  "conf_step raw a f k s =
     (case a of
        None \<Rightarrow> k s
      | Some p \<Rightarrow> do { conf \<leftarrow> str_from raw p; (s', r) \<leftarrow> f conf s; case r of OK _ \<Rightarrow> k s' | _ \<Rightarrow> Some (s', r) })"

definition args_action :: "prog_def_t list \<Rightarrow> mem \<Rightarrow> (nat \<Rightarrow> sys_time) \<Rightarrow> string \<Rightarrow> bootargs \<Rightarrow> kst \<Rightarrow> (kst \<times> unit result) option" where
  "args_action progs img clk raw v s =
     (if args_test v \<noteq> None then Some (s, PANIC)
      else if args_debug_dt v \<noteq> 0 then Some (s, PANIC)
      else do {
        s1 \<leftarrow> (if args_debug_tick_num v \<noteq> 0 then debug_ticks clk v s else Some s);
        conf_step raw (args_partitions_conf v) (do_partitions_create progs img)
          (conf_step raw (args_scheduler_conf v) do_sched_create
            (conf_step raw (args_sampling_ports_conf v) do_sampling_ports_register
              (conf_step raw (args_queuing_ports_conf v) do_queuing_ports_register
                (conf_step raw (args_channel_conf v) do_channel_create (\<lambda>s. Some (s, OK ())))))) s1
      })"

section \<open>Configuration strings are read back\<close>

text \<open>
  The strings as \<^verbatim>\<open>scripts/python/sysconf.py\<close> writes them: \<^verbatim>\<open>key=value\<close> fields, commas between the fields of a
  structure, semicolons between structures.
\<close>

fun sep_join :: "char \<Rightarrow> string list \<Rightarrow> string" where
  "sep_join c [] = []"
| "sep_join c [s] = s"
| "sep_join c (s # t # ts) = s @ c # sep_join c (t # ts)"

definition plain :: "string \<Rightarrow> bool" where
  "plain s \<longleftrightarrow> set s \<inter> {CHR '';'', CHR '','', CHR ''='', NUL} = {}"

lemma plain_simps [simp]:
  "plain []" "plain (c # s) \<longleftrightarrow> c \<noteq> CHR '';'' \<and> c \<noteq> CHR '','' \<and> c \<noteq> CHR ''='' \<and> c \<noteq> NUL \<and> plain s"
  "plain (s @ t) \<longleftrightarrow> plain s \<and> plain t"
  by (auto simp: plain_def)

lemma plain_NUL: "plain s \<Longrightarrow> NUL \<notin> set s"
  by (auto simp: plain_def)

lemma plain_dec: "plain (dec n)"
proof -
  have "c \<noteq> CHR '';'' \<and> c \<noteq> CHR '','' \<and> c \<noteq> CHR ''='' \<and> c \<noteq> NUL" if c: "c \<in> set (dec n)" for c
  proof -
    obtain d where "d < 10" "c = char_of (48 + d :: nat)" using dec_chars [OF c] by blast
    then have "of_char c = 48 + d" "d < 10" by simp_all
    then show ?thesis by (auto simp: NUL_def)
  qed
  then show ?thesis by (auto simp: plain_def)
qed

definition cut :: "char \<Rightarrow> char" where
  "cut c = (if c = CHR '';'' \<or> c = CHR '','' \<or> c = CHR ''='' then NUL else c)"

lemma map_cut_plain: "plain s \<Longrightarrow> map cut s = s"
  by (induction s) (auto simp: cut_def)

lemma conf_split_cut: "conf_split conf = map cut conf @ [NUL]"
  by (simp add: conf_split_def cut_def)

lemma count_plain: "plain s \<Longrightarrow> filter (\<lambda>c. c = CHR '';'') s = []"
  by (induction s) auto

lemma put_at_append: "length pre = a \<Longrightarrow> length v = length w \<Longrightarrow> put_at (pre @ v @ post) a w = pre @ w @ post"
  by (simp add: put_at_def)

lemma sep_join_Cons: "ts \<noteq> [] \<Longrightarrow> sep_join c (s # ts) = s @ c # sep_join c ts"
  by (cases ts) auto

lemma conf_keys_step:
  assumes "q \<le> conf_len" "str_from raw q = Some key" "str_from raw (q + length key + 1) = v" "h key v c = Parsed (c', w)"
    "raw' = put_at raw (q + length key + 1) w" "skip_str raw' q = Some q1" "skip_str raw' q1 = Some q2"
  shows "conf_keys conf_len h (Suc n) raw q c = conf_keys conf_len h n raw' q2 c'"
  using assms by (simp add: Let_def)

definition conf_text :: "('f \<Rightarrow> string) \<Rightarrow> ('f \<Rightarrow> string) \<Rightarrow> 'f list list \<Rightarrow> string" where
  "conf_text key val fss =
     sep_join (CHR '';'') (map (\<lambda>fs. sep_join (CHR '','') (map (\<lambda>f. key f @ CHR ''='' # val f) fs)) fss)"

locale conf_format =
  fixes h :: "'c key_handler" and key :: "'f \<Rightarrow> string" and val :: "'f \<Rightarrow> string" and upd :: "'f \<Rightarrow> 'c \<Rightarrow> 'c" and ok :: "'f \<Rightarrow> bool"
  assumes handled: "ok f \<Longrightarrow> h (key f) (Some (val f)) c = Parsed (upd f c, val f)"
    and plain_field: "ok f \<Longrightarrow> plain (key f) \<and> plain (val f)"
begin

definition field :: "'f \<Rightarrow> string" where
  "field f = key f @ CHR ''='' # val f"

definition encode :: "'f list list \<Rightarrow> string" where
  "encode fss = sep_join (CHR '';'') (map (\<lambda>fs. sep_join (CHR '','') (map field fs)) fss)"

lemma encode_text: "conf_text key val fss = encode fss"
  by (simp add: conf_text_def encode_def field_def [abs_def])

definition token :: "'f \<Rightarrow> string" where
  "token f = key f @ NUL # val f @ [NUL]"

lemma cut_field: "ok f \<Longrightarrow> map cut (field f) @ [NUL] = token f"
  using plain_field [of f] by (simp add: field_def token_def map_cut_plain) (simp add: cut_def)

lemma cut_fields: "fs \<noteq> [] \<Longrightarrow> \<forall>f \<in> set fs. ok f \<Longrightarrow> map cut (sep_join (CHR '','') (map field fs)) @ [NUL] = concat (map token fs)"
proof (induction fs)
  case (Cons f fs)
  show ?case
  proof (cases "fs = []")
    case True
    then show ?thesis using Cons.prems cut_field by simp
  next
    case False
    have "map cut (sep_join (CHR '','') (map field (f # fs))) @ [NUL]
      = (map cut (field f) @ [NUL]) @ map cut (sep_join (CHR '','') (map field fs)) @ [NUL]"
      using False by (simp add: sep_join_Cons cut_def [of "CHR '',''"])
    also have "\<dots> = token f @ concat (map token fs)" using Cons False cut_field by simp
    finally show ?thesis by simp
  qed
qed simp

lemma no_semicolon: "\<forall>f \<in> set fs. ok f \<Longrightarrow> filter (\<lambda>c. c = CHR '';'') (sep_join (CHR '','') (map field fs)) = []"
proof (induction fs)
  case (Cons f fs)
  have "filter (\<lambda>c. c = CHR '';'') (field f) = []" using Cons.prems plain_field [of f] by (simp add: field_def count_plain)
  then show ?case using Cons by (cases "fs = []") (simp_all add: sep_join_Cons)
qed simp

lemma cut_encode:
  "fss \<noteq> [] \<Longrightarrow> \<forall>fs \<in> set fss. fs \<noteq> [] \<and> (\<forall>f \<in> set fs. ok f) \<Longrightarrow>
     conf_split (encode fss) = concat (map token (concat fss)) \<and> conf_count (encode fss) = length fss"
proof (induction fss)
  case (Cons fs fss)
  let ?s = "sep_join (CHR '','') (map field fs)"
  have s: "map cut ?s @ [NUL] = concat (map token fs)" "filter (\<lambda>c. c = CHR '';'') ?s = []"
    using Cons.prems cut_fields no_semicolon by auto
  show ?case
  proof (cases "fss = []")
    case True
    then show ?thesis using s by (simp add: encode_def conf_split_cut conf_count_def)
  next
    case False
    have e: "encode (fs # fss) = ?s @ CHR '';'' # encode fss" using False by (simp add: encode_def sep_join_Cons)
    have "conf_split (encode (fs # fss)) = (map cut ?s @ [NUL]) @ conf_split (encode fss)"
      unfolding e by (simp add: conf_split_cut cut_def [of "CHR '';''"])
    moreover have "conf_count (encode (fs # fss)) = Suc (conf_count (encode fss))" unfolding e using s(2) by (simp add: conf_count_def)
    ultimately show ?thesis using Cons False s(1) by simp
  qed
qed simp

lemma conf_keys_tokens:
  assumes "\<forall>f \<in> set fs. ok f" "length (pre @ concat (map token fs) @ post) = Suc conf_len"
  shows "conf_keys conf_len h (length fs + n) (pre @ concat (map token fs) @ post) (length pre) c
    = conf_keys conf_len h n (pre @ concat (map token fs) @ post) (length pre + length (concat (map token fs))) (fold upd fs c)"
  using assms
proof (induction fs arbitrary: pre c)
  case (Cons f fs)
  let ?rest = "concat (map token fs) @ post"
  have f: "NUL \<notin> set (key f)" "NUL \<notin> set (val f)" "h (key f) (Some (val f)) c = Parsed (upd f c, val f)"
    using Cons.prems(1) plain_field handled plain_NUL by auto
  define raw where "raw = pre @ key f @ NUL # val f @ NUL # ?rest"
  have k: "str_from raw (length pre) = Some (key f)" "skip_str raw (length pre) = Some (length pre + length (key f) + 1)"
    using f(1) by (simp_all add: raw_def str_from_append skip_str_append)
  have v: "str_from raw (length pre + length (key f) + 1) = Some (val f)"
    "skip_str raw (length pre + length (key f) + 1) = Some (length (pre @ token f))"
    using str_from_append [of "pre @ key f @ [NUL]" _ "val f" ?rest] skip_str_append [of "pre @ key f @ [NUL]" _ "val f" ?rest] f(2)
    by (simp_all add: raw_def token_def)
  have p: "put_at raw (length pre + length (key f) + 1) (val f) = raw"
    using put_at_append [of "pre @ key f @ [NUL]" _ "val f" "val f" "NUL # ?rest"] by (simp add: raw_def)
  have raw: "pre @ concat (map token (f # fs)) @ post = raw" "raw = (pre @ token f) @ ?rest" by (simp_all add: raw_def token_def)
  have "conf_keys conf_len h (length fs + n) raw (length (pre @ token f)) (upd f c)
    = conf_keys conf_len h n raw (length (pre @ token f) + length (concat (map token fs))) (fold upd fs (upd f c))"
    unfolding raw(2) using Cons.prems by (intro Cons.IH) (auto simp: token_def)
  moreover have q: "length pre \<le> conf_len" using Cons.prems(2) by (simp add: token_def)
  note conf_keys_step [where h = h and raw' = raw and c = c, OF q k(1) v(1) f(3) p [symmetric] k(2) v(2)]
  ultimately show ?case unfolding raw(1) by (simp add: add.assoc)
qed simp

lemma conf_structs_tokens:
  assumes "\<forall>fs \<in> set fss. length fs = keys \<and> (\<forall>f \<in> set fs. ok f)" "length (pre @ concat (map token (concat fss))) = Suc conf_len"
  shows "conf_structs conf_len h keys c0 (length fss) (pre @ concat (map token (concat fss))) (length pre)
    = Parsed (map (\<lambda>fs. fold upd fs c0) fss)"
  using assms
proof (induction fss arbitrary: pre)
  case (Cons fs fss)
  let ?t = "concat (map token fs)" and ?r = "concat (map token (concat fss))"
  have "conf_keys conf_len h keys (pre @ ?t @ ?r) (length pre) c0 = Parsed (pre @ ?t @ ?r, length (pre @ ?t), fold upd fs c0)"
    using conf_keys_tokens [of fs pre ?r conf_len 0 c0] Cons.prems by simp
  moreover have "conf_structs conf_len h keys c0 (length fss) ((pre @ ?t) @ ?r) (length (pre @ ?t)) = Parsed (map (\<lambda>fs. fold upd fs c0) fss)"
    using Cons.prems by (intro Cons.IH) auto
  ultimately show ?case by simp
qed simp

lemma conf_parse_encode:
  assumes "fss \<noteq> []" "\<forall>fs \<in> set fss. length fs = keys \<and> (\<forall>f \<in> set fs. ok f)" "0 < keys"
  shows "conf_parse h keys c0 (conf_text key val fss) = Parsed (map (\<lambda>fs. fold upd fs c0) fss)"
proof -
  have "\<forall>fs \<in> set fss. fs \<noteq> [] \<and> (\<forall>f \<in> set fs. ok f)" using assms(2,3) by auto
  note E = cut_encode [OF assms(1) this]
  have "length (conf_split (encode fss)) = Suc (length (encode fss))" by (simp add: conf_split_def)
  then show ?thesis
    using conf_structs_tokens [OF assms(2), of "[]" "length (encode fss)" c0] E 
    by (simp add: conf_parse_def encode_text)
qed

end

text \<open>
  A structure whose members are set by its fields, in any order: the consumer gets the members
  that were written.
\<close>

locale conf_record = conf_format h key val upd ok
  for h :: "'c key_handler" and key :: "'f \<Rightarrow> string" and val :: "'f \<Rightarrow> string" and upd :: "'f \<Rightarrow> 'c \<Rightarrow> 'c" and ok :: "'f \<Rightarrow> bool" +
  fixes c0 :: 'c and keys :: nat and fields :: "'r \<Rightarrow> 'f list" and of_in :: "'c \<Rightarrow> 'r option" and good :: "'r \<Rightarrow> bool"
  assumes fields_ok: "good r \<Longrightarrow> length (fields r) = keys \<and> (\<forall>f \<in> set (fields r). ok f)"
    and members: "good r \<Longrightarrow> of_in (fold upd (fields r) c0) = Some r"
    and commute: "f \<in> set (fields r) \<Longrightarrow> g \<in> set (fields r) \<Longrightarrow> upd f \<circ> upd g = upd g \<circ> upd f"
    and keys_pos: "0 < keys"
begin

lemma conf_run_text:
  assumes rs: "rs \<noteq> []" "\<forall>r \<in> set rs. good r" and fss: "list_all2 (\<lambda>fs r. mset fs = mset (fields r)) fss rs"
  shows "conf_run (conf_parse h keys c0 (conf_text key val fss)) (\<lambda>c. map_option use (of_in c)) s = conf_use (\<lambda>r. Some (use r)) rs s"
proof -
  have "length fs = keys \<and> (\<forall>f \<in> set fs. ok f) \<and> of_in (fold upd fs c0) = Some r" if "mset fs = mset (fields r)" "good r" for fs r
  proof -
    have "fold upd fs = fold upd (fields r)"
      using that(1) commute by (intro fold_multiset_equiv) (metis set_mset_mset)+
    moreover have "length fs = length (fields r)" "set fs = set (fields r)" using that(1) by (metis size_mset) (metis that(1) set_mset_mset)
    ultimately show ?thesis using fields_ok [OF that(2)] members [OF that(2)] by simp
  qed
  then have each: "list_all2 (\<lambda>fs r. length fs = keys \<and> (\<forall>f \<in> set fs. ok f) \<and> of_in (fold upd fs c0) = Some r) fss rs"
    using fss rs(2) by (auto elim!: list_all2_mono simp: list_all2_conv_all_nth)
  have ne: "fss \<noteq> []" using rs(1) fss by (cases rs) auto
  have ok: "\<forall>fs \<in> set fss. length fs = keys \<and> (\<forall>f \<in> set fs. ok f)"
    using each by (induction rule: list_all2_induct) auto
  have "conf_use (\<lambda>c. map_option use (of_in c)) (map (\<lambda>fs. fold upd fs c0) fss) s = conf_use (\<lambda>r. Some (use r)) rs s"
    using each by (induction arbitrary: s rule: list_all2_induct) (auto split: result.splits prod.splits bind_split)
  then show ?thesis by (simp add: conf_run_def conf_parse_encode [OF ne ok keys_pos])
qed

end

section \<open>The three formats\<close>

datatype part_field = PName string | PProg string | PMemory nat | PPeriod nat | PDuration nat

fun part_field_key :: "part_field \<Rightarrow> string" where
  "part_field_key (PName s) = ''name''" | "part_field_key (PProg s) = ''prog''" | "part_field_key (PMemory n) = ''memory''"
| "part_field_key (PPeriod n) = ''period''" | "part_field_key (PDuration n) = ''duration''"

fun part_field_val :: "part_field \<Rightarrow> string" where
  "part_field_val (PName s) = s" | "part_field_val (PProg s) = s" | "part_field_val (PMemory n) = dec n"
| "part_field_val (PPeriod n) = dec n" | "part_field_val (PDuration n) = dec n"

fun part_field_upd :: "part_field \<Rightarrow> part_conf_in \<Rightarrow> part_conf_in" where
  "part_field_upd (PName s) c = c\<lparr>pi_name := Some s\<rparr>" | "part_field_upd (PProg s) c = c\<lparr>pi_prog := Some s\<rparr>"
| "part_field_upd (PMemory n) c = c\<lparr>pi_mem_req := Some (of_nat n)\<rparr>" | "part_field_upd (PPeriod n) c = c\<lparr>pi_period := Some (int n)\<rparr>"
| "part_field_upd (PDuration n) c = c\<lparr>pi_duration := Some (int n)\<rparr>"

fun part_field_ok :: "part_field \<Rightarrow> bool" where
  "part_field_ok (PName s) = plain s" | "part_field_ok (PProg s) = plain s" | "part_field_ok (PMemory n) = (0 < n \<and> n < 2 ^ 31)"
| "part_field_ok (PPeriod n) = (n < 2 ^ 31)" | "part_field_ok (PDuration n) = (n < 2 ^ 31)"

definition part_fields :: "part_conf \<Rightarrow> part_field list" where
  "part_fields c = [PName (pc_name c), PProg (pc_prog c), PMemory (unat (pc_mem_req c)), PPeriod (nat (pc_period c)), PDuration (nat (pc_duration c))]"

definition small :: "int \<Rightarrow> bool" where
  "small n \<longleftrightarrow> 0 \<le> n \<and> n < 2 ^ 31"

definition part_conf_good :: "part_conf \<Rightarrow> bool" where
  "part_conf_good c \<longleftrightarrow> plain (pc_name c) \<and> plain (pc_prog c) \<and> 0 < pc_mem_req c \<and> pc_mem_req c < 2 ^ 31
     \<and> small (pc_period c) \<and> small (pc_duration c)"

interpretation pcf: conf_record part_key part_field_key part_field_val part_field_upd part_field_ok part_conf_in0 5 part_fields
    part_conf_of part_conf_good
proof unfold_locales
  show "part_key (part_field_key f) (Some (part_field_val f)) c = Parsed (part_field_upd f c, part_field_val f)" if "part_field_ok f" for f c
    using that by (cases f) (simp_all add: part_key_def with_val_def atoi_dec)
  show "plain (part_field_key f) \<and> plain (part_field_val f)" if "part_field_ok f" for f
    using that by (cases f) (simp_all add: plain_dec NUL_def)
  show "length (part_fields r) = 5 \<and> (\<forall>f \<in> set (part_fields r). part_field_ok f)" if "part_conf_good r" for r
    using that by (auto simp: part_fields_def part_conf_good_def small_def word_less_nat_alt nat_less_iff)
  show "part_conf_of (fold part_field_upd (part_fields r) part_conf_in0) = Some r" if "part_conf_good r" for r
    using that by (simp add: part_fields_def part_conf_of_def part_conf_in0_def part_conf_good_def small_def)
  show "part_field_upd f \<circ> part_field_upd g = part_field_upd g \<circ> part_field_upd f"
    if "f \<in> set (part_fields r)" "g \<in> set (part_fields r)" for f g r
    using that by (auto simp: part_fields_def fun_eq_iff)
qed simp

datatype sched_field = SPart string | SOffset nat | SDuration nat

fun sched_field_key :: "sched_field \<Rightarrow> string" where
  "sched_field_key (SPart s) = ''part''" | "sched_field_key (SOffset n) = ''offset''" | "sched_field_key (SDuration n) = ''duration''"

fun sched_field_val :: "sched_field \<Rightarrow> string" where
  "sched_field_val (SPart s) = s" | "sched_field_val (SOffset n) = dec n" | "sched_field_val (SDuration n) = dec n"

fun sched_field_upd :: "sched_field \<Rightarrow> sched_conf_in \<Rightarrow> sched_conf_in" where
  "sched_field_upd (SPart s) c = c\<lparr>si_pa_name := Some s\<rparr>" | "sched_field_upd (SOffset n) c = c\<lparr>si_offset := Some (int n)\<rparr>"
| "sched_field_upd (SDuration n) c = c\<lparr>si_duration := Some (int n)\<rparr>"

fun sched_field_ok :: "sched_field \<Rightarrow> bool" where
  "sched_field_ok (SPart s) = plain s" | "sched_field_ok (SOffset n) = (n < 2 ^ 31)" | "sched_field_ok (SDuration n) = (n < 2 ^ 31)"

definition sched_fields :: "sched_conf \<Rightarrow> sched_field list" where
  "sched_fields c = [SPart (sc_pa_name c), SOffset (nat (sc_offset c)), SDuration (nat (sc_duration c))]"

definition sched_conf_good :: "sched_conf \<Rightarrow> bool" where
  "sched_conf_good c \<longleftrightarrow> plain (sc_pa_name c) \<and> small (sc_offset c) \<and> small (sc_duration c)"

interpretation scf: conf_record sched_key sched_field_key sched_field_val sched_field_upd sched_field_ok sched_conf_in0 3 sched_fields
    sched_conf_of sched_conf_good
proof unfold_locales
  show "sched_key (sched_field_key f) (Some (sched_field_val f)) c = Parsed (sched_field_upd f c, sched_field_val f)" if "sched_field_ok f" for f c
    using that by (cases f) (simp_all add: sched_key_def with_val_def atoi_dec)
  show "plain (sched_field_key f) \<and> plain (sched_field_val f)" if "sched_field_ok f" for f
    using that by (cases f) (simp_all add: plain_dec NUL_def)
  show "length (sched_fields r) = 3 \<and> (\<forall>f \<in> set (sched_fields r). sched_field_ok f)" if "sched_conf_good r" for r
    using that by (auto simp: sched_fields_def sched_conf_good_def small_def nat_less_iff)
  show "sched_conf_of (fold sched_field_upd (sched_fields r) sched_conf_in0) = Some r" if "sched_conf_good r" for r
    using that by (simp add: sched_fields_def sched_conf_of_def sched_conf_in0_def sched_conf_good_def small_def)
  show "sched_field_upd f \<circ> sched_field_upd g = sched_field_upd g \<circ> sched_field_upd f"
    if "f \<in> set (sched_fields r)" "g \<in> set (sched_fields r)" for f g r
    using that by (auto simp: sched_fields_def fun_eq_iff)
qed simp

datatype port_field = QName string | QPart string | QDirection bool | QSize nat | QMessages nat

text \<open>\<open>QDirection True\<close> is a source.\<close>

fun port_field_key :: "port_field \<Rightarrow> string" where
  "port_field_key (QName s) = ''name''" | "port_field_key (QPart s) = ''part''" | "port_field_key (QDirection b) = ''direction''"
| "port_field_key (QSize n) = ''max-msg-size''" | "port_field_key (QMessages n) = ''max-nb-msg''"

fun port_field_val :: "port_field \<Rightarrow> string" where
  "port_field_val (QName s) = s" | "port_field_val (QPart s) = s" | "port_field_val (QDirection b) = (if b then ''src'' else ''dst'')"
| "port_field_val (QSize n) = dec n" | "port_field_val (QMessages n) = dec n"

fun port_field_upd :: "port_field \<Rightarrow> port_conf_in \<Rightarrow> port_conf_in" where
  "port_field_upd (QName s) c = c\<lparr>qi_name := Some s\<rparr>" | "port_field_upd (QPart s) c = c\<lparr>qi_pa_name := Some s\<rparr>"
| "port_field_upd (QDirection b) c = c\<lparr>qi_dir := Some (if b then SOURCE else DESTINATION)\<rparr>"
| "port_field_upd (QSize n) c = c\<lparr>qi_max_msg_size := Some (of_nat n)\<rparr>" | "port_field_upd (QMessages n) c = c\<lparr>qi_max_nb_msg := Some (of_nat n)\<rparr>"

fun port_field_ok :: "port_field \<Rightarrow> bool" where
  "port_field_ok (QName s) = plain s" | "port_field_ok (QPart s) = plain s" | "port_field_ok (QDirection b) = True"
| "port_field_ok (QSize n) = (n < 2 ^ 31)" | "port_field_ok (QMessages n) = (n < 2 ^ 31)"

definition port_fields :: "queuing_port_conf \<Rightarrow> port_field list" where
  "port_fields c = [QName (qpc_name c), QPart (qpc_pa_name c), QDirection (qpc_dir c = SOURCE), QSize (unat (qpc_max_msg_size c)),
     QMessages (unat (qpc_max_nb_msg c))]"

definition port_conf_good :: "queuing_port_conf \<Rightarrow> bool" where
  "port_conf_good c \<longleftrightarrow> plain (qpc_name c) \<and> plain (qpc_pa_name c) \<and> (qpc_dir c = SOURCE \<or> qpc_dir c = DESTINATION)
     \<and> qpc_max_msg_size c < 2 ^ 31 \<and> qpc_max_nb_msg c < 2 ^ 31 \<and> qpc_channel c = None"

interpretation qcf: conf_record port_key port_field_key port_field_val port_field_upd port_field_ok port_conf_in0 5 port_fields
    port_conf_of port_conf_good
proof unfold_locales
  show "port_key (port_field_key f) (Some (port_field_val f)) c = Parsed (port_field_upd f c, port_field_val f)" if "port_field_ok f" for f c
    using that by (cases f) (simp_all add: port_key_def with_val_def atoi_dec)
  show "plain (port_field_key f) \<and> plain (port_field_val f)" if "port_field_ok f" for f
    using that by (cases f) (simp_all add: plain_dec NUL_def)
  show "length (port_fields r) = 5 \<and> (\<forall>f \<in> set (port_fields r). port_field_ok f)" if "port_conf_good r" for r
    using that by (auto simp: port_fields_def port_conf_good_def word_less_nat_alt)
  show "port_conf_of (fold port_field_upd (port_fields r) port_conf_in0) = Some r" if "port_conf_good r" for r
    using that by (auto simp: port_fields_def port_conf_of_def port_conf_in0_def port_conf_good_def SOURCE_def DESTINATION_def)
  show "port_field_upd f \<circ> port_field_upd g = port_field_upd g \<circ> port_field_upd f"
    if "f \<in> set (port_fields r)" "g \<in> set (port_fields r)" for f g r
    using that by (auto simp: port_fields_def fun_eq_iff)
qed simp

section \<open>Channels\<close>

datatype chan_field = CMedia | CType channel_type

fun chan_field_key :: "chan_field \<Rightarrow> string" where
  "chan_field_key CMedia = ''media''" | "chan_field_key (CType t) = ''type''"

fun chan_field_val :: "chan_field \<Rightarrow> string" where
  "chan_field_val CMedia = ''memory''" | "chan_field_val (CType CT_QUEUING) = ''queuing''" | "chan_field_val (CType CT_SAMPLING) = ''sampling''"

fun chan_field_upd :: "chan_field \<Rightarrow> chan_conf_in \<Rightarrow> chan_conf_in" where
  "chan_field_upd CMedia c = c\<lparr>ci_media := Some CM_MEMORY\<rparr>" | "chan_field_upd (CType t) c = c\<lparr>ci_type := Some t\<rparr>"

interpretation ccf: conf_format chan_key chan_field_key chan_field_val chan_field_upd "\<lambda>_. True"
proof unfold_locales
  show "chan_key (chan_field_key f) (Some (chan_field_val f)) c = Parsed (chan_field_upd f c, chan_field_val f)" for f c
    by (cases f rule: chan_field_val.cases) (simp_all add: chan_key_def with_val_def)
  show "plain (chan_field_key f) \<and> plain (chan_field_val f)" for f
    by (cases f rule: chan_field_val.cases) (simp_all add: NUL_def)
qed

definition port_name :: "string \<Rightarrow> bool" where
  "port_name s \<longleftrightarrow> plain s \<and> CHR ''&'' \<notin> set s"

lemma split_ports_name: "CHR ''&'' \<notin> set s \<Longrightarrow> split_ports s = [s]"
  by (induction s) auto

lemma split_ports_append: "CHR ''&'' \<notin> set s \<Longrightarrow> split_ports (s @ CHR ''&'' # t) = s # split_ports t"
  by (induction s) auto

lemma split_ports_join: "ns \<noteq> [] \<Longrightarrow> \<forall>n \<in> set ns. port_name n \<Longrightarrow> split_ports (sep_join (CHR ''&'') ns) = ns"
proof (induction ns)
  case (Cons n ns)
  then show ?case
    by (cases "ns = []") (simp_all add: split_ports_name split_ports_append sep_join_Cons port_name_def)
qed simp

lemma cut_ports_name: "CHR ''&'' \<notin> set s \<Longrightarrow> cut_ports s = s"
  by (induction s) (auto simp: cut_ports_def)

lemma plain_join: "\<forall>n \<in> set ns. port_name n \<Longrightarrow> plain (sep_join (CHR ''&'') ns)"
proof (induction ns)
  case (Cons n ns)
  then show ?case by (cases "ns = []") (simp_all add: sep_join_Cons port_name_def NUL_def)
qed simp

text \<open>
  After the list of ports the parser stands at the second name: only the first one has been
  passed over.
\<close>

lemma ports_step:
  assumes names: "\<forall>n \<in> set (n1 # n2 # ns). port_name n" and len: "length raw = Suc conf_len"
    and raw: "raw = pre @ ''ports'' @ NUL # sep_join (CHR ''&'') (n1 # n2 # ns) @ NUL # post"
  shows "\<exists>raw' q post'. conf_keys conf_len chan_key (Suc k) raw (length pre) c
      = conf_keys conf_len chan_key k raw' q (c\<lparr>ci_port_names := Some (n1 # n2 # ns)\<rparr>)
    \<and> q \<le> conf_len \<and> str_from raw' q = Some n2"
proof -
  define v where "v = sep_join (CHR ''&'') (n1 # n2 # ns)"
  define w where "w = cut_ports (sep_join (CHR ''&'') (n2 # ns))"
  have rawv: "raw = pre @ ''ports'' @ NUL # v @ NUL # post" by (simp add: raw v_def)
  have n: "NUL \<notin> set n1" "NUL \<notin> set n2" "CHR ''&'' \<notin> set n1" "CHR ''&'' \<notin> set n2"
    using names plain_NUL by (auto simp: port_name_def)
  have vp: "NUL \<notin> set v" unfolding v_def by (rule plain_NUL [OF plain_join [OF names]])
  have cut: "cut_ports v = n1 @ NUL # w" using cut_ports_name [OF n(3)] by (simp add: v_def w_def cut_ports_def)
  have w: "\<exists>t. w @ NUL # post = n2 @ NUL # t"
    using cut_ports_name [OF n(4)] by (cases ns) (simp_all add: w_def cut_ports_def)
  then obtain t where t: "w @ NUL # post = n2 @ NUL # t" ..
  define raw' where "raw' = (pre @ ''ports'' @ [NUL]) @ (n1 @ NUL # w) @ NUL # post"
  have k: "str_from raw (length pre) = Some ''ports''" unfolding raw by (rule str_from_append) (simp_all add: NUL_def)
  have val: "str_from raw (length pre + length ''ports'' + 1) = Some v"
    using str_from_append [of "pre @ ''ports'' @ [NUL]" _ v post] vp by (simp add: raw v_def)
  have h: "chan_key ''ports'' (Some v) c = Parsed (c\<lparr>ci_port_names := Some (n1 # n2 # ns)\<rparr>, cut_ports v)"
    using split_ports_join [OF _ names] by (simp add: chan_key_def with_val_def v_def)
  have "length v = length (n1 @ NUL # w)" unfolding cut [symmetric] by (simp add: cut_ports_def)
  then have put: "raw' = put_at raw (length pre + length ''ports'' + 1) (cut_ports v)"
    using put_at_append [of "pre @ ''ports'' @ [NUL]" _ v "cut_ports v" "NUL # post"] by (simp add: cut rawv raw'_def)
  have s1: "skip_str raw' (length pre) = Some (length pre + 6)"
    using skip_str_append [of pre "length pre" "''ports''" "n1 @ NUL # w @ NUL # post"] by (simp add: raw'_def NUL_def)
  have s2: "skip_str raw' (length pre + 6) = Some (length pre + 6 + length n1 + 1)"
    using skip_str_append [of "pre @ ''ports'' @ [NUL]" "length pre + 6" n1 "w @ NUL # post"] n(1) by (simp add: raw'_def)
  have "str_from raw' (length pre + 6 + length n1 + 1) = Some n2"
    using str_from_append [of "pre @ ''ports'' @ NUL # n1 @ [NUL]" "length pre + 6 + length n1 + 1" n2 t] n(2) t by (simp add: raw'_def)
  moreover have "length pre + 6 + length n1 + 1 \<le> conf_len"
    using len \<open>length v = length (n1 @ NUL # w)\<close> by (simp add: rawv)
  moreover have q: "length pre \<le> conf_len" using len by (simp add: raw)
  note conf_keys_step [where h = chan_key and c = c, OF q k val h put s1 s2]
  ultimately show ?thesis by blast
qed

text \<open>The text of a channel whose list of ports comes last.\<close>

definition chan_text :: "chan_field list \<Rightarrow> string list \<Rightarrow> string" where
  "chan_text fs names =
     sep_join (CHR '','') (map (\<lambda>f. chan_field_key f @ CHR ''='' # chan_field_val f) fs @ [''ports='' @ sep_join (CHR ''&'') names])"

lemma sep_join_snoc: "fs \<noteq> [] \<Longrightarrow> sep_join c (fs @ [t]) = sep_join c fs @ c # t"
proof (induction fs)
  case (Cons f fs)
  then show ?case by (cases "fs = []") (simp_all add: sep_join_Cons)
qed simp

lemma chan_text_split:
  assumes "fs \<noteq> []" "\<forall>n \<in> set names. port_name n"
  shows "map cut (chan_text fs names) = concat (map ccf.token fs) @ ''ports'' @ NUL # sep_join (CHR ''&'') names"
    "filter (\<lambda>c. c = CHR '';'') (chan_text fs names) = []"
proof -
  have t: "chan_text fs names = sep_join (CHR '','') (map ccf.field fs) @ CHR '','' # ''ports='' @ sep_join (CHR ''&'') names"
    using assms(1) by (simp add: chan_text_def sep_join_snoc ccf.field_def [abs_def])
  have p: "plain (sep_join (CHR ''&'') names)" using plain_join [OF assms(2)] .
  have "map cut (sep_join (CHR '','') (map ccf.field fs)) @ [NUL] = concat (map ccf.token fs)" using ccf.cut_fields [OF assms(1)] by simp
  moreover have "map cut (chan_text fs names)
    = (map cut (sep_join (CHR '','') (map ccf.field fs)) @ [NUL]) @ ''ports'' @ NUL # sep_join (CHR ''&'') names"
    unfolding t by (simp add: map_cut_plain [OF p]) (simp add: cut_def)
  ultimately show "map cut (chan_text fs names) = concat (map ccf.token fs) @ ''ports'' @ NUL # sep_join (CHR ''&'') names" by simp
  show "filter (\<lambda>c. c = CHR '';'') (chan_text fs names) = []"
    unfolding t using ccf.no_semicolon [of fs] count_plain [OF p] by simp
qed

lemma chan_keys_text:
  assumes "fs \<noteq> []" "\<forall>n \<in> set (n1 # n2 # ns). port_name n" "conf_split conf = map cut (chan_text fs (n1 # n2 # ns)) @ NUL # post"
  shows "\<exists>raw' q. conf_keys (length conf) chan_key (Suc (length fs)) (conf_split conf) 0 c
      = Parsed (raw', q, (fold chan_field_upd fs c)\<lparr>ci_port_names := Some (n1 # n2 # ns)\<rparr>) \<and> q \<le> length conf \<and> str_from raw' q = Some n2"
proof -
  let ?t = "concat (map ccf.token fs)" and ?p = "''ports'' @ NUL # sep_join (CHR ''&'') (n1 # n2 # ns) @ NUL # post"
  have raw: "conf_split conf = ?t @ ?p" using assms(3) chan_text_split(1) [OF assms(1,2)] by simp
  have len: "length (?t @ ?p) = Suc (length conf)" unfolding raw [symmetric] by (simp add: conf_split_def)
  have "conf_keys (length conf) chan_key (length fs + 1) (?t @ ?p) 0 c
    = conf_keys (length conf) chan_key 1 (?t @ ?p) (length ?t) (fold chan_field_upd fs c)"
    using ccf.conf_keys_tokens [of fs "[]" ?p "length conf" 1 c] len by simp
  moreover have "\<exists>raw' q post'. conf_keys (length conf) chan_key (Suc 0) (?t @ ?p) (length ?t) (fold chan_field_upd fs c)
      = conf_keys (length conf) chan_key 0 raw' q ((fold chan_field_upd fs c)\<lparr>ci_port_names := Some (n1 # n2 # ns)\<rparr>)
    \<and> q \<le> length conf \<and> str_from raw' q = Some n2"
    by (rule ports_step [OF assms(2) len]) simp
  ultimately show ?thesis unfolding raw by auto
qed

section \<open>The command line is read back\<close>

definition word :: "string \<Rightarrow> bool" where
  "word w \<longleftrightarrow> w \<noteq> [] \<and> CHR '' '' \<notin> set w \<and> NUL \<notin> set w"

lemma args_split_True: "CHR '' '' \<notin> set w \<Longrightarrow>
  args_split True (w @ CHR '' '' # rest) = (w @ NUL # fst (args_split False rest), Suc (snd (args_split False rest)))"
  by (induction w) (auto simp: case_prod_beta)

lemma args_split_words:
  "\<forall>w \<in> set ws. word w \<Longrightarrow> args_split False (concat (map (\<lambda>w. w @ [CHR '' '']) ws)) = (concat (map (\<lambda>w. w @ [NUL]) ws), length ws)"
proof (induction ws)
  case (Cons w ws)
  then obtain c cs where w: "w = c # cs" "c \<noteq> CHR '' ''" "CHR '' '' \<notin> set cs" by (cases w) (auto simp: word_def)
  then show ?case using Cons args_split_True [OF w(3), of "concat (map (\<lambda>w. w @ [CHR '' '']) ws)"] by simp
qed simp

lemma join_spaces: "ws \<noteq> [] \<Longrightarrow> sep_join (CHR '' '') ws @ [CHR '' ''] = concat (map (\<lambda>w. w @ [CHR '' '']) ws)"
proof (induction ws)
  case (Cons w ws)
  then show ?case by (cases "ws = []") (simp_all add: sep_join_Cons)
qed simp

lemma args_trim_word:
  assumes "b \<noteq> []" "last b \<noteq> CHR '' ''"
  shows "args_trim b (length b) = length b"
proof -
  obtain n where n: "length b = Suc n" using assms(1) by (cases b) auto
  then have "b ! n = last b" using assms(1) by (simp add: last_conv_nth)
  then show ?thesis using assms(2) n by simp
qed

fun starts :: "nat \<Rightarrow> string list \<Rightarrow> nat list" where
  "starts q [] = []"
| "starts q (w # ws) = q # starts (q + length w + 1) ws"

lemma length_starts [simp]: "length (starts q ws) = length ws"
  by (induction ws arbitrary: q) auto

lemma args_words_starts:
  "\<forall>w \<in> set ws. word w \<Longrightarrow> args_words (pre @ concat (map (\<lambda>w. w @ [NUL]) ws) @ post) (length ws) (length pre) = Some (starts (length pre) ws)"
proof (induction ws arbitrary: pre)
  case (Cons w ws)
  let ?rest = "concat (map (\<lambda>w. w @ [NUL]) ws) @ post"
  have "skip_str (pre @ w @ NUL # ?rest) (length pre) = Some (length pre + length w + 1)"
    using Cons.prems by (intro skip_str_append) (simp_all add: word_def)
  moreover have "args_words (pre @ w @ NUL # ?rest) (length ws) (length pre + length w + 1) = Some (starts (length pre + length w + 1) ws)"
    using Cons.IH [of "pre @ w @ [NUL]"] Cons.prems by simp
  ultimately show ?case by simp
qed simp

lemma drop_starts:
  "k < length ws \<Longrightarrow> \<exists>t. drop (starts (length pre) ws ! k) (pre @ concat (map (\<lambda>w. w @ [NUL]) ws) @ post) = ws ! k @ NUL # t"
proof (induction ws arbitrary: pre k)
  case (Cons w ws)
  show ?case
  proof (cases k)
    case 0
    then show ?thesis by simp
  next
    case (Suc j)
    then show ?thesis using Cons.IH [of j "pre @ w @ [NUL]"] Cons.prems by simp
  qed
qed simp

lemma at_start:
  assumes "drop p raw = w @ NUL # t" "NUL \<notin> set w"
  shows "str_from raw p = Some w" "j \<le> length w \<Longrightarrow> char_at raw (p + j) = Some ((w @ [NUL]) ! j)"
    "j \<le> length w \<Longrightarrow> str_from raw (p + j) = Some (drop j w)"
proof -
  show "str_from raw p = Some w" using assms by (simp add: str_from_def cstr_of_append)
  have l: "length raw = p + length w + 1 + length t" using arg_cong [OF assms(1), of length] by simp
  show "char_at raw (p + j) = Some ((w @ [NUL]) ! j)" if "j \<le> length w"
  proof -
    have "raw ! (p + j) = drop p raw ! j" using l that by (simp add: nth_drop)
    then show ?thesis using that l assms(1) by (auto simp: char_at_def nth_append)
  qed
  show "str_from raw (p + j) = Some (drop j w)" if "j \<le> length w"
  proof -
    have "drop (p + j) raw = drop j w @ NUL # t" using assms(1) that by (simp flip: drop_drop add: add.commute)
    moreover have "NUL \<notin> set (drop j w)" using assms(2) by (meson in_set_dropD)
    ultimately show ?thesis by (simp add: str_from_def cstr_of_append)
  qed
qed
lemma sep_join_ends:
  "\<forall>w \<in> set ws. word w \<Longrightarrow> ws \<noteq> [] \<Longrightarrow>
     sep_join (CHR '' '') ws \<noteq> [] \<and> hd (sep_join (CHR '' '') ws) \<noteq> CHR '' '' \<and> last (sep_join (CHR '' '') ws) \<noteq> CHR '' ''"
proof (induction ws)
  case (Cons w ws)
  then have "w \<noteq> []" "hd w \<noteq> CHR '' ''" "last w \<noteq> CHR '' ''" by (auto simp: word_def dest: hd_in_set last_in_set)
  then show ?case using Cons by (cases "ws = []") (simp_all add: sep_join_Cons)
qed simp

text \<open>The options that take a string, and the variable of each.\<close>

definition str_opts :: "string list" where
  "str_opts = [''test'', ''pa-conf'', ''sc-conf'', ''sp-conf'', ''qp-conf'', ''ch-conf'']"

definition opt_of :: "string \<Rightarrow> bootargs \<Rightarrow> nat option" where
  "opt_of n v =
     (if n = ''test'' then args_test v else if n = ''pa-conf'' then args_partitions_conf v
      else if n = ''sc-conf'' then args_scheduler_conf v else if n = ''sp-conf'' then args_sampling_ports_conf v
      else if n = ''qp-conf'' then args_queuing_ports_conf v else if n = ''ch-conf'' then args_channel_conf v else None)"

definition debug_opts :: "bootargs \<Rightarrow> int list" where
  "debug_opts v = [args_debug_dt v, args_debug_as_switch v, args_debug_tick_interval v, args_debug_tick_num v]"

lemma str_opt_found:
  assumes "n \<in> set str_opts"
  obtains p where "args_parse_long_arg_name args_collections n = Some p" "arg_type p = ARG_STRING"
    "\<And>a v m. m \<in> set str_opts \<Longrightarrow> opt_of m (arg_target p (StrVal a) v) = (if m = n then Some a else opt_of m v)"
    "\<And>a v. debug_opts (arg_target p (StrVal a) v) = debug_opts v"
proof -
  define p where "p = the (args_parse_long_arg_name args_collections n)"
  note defs = p_def args_collections_def arg_of_str_def
  have n: "n = ''test'' \<or> n = ''pa-conf'' \<or> n = ''sc-conf'' \<or> n = ''sp-conf'' \<or> n = ''qp-conf'' \<or> n = ''ch-conf''"
    using assms by (simp add: str_opts_def)
  have f: "args_parse_long_arg_name args_collections n = Some p" "arg_type p = ARG_STRING"
    using n by (elim disjE; simp add: defs)+
  have t: "opt_of m (arg_target p (StrVal a) v) = (if m = n then Some a else opt_of m v)" if "m \<in> set str_opts" for a v m
    using n that by (elim disjE) (auto simp: defs opt_of_def str_opts_def)
  have d: "debug_opts (arg_target p (StrVal a) v) = debug_opts v" for a v
    using n by (elim disjE) (auto simp: defs debug_opts_def)
  show thesis using that [OF f] t d by blast
qed

lemma str_opt_word: "n \<in> set str_opts \<Longrightarrow> n \<noteq> [] \<and> word (''--'' @ n)"
  by (auto simp: str_opts_def word_def NUL_def)

definition opt_words :: "(string \<times> string) list \<Rightarrow> string list" where
  "opt_words ps = concat (map (\<lambda>(n, w). [''--'' @ n, w]) ps)"

lemma opt_words_nth:
  "length (opt_words ps) = 2 * length ps"
  "k < length ps \<Longrightarrow> opt_words ps ! (2 * k) = ''--'' @ fst (ps ! k) \<and> opt_words ps ! Suc (2 * k) = snd (ps ! k)"
proof -
  show "length (opt_words ps) = 2 * length ps" by (induction ps) (auto simp: opt_words_def)
  show "k < length ps \<Longrightarrow> opt_words ps ! (2 * k) = ''--'' @ fst (ps ! k) \<and> opt_words ps ! Suc (2 * k) = snd (ps ! k)"
  proof (induction ps arbitrary: k)
    case (Cons p ps)
    then show ?case by (cases k) (auto simp: opt_words_def split: prod.splits)
  qed simp
qed

definition opts_good :: "(string \<times> string) list \<Rightarrow> bool" where
  "opts_good ps \<longleftrightarrow> ps \<noteq> [] \<and> 2 * length ps < 2 ^ 64 \<and> (\<forall>(n, w) \<in> set ps. n \<in> set str_opts \<and> word w)"

definition opts_raw :: "(string \<times> string) list \<Rightarrow> string" where
  "opts_raw ps = concat (map (\<lambda>w. w @ [NUL]) (opt_words ps)) @ [NUL]"

lemma opts_good_nth:
  assumes "opts_good ps" "k < length ps"
  shows "fst (ps ! k) \<in> set str_opts" "word (snd (ps ! k))"
  using assms nth_mem [OF assms(2)] unfolding opts_good_def by (cases "ps ! k"; fastforce)+

lemma opts_good_words: "opts_good ps \<Longrightarrow> w \<in> set (opt_words ps) \<Longrightarrow> word w"
  using str_opt_word by (auto simp: opts_good_def opt_words_def)

text \<open>One pair of words of the command line.\<close>

lemma args_parse_opt:
  assumes "opts_good ps" "k < length ps" "args_parse_long_arg_name args_collections (fst (ps ! k)) = Some p" "arg_type p = ARG_STRING"
  shows "\<exists>a. str_from (opts_raw ps) a = Some (snd (ps ! k))
    \<and> args_parse_one (opts_raw ps) args_collections (starts 0 (opt_words ps)) (of_nat (2 * k)) v
      = Some (\<lparr>pr_error = ARGP_SUCCESS, pr_value = 0\<rparr>, arg_target p (StrVal a) v, Some 1)"
proof -
  let ?ws = "opt_words ps" and ?raw = "opts_raw ps" and ?n = "fst (ps ! k)"
  let ?argv = "starts 0 ?ws"
  note ws = opt_words_nth(1) [of ps] opt_words_nth(2) and good = opts_good_nth [OF assms(1,2)]
  have k: "2 * k < length ?ws" "Suc (2 * k) < length ?ws" using ws(1) assms(2) by simp_all
  obtain t where d: "drop (?argv ! (2 * k)) ?raw = (''--'' @ ?n) @ NUL # t"
    using drop_starts [OF k(1), of "[]" "[NUL]"] ws(2) [OF assms(2)] by (auto simp: opts_raw_def)
  obtain t' where d': "drop (?argv ! Suc (2 * k)) ?raw = snd (ps ! k) @ NUL # t'"
    using drop_starts [OF k(2), of "[]" "[NUL]"] ws(2) [OF assms(2)] by (auto simp: opts_raw_def)
  have n: "?n \<noteq> []" "NUL \<notin> set (''--'' @ ?n)" using str_opt_word [OF good(1)] by (auto simp: word_def)
  note at = at_start [OF d n(2)]
  have c: "char_at ?raw (?argv ! (2 * k)) = Some (CHR ''-'')" "char_at ?raw (?argv ! (2 * k) + 1) = Some (CHR ''-'')"
    using at(2) [of 0] at(2) [of 1] by simp_all
  have c2: "\<exists>c. char_at ?raw (?argv ! (2 * k) + 2) = Some c \<and> c \<noteq> NUL"
    using at(2) [of 2] n by (cases ?n) auto
  have name: "str_from ?raw (?argv ! (2 * k) + 2) = Some ?n" using at(3) [of 2] by simp
  have u: "unat (of_nat (2 * k) :: u64) = 2 * k"
    using assms(1,2) by (simp only: unat_of_nat) (simp add: opts_good_def)
  have "next_arg ?argv (of_nat (2 * k)) = Some (?argv ! Suc (2 * k))" using k(2) unfolding next_arg_def u by simp
  then have "args_parse_long_arg ?raw args_collections ?argv (of_nat (2 * k)) v
    = Some (\<lparr>pr_error = ARGP_SUCCESS, pr_value = 0\<rparr>, arg_target p (StrVal (?argv ! Suc (2 * k))) v, Some 1)"
    using name assms(3,4) unfolding args_parse_long_arg_def u by (simp add: args_assign_def)
  then have "args_parse_one ?raw args_collections ?argv (of_nat (2 * k)) v
    = Some (\<lparr>pr_error = ARGP_SUCCESS, pr_value = 0\<rparr>, arg_target p (StrVal (?argv ! Suc (2 * k))) v, Some 1)"
    using c c2 unfolding args_parse_one_def u by auto
  moreover have "str_from ?raw (?argv ! Suc (2 * k)) = Some (snd (ps ! k))"
    using at_start(1) [OF d'] good(2) by (simp add: word_def)
  ultimately show ?thesis by blast
qed

text \<open>What the variables hold after the first \<open>k\<close> pairs: for each option its last value.\<close>

definition opts_read :: "(string \<times> string) list \<Rightarrow> nat \<Rightarrow> bootargs \<Rightarrow> bool" where
  "opts_read ps k v \<longleftrightarrow> debug_opts v = [0, 0, 0, 0]
     \<and> (\<forall>n \<in> set str_opts. Option.bind (opt_of n v) (str_from (opts_raw ps)) = map_of (rev (take k ps)) n)"

lemma args_loop_opts:
  assumes "opts_good ps" "k \<le> length ps" "opts_read ps k v"
  shows "\<exists>v'. args_loop (opts_raw ps) args_collections (starts 0 (opt_words ps)) junk (of_nat (2 * k)) v
      = Some (\<lparr>pr_error = ARGP_SUCCESS, pr_value = 0\<rparr>, v') \<and> opts_read ps (length ps) v'"
  using assms(2,3)
proof (induction "length ps - k" arbitrary: k v)
  case 0
  then show ?case using assms(1) by (subst args_loop.simps) (auto simp: opt_words_nth)
next
  case (Suc d)
  let ?i = "of_nat (2 * k) :: u64"
  have k: "k < length ps" using Suc by simp
  obtain p where p: "args_parse_long_arg_name args_collections (fst (ps ! k)) = Some p" "arg_type p = ARG_STRING"
    "\<And>a v m. m \<in> set str_opts \<Longrightarrow> opt_of m (arg_target p (StrVal a) v) = (if m = fst (ps ! k) then Some a else opt_of m v)"
    "\<And>a v. debug_opts (arg_target p (StrVal a) v) = debug_opts v"
    using str_opt_found [OF opts_good_nth(1) [OF assms(1) k]] by metis
  obtain a where a: "str_from (opts_raw ps) a = Some (snd (ps ! k))"
    "args_parse_one (opts_raw ps) args_collections (starts 0 (opt_words ps)) ?i v
      = Some (\<lparr>pr_error = ARGP_SUCCESS, pr_value = 0\<rparr>, arg_target p (StrVal a) v, Some 1)"
    using args_parse_opt [OF assms(1) k p(1,2)] by blast
  have lt: "?i < of_nat (length (starts 0 (opt_words ps)))"
    using k assms(1) by (simp only: word_less_nat_alt unat_of_nat length_starts opt_words_nth) (simp add: opts_good_def)
  have next_i: "?i + 1 + 1 = of_nat (2 * Suc k)" by (simp add: algebra_simps)
  have "opts_read ps (Suc k) (arg_target p (StrVal a) v)"
    using Suc.prems(2) k a(1) p(3,4) by (cases "ps ! k") (auto simp: opts_read_def take_Suc_conv_app_nth)
  then have "\<exists>v'. args_loop (opts_raw ps) args_collections (starts 0 (opt_words ps)) junk (of_nat (2 * Suc k)) (arg_target p (StrVal a) v)
      = Some (\<lparr>pr_error = ARGP_SUCCESS, pr_value = 0\<rparr>, v') \<and> opts_read ps (length ps) v'"
    using Suc.hyps k by (intro Suc.hyps(1)) auto
  then show ?case using lt a(2) next_i by (subst args_loop.simps) simp
qed

text \<open>
  A single dash as the command line is taken for a short option named \<open>NUL\<close>, the short name of the options that have
  none, and switches the listing of the device tree on.
\<close>

lemma lone_dash_debug_dt:
  "args_evaluate junk (Some ''-'') bootargs0 = Some ([CHR ''-'', NUL, NUL], bootargs0\<lparr>args_debug_dt := 1\<rparr>, OK ())"
proof -
  let ?raw = "[CHR ''-'', NUL, NUL]"
  have "skip_str ?raw 0 = Some 2" by (simp add: skip_str_def str_from_def NUL_def)
  moreover have "args_parse_one ?raw args_collections [0] 0 bootargs0
    = Some (\<lparr>pr_error = ARGP_SUCCESS, pr_value = 0\<rparr>, bootargs0\<lparr>args_debug_dt := 1\<rparr>, Some 0)"
    by (simp add: args_parse_one_def args_parse_short_arg_def char_at_def args_collections_def arg_of_str_def arg_of_bool_def args_assign_def
          NUL_def)
  then have "args_parse ?raw args_collections [0] junk bootargs0
    = Some (\<lparr>pr_error = ARGP_SUCCESS, pr_value = 0\<rparr>, bootargs0\<lparr>args_debug_dt := 1\<rparr>)"
    unfolding args_parse_def by (subst args_loop.simps, simp, subst args_loop.simps, simp)
  ultimately show ?thesis by (simp add: args_evaluate_def Let_def)
qed

section \<open>Properties\<close>



text \<open>The same for scheduling windows and queuing ports.\<close>

lemma sched_conf_roundtrip:
  assumes "scs \<noteq> []" "\<forall>c \<in> set scs. sched_conf_good c" "list_all2 (\<lambda>fs c. mset fs = mset (sched_fields c)) fss scs"
  shows "do_sched_create (conf_text sched_field_key sched_field_val fss) s = conf_use (\<lambda>c. Some (\<lambda>s. Some (sched_module_add c s))) scs s"
  unfolding do_sched_create_def by (rule scf.conf_run_text [OF assms])

lemma port_conf_roundtrip:
  assumes "qcs \<noteq> []" "\<forall>c \<in> set qcs. port_conf_good c" "list_all2 (\<lambda>fs c. mset fs = mset (port_fields c)) fss qcs"
  shows "do_queuing_ports_register (conf_text port_field_key port_field_val fss) s
    = conf_use (\<lambda>c. Some (\<lambda>s. Some (queuing_port_register c s, OK ()))) qcs s"
  unfolding do_queuing_ports_register_def by (rule qcf.conf_run_text [OF assms])

text \<open>
  C37 (error). A string that describes one channel creates it, but as soon as another channel follows
  behind a semicolon the whole string is rejected and no channel is created: the loop over the names of the ports cuts
  the value into several strings and the parser goes on at the second of them.
\<close>

theorem channel_conf_one_only:
  assumes "\<forall>n \<in> set (n1 # n2 # ns). port_name n" "n2 \<notin> {''media'', ''type'', ''ports''}" "mset fs = {#CMedia, CType t#}"
  shows "do_channel_create (chan_text fs (n1 # n2 # ns)) s
      = conf_use (\<lambda>c. Some (\<lambda>s. Some (channel_create c s))) [\<lparr>cc_media = CM_MEMORY, cc_type = t, cc_port_names = n1 # n2 # ns\<rparr>] s
    \<and> do_channel_create (chan_text fs (n1 # n2 # ns) @ CHR '';'' # rest) s = Some (s, ERR KER_ARG_ER)"
proof
  let ?names = "n1 # n2 # ns" and ?one = "chan_text fs (n1 # n2 # ns)" and ?two = "chan_text fs (n1 # n2 # ns) @ CHR '';'' # rest"
  let ?c = "(fold chan_field_upd fs chan_conf_in0)\<lparr>ci_port_names := Some (n1 # n2 # ns)\<rparr>"
  have fs: "fs \<noteq> []" "length fs = 2" using assms(3) by (auto simp flip: size_mset)
  have "fold chan_field_upd fs = fold chan_field_upd [CMedia, CType t]"
    using assms(3) by (intro fold_multiset_equiv) (auto simp: fun_eq_iff simp flip: set_mset_mset)
  then have of_c: "chan_conf_of ?c = Some \<lparr>cc_media = CM_MEMORY, cc_type = t, cc_port_names = ?names\<rparr>"
    by (simp add: chan_conf_of_def chan_conf_in0_def)
  note semi = chan_text_split(2) [OF fs(1) assms(1)]
  have "\<exists>raw' q. conf_keys (length ?one) chan_key 3 (conf_split ?one) 0 chan_conf_in0 = Parsed (raw', q, ?c)"
    using chan_keys_text [OF fs(1) assms(1), of ?one "[]" chan_conf_in0] fs(2) by (auto simp: conf_split_cut numeral_3_eq_3)
  then have "conf_parse chan_key 3 chan_conf_in0 ?one = Parsed [?c]"
    using semi by (auto simp: conf_parse_def conf_count_def)
  then show "do_channel_create ?one s = conf_use (\<lambda>c. Some (\<lambda>s. Some (channel_create c s)))
      [\<lparr>cc_media = CM_MEMORY, cc_type = t, cc_port_names = ?names\<rparr>] s"
    using of_c by (simp add: do_channel_create_def conf_run_def)
  have "conf_split ?two = map cut ?one @ NUL # map cut rest @ [NUL]" by (simp add: conf_split_cut cut_def)
  then obtain raw' q where k: "conf_keys (length ?two) chan_key 3 (conf_split ?two) 0 chan_conf_in0 = Parsed (raw', q, ?c)"
    "q \<le> length ?two" "str_from raw' q = Some n2"
    using chan_keys_text [OF fs(1) assms(1), of ?two _ chan_conf_in0] fs(2) by (auto simp: numeral_3_eq_3)
  have "chan_key n2 v c = Reject" for v c using assms(2) by (auto simp: chan_key_def)
  then have "conf_keys (length ?two) chan_key 3 raw' q chan_conf_in0 = Reject"
    using k(2,3) by (simp add: numeral_3_eq_3 Let_def)
  moreover obtain m where "conf_count ?two = Suc (Suc m)" using semi by (simp add: conf_count_def)
  ultimately have "conf_parse chan_key 3 chan_conf_in0 ?two = Reject" using k(1) by (simp add: conf_parse_def)
  then show "do_channel_create ?two s = Some (s, ERR KER_ARG_ER)" by (simp add: do_channel_create_def conf_run_def)
qed

theorem channel_conf_one_only_witness:
  "\<forall>s. do_channel_create ''media=memory,type=queuing,ports=a&b;media=memory,type=queuing,ports=c&d'' s = Some (s, ERR KER_ARG_ER)"
proof -
  have "chan_text [CMedia, CType CT_QUEUING] [''a'', ''b''] @ CHR '';'' # ''media=memory,type=queuing,ports=c&d''
    = ''media=memory,type=queuing,ports=a&b;media=memory,type=queuing,ports=c&d''" by code_simp
  moreover have "\<forall>n \<in> set [''a'', ''b'']. port_name n" by (simp add: port_name_def NUL_def)
  ultimately show ?thesis
    using channel_conf_one_only [of "''a''" "''b''" "[]" "[CMedia, CType CT_QUEUING]" CT_QUEUING _ "''media=memory,type=queuing,ports=c&d''"] by simp
qed

text \<open>
  C20 (roundtrip). A command line of options \<^verbatim>\<open>--name value\<close> that take a string, separated by single spaces, is accepted
  whatever the uninitialised \<open>pos_push\<close> holds: each of these variables then points to the last value given for its
  option, or is still \<^verbatim>\<open>NULL\<close> when the option does not occur, and the debug options are as before.
\<close>

theorem boot_options_read:
  assumes "opts_good ps"
  shows "\<exists>raw v. args_evaluate junk (Some (sep_join (CHR '' '') (opt_words ps))) bootargs0 = Some (raw, v, OK ())
    \<and> (\<forall>n \<in> set str_opts. Option.bind (opt_of n v) (str_from raw) = map_of (rev ps) n) \<and> debug_opts v = [0, 0, 0, 0]"
proof -
  let ?ws = "opt_words ps" and ?text = "sep_join (CHR '' '') (opt_words ps)"
  have ws: "\<forall>w \<in> set ?ws. word w" "?ws \<noteq> []"
    using opts_good_words [OF assms] assms opt_words_nth(1) [of ps] by (auto simp: opts_good_def)
  have tx: "?text \<noteq> []" "hd ?text \<noteq> CHR '' ''" "last ?text \<noteq> CHR '' ''" using sep_join_ends [OF ws] by simp_all
  then have "dropWhile (\<lambda>c. c = CHR '' '') ?text = ?text" by (cases ?text) auto
  moreover note args_trim_word [OF tx(1,3)]
  moreover have "args_split False (?text @ [CHR '' '']) = (concat (map (\<lambda>w. w @ [NUL]) ?ws), length ?ws)"
    using args_split_words [OF ws(1)] join_spaces [OF ws(2)] by simp
  moreover have "args_words (opts_raw ps) (length ?ws) 0 = Some (starts 0 ?ws)"
    using args_words_starts [OF ws(1), of "[]" "[NUL]"] by (simp add: opts_raw_def)
  moreover have "opts_read ps 0 bootargs0" by (simp add: opts_read_def bootargs0_def opt_of_def debug_opts_def str_opts_def)
  then obtain v where "args_parse (opts_raw ps) args_collections (starts 0 ?ws) junk bootargs0 = Some (\<lparr>pr_error = ARGP_SUCCESS, pr_value = 0\<rparr>, v)"
    "opts_read ps (length ps) v"
    using args_loop_opts [OF assms, of 0 bootargs0 junk] by (auto simp: args_parse_def)
  moreover have "max 1 (length ?ws) = length ?ws" using ws(2) by (cases ?ws) auto
  ultimately show ?thesis using tx(1) by (auto simp: args_evaluate_def opts_read_def simp flip: opts_raw_def)
qed

theorem boot_options_read_witness:
  "\<forall>junk. \<exists>raw v. args_evaluate junk (Some ''--pa-conf a --test b --pa-conf c'') bootargs0 = Some (raw, v, OK ())
     \<and> Option.bind (args_partitions_conf v) (str_from raw) = Some ''c''"
proof
  fix junk
  let ?ps = "[(''pa-conf'', ''a''), (''test'', ''b''), (''pa-conf'', ''c'')]"
  have good: "opts_good ?ps" by (simp add: opts_good_def str_opts_def word_def NUL_def)
  have "sep_join (CHR '' '') (opt_words ?ps) = ''--pa-conf a --test b --pa-conf c''" by code_simp
  then obtain raw v where "args_evaluate junk (Some ''--pa-conf a --test b --pa-conf c'') bootargs0 = Some (raw, v, OK ())"
    "\<forall>n \<in> set str_opts. Option.bind (opt_of n v) (str_from raw) = map_of (rev ?ps) n"
    using boot_options_read [OF good, of junk] by auto
  then show "\<exists>raw v. args_evaluate junk (Some ''--pa-conf a --test b --pa-conf c'') bootargs0 = Some (raw, v, OK ())
     \<and> Option.bind (args_partitions_conf v) (str_from raw) = Some ''c''"
    by (auto simp: str_opts_def opt_of_def)
qed

end
