(* ===== verification/Devicetree.thy ===== *)
theory Devicetree
  imports Bits Hashmap "HOL-Library.Monad_Syntax" "HOL-Library.Sublist"
begin

text \<open>
  The device tree, \<^verbatim>\<open>kern/drivers/devicetree.c\<close>: reading the flattened tree the firmware leaves in memory (\<open>dt_load\<close>), the lookup of
  properties, the matching of string lists and the walk over the nodes. The loops of the loader follow what they find in memory and
  take fuel; \<open>None\<close> is a loop that does not end within it. Positions in the structure block count 32-bit cells; the
  block is smaller than \<open>2^32\<close> bytes, so they do not wrap around.
\<close>

section \<open>The code\<close>

definition DTB_FDT_MAGIC :: u32 where "DTB_FDT_MAGIC = 0xd00dfeed"
definition DTB_SUPPORTED_VER :: u32 where "DTB_SUPPORTED_VER = 17"
definition FDT_BEGIN_NODE :: u32 where "FDT_BEGIN_NODE = 1"
definition FDT_END_NODE :: u32 where "FDT_END_NODE = 2"
definition FDT_PROP :: u32 where "FDT_PROP = 3"
definition FDT_NOP :: u32 where "FDT_NOP = 4"

record dev_node_prop =
  pr_name :: string
  pr_len :: u32
  pr_values :: "u8 list option"

datatype dev_node =
  DevNode (nd_name: string) (nd_prop_map: "dev_node_prop hashmap") (nd_children_list: "dev_node list")

record dev_tree =
  dt_rsvmem_list :: "(u64 \<times> u64) list"
  dt_node_list :: "dev_node list"

text \<open>Reading memory: cells in the byte order of the machine, in that of the tree, and strings.\<close>

definition load32 :: "mem \<Rightarrow> u64 \<Rightarrow> u32" where
  "load32 m a = ucast (word_of (mem_read m a 4))"

definition load64 :: "mem \<Rightarrow> u64 \<Rightarrow> u64" where
  "load64 m a = word_of (mem_read m a 8)"

definition str_at :: "nat \<Rightarrow> mem \<Rightarrow> u64 \<Rightarrow> string option" where
  "str_at fuel m a = do { n \<leftarrow> strlen fuel m a; Some (map (\<lambda>b. char_of (unat b)) (mem_read m a (unat n))) }"

record fdt_header =
  h_magic :: u32
  h_off_dt_struct :: u32
  h_off_dt_strings :: u32
  h_off_mem_rsvmap :: u32
  h_version :: u32
  h_size_dt_struct :: u32

definition fdt_header_at :: "mem \<Rightarrow> u64 \<Rightarrow> fdt_header" where
  "fdt_header_at m a =
     \<lparr>h_magic = bswap32 (load32 m a), h_off_dt_struct = bswap32 (load32 m (a + 8)), h_off_dt_strings = bswap32 (load32 m (a + 12)),
      h_off_mem_rsvmap = bswap32 (load32 m (a + 16)), h_version = bswap32 (load32 m (a + 20)), h_size_dt_struct = bswap32 (load32 m (a + 36))\<rparr>"

definition fdt_from :: "mem \<Rightarrow> u64 \<Rightarrow> fdt_header result" where
  "fdt_from m dtb_addr =
     (let fhdr = fdt_header_at m dtb_addr
      in if h_magic fhdr \<noteq> DTB_FDT_MAGIC then ERR KER_DTB_ER
         else if h_version fhdr \<noteq> DTB_SUPPORTED_VER then ERR KER_DTB_ER
         else OK fhdr)"

text \<open>The token at a position of the structure block at \<open>a\<close>.\<close>

definition token_at :: "mem \<Rightarrow> u64 \<Rightarrow> nat \<Rightarrow> u32" where
  "token_at m a pos = bswap32 (load32 m (a + of_nat (4 * pos)))"

fun skip_nops :: "nat \<Rightarrow> mem \<Rightarrow> u64 \<Rightarrow> nat \<Rightarrow> nat option" where
  "skip_nops 0 m a pos = None"
| "skip_nops (Suc fuel) m a pos = (if token_at m a pos = FDT_NOP then skip_nops fuel m a (Suc pos) else Some pos)"

definition prop_put :: "dev_node_prop \<Rightarrow> dev_node_prop hashmap \<Rightarrow> dev_node_prop hashmap" where
  "prop_put prop hm = hashmap_put hash_code_str hash_eq_str pr_name hm prop"

text \<open>The loop over the properties of a node; \<open>st\<close> is the address of the strings.\<close>

fun dt_props :: "nat \<Rightarrow> mem \<Rightarrow> u64 \<Rightarrow> u64 \<Rightarrow> nat \<Rightarrow> dev_node_prop hashmap \<Rightarrow> (dev_node_prop hashmap \<times> nat) option" where
  "dt_props 0 m a st pos hm = None"
| "dt_props (Suc fuel) m a st pos hm =
     (if token_at m a pos = FDT_PROP
      then let prop_len = token_at m a (pos + 1); prop_nameoff = token_at m a (pos + 2); pos1 = pos + 3
           in do {
             name \<leftarrow> str_at fuel m (st + ucast prop_nameoff);
             let prop = \<lparr>pr_name = name, pr_len = prop_len,
               pr_values = (if prop_len \<noteq> 0 then Some (mem_read m (a + of_nat (4 * pos1)) (unat prop_len)) else None)\<rparr>;
             pos2 \<leftarrow> skip_nops fuel m a ((4 * pos1 + unat prop_len - 1) div 4 + 1);
             dt_props fuel m a st pos2 (prop_put prop hm)
           }
      else Some (hm, pos))"

text \<open>
  \<open>dt_node_load\<close> and its loop over the children. The tree of a load that fails is not looked at again, it is not part of the
  result. A failed assertion is \<open>PANIC\<close>.
\<close>

fun dt_node_load :: "nat \<Rightarrow> mem \<Rightarrow> u64 \<Rightarrow> fdt_header \<Rightarrow> nat \<Rightarrow> (dev_node \<times> nat) result option"
  and dt_children :: "nat \<Rightarrow> mem \<Rightarrow> u64 \<Rightarrow> fdt_header \<Rightarrow> nat \<Rightarrow> dev_node list \<Rightarrow> (dev_node list \<times> nat) result option" where
  "dt_node_load 0 m dtb fhdr pos = None"
| "dt_node_load (Suc fuel) m dtb fhdr pos =
     (let a = dtb + ucast (h_off_dt_struct fhdr); st = dtb + ucast (h_off_dt_strings fhdr)
      in if \<not> 4 * pos < unat (h_size_dt_struct fhdr) then Some PANIC
         else do {
           pos1 \<leftarrow> skip_nops fuel m a pos;
           if token_at m a pos1 \<noteq> FDT_BEGIN_NODE then Some (ERR KER_DTB_ER)
           else do {
             name \<leftarrow> str_at fuel m (a + of_nat (4 * (pos1 + 1)));
             pos2 \<leftarrow> skip_nops fuel m a ((4 * (pos1 + 1) + length name) div 4 + 1);
             (props, pos3) \<leftarrow> dt_props fuel m a st pos2 (HASHMAP_ALLOC 32);
             r \<leftarrow> dt_children fuel m dtb fhdr pos3 [];
             Some (catch_e r (\<lambda>(children, pos4). OK (DevNode name props children, pos4 + 1)))
           }
         })"
| "dt_children 0 m dtb fhdr pos children = None"
| "dt_children (Suc fuel) m dtb fhdr pos children =
     (let a = dtb + ucast (h_off_dt_struct fhdr)
      in if token_at m a pos = FDT_BEGIN_NODE
         then do {
           r \<leftarrow> dt_node_load fuel m dtb fhdr pos;
           case r of
             OK (child, pos1) \<Rightarrow>
               if token_at m a pos1 \<noteq> FDT_END_NODE then dt_children fuel m dtb fhdr pos1 (children @ [child])
               else Some (OK (children @ [child], pos1))
           | ERR e \<Rightarrow> Some (ERR e)
           | PANIC \<Rightarrow> Some PANIC
         }
         else if token_at m a pos = FDT_NOP
         then (if token_at m a (pos + 1) \<noteq> FDT_END_NODE then dt_children fuel m dtb fhdr (pos + 1) children
               else Some (OK (children, pos + 1)))
         else Some (OK (children, pos)))"

text \<open>The list of reserved memory, whose cells the code takes as they are.\<close>

fun dt_rsvmem :: "nat \<Rightarrow> mem \<Rightarrow> u64 \<Rightarrow> (u64 \<times> u64) list option" where
  "dt_rsvmem 0 m a = None"
| "dt_rsvmem (Suc fuel) m a =
     (let e_addr = load64 m a; e_size = load64 m (a + 8)
      in if e_addr = 0 \<and> e_size = 0 then Some []
         else map_option ((#) (e_addr, e_size)) (dt_rsvmem fuel m (a + 16)))"

definition dt_load :: "nat \<Rightarrow> mem \<Rightarrow> u64 \<Rightarrow> dev_tree result option" where
  "dt_load fuel m dtb_addr =
     (case fdt_from m dtb_addr of
        ERR e \<Rightarrow> Some (ERR e)
      | PANIC \<Rightarrow> Some PANIC
      | OK fhdr \<Rightarrow>
          do {
            rsv \<leftarrow> dt_rsvmem fuel m (dtb_addr + ucast (h_off_mem_rsvmap fhdr));
            r \<leftarrow> dt_node_load fuel m dtb_addr fhdr 0;
            Some (catch_e r (\<lambda>(node, _). OK \<lparr>dt_rsvmem_list = rsv, dt_node_list = [node]\<rparr>))
          })"

definition dt_node_prop_extract :: "dev_node \<Rightarrow> string \<Rightarrow> dev_node_prop option" where
  "dt_node_prop_extract node prop_name = hashmap_get hash_code_str hash_eq_str pr_name (nd_prop_map node) prop_name"

text \<open>\<open>dt_match_strlist\<close>: \<open>i\<close> bytes of the target have been matched; the result is the position behind the match, or 0.\<close>

fun match_loop :: "u8 list \<Rightarrow> u8 list \<Rightarrow> nat \<Rightarrow> nat \<Rightarrow> nat \<times> nat" where
  "match_loop target [] i j = (i, j)"
| "match_loop target (v # vs) i j =
     (if i < length target
      then match_loop target vs (if target ! i \<noteq> v then 0 else Suc i) (Suc j)
      else (i, j))"

definition dt_match_strlist :: "u8 list \<Rightarrow> string \<Rightarrow> nat" where
  "dt_match_strlist prop_values target =
     (let target_bytes = map of_char target @ [0]
      in if length prop_values < length target_bytes then 0
         else let (i, j) = match_loop target_bytes prop_values 0 0 in if i = length target_bytes then j else 0)"

text \<open>\<open>dt_iter\<close>: a callback changes the state \<open>'s\<close> of the drivers.\<close>

fun dt_iter_nodes :: "(dev_node \<Rightarrow> bool) \<Rightarrow> (dev_node \<Rightarrow> 's \<Rightarrow> 's \<times> unit result) \<Rightarrow> dev_node list \<Rightarrow> 's \<Rightarrow> 's \<times> unit result" where
  "dt_iter_nodes pred callback [] s = (s, OK ())"
| "dt_iter_nodes pred callback (DevNode name props children # nodes) s =
     (case (if pred (DevNode name props children) then callback (DevNode name props children) s else (s, OK ())) of
        (s1, OK _) \<Rightarrow>
          (case dt_iter_nodes pred callback children s1 of
             (s2, OK _) \<Rightarrow> dt_iter_nodes pred callback nodes s2
           | r \<Rightarrow> r)
      | r \<Rightarrow> r)"

definition dt_iter :: "dev_tree \<Rightarrow> (dev_node \<Rightarrow> bool) \<Rightarrow> (dev_node \<Rightarrow> 's \<Rightarrow> 's \<times> unit result) \<Rightarrow> 's \<Rightarrow> 's \<times> unit result" where
  "dt_iter dt pred callback s = dt_iter_nodes pred callback (dt_node_list dt) s"

fun dt_model_of :: "dev_node list \<Rightarrow> u8 list option option" where
  "dt_model_of [] = None"
| "dt_model_of (node # nodes) =
     (case dt_node_prop_extract node ''model'' of Some prop \<Rightarrow> Some (pr_values prop) | None \<Rightarrow> dt_model_of nodes)"

definition dt_get_model :: "dev_tree \<Rightarrow> u8 list option option" where
  "dt_get_model dt = dt_model_of (dt_node_list dt)"
section \<open>Cells and strings in memory\<close>

definition be_bytes :: "nat \<Rightarrow> u64 \<Rightarrow> u8 list" where
  "be_bytes n w = rev (bytes_of n w)"

lemma length_be_bytes [simp]: "length (be_bytes n w) = n"
  by (simp add: be_bytes_def)

lemma bytes_of_nth: "i < n \<Longrightarrow> bytes_of n w ! i = ucast (drop_bit (8 * i) w)"
proof (induction n arbitrary: i w)
  case (Suc n)
  then show ?case by (cases i) (simp_all add: drop_bit_drop_bit add.commute)
qed simp

lemma bit_word_of: "length bs \<le> 8 \<Longrightarrow> k < 8 * length bs \<Longrightarrow> bit (word_of bs) k \<longleftrightarrow> bit (bs ! (k div 8)) (k mod 8)"
proof (induction bs arbitrary: k)
  case (Cons b bs)
  show ?case
  proof (cases "k < 8")
    case True
    then show ?thesis by (simp add: bit_simps)
  next
    case False
    then obtain j where "k = 8 + j" using le_Suc_ex [of 8 k] by auto
    moreover have "\<not> bit b (8 + j)" using bit_imp_le_length [of b "8 + j"] by auto
    moreover have "(8 + j) div 8 = Suc (j div 8)" by simp
    ultimately show ?thesis using Cons by (simp add: bit_simps)
  qed
qed simp

lemma bit_be_bytes:
  assumes "n \<le> 8" "k < 8 * n"
  shows "bit (word_of (be_bytes n w)) (8 * (n - 1 - k div 8) + k mod 8) \<longleftrightarrow> bit w k"
proof -
  let ?j = "8 * (n - 1 - k div 8) + k mod 8"
  have d: "k div 8 < n" "k mod 8 < 8" using assms(2) by (auto simp: less_mult_imp_div_less mult.commute)
  then have j: "?j < 8 * n" "?j div 8 = n - 1 - k div 8" "?j mod 8 = k mod 8" by auto
  have "be_bytes n w ! (n - 1 - k div 8) = bytes_of n w ! (k div 8)" using d(1) by (simp add: be_bytes_def rev_nth)
  also have "\<dots> = ucast (drop_bit (8 * (k div 8)) w)" using d(1) by (rule bytes_of_nth)
  finally have "bit (be_bytes n w ! (n - 1 - k div 8)) (k mod 8) \<longleftrightarrow> bit w (8 * (k div 8) + k mod 8)"
    using d(2) by (simp add: bit_simps)
  then show ?thesis using bit_word_of [of "be_bytes n w" ?j] j assms(1) by simp
qed

lemma bswap32_be_bytes: "bswap32 (ucast (word_of (be_bytes 4 (ucast w)))) = w"
proof (rule bit_word_eqI)
  fix k assume "k < LENGTH(32)"
  then have k: "k < 32" by simp
  have "8 * (3 - k div 8) + k mod 8 < 32" using k by linarith
  then have "bit (bswap32 (ucast (word_of (be_bytes 4 (ucast w))))) k \<longleftrightarrow> bit (word_of (be_bytes 4 (ucast w))) (8 * (3 - k div 8) + k mod 8)"
    using bit_bswap32 [of "ucast (word_of (be_bytes 4 (ucast w)))"] k by (simp add: bit_simps)
  then show "bit (bswap32 (ucast (word_of (be_bytes 4 (ucast w))))) k = bit w k"
    using bit_be_bytes [of 4 k "ucast w"] k by (simp add: bit_simps)
qed

lemma bswap64_be_bytes: "bswap64 (word_of (be_bytes 8 w)) = w"
proof (rule bit_word_eqI)
  fix k assume "k < LENGTH(64)"
  then have k: "k < 64" by simp
  then show "bit (bswap64 (word_of (be_bytes 8 w))) k = bit w k"
    using bit_bswap64 [of "word_of (be_bytes 8 w)"] bit_be_bytes [of 8 k w] by simp
qed

text \<open>The bytes \<open>bs\<close> lie at \<open>a\<close>.\<close>

definition mem_at :: "mem \<Rightarrow> u64 \<Rightarrow> u8 list \<Rightarrow> bool" where
  "mem_at m a bs \<longleftrightarrow> mem_read m a (length bs) = bs"

lemma mem_at_append: "mem_at m a (xs @ ys) \<longleftrightarrow> mem_at m a xs \<and> mem_at m (a + of_nat (length xs)) ys"
  by (simp add: mem_at_def mem_read_append)

lemma mem_at_Nil [simp]: "mem_at m a []"
  by (simp add: mem_at_def)

lemma load32_be: "mem_at m a (be_bytes 4 (ucast w)) \<Longrightarrow> bswap32 (load32 m a) = w"
  by (simp add: mem_at_def load32_def bswap32_be_bytes)

lemma load64_be: "mem_at m a (be_bytes 8 w) \<Longrightarrow> bswap64 (load64 m a) = w"
  by (simp add: mem_at_def load64_def bswap64_be_bytes)

definition str_bytes :: "string \<Rightarrow> u8 list" where
  "str_bytes s = map of_char s @ [0]"

lemma length_str_bytes [simp]: "length (str_bytes s) = Suc (length s)"
  by (simp add: str_bytes_def)

definition name_ok :: "string \<Rightarrow> bool" where
  "name_ok s \<longleftrightarrow> CHR 0x00 \<notin> set s \<and> length s < 2 ^ 31"

lemma name_ok_bytes: "name_ok s \<Longrightarrow> (0 :: u8) \<notin> set (map of_char s)"
proof
  assume "name_ok s" "(0 :: u8) \<in> set (map of_char s)"
  then obtain c where "c \<in> set s" "of_char c = (0 :: u8)" by auto
  moreover have "of_char (CHR 0x00) = (0 :: u8)" by simp
  ultimately have "c = CHR 0x00" using of_char_u8_inject [of c "CHR 0x00"] by simp
  then show False using \<open>c \<in> set s\<close> \<open>name_ok s\<close> by (simp add: name_ok_def)
qed

lemma str_at_bytes:
  assumes "mem_at m a (str_bytes s)" "name_ok s" "length s < fuel"
  shows "str_at fuel m a = Some s"
proof -
  have at: "mem_at m a (map of_char s)" "mem_at m (a + of_nat (length s)) [0]"
    using assms(1) by (simp_all add: str_bytes_def mem_at_append)
  then have "cstr m a (map of_char s)"
    using assms(2) name_ok_bytes by (auto simp: cstr_def mem_at_def mem_read_def name_ok_def)
  then have "strlen fuel m a = Some (of_nat (length s))" using strlen_correct assms(3) by fastforce
  moreover have "unat (of_nat (length s) :: u64) = length s" using assms(2) by (simp add: name_ok_def)
  moreover have "map (\<lambda>b. char_of (unat b)) (map of_char s :: u8 list) = s" by (simp add: unat_of_char comp_def)
  ultimately show ?thesis using at(1) by (simp add: str_at_def mem_at_def)
qed

section \<open>Flattened trees\<close>

text \<open>
  A tree as its source describes it, and the structure block of its flattened form; \<open>soff\<close> is the offset of a property's name in
  the strings block.
\<close>

datatype fdt = Fdt string "(string \<times> u8 list) list" "fdt list"

definition pad4 :: "u8 list \<Rightarrow> u8 list" where
  "pad4 bs = bs @ replicate ((4 - length bs mod 4) mod 4) 0"

definition cell :: "u32 \<Rightarrow> u8 list" where
  "cell w = be_bytes 4 (ucast w)"

definition flat_prop :: "(string \<Rightarrow> u32) \<Rightarrow> string \<times> u8 list \<Rightarrow> u8 list" where
  "flat_prop soff p = cell FDT_PROP @ cell (of_nat (length (snd p))) @ cell (soff (fst p)) @ pad4 (snd p)"

fun flat :: "(string \<Rightarrow> u32) \<Rightarrow> fdt \<Rightarrow> u8 list" where
  "flat soff (Fdt name props children) =
     cell FDT_BEGIN_NODE @ pad4 (str_bytes name) @ concat (map (flat_prop soff) props) @ concat (map (flat soff) children) @ cell FDT_END_NODE"

fun fdt_ok :: "nat \<Rightarrow> fdt \<Rightarrow> bool" where
  "fdt_ok n (Fdt name props children) \<longleftrightarrow>
     name_ok name \<and> (\<forall>(k, v) \<in> set props. name_ok k \<and> length k < n \<and> length v < 2 ^ 32) \<and> (\<forall>t \<in> set children. fdt_ok n t)"

fun fdt_keys :: "fdt \<Rightarrow> string set" where
  "fdt_keys (Fdt name props children) = fst ` set props \<union> \<Union> (set (map fdt_keys children))"

text \<open>The tree the loader builds for it.\<close>

definition prop_of :: "string \<times> u8 list \<Rightarrow> dev_node_prop" where
  "prop_of p = \<lparr>pr_name = fst p, pr_len = of_nat (length (snd p)), pr_values = (if snd p = [] then None else Some (snd p))\<rparr>"

fun node_of :: "fdt \<Rightarrow> dev_node" where
  "node_of (Fdt name props children) = DevNode name (fold (\<lambda>p. prop_put (prop_of p)) props (HASHMAP_ALLOC 32)) (map node_of children)"

section \<open>Loading a flattened tree\<close>

lemma length_cell [simp]: "length (cell w) = 4"
  by (simp add: cell_def)

lemma length_pad4: "length (pad4 bs) = 4 * ((length bs + 3) div 4)"
proof -
  have "n + (4 - n mod 4) mod 4 = 4 * ((n + 3) div 4)" for n :: nat
  proof -
    define q r where "q = n div 4" and "r = n mod 4"
    have n: "n = 4 * q + r" "r < 4" by (simp_all add: q_def r_def)
    then consider "r = 0" | "r = 1" | "r = 2" | "r = 3" by linarith
    then show ?thesis unfolding r_def [symmetric] by cases (simp_all add: n(1))
  qed
  then show ?thesis by (simp add: pad4_def)
qed

lemma dvd_pad4: "4 dvd length (pad4 bs)"
  by (simp add: length_pad4)

lemma length_flat_prop: "length (flat_prop soff p) = 4 * (3 + (length (snd p) + 3) div 4)"
  by (simp add: flat_prop_def length_pad4)

lemma dvd_concat: "\<forall>x \<in> set xs. d dvd length (f x) \<Longrightarrow> d dvd length (concat (map f xs))"
  by (induction xs) auto

lemma dvd_flat: "4 dvd length (flat soff t)"
proof (induction t)
  case (Fdt name props children)
  have "4 dvd length (concat (map (flat_prop soff) props))" by (rule dvd_concat) (simp add: length_flat_prop)
  moreover have "4 dvd length (concat (map (flat soff) children))" using Fdt by (intro dvd_concat) auto
  ultimately show ?case using dvd_pad4 [of "str_bytes name"] by simp
qed

lemma token_at_cell: "mem_at m (a + of_nat (4 * pos)) (cell w) \<Longrightarrow> token_at m a pos = w"
  by (simp add: token_at_def cell_def load32_be)

lemma skip_nops_token: "token_at m a pos \<noteq> FDT_NOP \<Longrightarrow> 0 < fuel \<Longrightarrow> skip_nops fuel m a pos = Some pos"
  by (cases fuel) auto

text \<open>The bytes \<open>bs\<close> of the structure block at \<open>a\<close> lie at position \<open>pos\<close>.\<close>

definition at_pos :: "mem \<Rightarrow> u64 \<Rightarrow> nat \<Rightarrow> u8 list \<Rightarrow> bool" where
  "at_pos m a pos bs \<longleftrightarrow> mem_at m (a + of_nat (4 * pos)) bs"

lemma at_pos_append:
  "4 dvd length xs \<Longrightarrow> at_pos m a pos (xs @ ys) \<longleftrightarrow> at_pos m a pos xs \<and> at_pos m a (pos + length xs div 4) ys"
  by (auto simp: at_pos_def mem_at_append algebra_simps simp flip: of_nat_mult elim!: dvdE)

lemma at_pos_cell: "at_pos m a pos (cell w @ bs) \<longleftrightarrow> at_pos m a pos (cell w) \<and> at_pos m a (Suc pos) bs"
  using at_pos_append [of "cell w" m a pos bs] by simp

lemma token_at_pos: "at_pos m a pos (cell w) \<Longrightarrow> token_at m a pos = w"
  by (simp add: at_pos_def token_at_cell)

lemma at_pos_pad: "at_pos m a pos (pad4 bs) \<Longrightarrow> mem_at m (a + of_nat (4 * pos)) bs"
  by (simp add: at_pos_def pad4_def mem_at_append)

lemmas fdt_tokens = FDT_BEGIN_NODE_def FDT_END_NODE_def FDT_PROP_def FDT_NOP_def

lemma props_first:
  assumes "at_pos m a pos (concat (map (flat_prop soff) props) @ bs)" "props = [] \<Longrightarrow> token_at m a pos \<in> {FDT_BEGIN_NODE, FDT_END_NODE}"
  shows "token_at m a pos \<noteq> FDT_NOP"
proof (cases props)
  case Nil
  then show ?thesis using assms(2) by (auto simp: fdt_tokens)
next
  case (Cons p ps)
  then have "token_at m a pos = FDT_PROP"
    using assms(1) token_at_pos by (simp add: flat_prop_def at_pos_cell)
  then show ?thesis by (simp add: fdt_tokens)
qed

lemma children_first: "at_pos m a pos (concat (map (flat soff) children) @ cell FDT_END_NODE) \<Longrightarrow>
  token_at m a pos = (if children = [] then FDT_END_NODE else FDT_BEGIN_NODE)"
proof (cases children)
  case (Cons t ts)
  assume "at_pos m a pos (concat (map (flat soff) children) @ cell FDT_END_NODE)"
  then show ?thesis using Cons token_at_pos by (cases t) (simp add: at_pos_cell)
qed (simp add: token_at_pos)

lemma dt_props_flat:
  assumes "\<forall>(k, v) \<in> set props. name_ok k \<and> length k < n \<and> length v < 2 ^ 32"
    "\<forall>k \<in> fst ` set props. mem_at m (st + ucast (soff k)) (str_bytes k)"
    "at_pos m a pos (concat (map (flat_prop soff) props) @ bs)"
    "token_at m a (pos + length (concat (map (flat_prop soff) props)) div 4) \<in> {FDT_BEGIN_NODE, FDT_END_NODE}"
    "length props + n < fuel"
  shows "dt_props fuel m a st pos hm
    = Some (fold (\<lambda>p. prop_put (prop_of p)) props hm, pos + length (concat (map (flat_prop soff) props)) div 4)"
  using assms
proof (induction props arbitrary: pos hm fuel)
  case Nil
  then obtain f where "fuel = Suc f" by (cases fuel) auto
  then show ?case using Nil.prems(4) by (auto simp: fdt_tokens)
next
  case (Cons p ps)
  obtain k v where p: "p = (k, v)" by force
  let ?vlen = "(length v + 3) div 4" and ?rest = "concat (map (flat_prop soff) ps) @ bs"
  obtain f where f: "fuel = Suc f" "length ps + n < f" using Cons.prems(5) by (cases fuel) auto
  have kv: "name_ok k" "length k < f" "length v < 2 ^ 32" using Cons.prems(1) f(2) by (auto simp: p)
  have at: "at_pos m a pos (cell FDT_PROP)" "at_pos m a (Suc pos) (cell (of_nat (length v)))"
    "at_pos m a (Suc (Suc pos)) (cell (soff k))" "at_pos m a (Suc (Suc (Suc pos))) (pad4 v)"
    "at_pos m a (Suc (Suc (Suc pos)) + ?vlen) ?rest"
    using Cons.prems(3) dvd_pad4 [of v] by (simp_all add: p flat_prop_def [of soff "(k, v)"] at_pos_cell at_pos_append length_pad4)
  note tok = at(1-3) [THEN token_at_pos]
  have len: "unat (of_nat (length v) :: u32) = length v" using kv(3) by (simp add: unat_of_nat)
  then have z: "(of_nat (length v) :: u32) = 0 \<longleftrightarrow> v = []" using unat_eq_zero [of "of_nat (length v) :: u32"] by simp
  have name: "str_at f m (st + ucast (soff k)) = Some k"
    using Cons.prems(2) kv by (intro str_at_bytes) (simp_all add: p)
  have vals: "mem_read m (a + of_nat (4 * (pos + 3))) (length v) = v"
    using at_pos_pad [OF at(4)] by (simp add: mem_at_def numeral_3_eq_3)
  have "4 * (pos + 3) + length v - 1 = (length v + 3) + 4 * (pos + 2)" by simp
  then have pos2: "(4 * (pos + 3) + length v - 1) div 4 + 1 = Suc (Suc (Suc pos)) + ?vlen" by simp
  have e: "pos + length (concat (map (flat_prop soff) (p # ps))) div 4
    = Suc (Suc (Suc pos)) + ?vlen + length (concat (map (flat_prop soff) ps)) div 4"
    by (simp add: length_flat_prop p)
  have "token_at m a (Suc (Suc (Suc pos)) + ?vlen) \<noteq> FDT_NOP"
    by (rule props_first [OF at(5)]) (use Cons.prems(4) [unfolded e] in simp)
  then have skip: "skip_nops f m a ((4 * (pos + 3) + length v - 1) div 4 + 1) = Some (Suc (Suc (Suc pos)) + ?vlen)"
    unfolding pos2 using f(2) by (intro skip_nops_token) auto
  have po: "prop_of (k, v) = \<lparr>pr_name = k, pr_len = of_nat (length v), pr_values = (if v = [] then None else Some v)\<rparr>"
    by (simp add: prop_of_def)
  have "dt_props f m a st (Suc (Suc (Suc pos)) + ?vlen) (prop_put (prop_of p) hm)
    = Some (fold (\<lambda>p. prop_put (prop_of p)) ps (prop_put (prop_of p) hm),
        Suc (Suc (Suc pos)) + ?vlen + length (concat (map (flat_prop soff) ps)) div 4)"
    using Cons.prems(1,2,4) f(2) at(5) unfolding e by (intro Cons.IH) auto
  then show ?case
    using tok name skip vals unfolding e f(1) by (cases "v = []") (simp_all add: Let_def len z po prop_of_def [of "(k, [])"] p)
qed

text \<open>The loader reads the tree \<open>t\<close> wherever its flattened form lies in the structure block.\<close>

definition loads :: "mem \<Rightarrow> u64 \<Rightarrow> fdt_header \<Rightarrow> (string \<Rightarrow> u32) \<Rightarrow> nat \<Rightarrow> fdt \<Rightarrow> bool" where
  "loads m dtb fhdr soff n t \<longleftrightarrow>
     (\<forall>pos fuel. at_pos m (dtb + ucast (h_off_dt_struct fhdr)) pos (flat soff t) \<longrightarrow> 4 * pos + length (flat soff t) \<le> unat (h_size_dt_struct fhdr)
        \<longrightarrow> length (flat soff t) + n < fuel \<longrightarrow> dt_node_load fuel m dtb fhdr pos = Some (OK (node_of t, pos + length (flat soff t) div 4)))"

lemma length_flat_pos: "12 \<le> length (flat soff t)"
proof (cases t)
  case (Fdt name props children)
  have "4 \<le> length (pad4 (str_bytes name))" by (simp add: length_pad4)
  then show ?thesis by (simp add: Fdt)
qed

lemma dt_children_flat:
  assumes "\<forall>t \<in> set children. loads m dtb fhdr soff n t" "a = dtb + ucast (h_off_dt_struct fhdr)"
    "at_pos m a pos (concat (map (flat soff) children) @ cell FDT_END_NODE)"
    "4 * pos + length (concat (map (flat soff) children)) \<le> unat (h_size_dt_struct fhdr)"
    "length (concat (map (flat soff) children)) + n + 1 < fuel"
  shows "dt_children fuel m dtb fhdr pos acc
    = Some (OK (acc @ map node_of children, pos + length (concat (map (flat soff) children)) div 4))"
  using assms(1,3-)
proof (induction children arbitrary: pos acc fuel)
  case Nil
  obtain f where "fuel = Suc f" using Nil.prems(4) by (cases fuel) auto
  moreover have "token_at m a pos = FDT_END_NODE" using children_first [OF Nil.prems(2)] by simp
  ultimately show ?case by (simp add: assms(2) Let_def) (simp add: fdt_tokens)
next
  case (Cons t ts)
  let ?pos = "pos + length (flat soff t) div 4" and ?rest = "concat (map (flat soff) ts)"
  obtain f where f: "fuel = Suc f" using Cons.prems(4) by (cases fuel) auto
  have e: "pos + length (concat (map (flat soff) (t # ts))) div 4 = ?pos + length ?rest div 4"
    using dvd_flat [of soff t] by (auto elim!: dvdE)
  have at: "at_pos m a pos (flat soff t)" "at_pos m a ?pos (?rest @ cell FDT_END_NODE)"
    using Cons.prems(2) at_pos_append [OF dvd_flat] by simp_all
  have "token_at m a pos = FDT_BEGIN_NODE" using children_first [OF Cons.prems(2)] by simp
  moreover have "dt_node_load f m dtb fhdr pos = Some (OK (node_of t, ?pos))"
    using Cons.prems(1,3,4) at(1) f by (simp add: loads_def assms(2))
  moreover note first = children_first [OF at(2)]
  moreover have "dt_children f m dtb fhdr ?pos (acc @ [node_of t])
      = Some (OK ((acc @ [node_of t]) @ map node_of ts, ?pos + length ?rest div 4))"
    using Cons.prems(1,3,4) at(2) f length_flat_pos [of soff t] dvd_flat [of soff t]
    by (intro Cons.IH) (auto elim!: dvdE)
  ultimately show ?case unfolding e f by (cases "ts = []") (simp_all add: assms(2) Let_def, simp_all add: fdt_tokens)
qed

lemma dt_node_load_flat:
  "fdt_ok n t \<Longrightarrow> \<forall>k \<in> fdt_keys t. mem_at m (dtb + ucast (h_off_dt_strings fhdr) + ucast (soff k)) (str_bytes k) \<Longrightarrow> loads m dtb fhdr soff n t"
proof (induction t)
  case (Fdt name props children)
  let ?a = "dtb + ucast (h_off_dt_struct fhdr)" and ?st = "dtb + ucast (h_off_dt_strings fhdr)"
  let ?n = "pad4 (str_bytes name)" and ?p = "concat (map (flat_prop soff) props)" and ?c = "concat (map (flat soff) children)"
  have kids: "\<forall>t \<in> set children. loads m dtb fhdr soff n t" using Fdt by auto
  have d: "4 dvd length ?p" "4 dvd length ?c" using dvd_flat by (auto intro!: dvd_concat simp: length_flat_prop)
  show ?case unfolding loads_def
  proof (intro allI impI)
    fix pos fuel
    assume at: "at_pos m ?a pos (flat soff (Fdt name props children))"
      and size: "4 * pos + length (flat soff (Fdt name props children)) \<le> unat (h_size_dt_struct fhdr)"
      and fuel: "length (flat soff (Fdt name props children)) + n < fuel"
    obtain f where f: "fuel = Suc f" using fuel by (cases fuel) auto
    let ?pos2 = "pos + 1 + length ?n div 4"
    let ?pos3 = "?pos2 + length ?p div 4"
    have at1: "at_pos m ?a pos (cell FDT_BEGIN_NODE)" "at_pos m ?a (pos + 1) ?n" "at_pos m ?a ?pos2 (?p @ ?c @ cell FDT_END_NODE)"
      "at_pos m ?a ?pos3 (?c @ cell FDT_END_NODE)"
      using at d by (simp_all add: at_pos_cell at_pos_append dvd_pad4)
    have tok3: "token_at m ?a ?pos3 \<in> {FDT_BEGIN_NODE, FDT_END_NODE}" using children_first [OF at1(4)] by simp
    have tok2: "token_at m ?a ?pos2 \<noteq> FDT_NOP" by (rule props_first [OF at1(3)]) (use tok3 in simp)
    have len: "length name < length ?n" "length props \<le> length ?p"
      using sum_list_mono [of props "\<lambda>_. 1" "length \<circ> flat_prop soff"]
      by (auto simp: length_pad4 length_concat comp_def length_flat_prop sum_list_triv)
    have "skip_nops f m ?a pos = Some pos" "token_at m ?a pos = FDT_BEGIN_NODE"
      using token_at_pos [OF at1(1)] fuel f by (auto intro!: skip_nops_token simp: fdt_tokens)
    moreover have "str_at f m (?a + of_nat (4 * (pos + 1))) = Some name"
      using at_pos_pad [OF at1(2)] Fdt.prems(1) fuel len f by (intro str_at_bytes) auto
    moreover have "(4 * (pos + 1) + length name) div 4 + 1 = ?pos2" by (simp add: length_pad4)
    then have "skip_nops f m ?a ((4 * (pos + 1) + length name) div 4 + 1) = Some ?pos2"
      using tok2 fuel f by (auto intro!: skip_nops_token)
    moreover have "dt_props f m ?a ?st ?pos2 (HASHMAP_ALLOC 32) = Some (fold (\<lambda>p. prop_put (prop_of p)) props (HASHMAP_ALLOC 32), ?pos3)"
      using Fdt.prems tok3 fuel f len by (intro dt_props_flat [where n = n, OF _ _ at1(3)]) auto
    moreover have "dt_children f m dtb fhdr ?pos3 [] = Some (OK ([] @ map node_of children, ?pos3 + length ?c div 4))"
      using size fuel f d by (intro dt_children_flat [OF kids refl at1(4)]) (auto simp: length_pad4 elim!: dvdE)
    moreover have "?pos3 + length ?c div 4 + 1 = pos + length (flat soff (Fdt name props children)) div 4"
      using d by (auto simp: length_pad4 elim!: dvdE)
    ultimately show "dt_node_load fuel m dtb fhdr pos
      = Some (OK (node_of (Fdt name props children), pos + length (flat soff (Fdt name props children)) div 4))"
      using size unfolding f by (simp add: Let_def del: flat.simps)
  qed
qed

section \<open>A whole flattened tree\<close>

text \<open>The properties of a node: the last of several with one name.\<close>

lemma props_lookup:
  "let hm = fold (\<lambda>p. prop_put (prop_of p)) props (HASHMAP_ALLOC 32)
   in hashmap_ok hash_code_str pr_name hm
     \<and> hashmap_get hash_code_str hash_eq_str pr_name hm k = map_option (\<lambda>v. prop_of (k, v)) (map_of (rev props) k)"
proof (induction props rule: rev_induct)
  case Nil
  have "hashmap_ok hash_code_str pr_name (HASHMAP_ALLOC 32)" by (rule HASHMAP_ALLOC_ok) simp
  then show ?case by (simp add: HASHMAP_ALLOC_get)
next
  case (snoc p props)
  then show ?case
    by (cases p) (auto simp: Let_def prop_put_def hmstr.hashmap_put_ok hmstr.hashmap_get_put prop_of_def)
qed

lemma node_of_extract:
  "dt_node_prop_extract (node_of (Fdt name props children)) k = map_option (\<lambda>v. prop_of (k, v)) (map_of (rev props) k)"
  using props_lookup [of props k] by (simp add: dt_node_prop_extract_def Let_def)

definition rsv_bytes :: "(u64 \<times> u64) list \<Rightarrow> u8 list" where
  "rsv_bytes rs = concat (map (\<lambda>(a, n). be_bytes 8 a @ be_bytes 8 n) rs) @ replicate 16 0"

text \<open>
  The flattened form, version 17: the header, the reserved memory, the structure block closed by \<open>FDT_END\<close> and the strings.
\<close>

definition fdt_blob :: "(u64 \<times> u64) list \<Rightarrow> u8 list \<Rightarrow> (string \<Rightarrow> u32) \<Rightarrow> fdt \<Rightarrow> u8 list" where
  "fdt_blob rs strings soff t =
     (let struct = flat soff t @ cell 9;
          off_struct = 40 + length (rsv_bytes rs); off_strings = off_struct + length struct
      in concat (map cell [DTB_FDT_MAGIC, of_nat (off_strings + length strings), of_nat off_struct, of_nat off_strings, 40, 17, 16, 0,
           of_nat (length strings), of_nat (length struct)])
         @ rsv_bytes rs @ struct @ strings)"

definition strings_ok :: "u8 list \<Rightarrow> (string \<Rightarrow> u32) \<Rightarrow> fdt \<Rightarrow> bool" where
  "strings_ok strings soff t \<longleftrightarrow> (\<forall>k \<in> fdt_keys t. \<exists>post. drop (unat (soff k)) strings = str_bytes k @ post)"

lemma mem_at_drop:
  assumes "mem_at m a bs" "drop i bs = xs @ ys" "i \<le> length bs"
  shows "mem_at m (a + of_nat i) xs"
proof -
  have "mem_at m a (take i bs @ xs @ ys)" using assms(1,2) by (metis append_take_drop_id)
  then show ?thesis using assms(3) by (simp add: mem_at_append)
qed

lemma load64_swapped: "mem_at m a (be_bytes 8 w) \<Longrightarrow> load64 m a = bswap64 w"
  using load64_be [of m a w] by (metis bswap64_involutive)

lemma bswap64_0: "bswap64 w = 0 \<longleftrightarrow> w = 0"
proof -
  have "bswap64 0 = 0" by (simp add: bswap64_def byte_at_def)
  then show ?thesis by (metis bswap64_involutive)
qed

lemma dt_rsvmem_bytes:
  "mem_at m a (rsv_bytes rs) \<Longrightarrow> (0, 0) \<notin> set rs \<Longrightarrow> length rs < fuel \<Longrightarrow>
     dt_rsvmem fuel m a = Some (map (\<lambda>(x, n). (bswap64 x, bswap64 n)) rs)"
proof (induction rs arbitrary: a fuel)
  case Nil
  obtain f where f: "fuel = Suc f" using Nil by (cases fuel) auto
  have "be_bytes 8 0 = replicate 8 0" by code_simp
  then have "replicate 16 0 = be_bytes 8 0 @ be_bytes 8 0" by (simp add: replicate_add [symmetric])
  then have "mem_at m a (be_bytes 8 0)" "mem_at m (a + 8) (be_bytes 8 0)" using Nil(1) by (simp_all add: rsv_bytes_def mem_at_append)
  then have "load64 m a = 0" "load64 m (a + 8) = 0" using load64_swapped [of m _ 0] bswap64_0 by simp_all
  then show ?case by (simp add: f)
next
  case (Cons r rs)
  obtain x n where r: "r = (x, n)" by force
  obtain f where f: "fuel = Suc f" "length rs < f" using Cons by (cases fuel) auto
  have at: "mem_at m a (be_bytes 8 x)" "mem_at m (a + 8) (be_bytes 8 n)" "mem_at m (a + 16) (rsv_bytes rs)"
    using Cons.prems(1) by (simp_all add: rsv_bytes_def r mem_at_append algebra_simps)
  have "load64 m a = bswap64 x" "load64 m (a + 8) = bswap64 n" using at load64_swapped by simp_all
  moreover have "dt_rsvmem f m (a + 16) = Some (map (\<lambda>(x, n). (bswap64 x, bswap64 n)) rs)" using Cons f at(3) by (intro Cons.IH) auto
  moreover have "x \<noteq> 0 \<or> n \<noteq> 0" using Cons.prems(2) by (auto simp: r)
  ultimately show ?case by (auto simp: f r bswap64_0)
qed

text \<open>Where the parts of the flattened form lie.\<close>

lemma fdt_blob_parts:
  assumes "mem_at m dtb (fdt_blob rs strings soff t)" "length (fdt_blob rs strings soff t) < 2 ^ 32"
  obtains fhdr where "fdt_from m dtb = OK fhdr" "mem_at m (dtb + ucast (h_off_mem_rsvmap fhdr)) (rsv_bytes rs)"
    "mem_at m (dtb + ucast (h_off_dt_struct fhdr)) (flat soff t)" "mem_at m (dtb + ucast (h_off_dt_strings fhdr)) strings"
    "length (flat soff t) \<le> unat (h_size_dt_struct fhdr)"
proof -
  define n1 n2 n3 where "n1 = length (rsv_bytes rs)" and "n2 = length (flat soff t) + 4" and "n3 = length strings"
  have total: "40 + n1 + n2 + n3 < 2 ^ 32" using assms(2) by (simp add: fdt_blob_def Let_def n1_def n2_def n3_def)
  have uc: "ucast (of_nat k :: u32) = (of_nat k :: u64)" if "k < 2 ^ 32" for k
    using that by (simp only: unsigned_of_nat) (simp add: take_bit_nat_eq_self)
  have cells: "mem_at m dtb (cell DTB_FDT_MAGIC)" "mem_at m (dtb + 8) (cell (of_nat (40 + n1)))"
    "mem_at m (dtb + 12) (cell (of_nat (40 + n1 + n2)))" "mem_at m (dtb + 16) (cell 40)" "mem_at m (dtb + 20) (cell 17)"
    "mem_at m (dtb + 36) (cell (of_nat n2))"
    using assms(1) by (simp_all add: fdt_blob_def Let_def mem_at_append n1_def n2_def algebra_simps)
  have parts: "mem_at m (dtb + 40) (rsv_bytes rs)" "mem_at m (dtb + of_nat (40 + n1)) (flat soff t)"
    "mem_at m (dtb + of_nat (40 + n1 + n2)) strings"
    using assms(1) by (simp_all add: fdt_blob_def Let_def mem_at_append n1_def n2_def algebra_simps)
  have ld: "mem_at m x (cell w) \<Longrightarrow> bswap32 (load32 m x) = w" for x w by (simp add: cell_def load32_be)
  define fhdr where "fhdr = fdt_header_at m dtb"
  have h: "h_magic fhdr = DTB_FDT_MAGIC" "h_version fhdr = 17" "h_off_dt_struct fhdr = of_nat (40 + n1)"
    "h_off_dt_strings fhdr = of_nat (40 + n1 + n2)" "h_off_mem_rsvmap fhdr = 40" "h_size_dt_struct fhdr = of_nat n2"
    unfolding fhdr_def fdt_header_at_def using cells [THEN ld] by simp_all
  have u: "unat (of_nat n2 :: u32) = n2" using total by (simp add: unat_of_nat)
  have "fdt_from m dtb = OK fhdr" using h(1,2) by (simp add: fdt_from_def Let_def fhdr_def DTB_SUPPORTED_VER_def)
  moreover have "mem_at m (dtb + ucast (h_off_mem_rsvmap fhdr)) (rsv_bytes rs)" unfolding h using parts(1) by simp
  moreover have "mem_at m (dtb + ucast (h_off_dt_struct fhdr)) (flat soff t)"
    unfolding h using parts(2) uc [of "40 + n1"] total by simp
  moreover have "mem_at m (dtb + ucast (h_off_dt_strings fhdr)) strings"
    unfolding h using parts(3) uc [of "40 + n1 + n2"] total by simp
  moreover have "length (flat soff t) \<le> unat (h_size_dt_struct fhdr)" unfolding h u by (simp add: n2_def)
  ultimately show thesis by (rule that)
qed

section \<open>Walks and string lists\<close>

text \<open>The nodes below a list of nodes in document order, and callbacks run one after the other up to the first error.\<close>

fun preorder :: "dev_node list \<Rightarrow> dev_node list" where
  "preorder [] = []"
| "preorder (DevNode name props children # nodes) = DevNode name props children # preorder children @ preorder nodes"

fun run_all :: "(dev_node \<Rightarrow> 's \<Rightarrow> 's \<times> unit result) \<Rightarrow> dev_node list \<Rightarrow> 's \<Rightarrow> 's \<times> unit result" where
  "run_all callback [] s = (s, OK ())"
| "run_all callback (node # nodes) s = (case callback node s of (s1, OK _) \<Rightarrow> run_all callback nodes s1 | r \<Rightarrow> r)"

lemma run_all_append:
  "run_all callback (xs @ ys) s = (case run_all callback xs s of (s1, OK _) \<Rightarrow> run_all callback ys s1 | r \<Rightarrow> r)"
  by (induction xs arbitrary: s) (auto split: prod.splits result.splits)

lemma dt_iter_nodes_preorder: "dt_iter_nodes pred callback nodes s = run_all callback (filter pred (preorder nodes)) s"
  by (induction nodes arbitrary: s rule: preorder.induct) (auto simp: run_all_append split: prod.splits result.splits)

text \<open>
  One element \<open>e\<close> of a string list, closed by NUL: the search either ends at its NUL, with the target the last
  characters of \<open>w @ e\<close>, where \<open>w\<close> is what has been matched of the target before, or goes on behind it with nothing matched.
\<close>

lemma match_loop_element:
  assumes "0 \<notin> set e" "0 \<notin> set t" "i \<le> length t" "w = take i t"
  shows "match_loop (t @ [0]) (e @ 0 # rest) i j = match_loop (t @ [0]) rest 0 (j + length e + 1)
    \<or> match_loop (t @ [0]) (e @ 0 # rest) i j = (Suc (length t), j + length e + 1) \<and> suffix t (w @ e)"
  using assms
proof (induction e arbitrary: i j w)
  case Nil
  show ?case
  proof (cases "i = length t")
    case True
    then have "match_loop (t @ [0]) (0 # rest) i j = match_loop (t @ [0]) rest (Suc (length t)) (Suc j)" by (simp add: nth_append)
    also have "\<dots> = (Suc (length t), Suc j)" by (cases rest) auto
    finally show ?thesis using Nil True by simp
  next
    case False
    then have i: "i < length t" using Nil.prems(3) by simp
    then have "t ! i \<noteq> 0" using Nil.prems(2) nth_mem [OF i] by metis
    then show ?thesis using i by (simp add: nth_append)
  qed
next
  case (Cons c e)
  show ?case
  proof (cases "i < length t \<and> t ! i = c")
    case True
    then have "take (Suc i) t = w @ [c]" using Cons.prems(4) by (simp add: take_Suc_conv_app_nth)
    then show ?thesis using Cons.IH [of "Suc i" "w @ [c]" "Suc j"] Cons.prems True by (simp add: nth_append)
  next
    case False
    then have ne: "(t @ [0]) ! i \<noteq> c" using Cons.prems(1,3) by (auto simp: nth_append)
    have "suffix t e \<Longrightarrow> suffix t (w @ c # e)" by (metis append_Cons append_assoc suffix_def)
    then show ?thesis using Cons.IH [of 0 "[]" "Suc j"] Cons.prems ne by auto
  qed
qed

lemma match_loop_same:
  assumes "i \<le> length t"
  shows "match_loop (t @ [0]) (drop i t @ 0 # rest) i j = (Suc (length t), j + (length t - i) + 1)"
  using assms
proof (induction "length t - i" arbitrary: i j)
  case 0
  then have "i = length t" by simp
  then show ?case by (cases rest) (auto simp: nth_append)
next
  case (Suc d)
  then have i: "i < length t" by simp
  then have "drop i t = t ! i # drop (Suc i) t" by (simp add: Cons_nth_drop_Suc)
  then show ?case using Suc.hyps(1) [of "Suc i" "Suc j"] Suc.hyps(2) i by (auto simp: nth_append)
qed

definition strlist :: "string list \<Rightarrow> u8 list" where
  "strlist ss = concat (map str_bytes ss)"

lemma match_loop_strlist:
  assumes "\<forall>s \<in> set ss. name_ok s" "name_ok t"
  shows "t \<in> set ss \<Longrightarrow> fst (match_loop (str_bytes t) (strlist ss) 0 j) = Suc (length t) \<and> snd (match_loop (str_bytes t) (strlist ss) 0 j) > j"
    "fst (match_loop (str_bytes t) (strlist ss) 0 j) = Suc (length t) \<Longrightarrow> \<exists>s \<in> set ss. suffix t s"
proof -
  let ?t = "map of_char t :: u8 list"
  have t: "0 \<notin> set ?t" using name_ok_bytes [OF assms(2)] .
  have el: "match_loop (str_bytes t) (str_bytes s @ rest) 0 j = match_loop (str_bytes t) rest 0 (j + length s + 1)
      \<or> match_loop (str_bytes t) (str_bytes s @ rest) 0 j = (Suc (length t), j + length s + 1) \<and> suffix t s" if "name_ok s" for s rest j
  proof -
    have "suffix ?t (map of_char s) \<Longrightarrow> suffix t s"
    proof (elim suffixE)
      fix zs assume "map of_char s = zs @ ?t"
      then have "map of_char (drop (length zs) s) = ?t" by (metis append_eq_conv_conj drop_map)
      then have "drop (length zs) s = t" using of_char_u8_inject by (metis inj_map_eq_map injI)
      then show "suffix t s" by (metis suffix_drop)
    qed
    then show ?thesis using match_loop_element [OF name_ok_bytes [OF that] t, of 0 "[]" rest j] by (auto simp: str_bytes_def)
  qed
  show "t \<in> set ss \<Longrightarrow> fst (match_loop (str_bytes t) (strlist ss) 0 j) = Suc (length t) \<and> snd (match_loop (str_bytes t) (strlist ss) 0 j) > j"
    using assms(1)
  proof (induction ss arbitrary: j)
    case (Cons s ss)
    have l: "strlist (s # ss) = str_bytes s @ strlist ss" by (simp add: strlist_def)
    show ?case
    proof (cases "s = t")
      case True
      then show ?thesis using match_loop_same [of 0 ?t "strlist ss" j] unfolding l by (simp add: str_bytes_def)
    next
      case False
      then have "t \<in> set ss" "\<forall>s \<in> set ss. name_ok s" using Cons.prems by auto
      note Cons.IH [OF this, of "j + length s + 1"]
      then show ?thesis using el [of s "strlist ss" j] Cons.prems(2) unfolding l by auto
    qed
  qed simp
  show "fst (match_loop (str_bytes t) (strlist ss) 0 j) = Suc (length t) \<Longrightarrow> \<exists>s \<in> set ss. suffix t s"
    using assms(1)
  proof (induction ss arbitrary: j)
    case (Cons s ss)
    have l: "strlist (s # ss) = str_bytes s @ strlist ss" by (simp add: strlist_def)
    show ?case
      using Cons.IH [of "j + length s + 1"] el [of s "strlist ss" j] Cons.prems unfolding l by auto
  qed (simp add: strlist_def)
qed

lemma dt_load_blob:
  assumes "mem_at m dtb (fdt_blob rs strings soff t)" "length (fdt_blob rs strings soff t) < 2 ^ 32"
    "fdt_ok n t" "strings_ok strings soff t" "(0, 0) \<notin> set rs" "length (fdt_blob rs strings soff t) + n < fuel"
  shows "dt_load fuel m dtb = Some (OK \<lparr>dt_rsvmem_list = map (\<lambda>(a, k). (bswap64 a, bswap64 k)) rs, dt_node_list = [node_of t]\<rparr>)"
proof -
  obtain fhdr where h: "fdt_from m dtb = OK fhdr" "mem_at m (dtb + ucast (h_off_mem_rsvmap fhdr)) (rsv_bytes rs)"
    "mem_at m (dtb + ucast (h_off_dt_struct fhdr)) (flat soff t)" "mem_at m (dtb + ucast (h_off_dt_strings fhdr)) strings"
    "length (flat soff t) \<le> unat (h_size_dt_struct fhdr)"
    using fdt_blob_parts [OF assms(1,2)] by blast
  have "mem_at m (dtb + ucast (h_off_dt_strings fhdr) + ucast (soff k)) (str_bytes k)" if "k \<in> fdt_keys t" for k
  proof -
    obtain post where d: "drop (unat (soff k)) strings = str_bytes k @ post" using assms(4) \<open>k \<in> fdt_keys t\<close> by (auto simp: strings_ok_def)
    then have "unat (soff k) \<le> length strings" by (metis append_is_Nil_conv drop_all le_cases length_str_bytes list.size(3) nat.distinct(1))
    moreover have "of_nat (unat (soff k)) = (ucast (soff k) :: u64)" by simp
    ultimately show ?thesis using mem_at_drop [OF h(4) d] by simp
  qed
  then have "loads m dtb fhdr soff n t" using dt_node_load_flat assms(3) by blast
  moreover have len: "length (flat soff t) + n < fuel" "length rs < fuel"
    using assms(6) by (simp_all add: fdt_blob_def rsv_bytes_def length_concat case_prod_beta comp_def sum_list_triv Let_def)
  ultimately have "\<exists>pos. dt_node_load fuel m dtb fhdr 0 = Some (OK (node_of t, pos))"
    using h(3,5) by (simp add: loads_def at_pos_def)
  then show ?thesis
    using h(1) dt_rsvmem_bytes [OF h(2) assms(5) len(2)] by (auto simp: dt_load_def)
qed

section \<open>Properties\<close>

text \<open>
  C21 (roundtrip). A device tree in its flattened form, anywhere in memory, is loaded as it was described: every node with its
  name, its properties (the last of several with the same name) and its children in order. The list of reserved memory is
  loaded with the bytes of each cell in the wrong order.
\<close>

theorem dt_load_reads_tree:
  assumes "mem_at m dtb (fdt_blob rs strings soff t)" "length (fdt_blob rs strings soff t) < 2 ^ 32"
    "fdt_ok n t" "strings_ok strings soff t" "(0, 0) \<notin> set rs" "length (fdt_blob rs strings soff t) + n < fuel"
  shows "dt_load fuel m dtb = Some (OK \<lparr>dt_rsvmem_list = map (\<lambda>(a, k). (bswap64 a, bswap64 k)) rs, dt_node_list = [node_of t]\<rparr>)
    \<and> (\<forall>name props children k. dt_node_prop_extract (node_of (Fdt name props children)) k
        = map_option (\<lambda>v. prop_of (k, v)) (map_of (rev props) k))"
  using dt_load_blob [OF assms] node_of_extract by blast

theorem dt_load_reads_tree_witness:
  "\<exists>blob. let m = mem_write (\<lambda>_. 0) 0x82200000 blob; t = Fdt [] [(''model'', str_bytes ''qemu'')] [Fdt ''chosen'' [] []]
     in dt_load 300 m 0x82200000 = Some (OK \<lparr>dt_rsvmem_list = [], dt_node_list = [node_of t]\<rparr>)
       \<and> dt_node_prop_extract (node_of t) ''model'' = Some \<lparr>pr_name = ''model'', pr_len = 5, pr_values = Some (str_bytes ''qemu'')\<rparr>"
proof -
  let ?t = "Fdt [] [(''model'', str_bytes ''qemu'')] [Fdt ''chosen'' [] []]" and ?s = "str_bytes ''model''" and ?a = "0x82200000"
  define blob where "blob = fdt_blob [] ?s (\<lambda>_. 0) ?t"
  have len: "length blob = 40 + 16 + 52 + 6"
    by (simp add: blob_def fdt_blob_def rsv_bytes_def flat_prop_def length_pad4 Let_def)
  then have "mem_at (mem_write (\<lambda>_. 0) ?a blob) ?a blob" unfolding mem_at_def by (intro mem_read_write_same) simp_all
  moreover have "fdt_ok 6 ?t" "strings_ok ?s (\<lambda>_. 0) ?t" by (simp_all add: name_ok_def strings_ok_def)
  ultimately have r: "dt_load 300 (mem_write (\<lambda>_. 0) ?a blob) ?a = Some (OK \<lparr>dt_rsvmem_list = [], dt_node_list = [node_of ?t]\<rparr>)
    \<and> (\<forall>name props children k. dt_node_prop_extract (node_of (Fdt name props children)) k
        = map_option (\<lambda>v. prop_of (k, v)) (map_of (rev props) k))"
    using dt_load_reads_tree [of _ ?a "[]" ?s "\<lambda>_. 0" ?t 6 300] len unfolding blob_def by simp
  moreover have "prop_of (''model'', str_bytes ''qemu'') = \<lparr>pr_name = ''model'', pr_len = 5, pr_values = Some (str_bytes ''qemu'')\<rparr>"
    by (simp add: prop_of_def str_bytes_def)
  ultimately have "let m = mem_write (\<lambda>_. 0) ?a blob; t = ?t
     in dt_load 300 m ?a = Some (OK \<lparr>dt_rsvmem_list = [], dt_node_list = [node_of t]\<rparr>)
       \<and> dt_node_prop_extract (node_of t) ''model'' = Some \<lparr>pr_name = ''model'', pr_len = 5, pr_values = Some (str_bytes ''qemu'')\<rparr>"
    by (simp add: Let_def del: node_of.simps)
  then show ?thesis by blast
qed

text \<open>
  The matching of a name against a list of strings such as \<^verbatim>\<open>compatible\<close> finds every name that is in the list;
  a match only means that some string of the list ends with the name.
\<close>

theorem dt_match_strlist_finds:
  assumes "\<forall>s \<in> set ss. name_ok s" "name_ok t"
  shows "(t \<in> set ss \<longrightarrow> dt_match_strlist (strlist ss) t \<noteq> 0) \<and> (dt_match_strlist (strlist ss) t \<noteq> 0 \<longrightarrow> (\<exists>s \<in> set ss. suffix t s))"
proof (intro conjI impI)
  have d: "dt_match_strlist (strlist ss) t
    = (if length (strlist ss) < Suc (length t) then 0
       else if fst (match_loop (str_bytes t) (strlist ss) 0 0) = Suc (length t) then snd (match_loop (str_bytes t) (strlist ss) 0 0) else 0)"
    by (simp add: dt_match_strlist_def Let_def case_prod_beta flip: str_bytes_def)
  show "dt_match_strlist (strlist ss) t \<noteq> 0" if "t \<in> set ss"
  proof -
    have "length (str_bytes t) \<le> length (strlist ss)" using that member_le_sum_list [of "length (str_bytes t)" "map (length \<circ> str_bytes) ss"]
      by (auto simp: strlist_def length_concat comp_def)
    then show ?thesis using match_loop_strlist(1) [OF assms that, of 0] by (simp add: d)
  qed
  show "\<exists>s \<in> set ss. suffix t s" if "dt_match_strlist (strlist ss) t \<noteq> 0"
    using that match_loop_strlist(2) [OF assms, of 0] by (auto simp: d split: if_splits)
qed

theorem dt_match_strlist_finds_witness:
  "dt_match_strlist (strlist [''sifive,plic-1.0.0'', ''riscv,plic0'']) ''riscv,plic0'' \<noteq> 0 \<and> dt_match_strlist (strlist [''notriscv'']) ''riscv'' \<noteq> 0
   \<and> (\<exists>s \<in> set [''notriscv'']. suffix ''riscv'' s)"
proof -
  have "\<forall>s \<in> set [''sifive,plic-1.0.0'', ''riscv,plic0'', ''riscv'', ''notriscv'']. name_ok s" by (simp add: name_ok_def)
  moreover have "dt_match_strlist (strlist [''notriscv'']) ''riscv'' \<noteq> 0" by code_simp
  ultimately show ?thesis
    using dt_match_strlist_finds [of "[''sifive,plic-1.0.0'', ''riscv,plic0'']" "''riscv,plic0''"] dt_match_strlist_finds [of "[''notriscv'']" "''riscv''"]
    by simp
qed

text \<open>The walk over a tree runs the callback on the nodes that satisfy the predicate, in document order, up to the first error.\<close>

lemma dt_iter_preorder: "dt_iter dt pred callback s = run_all callback (filter pred (preorder (dt_node_list dt))) s"
  by (simp add: dt_iter_def dt_iter_nodes_preorder)

end
