(* ===== verification/Serial.thy ===== *)
theory Serial
  imports Circbuf
begin

text \<open>
  The driver of the 16550A serial port, \<^verbatim>\<open>kern/drivers/serial/uart16550a.c\<close>: characters written go through
  a ring that the interrupt handler drains into the transmit register, characters received go
  through another ring. The two rings are pages of their own, so each is a memory with its ring
  (moving one byte by \<open>circbuf_enqueue\<close> and \<open>circbuf_dequeue\<close> is \<open>circ_put\<close> and \<open>circ_get\<close>, see
  \<open>circbuf_enqueue_appends\<close>). Values read from device registers are arguments; bytes written to the transmit
  register are kept in \<open>ur_thr\<close>. Probing, which reads the device tree, is left out.
\<close>

section \<open>The code\<close>

definition COM_IER_RCV_DATA_AVAIL :: u8 where "COM_IER_RCV_DATA_AVAIL = 1"
definition COM_IER_TRANS_HOLD_REG_EMPTY :: u8 where "COM_IER_TRANS_HOLD_REG_EMPTY = 2"
definition COM_IIR_CAUSE :: u8 where "COM_IIR_CAUSE = 0xe"
definition COM_LSR_DATA_AVAIL :: u8 where "COM_LSR_DATA_AVAIL = 1"
definition COM_LSR_THR_EMPTY :: u8 where "COM_LSR_THR_EMPTY = 0x20"
definition SERIAL_BUFFER_SIZE :: u64 where "SERIAL_BUFFER_SIZE = 0x1000"

record uart16550a =
  ur_rd_buf :: "mem \<times> circbuf"
  ur_wr_buf :: "mem \<times> circbuf"
  ur_fcr :: u8
  ur_lcr :: u8
  ur_mcr :: u8
  ur_ier :: u8
  ur_thr :: "u8 list"

definition uart16550a_init :: "uart16550a \<Rightarrow> uart16550a" where
  "uart16550a_init u = u\<lparr>ur_fcr := 0, ur_lcr := 3, ur_mcr := 0, ur_ier := COM_IER_RCV_DATA_AVAIL\<rparr>"

definition uart_fix_ff :: "u8 \<Rightarrow> u8" where
  "uart_fix_ff d = (if d = 0xff then 0 else d)"

definition uart16550a_getc :: "u8 \<Rightarrow> u8 \<Rightarrow> uart16550a \<Rightarrow> uart16550a \<times> u8 option" where
  "uart16550a_getc lsr rbr u =
     (if \<not> circbuf_is_empty (snd (ur_rd_buf u))
      then case circ_get (ur_rd_buf u) of (r, d) \<Rightarrow> (u\<lparr>ur_rd_buf := r\<rparr>, Some (uart_fix_ff (hd d)))
      else if lsr AND COM_LSR_DATA_AVAIL = 0 then (u, None)
      else (u, Some (uart_fix_ff rbr)))"

definition uart16550a_putc :: "uart16550a \<Rightarrow> u8 \<Rightarrow> uart16550a \<times> bool" where
  "uart16550a_putc u c =
     (if \<not> circbuf_is_full (snd (ur_wr_buf u))
      then (u\<lparr>ur_wr_buf := circ_put (ur_wr_buf u) [c], ur_ier := COM_IER_RCV_DATA_AVAIL OR COM_IER_TRANS_HOLD_REG_EMPTY\<rparr>, True)
      else (u, False))"

text \<open>One byte from the ring into the transmit register.\<close>

definition uart_tx :: "uart16550a \<Rightarrow> uart16550a" where
  "uart_tx u = (case circ_get (ur_wr_buf u) of (r, d) \<Rightarrow> u\<lparr>ur_wr_buf := r, ur_thr := ur_thr u @ d\<rparr>)"

text \<open>
  \<open>uart16550a_flush\<close>, over the readings of the line status register; \<open>None\<close>: the readings end before
  the ring is empty.
\<close>

fun uart16550a_flush :: "u8 list \<Rightarrow> uart16550a \<Rightarrow> uart16550a option" where
  "uart16550a_flush lsrs u =
     (if circbuf_is_empty (snd (ur_wr_buf u)) then Some u
      else case lsrs of
             [] \<Rightarrow> None
           | lsr # ls \<Rightarrow> if lsr AND COM_LSR_THR_EMPTY = 0 then uart16550a_flush ls u else uart16550a_flush ls (uart_tx u))"

text \<open>The two loops of the interrupt handler, over the readings they make.\<close>

fun uart_rx_loop :: "(u8 \<times> u8) list \<Rightarrow> uart16550a \<Rightarrow> uart16550a option" where
  "uart_rx_loop [] u = None"
| "uart_rx_loop ((lsr, rbr) # ls) u =
     (if lsr AND COM_LSR_DATA_AVAIL = 0 then Some u
      else if circbuf_is_full (snd (ur_rd_buf u)) then Some u
      else uart_rx_loop ls (u\<lparr>ur_rd_buf := circ_put (ur_rd_buf u) [rbr]\<rparr>))"

fun uart_tx_loop :: "u8 list \<Rightarrow> uart16550a \<Rightarrow> uart16550a option" where
  "uart_tx_loop [] u = None"
| "uart_tx_loop (lsr # ls) u =
     (if lsr AND COM_LSR_THR_EMPTY = 0 then Some u
      else if circbuf_is_empty (snd (ur_wr_buf u)) then Some u
      else uart_tx_loop ls (uart_tx u))"

definition uart16550a_handle_int :: "u8 \<Rightarrow> (u8 \<times> u8) list \<Rightarrow> uart16550a \<Rightarrow> uart16550a result option" where
  "uart16550a_handle_int iir reads u =
     (let cause = iir AND COM_IIR_CAUSE
      in if cause = 4 \<or> cause = 12 then map_option OK (uart_rx_loop reads u)
         else if cause = 2
         then map_option (\<lambda>u1. OK (u1\<lparr>ur_ier := (if circbuf_is_empty (snd (ur_wr_buf u1)) then COM_IER_RCV_DATA_AVAIL
                else COM_IER_RCV_DATA_AVAIL OR COM_IER_TRANS_HOLD_REG_EMPTY)\<rparr>)) (uart_tx_loop (map fst reads) u)
         else Some PANIC)"

section \<open>Output is a queue\<close>

text \<open>What has been accepted for output: sent, or still in the ring.\<close>

definition uart_sent :: "uart16550a \<Rightarrow> u8 list" where
  "uart_sent u = ur_thr u @ concat (circ_contents (fst (ur_wr_buf u)) (snd (ur_wr_buf u)))"

definition uart_ok :: "uart16550a \<Rightarrow> bool" where
  "uart_ok u \<longleftrightarrow> circ_ok (snd (ur_wr_buf u)) \<and> cc_ele_size (snd (ur_wr_buf u)) = 1"

definition uart_room :: "uart16550a \<Rightarrow> nat" where
  "uart_room u = unat (cc_cap (snd (ur_wr_buf u))) - unat (cc_cnt (snd (ur_wr_buf u)))"

lemma uart_putc_ok:
  assumes ok: "uart_ok u" and p: "uart16550a_putc u c = (u', b)"
  shows "uart_ok u'" "b \<longleftrightarrow> 0 < uart_room u" "uart_sent u' = (if b then uart_sent u @ [c] else uart_sent u)"
    "uart_room u' = (if b then uart_room u - 1 else uart_room u)"
proof -
  obtain m cc where r: "ur_wr_buf u = (m, cc)" by fastforce
  have circ: "circ_ok cc" "cc_ele_size cc = 1" using ok r by (simp_all add: uart_ok_def)
  have le: "unat (cc_cnt cc) \<le> unat (cc_cap cc)" using circ by (simp add: circ_ok_def)
  have full: "circbuf_is_full cc \<longleftrightarrow> uart_room u = 0"
    using le by (auto simp: circbuf_is_full_def uart_room_def r word_unat_eq_iff)
  then show "b \<longleftrightarrow> 0 < uart_room u" using p r by (auto simp: uart16550a_putc_def split: if_splits)
  show "uart_ok u'" "uart_sent u' = (if b then uart_sent u @ [c] else uart_sent u)"
    "uart_room u' = (if b then uart_room u - 1 else uart_room u)"
  proof (atomize (full), cases "circbuf_is_full cc")
    case True
    then show "uart_ok u' \<and> uart_sent u' = (if b then uart_sent u @ [c] else uart_sent u)
        \<and> uart_room u' = (if b then uart_room u - 1 else uart_room u)"
      using p r ok by (auto simp: uart16550a_putc_def)
  next
    case False
    obtain m' cc' where q: "circ_put (m, cc) [c] = (m', cc')" by fastforce
    have c: "circ_ok cc'" "circ_contents m' cc' = circ_contents m cc @ [[c]]" "cc_cap cc' = cc_cap cc" "cc_ele_size cc' = cc_ele_size cc"
      using circ_put_ok [OF circ(1) False _ q] circ(2) by simp_all
    have u': "u' = u\<lparr>ur_wr_buf := (m', cc'), ur_ier := COM_IER_RCV_DATA_AVAIL OR COM_IER_TRANS_HOLD_REG_EMPTY\<rparr>" "b"
      using p r False q by (simp_all add: uart16550a_putc_def)
    have "length (circ_contents m' cc') = unat (cc_cnt cc')" "length (circ_contents m cc) = unat (cc_cnt cc)"
      by (simp_all add: circ_contents_def)
    then have "unat (cc_cnt cc') = Suc (unat (cc_cnt cc))" using c(2) by simp
    then show "uart_ok u' \<and> uart_sent u' = (if b then uart_sent u @ [c] else uart_sent u)
        \<and> uart_room u' = (if b then uart_room u - 1 else uart_room u)"
      using u' c circ r by (simp add: uart_ok_def uart_sent_def uart_room_def)
  qed
qed

lemma uart_tx_ok:
  assumes ok: "uart_ok u" and ne: "\<not> circbuf_is_empty (snd (ur_wr_buf u))"
  shows "uart_ok (uart_tx u) \<and> uart_sent (uart_tx u) = uart_sent u"
proof -
  obtain m cc where r: "ur_wr_buf u = (m, cc)" by fastforce
  have circ: "circ_ok cc" "cc_ele_size cc = 1" using ok r by (simp_all add: uart_ok_def)
  define cc' where "cc' = circbuf_dequ_ed (fst (circbuf_dequ_st cc))"
  note d = circ_dequeue_ok [OF circ(1) _ cc'_def]
  have g: "circ_get (m, cc) = ((m, cc'), mem_read m (cc_buf cc + snd (circbuf_dequ_st cc)) (unat (cc_ele_size cc)))"
    by (simp add: circ_get_def circbuf_dequ_st_def cc'_def)
  have e: "cc_ele_size cc' = cc_ele_size cc" by (simp add: cc'_def circbuf_dequ_ed_def circbuf_dequ_st_def)
  show ?thesis using d(1) d(2) [of m] ne r g circ e by (simp add: uart_tx_def uart_ok_def uart_sent_def)
qed

lemma uart_tx_loop_ok:
  "uart_tx_loop ls u = Some u' \<Longrightarrow> uart_ok u \<Longrightarrow> uart_ok u' \<and> uart_sent u' = uart_sent u"
proof (induction ls u rule: uart_tx_loop.induct)
  case (2 lsr ls u)
  then show ?case using uart_tx_ok [of u] by (auto split: if_splits)
qed simp

lemma uart_rx_loop_ok:
  "uart_rx_loop ls u = Some u' \<Longrightarrow> ur_wr_buf u' = ur_wr_buf u \<and> ur_thr u' = ur_thr u"
  by (induction ls u rule: uart_rx_loop.induct) (auto split: if_splits)

section \<open>Properties\<close>


definition uart_example :: uart16550a where
  "uart_example = \<lparr>ur_rd_buf = (\<lambda>_. 0, circbuf_init 0x2000 1 4), ur_wr_buf = (\<lambda>_. 0, circbuf_init 0x1000 1 4), ur_fcr = 0, ur_lcr = 0,
     ur_mcr = 0, ur_ier = 0, ur_thr = []\<rparr>"

lemma uart_example_ok: "uart_ok uart_example"
  using circ_init_ok(1) [of 1 4 "0x1000"] by (simp add: uart_ok_def uart_example_def circbuf_init_def)


end
