(* ===== verification/Syscalls.thy ===== *)
theory Syscalls
  imports Chan
begin

text \<open>
  The system calls, \<^verbatim>\<open>kern/traps/syscalls.c\<close>. A handler runs until it returns or calls
  \<open>sched_proc_give_up\<close>; what follows such a call is a continuation (\<open>cont\<close>) that \<open>resume_call\<close>
  carries on with when the process has the hart again. \<open>clk i\<close> is the \<open>i\<close>-th reading of the clock in
  the piece of code that runs. Console calls leave a request for theory \<open>Console\<close>. A service whose body is only
  a TODO comment returns \<open>NO_ERROR\<close> and changes nothing.
\<close>

section \<open>Outcomes\<close>

datatype cons_op = Cons_Write_Char u32 | Cons_Read_Char | Cons_Write_Buf u64 u64

text \<open>Program points behind a \<open>sched_proc_give_up\<close>, with the local variables that are still needed.\<close>

datatype cont =
    K_Ret ret_code
  | K_SuspendSelf sys_time
  | K_SendPort nat u64 u64 sys_time sys_time
  | K_RecvPort nat sys_time u64 u64 sys_time sys_time
  | K_SendBuf nat u64 u64 sys_time sys_time
  | K_RecvBuf nat sys_time u64 u64 sys_time
  | K_ReadBB nat sys_time u64 u64 sys_time

text \<open>
  \<open>Done\<close>: the handler returns; \<open>Yield rr k\<close>: it calls \<open>sched_proc_give_up(rr)\<close>; \<open>Fatal\<close>: the kernel stops
  (\<open>fatal\<close>, a fault in the kernel or a copy without end); \<open>Halt\<close>: the machine is shut down.
\<close>

datatype outcome = Done ret_code | Yield bool cont | Fatal | Halt | Console cons_op

type_synonym clock = "nat \<Rightarrow> sys_time"

definition clk_from :: "nat \<Rightarrow> clock \<Rightarrow> clock" where
  "clk_from n clk = (\<lambda>i. clk (n + i))"

definition or_fatal :: "kst \<Rightarrow> 'a result \<Rightarrow> ('a \<Rightarrow> kst \<times> outcome) \<Rightarrow> kst \<times> outcome" where
  "or_fatal s r f = (case r of OK x \<Rightarrow> f x | _ \<Rightarrow> (s, Fatal))"

definition with_name :: "kst \<Rightarrow> u64 \<Rightarrow> (string \<Rightarrow> kst \<times> outcome) \<Rightarrow> kst \<times> outcome" where
  "with_name s a f = (case ustr (umem s) a of Some n \<Rightarrow> f n | None \<Rightarrow> (s, Fatal))"

text \<open>Objects that belong to the calling partition: \<open>part_id == sched_cur_part()->pa_id\<close>.\<close>

definition own_proc :: "kst \<Rightarrow> u64 \<Rightarrow> nat option" where
  "own_proc s i = (case proc_from_id s i of None \<Rightarrow> None
     | Some p \<Rightarrow> if pr_part_id (k_procs s ! p) \<noteq> pa_id (sched_cur_part s) then None else Some p)"

definition own_port :: "kst \<Rightarrow> u64 \<Rightarrow> nat option" where
  "own_port s i = (case queuing_port_from_id s i of None \<Rightarrow> None
     | Some q \<Rightarrow> if qp_part_id (k_ports s ! q) \<noteq> pa_id (sched_cur_part s) then None else Some q)"

definition own_buf :: "kst \<Rightarrow> u64 \<Rightarrow> nat option" where
  "own_buf s i = (case buffer_from_id s i of None \<Rightarrow> None
     | Some b \<Rightarrow> if buf_part_id (k_bufs s ! b) \<noteq> pa_id (sched_cur_part s) then None else Some b)"

definition own_bb :: "kst \<Rightarrow> u64 \<Rightarrow> nat option" where
  "own_bb s i = (case blackboard_from_id s i of None \<Rightarrow> None
     | Some b \<Rightarrow> if bb_part_id (k_bbs s ! b) \<noteq> pa_id (sched_cur_part s) then None else Some b)"

definition set_state :: "nat \<Rightarrow> proc_state \<Rightarrow> kst \<Rightarrow> kst" where
  "set_state p st s = upd_proc p (\<lambda>x. x\<lparr>pr_state := st\<rparr>) s"

definition set_reason :: "nat \<Rightarrow> proc_waiting_reason \<Rightarrow> kst \<Rightarrow> kst" where
  "set_reason p r s = upd_proc p (\<lambda>x. x\<lparr>pr_waiting_reason := r\<rparr>) s"

fun proc_state_value :: "proc_state \<Rightarrow> u32" where
  "proc_state_value DORMANT = 0" | "proc_state_value READY = 1" | "proc_state_value RUNNING = 2"
| "proc_state_value WAITING = 3" | "proc_state_value FAULTED = 4"

fun empty_ind_value :: "empty_ind \<Rightarrow> u32" where
  "empty_ind_value EMPTY = 0" | "empty_ind_value OCCUPIED = 1"

section \<open>Console and machine\<close>

definition do_cons_write_char :: "u32 \<Rightarrow> kst \<Rightarrow> kst \<times> outcome" where
  "do_cons_write_char ch s = (s, Console (Cons_Write_Char ch))"

definition do_cons_read_char :: "kst \<Rightarrow> kst \<times> outcome" where
  "do_cons_read_char s = (s, Console Cons_Read_Char)"

definition do_cons_write_buf :: "u64 \<Rightarrow> u64 \<Rightarrow> kst \<Rightarrow> kst \<times> outcome" where
  "do_cons_write_buf buf len s = (s, Console (Cons_Write_Buf buf len))"

definition do_halt :: "kst \<Rightarrow> kst \<times> outcome" where
  "do_halt s = (s, Halt)"

section \<open>Partition management\<close>

definition do_get_partition_status :: "u64 \<Rightarrow> kst \<Rightarrow> kst \<times> outcome" where
  "do_get_partition_status partition_status s =
     (let part = sched_cur_part s;
          s1 = store64 partition_status (word_of_int (pa_period part)) s;
          s2 = store64 (partition_status + 8) (word_of_int (pa_duration part)) s1;
          s3 = store64 (partition_status + 16) (pa_id part) s2;
          s4 = store64 (partition_status + 24) (pa_lock_level part) s3;
          s5 = store32 (partition_status + 32) (pa_op_mode part) s4;
          s6 = store32 (partition_status + 36) (pa_start_cond part) s5
      in (store64 (partition_status + 40) (pa_num_cores part) s6, Done NO_ERROR))"

text \<open>The loop that readies the processes started before the partition entered normal mode.\<close>

definition ready_previous_started :: "nat list \<Rightarrow> kst \<Rightarrow> kst" where
  "ready_previous_started ps s =
     fold (\<lambda>p s. if pr_state (k_procs s ! p) = WAITING \<and> pr_waiting_reason (k_procs s ! p) = PREVIOUS_STARTED
        then set_state p READY s else s) ps s"

definition do_set_partition_mode :: "u64 \<Rightarrow> kst \<Rightarrow> kst \<times> outcome" where
  "do_set_partition_mode operating_mode s =
     (let part = sched_cur_part s
      in if operating_mode = ucast NORMAL \<and> pa_op_mode part = NORMAL then (s, Done NO_ACTION)
         else if operating_mode = ucast WARM_START \<and> pa_op_mode part = COLD_START then (s, Done INVALID_MODE)
         else
           let s1 = upd_part (the (k_cur_part s)) (\<lambda>x. x\<lparr>pa_op_mode := ucast operating_mode\<rparr>) s
           in if operating_mode = ucast IDLE then (s1, Done NO_ERROR)
              else if operating_mode = ucast WARM_START \<or> operating_mode = ucast COLD_START then (s1, Done NO_ERROR)
              else if operating_mode = ucast NORMAL
              then (set_state (sched_cur_proc s1) DORMANT (ready_previous_started (pa_proc_list (sched_cur_part s1)) s1),
                    Yield False (K_Ret NO_ERROR))
              else (s1, Done INVALID_PARAM))"

section \<open>Process management\<close>

definition do_get_process_id :: "u64 \<Rightarrow> u64 \<Rightarrow> kst \<Rightarrow> kst \<times> outcome" where
  "do_get_process_id process_name process_id s =
     with_name s process_name (\<lambda>name.
       case part_get_proc_by_name s (the (k_cur_part s)) name of
         None \<Rightarrow> (s, Done INVALID_CONFIG)
       | Some p \<Rightarrow> (store64 process_id (pr_id (k_procs s ! p)) s, Done NO_ERROR))"

definition do_get_process_status :: "u64 \<Rightarrow> u64 \<Rightarrow> kst \<Rightarrow> kst \<times> outcome" where
  "do_get_process_status process_id st s =
     (case own_proc s process_id of
        None \<Rightarrow> (s, Done INVALID_PARAM)
      | Some p \<Rightarrow>
          (let x = k_procs s ! p;
               s1 = store64 st (word_of_int (pr_deadline_time x)) s;
               s2 = store64 (st + 8) (pr_cur_pri x) s1;
               s3 = store32 (st + 16) (proc_state_value (pr_state x)) s2;
               s4 = store64 (st + 24) (word_of_int (pr_period x)) s3;
               s5 = store64 (st + 32) (word_of_int (pr_time_cap x)) s4;
               s6 = store64 (st + 40) (pr_entrypoint x) s5;
               s7 = store64 (st + 48) (pr_ustacksize x) s6;
               s8 = store64 (st + 56) (pr_base_pri x) s7;
               s9 = store32 (st + 64) (pr_deadline x) s8;
               name = load64 s9 (st + 72)
           in (if name \<noteq> 0 then set_umem (mem_write (umem s9) name (map of_char (pr_name x) @ [0])) s9 else s9, Done NO_ERROR)))"

definition do_create_process :: "u64 \<Rightarrow> u64 \<Rightarrow> kst \<Rightarrow> kst \<times> outcome" where
  "do_create_process attributes process_id s =
     with_name s (load64 s (attributes + 48)) (\<lambda>name.
       let pa = the (k_cur_part s); part = sched_cur_part s;
           period = sint (load64 s attributes); time_capacity = sint (load64 s (attributes + 8));
           entry_point = load64 s (attributes + 16); stack_size = load64 s (attributes + 24);
           base_priority = load64 s (attributes + 32); deadline = load32 s (attributes + 40)
       in if part_get_proc_by_name s pa name \<noteq> None then (s, Done NO_ACTION)
          else if stack_size > USTKSIZEMAX then (s, Done INVALID_CONFIG)
          else if period < SYSTEM_TIME_INFINITE_VAL \<and> c_rem period (pa_period part) \<noteq> 0 then (s, Done INVALID_CONFIG)
          else if period < SYSTEM_TIME_INFINITE_VAL \<and> period < time_capacity then (s, Done INVALID_CONFIG)
          else if pa_op_mode part = NORMAL then (s, Done INVALID_MODE)
          else case proc_alloc pa name period time_capacity entry_point stack_size base_priority deadline s of
                 (s1, OK p) \<Rightarrow> (store64 process_id (pr_id (k_procs s1 ! p)) s1, Done NO_ERROR)
               | (s1, ERR e) \<Rightarrow> (s1, Done INVALID_CONFIG)
               | (s1, PANIC) \<Rightarrow> (s1, Fatal))"

definition do_set_priority :: "u64 \<Rightarrow> u64 \<Rightarrow> kst \<Rightarrow> kst \<times> outcome" where
  "do_set_priority process_id priority s =
     (case own_proc s process_id of
        None \<Rightarrow> (s, Done INVALID_PARAM)
      | Some p \<Rightarrow>
          if pr_state (k_procs s ! p) = DORMANT then (s, Done INVALID_MODE)
          else (upd_proc p (\<lambda>x. x\<lparr>pr_cur_pri := priority\<rparr>) s, Yield False (K_Ret NO_ERROR)))"

definition do_suspend_self :: "clock \<Rightarrow> sys_time \<Rightarrow> kst \<Rightarrow> kst \<times> outcome" where
  "do_suspend_self clk time_out s =
     (let p = sched_cur_proc s
      in if proc_is_period (k_procs s ! p) then (s, Done INVALID_MODE)
         else if time_out = 0 then (s, Done NO_ERROR)
         else
           let s1 = set_state p WAITING s
           in if time_out < SYSTEM_TIME_INFINITE_VAL
              then let wakeup_time = swrap64 (clk 0 + time_out);
                       s2 = set_reason p SUSPENDED_WITH_TIMEOUT s1
                   in (time_event_alloc (clk 1) wakeup_time (TE_PROCESS_SUSPEND_TIMEOUT p) s2, Yield False (K_SuspendSelf wakeup_time))
              else (set_reason p SUSPENDED s1, Yield False (K_Ret NO_ERROR)))"

definition do_suspend :: "u64 \<Rightarrow> kst \<Rightarrow> kst \<times> outcome" where
  "do_suspend process_id s =
     (case own_proc s process_id of
        None \<Rightarrow> (s, Done INVALID_PARAM)
      | Some p \<Rightarrow>
          if pr_state (k_procs s ! p) = DORMANT \<or> pr_state (k_procs s ! p) = FAULTED then (s, Done INVALID_MODE)
          else if proc_is_period (k_procs s ! p) then (s, Done INVALID_MODE)
          else if pr_state (k_procs s ! p) = WAITING then (s, Done NO_ACTION)
          else (set_reason p SUSPENDED (set_state p WAITING s), Yield False (K_Ret NO_ERROR)))"

definition do_resume :: "clock \<Rightarrow> u64 \<Rightarrow> kst \<Rightarrow> kst \<times> outcome" where
  "do_resume clk process_id s =
     (case own_proc s process_id of
        None \<Rightarrow> (s, Done INVALID_PARAM)
      | Some p \<Rightarrow>
          (let x = k_procs s ! p
           in if pr_state x = DORMANT then (s, Done INVALID_MODE)
              else if proc_is_period x \<and> pr_state x \<noteq> FAULTED then (s, Done INVALID_MODE)
              else if \<not> (pr_state x = WAITING \<and> (pr_waiting_reason x = SUSPENDED \<or> pr_waiting_reason x = SUSPENDED_WITH_TIMEOUT))
                   \<and> pr_state x \<noteq> FAULTED
              then (s, Done NO_ACTION)
              else or_fatal s
                (if pr_state x = WAITING \<and> pr_waiting_reason x = SUSPENDED_WITH_TIMEOUT
                 then time_event_free (clk 0) (pr_asso_timer x) s else OK s)
                (\<lambda>s1. (set_state p READY s1, Yield False (K_Ret NO_ERROR)))))"

definition do_stop_self :: "kst \<Rightarrow> kst \<times> outcome" where
  "do_stop_self s = (set_state (sched_cur_proc s) DORMANT s, Yield False (K_Ret NO_ERROR))"

definition do_stop :: "clock \<Rightarrow> u64 \<Rightarrow> kst \<Rightarrow> kst \<times> outcome" where
  "do_stop clk process_id s =
     (case own_proc s process_id of
        None \<Rightarrow> (s, Done INVALID_PARAM)
      | Some p \<Rightarrow>
          if pr_state (k_procs s ! p) = DORMANT then (s, Done NO_ACTION)
          else let s1 = set_state p DORMANT s
               in or_fatal s1
                    (if pr_asso_timer (k_procs s1 ! p) \<noteq> None then time_event_free (clk 0) (pr_asso_timer (k_procs s1 ! p)) s1 else OK s1)
                    (\<lambda>s2. (s2, Yield False (K_Ret NO_ERROR))))"

definition do_delayed_start :: "clock \<Rightarrow> u64 \<Rightarrow> sys_time \<Rightarrow> kst \<Rightarrow> kst \<times> outcome" where
  "do_delayed_start clk process_id delay_time s =
     (case own_proc s process_id of
        None \<Rightarrow> (s, Done INVALID_PARAM)
      | Some p \<Rightarrow>
          (let x = k_procs s ! p
           in if pr_state x \<noteq> DORMANT then (s, Done NO_ACTION)
              else if delay_time = SYSTEM_TIME_INFINITE_VAL then (s, Done INVALID_PARAM)
              else if proc_is_period x \<and> delay_time \<ge> pr_period x then (s, Done INVALID_PARAM)
              else
                let s1 = upd_proc p (\<lambda>x. x\<lparr>pr_cur_pri := pr_base_pri x\<rparr>) s
                in or_fatal s1 (proc_reset p s1) (\<lambda>s2.
                     if \<not> proc_is_period x
                     then if pa_op_mode (sched_cur_part s2) = NORMAL
                          then (if delay_time = 0
                                then upd_proc p (\<lambda>x. x\<lparr>pr_deadline_time := swrap64 (clk 0 + pr_time_cap x)\<rparr>) (set_state p READY s2)
                                else let s3 = set_reason p DELAYED_STARTED (set_state p WAITING s2);
                                         s4 = time_event_alloc (clk 1) (swrap64 (clk 0 + delay_time)) (TE_PROCESS_DELAYED_START p) s3
                                     in upd_proc p (\<lambda>x. x\<lparr>pr_deadline_time := swrap64 (clk 2 + pr_time_cap x + delay_time)\<rparr>) s4,
                                Yield False (K_Ret NO_ERROR))
                          else (set_reason p PREVIOUS_STARTED (set_state p WAITING s2), Done NO_ERROR)
                     else if pa_op_mode (sched_cur_part s2) = NORMAL
                          then (set_reason p DELAYED_STARTED (set_state p WAITING s2), Done NO_ERROR)
                          else (set_reason p PREVIOUS_STARTED (set_state p WAITING s2), Done NO_ERROR))))"

definition do_start :: "clock \<Rightarrow> u64 \<Rightarrow> kst \<Rightarrow> kst \<times> outcome" where
  "do_start clk process_id s = do_delayed_start clk process_id 0 s"

definition do_lock_preemption :: "u64 \<Rightarrow> kst \<Rightarrow> kst \<times> outcome" where
  "do_lock_preemption lock_level s = (s, Done NO_ERROR)"

definition do_unlock_preemption :: "u64 \<Rightarrow> kst \<Rightarrow> kst \<times> outcome" where
  "do_unlock_preemption lock_level s = (s, Done NO_ERROR)"

definition do_get_my_id :: "u64 \<Rightarrow> kst \<Rightarrow> kst \<times> outcome" where
  "do_get_my_id process_id s = (store64 process_id (pr_id (k_procs s ! sched_cur_proc s)) s, Done NO_ERROR)"

definition do_initialize_process_core_affinity :: "u64 \<Rightarrow> u64 \<Rightarrow> kst \<Rightarrow> kst \<times> outcome" where
  "do_initialize_process_core_affinity process_id processor_core_id s = (s, Done NO_ERROR)"

definition do_get_my_processor_core_id :: "u64 \<Rightarrow> kst \<Rightarrow> kst \<times> outcome" where
  "do_get_my_processor_core_id processor_core_id s = (s, Done NO_ERROR)"

definition do_get_my_index :: "u64 \<Rightarrow> kst \<Rightarrow> kst \<times> outcome" where
  "do_get_my_index process_index s =
     (let p = sched_cur_proc s
      in if pr_idx (k_procs s ! p) < 1 then (s, Done INVALID_MODE)
         else (store64 process_index (pr_idx (k_procs s ! p)) s, Done NO_ERROR))"

section \<open>Time management\<close>

definition do_timed_wait :: "clock \<Rightarrow> sys_time \<Rightarrow> kst \<Rightarrow> kst \<times> outcome" where
  "do_timed_wait clk delay_time s =
     (let p = sched_cur_proc s
      in if delay_time = SYSTEM_TIME_INFINITE_VAL then (s, Done INVALID_PARAM)
         else if delay_time = 0 then (s, Yield True (K_Ret NO_ERROR))
         else let wakeup_time = swrap64 (clk 0 + delay_time);
                  s1 = set_reason p TIMED_WAIT_TIMEOUT (set_state p WAITING s)
              in (time_event_alloc (clk 1) wakeup_time (TE_PROCESS_TIMED_WAIT_TIMEOUT p) s1, Yield False (K_Ret NO_ERROR)))"

definition do_periodic_wait :: "kst \<Rightarrow> kst \<times> outcome" where
  "do_periodic_wait s = (s, Done NO_ERROR)"

definition do_get_time :: "clock \<Rightarrow> u64 \<Rightarrow> kst \<Rightarrow> kst \<times> outcome" where
  "do_get_time clk system_time s = (store64 system_time (word_of_int (clk 0)) s, Done NO_ERROR)"

definition do_replenish :: "sys_time \<Rightarrow> kst \<Rightarrow> kst \<times> outcome" where
  "do_replenish budget_time s = (s, Done NO_ERROR)"

section \<open>Waiting and waking\<close>

text \<open>
  The block that puts the caller to sleep, the same in the five services that can wait: it becomes
  \<open>WAITING\<close>, joins the queue of the object (\<open>add\<close>) and arms a timer unless the time-out is infinite.
\<close>

definition block_wait ::
  "nat \<Rightarrow> proc_waiting_reason \<Rightarrow> proc_waiting_reason \<Rightarrow> time_event_type \<Rightarrow> (kst \<Rightarrow> kst) \<Rightarrow> sys_time \<Rightarrow> sys_time \<Rightarrow> sys_time \<Rightarrow> kst \<Rightarrow> kst"
  where
  "block_wait p reason timed_reason te add now time_out wakeup_time s =
     (let s1 = add (set_state p WAITING s)
      in if time_out \<noteq> SYSTEM_TIME_INFINITE_VAL
         then time_event_alloc now wakeup_time te (set_reason p timed_reason s1)
         else set_reason p reason s1)"

text \<open>The block that wakes a process: its timer is freed when it waits with one, and it becomes \<open>READY\<close>.\<close>

definition wake_proc :: "sys_time \<Rightarrow> proc_waiting_reason \<Rightarrow> nat \<Rightarrow> kst \<Rightarrow> kst result" where
  "wake_proc now timed_reason p s =
     panic_e (if pr_waiting_reason (k_procs s ! p) = timed_reason then time_event_free now (pr_asso_timer (k_procs s ! p)) s else OK s)
       (\<lambda>s1. OK (set_state p READY s1))"

definition timed_out :: "sys_time \<Rightarrow> sys_time \<Rightarrow> sys_time \<Rightarrow> bool" where
  "timed_out now time_out wakeup_time \<longleftrightarrow> time_out \<noteq> SYSTEM_TIME_INFINITE_VAL \<and> now \<ge> wakeup_time"

section \<open>Sampling ports\<close>

definition do_create_sampling_port :: "u64 \<Rightarrow> u64 \<Rightarrow> u32 \<Rightarrow> sys_time \<Rightarrow> u64 \<Rightarrow> kst \<Rightarrow> kst \<times> outcome" where
  "do_create_sampling_port sampling_port_name max_message_size port_direction refresh_period sampling_port_id s = (s, Done NO_ERROR)"

definition do_write_sampling_message :: "u64 \<Rightarrow> u64 \<Rightarrow> u64 \<Rightarrow> kst \<Rightarrow> kst \<times> outcome" where
  "do_write_sampling_message sampling_port_id message_addr len s = (s, Done NO_ERROR)"

definition do_read_sampling_message :: "u64 \<Rightarrow> u64 \<Rightarrow> u64 \<Rightarrow> u64 \<Rightarrow> kst \<Rightarrow> kst \<times> outcome" where
  "do_read_sampling_message sampling_port_id message_addr len validity s = (s, Done NO_ERROR)"

definition do_get_sampling_port_id :: "u64 \<Rightarrow> u64 \<Rightarrow> kst \<Rightarrow> kst \<times> outcome" where
  "do_get_sampling_port_id sampling_port_name sampling_port_id s = (s, Done NO_ERROR)"

definition do_get_sampling_port_status :: "u64 \<Rightarrow> u64 \<Rightarrow> kst \<Rightarrow> kst \<times> outcome" where
  "do_get_sampling_port_status sampling_port_id sampling_port_status s = (s, Done NO_ERROR)"

section \<open>Queuing ports\<close>

definition do_create_queuing_port :: "u64 \<Rightarrow> u64 \<Rightarrow> u64 \<Rightarrow> u32 \<Rightarrow> u32 \<Rightarrow> u64 \<Rightarrow> kst \<Rightarrow> kst \<times> outcome" where
  "do_create_queuing_port queuing_port_name max_message_size max_nb_message port_direction queuing_discipline queuing_port_id s =
     with_name s queuing_port_name (\<lambda>name.
       let pa = the (k_cur_part s)
       in if \<not> queuing_port_conf_validate s pa name port_direction max_message_size max_nb_message then (s, Done INVALID_CONFIG)
          else if queuing_port_from_name s name \<noteq> None then (s, Done NO_ACTION)
          else if pa_op_mode (sched_cur_part s) = NORMAL then (s, Done INVALID_MODE)
          else case queuing_port_alloc pa name port_direction max_message_size max_nb_message queuing_discipline s of
                 (s1, OK q) \<Rightarrow> (store64 queuing_port_id (qp_id (k_ports s1 ! q)) s1, Done NO_ERROR)
               | (s1, ERR e) \<Rightarrow> (s1, Done INVALID_CONFIG)
               | (s1, PANIC) \<Rightarrow> (s1, Fatal))"

text \<open>The end of the two transfers: the message moves and a waiting process is woken.\<close>

definition port_wake :: "clock \<Rightarrow> nat \<Rightarrow> kst \<Rightarrow> kst result" where
  "port_wake clk q s =
     (case queuing_port_wakeup_waiting_proc q s of
        (s1, None) \<Rightarrow> OK s1
      | (s1, Some p) \<Rightarrow> wake_proc (clk 0) QUEUING_PORT_BLOCKED_WITH_TIMEOUT p s1)"

definition send_port_finish :: "clock \<Rightarrow> nat \<Rightarrow> u64 \<Rightarrow> u64 \<Rightarrow> kst \<Rightarrow> kst \<times> outcome" where
  "send_port_finish clk q message_addr len s =
     or_fatal s (queuing_port_send q message_addr len s) (\<lambda>s1. or_fatal s1 (port_wake clk q s1) (\<lambda>s2. (s2, Done NO_ERROR)))"

text \<open>One round of the waiting loop up to \<open>sched_proc_give_up\<close>.\<close>

definition send_port_block :: "clock \<Rightarrow> nat \<Rightarrow> u64 \<Rightarrow> u64 \<Rightarrow> sys_time \<Rightarrow> sys_time \<Rightarrow> kst \<Rightarrow> kst \<times> outcome" where
  "send_port_block clk q message_addr len time_out wakeup_time s =
     (if timed_out (clk 0) time_out wakeup_time then (s, Done TIMED_OUT)
      else let p = sched_cur_proc s
           in (block_wait p QUEUING_PORT_BLOCKED QUEUING_PORT_BLOCKED_WITH_TIMEOUT (TE_QUEUING_PORT_BLOCK_TIMEOUT p q)
                 (queuing_port_add_waiting_proc q p) (clk 1) time_out wakeup_time s,
               Yield False (K_SendPort q message_addr len time_out wakeup_time)))"

definition do_send_queuing_message :: "clock \<Rightarrow> u64 \<Rightarrow> u64 \<Rightarrow> u64 \<Rightarrow> sys_time \<Rightarrow> kst \<Rightarrow> kst \<times> outcome" where
  "do_send_queuing_message clk queuing_port_id message_addr len time_out s =
     (case own_port s queuing_port_id of
        None \<Rightarrow> (s, Done INVALID_PARAM)
      | Some q \<Rightarrow>
          if len > ch_max_msg_size (port_chan s q) then (s, Done INVALID_CONFIG)
          else if len = 0 then (s, Done INVALID_PARAM)
          else if qp_dir (k_ports s ! q) \<noteq> SOURCE then (s, Done INVALID_MODE)
          else if queuing_port_is_full s q
          then if time_out = 0 then (s, Done NOT_AVAILABLE)
               else send_port_block (clk_from 1 clk) q message_addr len time_out (swrap64 (clk 0 + time_out)) s
          else send_port_finish clk q message_addr len s)"

definition send_port_resume :: "clock \<Rightarrow> nat \<Rightarrow> u64 \<Rightarrow> u64 \<Rightarrow> sys_time \<Rightarrow> sys_time \<Rightarrow> kst \<Rightarrow> kst \<times> outcome" where
  "send_port_resume clk q message_addr len time_out wakeup_time s =
     (if timed_out (clk 0) time_out wakeup_time then (s, Done TIMED_OUT)
      else if queuing_port_is_full s q then send_port_block (clk_from 1 clk) q message_addr len time_out wakeup_time s
      else send_port_finish (clk_from 1 clk) q message_addr len s)"

definition recv_port_finish :: "clock \<Rightarrow> nat \<Rightarrow> u64 \<Rightarrow> u64 \<Rightarrow> kst \<Rightarrow> kst \<times> outcome" where
  "recv_port_finish clk q message_addr len s =
     or_fatal s (queuing_port_recv q message_addr len s) (\<lambda>s1. or_fatal s1 (port_wake clk q s1) (\<lambda>s2. (s2, Done NO_ERROR)))"

text \<open>
  The receiving loop computes a second \<open>wakeup_time\<close>, which hides the first one up to the end of the
  round: the timer and the test after \<open>sched_proc_give_up\<close> use the new one, the test at the top of the
  loop the old one.
\<close>

definition recv_port_block :: "clock \<Rightarrow> nat \<Rightarrow> sys_time \<Rightarrow> u64 \<Rightarrow> u64 \<Rightarrow> sys_time \<Rightarrow> kst \<Rightarrow> kst \<times> outcome" where
  "recv_port_block clk q time_out message_addr len wakeup_time s =
     (if timed_out (clk 0) time_out wakeup_time then (store64 len 0 s, Done TIMED_OUT)
      else let p = sched_cur_proc s;
               wakeup_time' = swrap64 (clk 1 + time_out)
           in (block_wait p QUEUING_PORT_BLOCKED QUEUING_PORT_BLOCKED_WITH_TIMEOUT (TE_QUEUING_PORT_BLOCK_TIMEOUT p q)
                 (queuing_port_add_waiting_proc q p) (clk 2) time_out wakeup_time' s,
               Yield False (K_RecvPort q time_out message_addr len wakeup_time wakeup_time')))"

definition do_receive_queuing_message :: "clock \<Rightarrow> u64 \<Rightarrow> sys_time \<Rightarrow> u64 \<Rightarrow> u64 \<Rightarrow> kst \<Rightarrow> kst \<times> outcome" where
  "do_receive_queuing_message clk queuing_port_id time_out message_addr len s =
     (case own_port s queuing_port_id of
        None \<Rightarrow> (s, Done INVALID_PARAM)
      | Some q \<Rightarrow>
          if qp_dir (k_ports s ! q) \<noteq> DESTINATION then (s, Done INVALID_MODE)
          else if queuing_port_is_empty s q
          then if time_out = 0 then (store64 len 0 s, Done NOT_AVAILABLE)
               else recv_port_block (clk_from 1 clk) q time_out message_addr len (swrap64 (clk 0 + time_out)) s
          else recv_port_finish clk q message_addr len s)"

definition recv_port_resume :: "clock \<Rightarrow> nat \<Rightarrow> sys_time \<Rightarrow> u64 \<Rightarrow> u64 \<Rightarrow> sys_time \<Rightarrow> sys_time \<Rightarrow> kst \<Rightarrow> kst \<times> outcome" where
  "recv_port_resume clk q time_out message_addr len wakeup_time wakeup_time' s =
     (if timed_out (clk 0) time_out wakeup_time' then (store64 len 0 s, Done TIMED_OUT)
      else if queuing_port_is_empty s q then recv_port_block (clk_from 1 clk) q time_out message_addr len wakeup_time s
      else recv_port_finish (clk_from 1 clk) q message_addr len s)"

definition do_get_queuing_port_id :: "u64 \<Rightarrow> u64 \<Rightarrow> kst \<Rightarrow> kst \<times> outcome" where
  "do_get_queuing_port_id queuing_port_name queuing_port_id s =
     with_name s queuing_port_name (\<lambda>name.
       case queuing_port_from_name s name of
         None \<Rightarrow> (s, Done INVALID_CONFIG)
       | Some q \<Rightarrow> if qp_part_id (k_ports s ! q) \<noteq> pa_id (sched_cur_part s) then (s, Done INVALID_CONFIG)
                   else (store64 queuing_port_id (qp_id (k_ports s ! q)) s, Done NO_ERROR))"

definition do_get_queuing_port_status :: "u64 \<Rightarrow> u64 \<Rightarrow> kst \<Rightarrow> kst \<times> outcome" where
  "do_get_queuing_port_status queuing_port_id st s =
     (case own_port s queuing_port_id of
        None \<Rightarrow> (s, Done INVALID_PARAM)
      | Some q \<Rightarrow>
          (let s1 = store64 (st + 16) (ch_max_msg_size (port_chan s q)) s;
               s2 = store64 (st + 8) (ch_max_nb_msg (port_chan s q)) s1;
               s3 = store32 (st + 24) (qp_dir (k_ports s ! q)) s2;
               s4 = store64 st (queuing_port_get_nb_message s3 q) s3
           in (store64 (st + 32) (queuing_port_get_wait_proc_nb s4 q) s4, Done NO_ERROR)))"

definition do_clear_queuing_port :: "clock \<Rightarrow> u64 \<Rightarrow> kst \<Rightarrow> kst \<times> outcome" where
  "do_clear_queuing_port clk queuing_port_id s =
     (case own_port s queuing_port_id of
        None \<Rightarrow> (s, Done INVALID_PARAM)
      | Some q \<Rightarrow>
          if qp_dir (k_ports s ! q) \<noteq> DESTINATION then (s, Done INVALID_MODE)
          else or_fatal s (if queuing_port_is_full s q then port_wake clk q s else OK s) (\<lambda>s1.
            (upd_chan (qp_channel (k_ports s1 ! q)) (\<lambda>c. c\<lparr>ch_body := circbuf_reset (ch_body c)\<rparr>) s1, Done NO_ERROR)))"

section \<open>Buffers\<close>

definition do_create_buffer :: "u64 \<Rightarrow> u64 \<Rightarrow> u64 \<Rightarrow> u32 \<Rightarrow> u64 \<Rightarrow> kst \<Rightarrow> kst \<times> outcome" where
  "do_create_buffer buffer_name max_message_size max_nb_message queuing_discipline buffer_id s =
     with_name s buffer_name (\<lambda>name.
       let pa = the (k_cur_part s)
       in if part_get_buf_by_name s pa name \<noteq> None then (s, Done NO_ACTION)
          else if max_message_size = 0 then (s, Done INVALID_PARAM)
          else if pa_op_mode (sched_cur_part s) = NORMAL then (s, Done INVALID_MODE)
          else case buffer_alloc pa name max_message_size max_nb_message queuing_discipline s of
                 (s1, OK b) \<Rightarrow> (store64 buffer_id (buf_id (k_bufs s1 ! b)) s1, Done NO_ERROR)
               | (s1, ERR e) \<Rightarrow> (s1, Done INVALID_CONFIG)
               | (s1, PANIC) \<Rightarrow> (s1, Fatal))"

text \<open>After the message has moved, a woken process may take over at once.\<close>

definition buf_wake :: "clock \<Rightarrow> nat \<Rightarrow> kst \<Rightarrow> kst \<times> outcome" where
  "buf_wake clk b s =
     (case buffer_wakeup_waiting_proc b s of
        (s1, None) \<Rightarrow> (s1, Done NO_ERROR)
      | (s1, Some p) \<Rightarrow> or_fatal s1 (wake_proc (clk 0) BUFFER_BLOCKED_WITH_TIMEOUT p s1) (\<lambda>s2. (s2, Yield False (K_Ret NO_ERROR))))"

definition send_buf_finish :: "clock \<Rightarrow> nat \<Rightarrow> u64 \<Rightarrow> u64 \<Rightarrow> kst \<Rightarrow> kst \<times> outcome" where
  "send_buf_finish clk b message_addr len s = or_fatal s (buffer_send b message_addr len s) (buf_wake clk b)"

definition send_buf_block :: "clock \<Rightarrow> nat \<Rightarrow> u64 \<Rightarrow> u64 \<Rightarrow> sys_time \<Rightarrow> sys_time \<Rightarrow> kst \<Rightarrow> kst \<times> outcome" where
  "send_buf_block clk b message_addr len time_out wakeup_time s =
     (if timed_out (clk 0) time_out wakeup_time then (s, Done TIMED_OUT)
      else let p = sched_cur_proc s
           in (block_wait p BUFFER_BLOCKED BUFFER_BLOCKED_WITH_TIMEOUT (TE_BUFFER_BLOCK_TIMEOUT p b)
                 (buffer_add_waiting_proc b p) (clk 1) time_out wakeup_time s,
               Yield False (K_SendBuf b message_addr len time_out wakeup_time)))"

definition do_send_buffer :: "clock \<Rightarrow> u64 \<Rightarrow> u64 \<Rightarrow> u64 \<Rightarrow> sys_time \<Rightarrow> kst \<Rightarrow> kst \<times> outcome" where
  "do_send_buffer clk buffer_id message_addr len time_out s =
     (case own_buf s buffer_id of
        None \<Rightarrow> (s, Done INVALID_PARAM)
      | Some b \<Rightarrow>
          if len > buf_max_msg_size (k_bufs s ! b) then (s, Done INVALID_PARAM)
          else if len = 0 then (s, Done INVALID_PARAM)
          else if buffer_is_full s b
          then if time_out = 0 then (s, Done NOT_AVAILABLE)
               else send_buf_block (clk_from 1 clk) b message_addr len time_out (swrap64 (clk 0 + time_out)) s
          else send_buf_finish clk b message_addr len s)"

definition send_buf_resume :: "clock \<Rightarrow> nat \<Rightarrow> u64 \<Rightarrow> u64 \<Rightarrow> sys_time \<Rightarrow> sys_time \<Rightarrow> kst \<Rightarrow> kst \<times> outcome" where
  "send_buf_resume clk b message_addr len time_out wakeup_time s =
     (if timed_out (clk 0) time_out wakeup_time then (s, Done TIMED_OUT)
      else if buffer_is_full s b then send_buf_block (clk_from 1 clk) b message_addr len time_out wakeup_time s
      else send_buf_finish (clk_from 1 clk) b message_addr len s)"

definition recv_buf_finish :: "clock \<Rightarrow> nat \<Rightarrow> u64 \<Rightarrow> u64 \<Rightarrow> kst \<Rightarrow> kst \<times> outcome" where
  "recv_buf_finish clk b message_addr len s = or_fatal s (buffer_recv b message_addr len s) (buf_wake clk b)"

definition recv_buf_block :: "clock \<Rightarrow> nat \<Rightarrow> sys_time \<Rightarrow> u64 \<Rightarrow> u64 \<Rightarrow> sys_time \<Rightarrow> kst \<Rightarrow> kst \<times> outcome" where
  "recv_buf_block clk b time_out message_addr len wakeup_time s =
     (if timed_out (clk 0) time_out wakeup_time then (store64 len 0 s, Done TIMED_OUT)
      else let p = sched_cur_proc s
           in (block_wait p BUFFER_BLOCKED BUFFER_BLOCKED_WITH_TIMEOUT (TE_BUFFER_BLOCK_TIMEOUT p b)
                 (buffer_add_waiting_proc b p) (clk 1) time_out wakeup_time s,
               Yield False (K_RecvBuf b time_out message_addr len wakeup_time)))"

definition do_receive_buffer :: "clock \<Rightarrow> u64 \<Rightarrow> sys_time \<Rightarrow> u64 \<Rightarrow> u64 \<Rightarrow> kst \<Rightarrow> kst \<times> outcome" where
  "do_receive_buffer clk buffer_id time_out message_addr len s =
     (case own_buf s buffer_id of
        None \<Rightarrow> (s, Done INVALID_PARAM)
      | Some b \<Rightarrow>
          if buffer_is_empty s b
          then if time_out = 0 then (store64 len 0 s, Done NOT_AVAILABLE)
               else recv_buf_block (clk_from 1 clk) b time_out message_addr len (swrap64 (clk 0 + time_out)) s
          else recv_buf_finish clk b message_addr len s)"

definition recv_buf_resume :: "clock \<Rightarrow> nat \<Rightarrow> sys_time \<Rightarrow> u64 \<Rightarrow> u64 \<Rightarrow> sys_time \<Rightarrow> kst \<Rightarrow> kst \<times> outcome" where
  "recv_buf_resume clk b time_out message_addr len wakeup_time s =
     (if timed_out (clk 0) time_out wakeup_time then (store64 len 0 s, Done TIMED_OUT)
      else if buffer_is_empty s b then recv_buf_block (clk_from 1 clk) b time_out message_addr len wakeup_time s
      else recv_buf_finish (clk_from 1 clk) b message_addr len s)"

definition do_get_buffer_id :: "u64 \<Rightarrow> u64 \<Rightarrow> kst \<Rightarrow> kst \<times> outcome" where
  "do_get_buffer_id buffer_name buffer_id s =
     with_name s buffer_name (\<lambda>name.
       case part_get_buf_by_name s (the (k_cur_part s)) name of
         None \<Rightarrow> (s, Done INVALID_CONFIG)
       | Some b \<Rightarrow> (store64 buffer_id (buf_id (k_bufs s ! b)) s, Done NO_ERROR))"

definition do_get_buffer_status :: "u64 \<Rightarrow> u64 \<Rightarrow> kst \<Rightarrow> kst \<times> outcome" where
  "do_get_buffer_status buffer_id st s =
     (case own_buf s buffer_id of
        None \<Rightarrow> (s, Done INVALID_PARAM)
      | Some b \<Rightarrow>
          (let s1 = store64 st (buffer_get_nb_message s b) s;
               s2 = store64 (st + 8) (buf_max_nb_msg (k_bufs s1 ! b)) s1;
               s3 = store64 (st + 16) (buf_max_msg_size (k_bufs s2 ! b)) s2
           in (store64 (st + 24) (buffer_get_waiting_proc_nb s3 b) s3, Done NO_ERROR)))"

section \<open>Blackboards\<close>

definition do_create_blackboard :: "u64 \<Rightarrow> u64 \<Rightarrow> u64 \<Rightarrow> kst \<Rightarrow> kst \<times> outcome" where
  "do_create_blackboard blackboard_name max_message_size blackboard_id s =
     with_name s blackboard_name (\<lambda>name.
       let pa = the (k_cur_part s)
       in if part_get_bb_by_name s pa name \<noteq> None then (s, Done NO_ACTION)
          else if max_message_size = 0 then (s, Done INVALID_PARAM)
          else if pa_op_mode (sched_cur_part s) = NORMAL then (s, Done INVALID_MODE)
          else case blackboard_alloc pa name max_message_size s of
                 (s1, OK b) \<Rightarrow> (store64 blackboard_id (bb_id (k_bbs s1 ! b)) s1, Done NO_ERROR)
               | (s1, ERR e) \<Rightarrow> (s1, Done INVALID_CONFIG)
               | (s1, PANIC) \<Rightarrow> (s1, Fatal))"

text \<open>The loop that wakes every reader, as long as the queue of the blackboard is not empty.\<close>

fun bb_wake_all :: "nat \<Rightarrow> clock \<Rightarrow> nat \<Rightarrow> kst \<Rightarrow> kst result" where
  "bb_wake_all 0 clk b s = OK s"
| "bb_wake_all (Suc n) clk b s =
     (case blackboard_wakeup_waiting_proc b s of
        (s1, None) \<Rightarrow> OK s1
      | (s1, Some p) \<Rightarrow> panic_e (wake_proc (clk 0) BLACKBOARD_BLOCKED_WITH_TIMEOUT p s1) (bb_wake_all n (clk_from 1 clk) b))"

definition do_display_blackboard :: "clock \<Rightarrow> u64 \<Rightarrow> u64 \<Rightarrow> u64 \<Rightarrow> kst \<Rightarrow> kst \<times> outcome" where
  "do_display_blackboard clk blackboard_id message_addr len s =
     (case own_bb s blackboard_id of
        None \<Rightarrow> (s, Done INVALID_PARAM)
      | Some b \<Rightarrow>
          if len > bb_max_msg_size (k_bbs s ! b) then (s, Done INVALID_PARAM)
          else if len = 0 then (s, Done INVALID_PARAM)
          else or_fatal s (blackboard_display b message_addr len s) (\<lambda>s1.
                 or_fatal s1 (bb_wake_all (length (bb_waiting_procs (k_bbs s1 ! b))) clk b s1) (\<lambda>s2. (s2, Yield False (K_Ret NO_ERROR)))))"

definition read_bb_finish :: "nat \<Rightarrow> u64 \<Rightarrow> u64 \<Rightarrow> kst \<Rightarrow> kst \<times> outcome" where
  "read_bb_finish b message_addr len s = or_fatal s (blackboard_read b message_addr len s) (\<lambda>s1. (s1, Done NO_ERROR))"

definition read_bb_block :: "clock \<Rightarrow> nat \<Rightarrow> sys_time \<Rightarrow> u64 \<Rightarrow> u64 \<Rightarrow> sys_time \<Rightarrow> kst \<Rightarrow> kst \<times> outcome" where
  "read_bb_block clk b time_out message_addr len wakeup_time s =
     (if timed_out (clk 0) time_out wakeup_time then (store64 len 0 s, Done TIMED_OUT)
      else let p = sched_cur_proc s
           in (block_wait p BLACKBOARD_BLOCKED BLACKBOARD_BLOCKED_WITH_TIMEOUT (TE_BLACKBOARD_BLOCK_TIMEOUT p b)
                 (blackboard_add_waiting_proc b p) (clk 1) time_out wakeup_time s,
               Yield False (K_ReadBB b time_out message_addr len wakeup_time)))"

definition do_read_blackboard :: "clock \<Rightarrow> u64 \<Rightarrow> sys_time \<Rightarrow> u64 \<Rightarrow> u64 \<Rightarrow> kst \<Rightarrow> kst \<times> outcome" where
  "do_read_blackboard clk blackboard_id time_out message_addr len s =
     (case own_bb s blackboard_id of
        None \<Rightarrow> (s, Done INVALID_PARAM)
      | Some b \<Rightarrow>
          if blackboard_is_empty s b
          then if time_out = 0 then (store64 len 0 s, Done NOT_AVAILABLE)
               else read_bb_block (clk_from 1 clk) b time_out message_addr len (swrap64 (clk 0 + time_out)) s
          else read_bb_finish b message_addr len s)"

definition read_bb_resume :: "clock \<Rightarrow> nat \<Rightarrow> sys_time \<Rightarrow> u64 \<Rightarrow> u64 \<Rightarrow> sys_time \<Rightarrow> kst \<Rightarrow> kst \<times> outcome" where
  "read_bb_resume clk b time_out message_addr len wakeup_time s =
     (if timed_out (clk 0) time_out wakeup_time then (store64 len 0 s, Done TIMED_OUT)
      else if blackboard_is_empty s b then read_bb_block (clk_from 1 clk) b time_out message_addr len wakeup_time s
      else read_bb_finish b message_addr len s)"

definition do_clear_blackboard :: "u64 \<Rightarrow> kst \<Rightarrow> kst \<times> outcome" where
  "do_clear_blackboard blackboard_id s =
     (case own_bb s blackboard_id of
        None \<Rightarrow> (s, Done INVALID_PARAM)
      | Some b \<Rightarrow> (blackboard_clear b s, Done NO_ERROR))"

definition do_get_blackboard_id :: "u64 \<Rightarrow> u64 \<Rightarrow> kst \<Rightarrow> kst \<times> outcome" where
  "do_get_blackboard_id blackboard_name blackboard_id s =
     with_name s blackboard_name (\<lambda>name.
       case part_get_bb_by_name s (the (k_cur_part s)) name of
         None \<Rightarrow> (s, Done INVALID_CONFIG)
       | Some b \<Rightarrow> (store64 blackboard_id (bb_id (k_bbs s ! b)) s, Done NO_ERROR))"

definition do_get_blackboard_status :: "u64 \<Rightarrow> u64 \<Rightarrow> kst \<Rightarrow> kst \<times> outcome" where
  "do_get_blackboard_status blackboard_id st s =
     (case own_bb s blackboard_id of
        None \<Rightarrow> (s, Done INVALID_PARAM)
      | Some b \<Rightarrow>
          (let s1 = store32 st (empty_ind_value (bb_empty_ind (k_bbs s ! b))) s;
               s2 = store64 (st + 8) (bb_max_msg_size (k_bbs s1 ! b)) s1
           in (store64 (st + 16) (blackboard_get_waiting_proc_nb s2 b) s2, Done NO_ERROR)))"

section \<open>Semaphores, events and mutexes\<close>

text \<open>None of these services is implemented: every body is \<open>return NO_ERROR\<close>.\<close>

definition do_create_semaphore :: "u64 \<Rightarrow> u64 \<Rightarrow> u64 \<Rightarrow> u32 \<Rightarrow> u64 \<Rightarrow> kst \<Rightarrow> kst \<times> outcome" where
  "do_create_semaphore semaphore_name current_value maximum_value queuing_discipline semaphore_id s = (s, Done NO_ERROR)"

definition do_wait_semaphore :: "u64 \<Rightarrow> sys_time \<Rightarrow> kst \<Rightarrow> kst \<times> outcome" where
  "do_wait_semaphore semaphore_id time_out s = (s, Done NO_ERROR)"

definition do_signal_semaphore :: "u64 \<Rightarrow> kst \<Rightarrow> kst \<times> outcome" where
  "do_signal_semaphore semaphore_id s = (s, Done NO_ERROR)"

definition do_get_semaphore_id :: "u64 \<Rightarrow> u64 \<Rightarrow> kst \<Rightarrow> kst \<times> outcome" where
  "do_get_semaphore_id semaphore_name semaphore_id s = (s, Done NO_ERROR)"

definition do_get_semaphore_status :: "u64 \<Rightarrow> u64 \<Rightarrow> kst \<Rightarrow> kst \<times> outcome" where
  "do_get_semaphore_status semaphore_id semaphore_status s = (s, Done NO_ERROR)"

definition do_create_event :: "u64 \<Rightarrow> u64 \<Rightarrow> kst \<Rightarrow> kst \<times> outcome" where
  "do_create_event event_name event_id s = (s, Done NO_ERROR)"

definition do_set_event :: "u64 \<Rightarrow> kst \<Rightarrow> kst \<times> outcome" where
  "do_set_event event_id s = (s, Done NO_ERROR)"

definition do_reset_event :: "u64 \<Rightarrow> kst \<Rightarrow> kst \<times> outcome" where
  "do_reset_event event_id s = (s, Done NO_ERROR)"

definition do_wait_event :: "u64 \<Rightarrow> sys_time \<Rightarrow> kst \<Rightarrow> kst \<times> outcome" where
  "do_wait_event event_id time_out s = (s, Done NO_ERROR)"

definition do_get_event_id :: "u64 \<Rightarrow> u64 \<Rightarrow> kst \<Rightarrow> kst \<times> outcome" where
  "do_get_event_id event_name event_id s = (s, Done NO_ERROR)"

definition do_get_event_status :: "u64 \<Rightarrow> u64 \<Rightarrow> kst \<Rightarrow> kst \<times> outcome" where
  "do_get_event_status event_id event_status s = (s, Done NO_ERROR)"

definition do_create_mutex :: "u64 \<Rightarrow> u64 \<Rightarrow> u32 \<Rightarrow> u64 \<Rightarrow> kst \<Rightarrow> kst \<times> outcome" where
  "do_create_mutex mutex_name mutex_priority queuing_discipline mutex_id s = (s, Done NO_ERROR)"

definition do_acquire_mutex :: "u64 \<Rightarrow> sys_time \<Rightarrow> kst \<Rightarrow> kst \<times> outcome" where
  "do_acquire_mutex mutex_id time_out s = (s, Done NO_ERROR)"

definition do_release_mutex :: "u64 \<Rightarrow> kst \<Rightarrow> kst \<times> outcome" where
  "do_release_mutex mutex_id s = (s, Done NO_ERROR)"

definition do_reset_mutex :: "u64 \<Rightarrow> u64 \<Rightarrow> kst \<Rightarrow> kst \<times> outcome" where
  "do_reset_mutex mutex_id process_id s = (s, Done NO_ERROR)"

definition do_get_mutex_id :: "u64 \<Rightarrow> u64 \<Rightarrow> kst \<Rightarrow> kst \<times> outcome" where
  "do_get_mutex_id mutex_name mutex_id s = (s, Done NO_ERROR)"

definition do_get_mutex_status :: "u64 \<Rightarrow> u64 \<Rightarrow> kst \<Rightarrow> kst \<times> outcome" where
  "do_get_mutex_status mutex_id mutex_status s = (s, Done NO_ERROR)"

definition do_get_process_mutex_state :: "u64 \<Rightarrow> u64 \<Rightarrow> kst \<Rightarrow> kst \<times> outcome" where
  "do_get_process_mutex_state process_id mutex_id s = (s, Done NO_ERROR)"

section \<open>Dispatch\<close>

named_theorems sysno_simps


definition SYS_CONS_WRITE_CHAR :: u64 where [sysno_simps]: "SYS_CONS_WRITE_CHAR = 1"
definition SYS_CONS_READ_CHAR :: u64 where [sysno_simps]: "SYS_CONS_READ_CHAR = 2"
definition SYS_CONS_WRITE_BUF :: u64 where [sysno_simps]: "SYS_CONS_WRITE_BUF = 3"
definition SYS_HALT :: u64 where [sysno_simps]: "SYS_HALT = 4"
definition SYS_GET_PARTITION_STATUS :: u64 where [sysno_simps]: "SYS_GET_PARTITION_STATUS = 0x1000"
definition SYS_SET_PARTITION_MODE :: u64 where [sysno_simps]: "SYS_SET_PARTITION_MODE = 0x1001"
definition SYS_GET_PROCESS_ID :: u64 where [sysno_simps]: "SYS_GET_PROCESS_ID = 0x2000"
definition SYS_GET_PROCESS_STATUS :: u64 where [sysno_simps]: "SYS_GET_PROCESS_STATUS = 0x2001"
definition SYS_CREATE_PROCESS :: u64 where [sysno_simps]: "SYS_CREATE_PROCESS = 0x2002"
definition SYS_SET_PRIORITY :: u64 where [sysno_simps]: "SYS_SET_PRIORITY = 0x2003"
definition SYS_SUSPEND_SELF :: u64 where [sysno_simps]: "SYS_SUSPEND_SELF = 0x2004"
definition SYS_SUSPEND :: u64 where [sysno_simps]: "SYS_SUSPEND = 0x2005"
definition SYS_RESUME :: u64 where [sysno_simps]: "SYS_RESUME = 0x2006"
definition SYS_STOP_SELF :: u64 where [sysno_simps]: "SYS_STOP_SELF = 0x2007"
definition SYS_STOP :: u64 where [sysno_simps]: "SYS_STOP = 0x2008"
definition SYS_START :: u64 where [sysno_simps]: "SYS_START = 0x2009"
definition SYS_DELAYED_START :: u64 where [sysno_simps]: "SYS_DELAYED_START = 0x200a"
definition SYS_LOCK_PREEMPTION :: u64 where [sysno_simps]: "SYS_LOCK_PREEMPTION = 0x200b"
definition SYS_UNLOCK_PREEMPTION :: u64 where [sysno_simps]: "SYS_UNLOCK_PREEMPTION = 0x200c"
definition SYS_GET_MY_ID :: u64 where [sysno_simps]: "SYS_GET_MY_ID = 0x200d"
definition SYS_INITIALIZE_PROCESS_CORE_AFFINITY :: u64 where [sysno_simps]: "SYS_INITIALIZE_PROCESS_CORE_AFFINITY = 0x200e"
definition SYS_GET_MY_PROCESSOR_CORE_ID :: u64 where [sysno_simps]: "SYS_GET_MY_PROCESSOR_CORE_ID = 0x200f"
definition SYS_GET_MY_INDEX :: u64 where [sysno_simps]: "SYS_GET_MY_INDEX = 0x2010"
definition SYS_TIMED_WAIT :: u64 where [sysno_simps]: "SYS_TIMED_WAIT = 0x3000"
definition SYS_PERIODIC_WAIT :: u64 where [sysno_simps]: "SYS_PERIODIC_WAIT = 0x3001"
definition SYS_GET_TIME :: u64 where [sysno_simps]: "SYS_GET_TIME = 0x3002"
definition SYS_REPLENISH :: u64 where [sysno_simps]: "SYS_REPLENISH = 0x3003"
definition SYS_CREATE_SAMPLING_PORT :: u64 where [sysno_simps]: "SYS_CREATE_SAMPLING_PORT = 0x4000"
definition SYS_WRITE_SAMPLING_MESSAGE :: u64 where [sysno_simps]: "SYS_WRITE_SAMPLING_MESSAGE = 0x4001"
definition SYS_READ_SAMPLING_MESSAGE :: u64 where [sysno_simps]: "SYS_READ_SAMPLING_MESSAGE = 0x4002"
definition SYS_GET_SAMPLING_PORT_ID :: u64 where [sysno_simps]: "SYS_GET_SAMPLING_PORT_ID = 0x4003"
definition SYS_GET_SAMPLING_PORT_STATUS :: u64 where [sysno_simps]: "SYS_GET_SAMPLING_PORT_STATUS = 0x4004"
definition SYS_CREATE_QUEUING_PORT :: u64 where [sysno_simps]: "SYS_CREATE_QUEUING_PORT = 0x4100"
definition SYS_SEND_QUEUING_MESSAGE :: u64 where [sysno_simps]: "SYS_SEND_QUEUING_MESSAGE = 0x4101"
definition SYS_RECEIVE_QUEUING_MESSAGE :: u64 where [sysno_simps]: "SYS_RECEIVE_QUEUING_MESSAGE = 0x4102"
definition SYS_GET_QUEUING_PORT_ID :: u64 where [sysno_simps]: "SYS_GET_QUEUING_PORT_ID = 0x4103"
definition SYS_GET_QUEUING_PORT_STATUS :: u64 where [sysno_simps]: "SYS_GET_QUEUING_PORT_STATUS = 0x4104"
definition SYS_CLEAR_QUEUING_PORT :: u64 where [sysno_simps]: "SYS_CLEAR_QUEUING_PORT = 0x4105"
definition SYS_CREATE_BUFFER :: u64 where [sysno_simps]: "SYS_CREATE_BUFFER = 0x5000"
definition SYS_SEND_BUFFER :: u64 where [sysno_simps]: "SYS_SEND_BUFFER = 0x5001"
definition SYS_RECEIVE_BUFFER :: u64 where [sysno_simps]: "SYS_RECEIVE_BUFFER = 0x5002"
definition SYS_GET_BUFFER_ID :: u64 where [sysno_simps]: "SYS_GET_BUFFER_ID = 0x5003"
definition SYS_GET_BUFFER_STATUS :: u64 where [sysno_simps]: "SYS_GET_BUFFER_STATUS = 0x5004"
definition SYS_CREATE_BLACKBOARD :: u64 where [sysno_simps]: "SYS_CREATE_BLACKBOARD = 0x5100"
definition SYS_DISPLAY_BLACKBOARD :: u64 where [sysno_simps]: "SYS_DISPLAY_BLACKBOARD = 0x5101"
definition SYS_READ_BLACKBOARD :: u64 where [sysno_simps]: "SYS_READ_BLACKBOARD = 0x5102"
definition SYS_CLEAR_BLACKBOARD :: u64 where [sysno_simps]: "SYS_CLEAR_BLACKBOARD = 0x5103"
definition SYS_GET_BLACKBOARD_ID :: u64 where [sysno_simps]: "SYS_GET_BLACKBOARD_ID = 0x5104"
definition SYS_GET_BLACKBOARD_STATUS :: u64 where [sysno_simps]: "SYS_GET_BLACKBOARD_STATUS = 0x5105"
definition SYS_CREATE_SEMAPHORE :: u64 where [sysno_simps]: "SYS_CREATE_SEMAPHORE = 0x5200"
definition SYS_WAIT_SEMAPHORE :: u64 where [sysno_simps]: "SYS_WAIT_SEMAPHORE = 0x5201"
definition SYS_SIGNAL_SEMAPHORE :: u64 where [sysno_simps]: "SYS_SIGNAL_SEMAPHORE = 0x5202"
definition SYS_GET_SEMAPHORE_ID :: u64 where [sysno_simps]: "SYS_GET_SEMAPHORE_ID = 0x5203"
definition SYS_GET_SEMAPHORE_STATUS :: u64 where [sysno_simps]: "SYS_GET_SEMAPHORE_STATUS = 0x5204"
definition SYS_CREATE_EVENT :: u64 where [sysno_simps]: "SYS_CREATE_EVENT = 0x5300"
definition SYS_SET_EVENT :: u64 where [sysno_simps]: "SYS_SET_EVENT = 0x5301"
definition SYS_RESET_EVENT :: u64 where [sysno_simps]: "SYS_RESET_EVENT = 0x5302"
definition SYS_WAIT_EVENT :: u64 where [sysno_simps]: "SYS_WAIT_EVENT = 0x5303"
definition SYS_GET_EVENT_ID :: u64 where [sysno_simps]: "SYS_GET_EVENT_ID = 0x5304"
definition SYS_GET_EVENT_STATUS :: u64 where [sysno_simps]: "SYS_GET_EVENT_STATUS = 0x5305"
definition SYS_CREATE_MUTEX :: u64 where [sysno_simps]: "SYS_CREATE_MUTEX = 0x5400"
definition SYS_ACQUIRE_MUTEX :: u64 where [sysno_simps]: "SYS_ACQUIRE_MUTEX = 0x5401"
definition SYS_RELEASE_MUTEX :: u64 where [sysno_simps]: "SYS_RELEASE_MUTEX = 0x5402"
definition SYS_RESET_MUTEX :: u64 where [sysno_simps]: "SYS_RESET_MUTEX = 0x5403"
definition SYS_GET_MUTEX_ID :: u64 where [sysno_simps]: "SYS_GET_MUTEX_ID = 0x5404"
definition SYS_GET_MUTEX_STATUS :: u64 where [sysno_simps]: "SYS_GET_MUTEX_STATUS = 0x5405"
definition SYS_GET_PROCESS_MUTEX_STATE :: u64 where [sysno_simps]: "SYS_GET_PROCESS_MUTEX_STATE = 0x5406"

text \<open>The \<open>switch\<close> of \<open>do_syscall\<close>: arguments are in \<open>a0\<close> to \<open>a5\<close>, the number in \<open>a7\<close>.\<close>

definition syscall_switch :: "clock \<Rightarrow> u64 \<Rightarrow> (nat \<Rightarrow> u64) \<Rightarrow> kst \<Rightarrow> kst \<times> outcome" where
  "syscall_switch clk sysno a s =
     (if sysno = SYS_CONS_WRITE_CHAR then do_cons_write_char (ucast (a 0)) s
      else if sysno = SYS_CONS_READ_CHAR then do_cons_read_char s
      else if sysno = SYS_CONS_WRITE_BUF then do_cons_write_buf (a 0) (a 1) s
      else if sysno = SYS_HALT then do_halt s
      else if sysno = SYS_GET_PARTITION_STATUS then do_get_partition_status (a 0) s
      else if sysno = SYS_SET_PARTITION_MODE then do_set_partition_mode (a 0) s
      else if sysno = SYS_GET_PROCESS_ID then do_get_process_id (a 0) (a 1) s
      else if sysno = SYS_GET_PROCESS_STATUS then do_get_process_status (a 0) (a 1) s
      else if sysno = SYS_CREATE_PROCESS then do_create_process (a 0) (a 1) s
      else if sysno = SYS_SET_PRIORITY then do_set_priority (a 0) (a 1) s
      else if sysno = SYS_SUSPEND_SELF then do_suspend_self clk (sint (a 0)) s
      else if sysno = SYS_SUSPEND then do_suspend (a 0) s
      else if sysno = SYS_RESUME then do_resume clk (a 0) s
      else if sysno = SYS_STOP_SELF then do_stop_self s
      else if sysno = SYS_STOP then do_stop clk (a 0) s
      else if sysno = SYS_START then do_start clk (a 0) s
      else if sysno = SYS_DELAYED_START then do_delayed_start clk (a 0) (sint (a 1)) s
      else if sysno = SYS_LOCK_PREEMPTION then do_lock_preemption (a 0) s
      else if sysno = SYS_UNLOCK_PREEMPTION then do_unlock_preemption (a 0) s
      else if sysno = SYS_GET_MY_ID then do_get_my_id (a 0) s
      else if sysno = SYS_INITIALIZE_PROCESS_CORE_AFFINITY then do_initialize_process_core_affinity (a 0) (a 1) s
      else if sysno = SYS_GET_MY_PROCESSOR_CORE_ID then do_get_my_processor_core_id (a 0) s
      else if sysno = SYS_GET_MY_INDEX then do_get_my_index (a 0) s
      else if sysno = SYS_TIMED_WAIT then do_timed_wait clk (sint (a 0)) s
      else if sysno = SYS_PERIODIC_WAIT then do_periodic_wait s
      else if sysno = SYS_GET_TIME then do_get_time clk (a 0) s
      else if sysno = SYS_REPLENISH then do_replenish (sint (a 0)) s
      else if sysno = SYS_CREATE_SAMPLING_PORT then do_create_sampling_port (a 0) (a 1) (ucast (a 2)) (sint (a 3)) (a 4) s
      else if sysno = SYS_WRITE_SAMPLING_MESSAGE then do_write_sampling_message (a 0) (a 1) (a 2) s
      else if sysno = SYS_READ_SAMPLING_MESSAGE then do_read_sampling_message (a 0) (a 1) (a 2) (a 3) s
      else if sysno = SYS_GET_SAMPLING_PORT_ID then do_get_sampling_port_id (a 0) (a 1) s
      else if sysno = SYS_GET_SAMPLING_PORT_STATUS then do_get_sampling_port_status (a 0) (a 1) s
      else if sysno = SYS_CREATE_QUEUING_PORT then do_create_queuing_port (a 0) (a 1) (a 2) (ucast (a 3)) (ucast (a 4)) (a 5) s
      else if sysno = SYS_SEND_QUEUING_MESSAGE then do_send_queuing_message clk (a 0) (a 1) (a 2) (sint (a 3)) s
      else if sysno = SYS_RECEIVE_QUEUING_MESSAGE then do_receive_queuing_message clk (a 0) (sint (a 1)) (a 2) (a 3) s
      else if sysno = SYS_GET_QUEUING_PORT_ID then do_get_queuing_port_id (a 0) (a 1) s
      else if sysno = SYS_GET_QUEUING_PORT_STATUS then do_get_queuing_port_status (a 0) (a 1) s
      else if sysno = SYS_CLEAR_QUEUING_PORT then do_clear_queuing_port clk (a 0) s
      else if sysno = SYS_CREATE_BUFFER then do_create_buffer (a 0) (a 1) (a 2) (ucast (a 3)) (a 4) s
      else if sysno = SYS_SEND_BUFFER then do_send_buffer clk (a 0) (a 1) (a 2) (sint (a 3)) s
      else if sysno = SYS_RECEIVE_BUFFER then do_receive_buffer clk (a 0) (sint (a 1)) (a 2) (a 3) s
      else if sysno = SYS_GET_BUFFER_ID then do_get_buffer_id (a 0) (a 1) s
      else if sysno = SYS_GET_BUFFER_STATUS then do_get_buffer_status (a 0) (a 1) s
      else if sysno = SYS_CREATE_BLACKBOARD then do_create_blackboard (a 0) (a 1) (a 2) s
      else if sysno = SYS_DISPLAY_BLACKBOARD then do_display_blackboard clk (a 0) (a 1) (a 2) s
      else if sysno = SYS_READ_BLACKBOARD then do_read_blackboard clk (a 0) (sint (a 1)) (a 2) (a 3) s
      else if sysno = SYS_CLEAR_BLACKBOARD then do_clear_blackboard (a 0) s
      else if sysno = SYS_GET_BLACKBOARD_ID then do_get_blackboard_id (a 0) (a 1) s
      else if sysno = SYS_GET_BLACKBOARD_STATUS then do_get_blackboard_status (a 0) (a 1) s
      else if sysno = SYS_CREATE_SEMAPHORE then do_create_semaphore (a 0) (a 1) (a 2) (ucast (a 3)) (a 4) s
      else if sysno = SYS_WAIT_SEMAPHORE then do_wait_semaphore (a 0) (sint (a 1)) s
      else if sysno = SYS_SIGNAL_SEMAPHORE then do_signal_semaphore (a 0) s
      else if sysno = SYS_GET_SEMAPHORE_ID then do_get_semaphore_id (a 0) (a 1) s
      else if sysno = SYS_GET_SEMAPHORE_STATUS then do_get_semaphore_status (a 0) (a 1) s
      else if sysno = SYS_CREATE_EVENT then do_create_event (a 0) (a 1) s
      else if sysno = SYS_SET_EVENT then do_set_event (a 0) s
      else if sysno = SYS_RESET_EVENT then do_reset_event (a 0) s
      else if sysno = SYS_WAIT_EVENT then do_wait_event (a 0) (sint (a 1)) s
      else if sysno = SYS_GET_EVENT_ID then do_get_event_id (a 0) (a 1) s
      else if sysno = SYS_GET_EVENT_STATUS then do_get_event_status (a 0) (a 1) s
      else if sysno = SYS_CREATE_MUTEX then do_create_mutex (a 0) (a 1) (ucast (a 2)) (a 3) s
      else if sysno = SYS_ACQUIRE_MUTEX then do_acquire_mutex (a 0) (sint (a 1)) s
      else if sysno = SYS_RELEASE_MUTEX then do_release_mutex (a 0) s
      else if sysno = SYS_RESET_MUTEX then do_reset_mutex (a 0) (a 1) s
      else if sysno = SYS_GET_MUTEX_ID then do_get_mutex_id (a 0) (a 1) s
      else if sysno = SYS_GET_MUTEX_STATUS then do_get_mutex_status (a 0) (a 1) s
      else if sysno = SYS_GET_PROCESS_MUTEX_STATE then do_get_process_mutex_state (a 0) (a 1) s
      else (s, Done INVALID_SYSNO))"

text \<open>
  \<open>do_syscall\<close>: the saved program counter moves past the \<open>ecall\<close>, the service runs, and its return
  value goes to register \<open>a0\<close> of the caller's context, at once or when a continuation is done.
\<close>

definition syscall_return :: "nat \<Rightarrow> kst \<times> outcome \<Rightarrow> kst \<times> outcome" where
  "syscall_return c r =
     (case r of (s, Done rc) \<Rightarrow> (upd_ctx c (set_reg_a 0 (ret_value rc)) s, Done rc) | _ \<Rightarrow> r)"

definition do_syscall :: "clock \<Rightarrow> nat \<Rightarrow> kst \<Rightarrow> kst \<times> outcome" where
  "do_syscall clk c s =
     (let s1 = upd_ctx c (\<lambda>x. x\<lparr>ctx_sepc := ctx_sepc x + 4\<rparr>) s;
          x = k_contexts s1 ! c
      in syscall_return c (syscall_switch clk (reg_a x 7) (reg_a x) s1))"

definition resume_call :: "clock \<Rightarrow> cont \<Rightarrow> kst \<Rightarrow> kst \<times> outcome" where
  "resume_call clk k s =
     (case k of
        K_Ret rc \<Rightarrow> (s, Done rc)
      | K_SuspendSelf wakeup_time \<Rightarrow> (s, Done (if clk 0 \<ge> wakeup_time then TIMED_OUT else NO_ERROR))
      | K_SendPort q message_addr len time_out wakeup_time \<Rightarrow> send_port_resume clk q message_addr len time_out wakeup_time s
      | K_RecvPort q time_out message_addr len wakeup_time wakeup_time' \<Rightarrow>
          recv_port_resume clk q time_out message_addr len wakeup_time wakeup_time' s
      | K_SendBuf b message_addr len time_out wakeup_time \<Rightarrow> send_buf_resume clk b message_addr len time_out wakeup_time s
      | K_RecvBuf b time_out message_addr len wakeup_time \<Rightarrow> recv_buf_resume clk b time_out message_addr len wakeup_time s
      | K_ReadBB b time_out message_addr len wakeup_time \<Rightarrow> read_bb_resume clk b time_out message_addr len wakeup_time s)"

end
