(* ===== verification/Console.thy ===== *)
theory Console
  imports Lock Serial Syscalls
begin

text \<open>
  The console: the registry of serial devices of \<^verbatim>\<open>kern/drivers/serialport.c\<close> and the three console
  services of \<^verbatim>\<open>kern/traps/syscalls.c\<close>, with the two locks they take. What a device does with a
  character is the driver's (\<open>putc\<close>, \<open>getc\<close>): both are arguments, functions on the state of the
  device that say whether the attempt succeeded, as they are callbacks in the code; \<open>Serial\<close> has one driver. The
  retry loops take fuel; a loop that does not end is \<open>None\<close>.
\<close>

section \<open>Locks of one hart\<close>

text \<open>
  \<open>lk_acquire\<close> and \<open>lk_release\<close> as a caller sees them when no other hart interferes (theory
  \<open>Lock\<close> has the interleaved version): an acquired lock that the hart holds already, and a
  released one that it does not hold, are errors.
\<close>

definition lk_acquire :: "u64 \<Rightarrow> lock \<Rightarrow> lock result" where
  "lk_acquire h l =
     (if lk_state l = LK_LOCKED \<and> lk_hartid l = h then ERR KER_LOCK_ER
      else OK (l\<lparr>lk_state := LK_LOCKED, lk_hartid := h\<rparr>))"

definition lk_release :: "u64 \<Rightarrow> lock \<Rightarrow> lock result" where
  "lk_release h l =
     (if lk_state l = LK_UNLOCKED \<or> lk_hartid l \<noteq> h then ERR KER_LOCK_ER
      else OK (l\<lparr>lk_state := LK_UNLOCKED, lk_hartid := HARTID_MAX\<rparr>))"

section \<open>The registry\<close>

record serial_dev =
  sr_name :: string
  sr_driver :: nat

record serial_reg =
  serial_devs :: "serial_dev list"
  serial_map :: "nat hashmap"
  selected_output_dev :: "nat option"
  selected_input_dev :: "nat option"

definition serial_key_of :: "serial_reg \<Rightarrow> nat \<Rightarrow> string" where
  "serial_key_of r n = sr_name (serial_devs r ! n)"

definition serial_register_dev :: "string \<Rightarrow> nat \<Rightarrow> serial_reg \<Rightarrow> serial_reg" where
  "serial_register_dev name drv r =
     (let n = length (serial_devs r);
          r1 = r\<lparr>serial_devs := serial_devs r @ [\<lparr>sr_name = name, sr_driver = drv\<rparr>]\<rparr>;
          r2 = r1\<lparr>serial_map := hashmap_put hash_code_str hash_eq_str (serial_key_of r1) (serial_map r1) n\<rparr>;
          r3 = (if selected_input_dev r2 = None then r2\<lparr>selected_input_dev := Some n\<rparr> else r2)
      in if selected_output_dev r3 = None then r3\<lparr>selected_output_dev := Some n\<rparr> else r3)"

definition serial_select_out_dev :: "string \<Rightarrow> serial_reg \<Rightarrow> serial_reg \<times> bool" where
  "serial_select_out_dev name r =
     (case hashmap_get hash_code_str hash_eq_str (serial_key_of r) (serial_map r) name of
        None \<Rightarrow> (r, False)
      | Some n \<Rightarrow> (r\<lparr>selected_output_dev := Some n\<rparr>, True))"

definition serial_select_in_dev :: "string \<Rightarrow> serial_reg \<Rightarrow> serial_reg \<times> bool" where
  "serial_select_in_dev name r =
     (case hashmap_get hash_code_str hash_eq_str (serial_key_of r) (serial_map r) name of
        None \<Rightarrow> (r, False)
      | Some n \<Rightarrow> (r\<lparr>selected_input_dev := Some n\<rparr>, True))"

section \<open>The services\<close>

record 'd console =
  con_dev :: 'd
  con_in_lock :: lock
  con_out_lock :: lock

type_synonym 'd putc = "'d \<Rightarrow> u8 \<Rightarrow> 'd \<times> bool"
type_synonym 'd getc = "'d \<Rightarrow> 'd \<times> u8 option"

definition serial_in_dev_lock_acquire :: "u64 \<Rightarrow> 'd console \<Rightarrow> 'd console result" where
  "serial_in_dev_lock_acquire h c = panic_e (lk_acquire h (con_in_lock c)) (\<lambda>l. OK (c\<lparr>con_in_lock := l\<rparr>))"

definition serial_out_dev_lock_acquire :: "u64 \<Rightarrow> 'd console \<Rightarrow> 'd console result" where
  "serial_out_dev_lock_acquire h c = panic_e (lk_acquire h (con_out_lock c)) (\<lambda>l. OK (c\<lparr>con_out_lock := l\<rparr>))"

definition serial_out_dev_lock_release :: "u64 \<Rightarrow> 'd console \<Rightarrow> 'd console result" where
  "serial_out_dev_lock_release h c = panic_e (lk_release h (con_out_lock c)) (\<lambda>l. OK (c\<lparr>con_out_lock := l\<rparr>))"

text \<open>The loop of \<open>do_cons_write_char\<close> for one character.\<close>

fun cons_put :: "'d putc \<Rightarrow> u64 \<Rightarrow> nat \<Rightarrow> u8 \<Rightarrow> 'd console \<Rightarrow> 'd console result option" where
  "cons_put putc h 0 ch c = None"
| "cons_put putc h (Suc n) ch c =
     (case serial_out_dev_lock_acquire h c of
        OK c1 \<Rightarrow>
          (case putc (con_dev c1) ch of (d, success) \<Rightarrow>
             (case serial_out_dev_lock_release h (c1\<lparr>con_dev := d\<rparr>) of
                OK c2 \<Rightarrow> if success then Some (OK c2) else cons_put putc h n ch c2
              | _ \<Rightarrow> Some PANIC))
      | _ \<Rightarrow> Some PANIC)"

definition NL :: u8 where "NL = 10"
definition CR :: u8 where "CR = 13"

text \<open>\<open>do_cons_write_char\<close> calls itself once, with a carriage return, after a line feed.\<close>

definition cons_write_char :: "'d putc \<Rightarrow> u64 \<Rightarrow> nat \<Rightarrow> u32 \<Rightarrow> 'd console \<Rightarrow> 'd console result option" where
  "cons_write_char putc h fuel ch c =
     (case cons_put putc h fuel (ucast ch) c of
        Some (OK c1) \<Rightarrow> if ch = ucast NL then cons_put putc h fuel CR c1 else Some (OK c1)
      | r \<Rightarrow> r)"

text \<open>The loop of \<open>do_cons_read_char\<close>, which releases the lock of the output device.\<close>

fun cons_read_char :: "'d getc \<Rightarrow> u64 \<Rightarrow> nat \<Rightarrow> 'd console \<Rightarrow> ('d console \<times> u8) result option" where
  "cons_read_char getc h 0 c = None"
| "cons_read_char getc h (Suc n) c =
     (case serial_in_dev_lock_acquire h c of
        OK c1 \<Rightarrow>
          (case getc (con_dev c1) of (d, r) \<Rightarrow>
             (case serial_out_dev_lock_release h (c1\<lparr>con_dev := d\<rparr>) of
                OK c2 \<Rightarrow> (case r of Some ch \<Rightarrow> Some (OK (c2, ch)) | None \<Rightarrow> cons_read_char getc h n c2)
              | _ \<Rightarrow> Some PANIC))
      | _ \<Rightarrow> Some PANIC)"

text \<open>The retry with the lock released and taken again, and the loop of \<open>do_cons_write_buf\<close> over the bytes.\<close>

fun cons_retry :: "'d putc \<Rightarrow> u64 \<Rightarrow> nat \<Rightarrow> u8 \<Rightarrow> 'd console \<Rightarrow> 'd console result option" where
  "cons_retry putc h 0 ch c = None"
| "cons_retry putc h (Suc n) ch c =
     (case putc (con_dev c) ch of (d, success) \<Rightarrow>
        if success then Some (OK (c\<lparr>con_dev := d\<rparr>))
        else case serial_out_dev_lock_release h (c\<lparr>con_dev := d\<rparr>) of
               OK c1 \<Rightarrow> (case serial_out_dev_lock_acquire h c1 of OK c2 \<Rightarrow> cons_retry putc h n ch c2 | _ \<Rightarrow> Some PANIC)
             | _ \<Rightarrow> Some PANIC)"

fun cons_bytes :: "'d putc \<Rightarrow> u64 \<Rightarrow> nat \<Rightarrow> u8 list \<Rightarrow> 'd console \<Rightarrow> 'd console result option" where
  "cons_bytes putc h fuel [] c = Some (OK c)"
| "cons_bytes putc h fuel (b # bs) c =
     (case cons_retry putc h fuel b c of
        Some (OK c1) \<Rightarrow>
          (if b = NL
           then case cons_retry putc h fuel CR c1 of
                  Some (OK c2) \<Rightarrow> cons_bytes putc h fuel bs c2
                | r \<Rightarrow> r
           else cons_bytes putc h fuel bs c1)
      | r \<Rightarrow> r)"

definition cons_write_buf :: "'d putc \<Rightarrow> u64 \<Rightarrow> nat \<Rightarrow> mem \<Rightarrow> u64 \<Rightarrow> u64 \<Rightarrow> 'd console \<Rightarrow> 'd console result option" where
  "cons_write_buf putc h fuel m buf len c =
     (case serial_out_dev_lock_acquire h c of
        OK c1 \<Rightarrow>
          (case cons_bytes putc h fuel (mem_read m buf (unat len)) c1 of
             Some (OK c2) \<Rightarrow> Some (serial_out_dev_lock_release h c2)
           | r \<Rightarrow> r)
      | _ \<Rightarrow> Some PANIC)"

section \<open>Output\<close>

text \<open>What the terminal gets for a text: a carriage return behind every line feed.\<close>

definition crlf :: "u8 list \<Rightarrow> u8 list" where
  "crlf bs = concat (map (\<lambda>b. if b = NL then [NL, CR] else [b]) bs)"

text \<open>
  The contract of a serial driver: \<open>sent\<close> is what the device has accepted so far; while there is
  room a character is accepted, appended and uses up one unit of room.
\<close>

locale serial_driver =
  fixes ok :: "'d \<Rightarrow> bool"
    and putc :: "'d \<Rightarrow> u8 \<Rightarrow> 'd \<times> bool"
    and sent :: "'d \<Rightarrow> u8 list"
    and room :: "'d \<Rightarrow> nat"
  assumes putc_law: "ok d \<Longrightarrow> 0 < room d \<Longrightarrow> \<exists>d'. putc d ch = (d', True) \<and> ok d' \<and> sent d' = sent d @ [ch] \<and> room d' = room d - 1"
begin

lemma retry_sends:
  assumes "ok (con_dev c)" "0 < room (con_dev c)"
  shows "\<exists>d. cons_retry putc h (Suc n) ch c = Some (OK (c\<lparr>con_dev := d\<rparr>)) \<and> ok d \<and> sent d = sent (con_dev c) @ [ch]
    \<and> room d = room (con_dev c) - 1"
  using putc_law [OF assms, of ch] by auto

lemma bytes_send:
  assumes "ok (con_dev c)" "length (crlf bs) \<le> room (con_dev c)"
  shows "\<exists>d. cons_bytes putc h (Suc n) bs c = Some (OK (c\<lparr>con_dev := d\<rparr>)) \<and> ok d \<and> sent d = sent (con_dev c) @ crlf bs"
  using assms
proof (induction bs arbitrary: c)
  case (Cons b bs)
  have room: "0 < room (con_dev c)" using Cons.prems(2) by (auto simp: crlf_def split: if_splits)
  obtain d where d: "cons_retry putc h (Suc n) b c = Some (OK (c\<lparr>con_dev := d\<rparr>))" "ok d" "sent d = sent (con_dev c) @ [b]"
    "room d = room (con_dev c) - 1"
    using retry_sends [OF Cons.prems(1) room] by blast
  show ?case
  proof (cases "b = NL")
    case True
    then have "0 < room d" using Cons.prems(2) d(4) by (simp add: crlf_def)
    then obtain e where e: "cons_retry putc h (Suc n) CR (c\<lparr>con_dev := d\<rparr>) = Some (OK (c\<lparr>con_dev := e\<rparr>))" "ok e"
      "sent e = sent d @ [CR]" "room e = room d - 1"
      using retry_sends [of "c\<lparr>con_dev := d\<rparr>" h n CR] d(2) by auto
    then show ?thesis using Cons.IH [of "c\<lparr>con_dev := e\<rparr>"] Cons.prems(2) d True
      by (auto simp: crlf_def simp del: cons_retry.simps)
  next
    case False
    then show ?thesis using Cons.IH [of "c\<lparr>con_dev := d\<rparr>"] Cons.prems(2) d by (auto simp: crlf_def simp del: cons_retry.simps)
  qed
next
  case Nil
  then show ?case by (intro exI [of _ "con_dev c"]) (simp add: crlf_def)
qed

lemma write_buf_sends:
  assumes "ok (con_dev c)" "length (crlf (mem_read m buf (unat len))) \<le> room (con_dev c)" "lk_state (con_out_lock c) = LK_UNLOCKED"
  shows "\<exists>c'. cons_write_buf putc h (Suc n) m buf len c = Some (OK c') \<and> lk_state (con_out_lock c') = LK_UNLOCKED
    \<and> sent (con_dev c') = sent (con_dev c) @ crlf (mem_read m buf (unat len))"
proof -
  define c1 where "c1 = c\<lparr>con_out_lock := (con_out_lock c)\<lparr>lk_state := LK_LOCKED, lk_hartid := h\<rparr>\<rparr>"
  have aq: "serial_out_dev_lock_acquire h c = OK c1" using assms(3) by (simp add: serial_out_dev_lock_acquire_def lk_acquire_def c1_def)
  obtain d where d: "cons_bytes putc h (Suc n) (mem_read m buf (unat len)) c1 = Some (OK (c1\<lparr>con_dev := d\<rparr>))"
    "sent d = sent (con_dev c1) @ crlf (mem_read m buf (unat len))"
    using bytes_send [of c1 "mem_read m buf (unat len)" h n] assms(1,2) by (auto simp: c1_def)
  then show ?thesis using aq by (simp add: cons_write_buf_def serial_out_dev_lock_release_def lk_release_def c1_def)
qed

end

interpretation uart: serial_driver uart_ok uart16550a_putc uart_sent uart_room
proof
  fix u :: uart16550a and c :: u8
  assume u: "uart_ok u" "0 < uart_room u"
  obtain u' b where p: "uart16550a_putc u c = (u', b)" by fastforce
  then show "\<exists>u'. uart16550a_putc u c = (u', True) \<and> uart_ok u' \<and> uart_sent u' = uart_sent u @ [c] \<and> uart_room u' = uart_room u - 1"
    using uart_putc_ok [OF u(1) p] u(2) by simp
qed

section \<open>Properties\<close>

text \<open>
  Writing a buffer to the console through the 16550A driver, with room in its ring,
  queues exactly the bytes of the buffer in order, with a carriage return behind every line feed,
  and leaves the output lock free.
\<close>

theorem cons_write_buf_sends:
  assumes "uart_ok (con_dev c)" "lk_state (con_out_lock c) = LK_UNLOCKED"
    "length (crlf (mem_read m buf (unat len))) \<le> uart_room (con_dev c)"
  shows "\<exists>c'. cons_write_buf uart16550a_putc h (Suc n) m buf len c = Some (OK c') \<and> lk_state (con_out_lock c') = LK_UNLOCKED
    \<and> uart_sent (con_dev c') = uart_sent (con_dev c) @ crlf (mem_read m buf (unat len))"
  using uart.write_buf_sends [OF assms(1,3,2)] .

theorem cons_write_buf_sends_witness:
  "\<exists>c'. cons_write_buf uart16550a_putc 1 1 (mem_write (\<lambda>_. 0) 0x100 [72, 105, 10]) 0x100 3
      \<lparr>con_dev = uart_example, con_in_lock = spinlock_init, con_out_lock = spinlock_init\<rparr> = Some (OK c')
     \<and> uart_sent (con_dev c') = [72, 105, 10, 13]"
proof -
  let ?m = "mem_write (\<lambda>_. 0) 0x100 [72, 105, 10] :: mem"
  let ?c = "\<lparr>con_dev = uart_example, con_in_lock = spinlock_init, con_out_lock = spinlock_init\<rparr>"
  have rd: "mem_read ?m 0x100 (unat (3 :: u64)) = [72, 105, 10]"
    using mem_read_write_same [of "[72, 105, 10]" 3 "\<lambda>_. 0" "0x100"] by simp
  have "uart_room uart_example = 4" "uart_sent uart_example = []"
    by (simp_all add: uart_room_def uart_sent_def uart_example_def circ_contents_def circbuf_init_def)
  moreover have "crlf [72, 105, 10] = [72, 105, 10, 13]" by (simp add: crlf_def NL_def CR_def)
  moreover have "lk_state (con_out_lock ?c) = LK_UNLOCKED" by (simp add: spinlock_init_def)
  ultimately show ?thesis
    using cons_write_buf_sends [of ?c ?m "0x100" 3 1 0] uart_example_ok unfolding rd by auto
qed

text \<open>
  C40 (error). Reading a character from the console stops the kernel whatever the device answers,
  because the loop takes the lock of the input device and then releases that of the output device,
  which the hart does not hold.
\<close>

theorem cons_read_char_fatal:
  assumes "lk_state (con_in_lock c) = LK_UNLOCKED" "lk_state (con_out_lock c) = LK_UNLOCKED \<or> lk_hartid (con_out_lock c) \<noteq> h"
  shows "cons_read_char getc h (Suc n) c = Some PANIC"
  using assms
  by (auto simp: serial_in_dev_lock_acquire_def serial_out_dev_lock_release_def lk_acquire_def lk_release_def split: prod.split)

theorem cons_read_char_fatal_witness:
  "cons_read_char (\<lambda>u. uart16550a_getc 1 65 u) 1 1
     \<lparr>con_dev = uart_example, con_in_lock = spinlock_init, con_out_lock = spinlock_init\<rparr> = Some PANIC"
  using cons_read_char_fatal [of "\<lparr>con_dev = uart_example, con_in_lock = spinlock_init, con_out_lock = spinlock_init\<rparr>" 1
      "\<lambda>u. uart16550a_getc 1 65 u" 0]
  by (simp add: spinlock_init_def)

end
