(* ===== verification/Drivers.thy ===== *)
theory Drivers
  imports Devicetree Console
begin

unbundle bit_operations_syntax

text \<open>
  Device probing (\<^verbatim>\<open>kern/drivers/device.c\<close>) and the drivers that only depend on the device tree: memory banks
  (\<^verbatim>\<open>mems.c\<close>), aliases (\<^verbatim>\<open>aliases.c\<close>), boot arguments and consoles (\<^verbatim>\<open>chosen.c\<close>), the registration of interrupt
  handlers (\<^verbatim>\<open>intc.c\<close>) and the platform interrupt controller (\<^verbatim>\<open>irq/plic.c\<close>). A property whose value the code takes for a string
  is closed by NUL, as the format of device trees requires; one that is not is taken to differ from every string. A callback of an
  interrupt is a value of type \<open>'c\<close>, \<open>None\<close> when it is \<^verbatim>\<open>NULL\<close>.
\<close>

section \<open>Memory banks\<close>

record aliases_item =
  ai_key :: string
  ai_val :: "u8 list option"

record 'c exc_st =
  exc_trap_num :: u64
  exc_callback :: 'c

record 'c irq_reg_st =
  irq_phandle_num :: u32
  irq_reg_callback :: 'c

text \<open>The static variables of the drivers.\<close>

record 'c drivers =
  dv_mems :: "(u64 \<times> u64) list"
  aliases_map :: "aliases_item hashmap"
  chosen_bootargs :: "u8 list option"
  chosen_stdout :: "u8 list option"
  chosen_stdin :: "u8 list option"
  exc_map :: "'c exc_st hashmap"
  irq_reg_map :: "'c irq_reg_st hashmap"

definition drivers0 :: "'c drivers" where
  "drivers0 = \<lparr>dv_mems = [], aliases_map = HASHMAP_ALLOC 8, chosen_bootargs = None, chosen_stdout = None, chosen_stdin = None,
     exc_map = HASHMAP_ALLOC 64, irq_reg_map = HASHMAP_ALLOC 16\<rparr>"

fun bytes_str :: "u8 list \<Rightarrow> string option" where
  "bytes_str [] = None"
| "bytes_str (b # bs) = (if b = 0 then Some [] else map_option ((#) (char_of (unat b))) (bytes_str bs))"

definition val_str :: "u8 list option \<Rightarrow> string option" where
  "val_str vs = Option.bind vs bytes_str"

definition mem_pred :: "dev_node \<Rightarrow> bool" where
  "mem_pred node =
     (case dt_node_prop_extract node ''device_type'' of None \<Rightarrow> False | Some prop \<Rightarrow> val_str (pr_values prop) = Some ''memory'')"

definition be64_at :: "u8 list \<Rightarrow> nat \<Rightarrow> u64" where
  "be64_at vs i = bswap64 (word_of (take 8 (drop (8 * i) vs)))"

definition mem_probe :: "dev_node \<Rightarrow> 'c drivers \<Rightarrow> 'c drivers \<times> unit result" where
  "mem_probe node s =
     (case dt_node_prop_extract node ''reg'' of
        None \<Rightarrow> (s, ERR KER_DTB_ER)
      | Some prop \<Rightarrow>
          (if unat (pr_len prop) mod (8 * 2) \<noteq> 0 then (s, ERR KER_DTB_ER)
           else let mem_num = unat (pr_len prop) div (8 * 2); reg_table = (case pr_values prop of Some vs \<Rightarrow> vs | None \<Rightarrow> [])
                in (s\<lparr>dv_mems := map (\<lambda>i. (be64_at reg_table (i * 2), be64_at reg_table (i * 2 + 1))) [0..<mem_num]\<rparr>, OK ())))"

definition mem_get_num :: "'c drivers \<Rightarrow> u64" where
  "mem_get_num s = of_nat (length (dv_mems s))"

definition mem_get_addr :: "u32 \<Rightarrow> 'c drivers \<Rightarrow> u64 result" where
  "mem_get_addr i s = (if unat i \<ge> length (dv_mems s) then ERR KER_MEM_ER else OK (fst (dv_mems s ! unat i)))"

definition mem_get_size :: "u32 \<Rightarrow> 'c drivers \<Rightarrow> u64 result" where
  "mem_get_size i s = (if unat i \<ge> length (dv_mems s) then ERR KER_MEM_ER else OK (snd (dv_mems s ! unat i)))"

section \<open>Aliases and the chosen node\<close>

definition aliases_get :: "string \<Rightarrow> 'c drivers \<Rightarrow> u8 list option" where
  "aliases_get key s = Option.bind (hashmap_get hash_code_str hash_eq_str ai_key (aliases_map s) key) ai_val"

definition aliases_pred :: "dev_node \<Rightarrow> bool" where
  "aliases_pred node \<longleftrightarrow> nd_name node = ''aliases''"

definition aliases_probe :: "dev_node \<Rightarrow> 'c drivers \<Rightarrow> 'c drivers \<times> unit result" where
  "aliases_probe node s =
     (s\<lparr>aliases_map := fold (\<lambda>prop hm. hashmap_put hash_code_str hash_eq_str ai_key hm \<lparr>ai_key = dev_node_prop.pr_name prop, ai_val = pr_values prop\<rparr>)
        (hashmap_nodes (nd_prop_map node)) (aliases_map s)\<rparr>, OK ())"

definition chosen_pred :: "dev_node \<Rightarrow> bool" where
  "chosen_pred node \<longleftrightarrow> nd_name node = ''chosen''"

definition chosen_probe :: "dev_node \<Rightarrow> 'c drivers \<Rightarrow> 'c drivers \<times> unit result" where
  "chosen_probe node s =
     (let s1 = (case dt_node_prop_extract node ''bootargs'' of Some prop \<Rightarrow> s\<lparr>chosen_bootargs := pr_values prop\<rparr> | None \<Rightarrow> s);
          s2 = (case dt_node_prop_extract node ''stdout-path'' of Some prop \<Rightarrow> s1\<lparr>chosen_stdout := pr_values prop\<rparr> | None \<Rightarrow> s1);
          s3 = (case dt_node_prop_extract node ''stdin-path'' of Some prop \<Rightarrow> s2\<lparr>chosen_stdin := pr_values prop\<rparr> | None \<Rightarrow> s2)
      in (s3, OK ()))"

definition chosen_get_bootargs :: "'c drivers \<Rightarrow> u8 list option" where
  "chosen_get_bootargs s = chosen_bootargs s"

text \<open>The loop over the path: \<open>j\<close> is the last slash so far that is not the last character.\<close>

fun last_slash :: "string \<Rightarrow> nat \<Rightarrow> nat \<Rightarrow> nat" where
  "last_slash [] i j = j"
| "last_slash (c # cs) i j = last_slash cs (Suc i) (if c = CHR ''/'' \<and> cs \<noteq> [] then i else j)"

text \<open>\<open>None\<close> is \<^verbatim>\<open>NULL\<close>; a path that is not closed by NUL is \<open>Some None\<close>.\<close>

definition chosen_get_dev_name :: "'c drivers \<Rightarrow> u8 list option \<Rightarrow> string option option" where
  "chosen_get_dev_name s path =
     (case path of
        None \<Rightarrow> None
      | Some vs \<Rightarrow>
          Some (do {
            key \<leftarrow> bytes_str vs;
            p \<leftarrow> (case aliases_get key s of Some real \<Rightarrow> bytes_str real | None \<Rightarrow> Some key);
            Some (drop (last_slash p 0 0 + 1) p)
          }))"

definition select_named :: "(string \<Rightarrow> serial_reg \<Rightarrow> serial_reg \<times> bool) \<Rightarrow> string option option \<Rightarrow> serial_reg \<Rightarrow> serial_reg \<times> unit result" where
  "select_named select dev r =
     (case dev of
        None \<Rightarrow> (r, OK ())
      | Some None \<Rightarrow> (r, ERR KER_SRL_ER)
      | Some (Some name) \<Rightarrow> (case select name r of (r', ok) \<Rightarrow> (r', if ok then OK () else ERR KER_SRL_ER)))"

definition chosen_select_dev :: "'c drivers \<Rightarrow> serial_reg \<Rightarrow> serial_reg \<times> unit result" where
  "chosen_select_dev s r =
     (let stdout_dev = chosen_get_dev_name s (chosen_stdout s); stdin_dev0 = chosen_get_dev_name s (chosen_stdin s);
          stdin_dev = (if stdin_dev0 = None then stdout_dev else stdin_dev0)
      in case select_named serial_select_out_dev stdout_dev r of
           (r1, OK _) \<Rightarrow> select_named serial_select_in_dev stdin_dev r1
         | (r1, e) \<Rightarrow> (r1, e))"

section \<open>Interrupt handlers\<close>

definition intc_get_handler :: "u64 \<Rightarrow> 'c drivers \<Rightarrow> 'c option" where
  "intc_get_handler trap_num s = map_option exc_callback (hashmap_get hash_code_uint64 hash_eq_uint64 exc_trap_num (exc_map s) trap_num)"

definition intc_register_handler :: "u64 \<Rightarrow> 'c \<Rightarrow> 'c drivers \<Rightarrow> 'c drivers \<times> unit result" where
  "intc_register_handler trap_num callback s =
     (s\<lparr>exc_map := hashmap_put hash_code_uint64 hash_eq_uint64 exc_trap_num (exc_map s)
        \<lparr>exc_trap_num = trap_num, exc_callback = callback\<rparr>\<rparr>, OK ())"

definition intc_get_irq_reg :: "u32 \<Rightarrow> 'c drivers \<Rightarrow> 'c option" where
  "intc_get_irq_reg phandle_num s =
     map_option irq_reg_callback (hashmap_get hash_code_uint32 hash_eq_uint32 irq_phandle_num (irq_reg_map s) phandle_num)"

definition intc_register_irq_reg :: "u32 \<Rightarrow> 'c \<Rightarrow> 'c drivers \<Rightarrow> 'c drivers" where
  "intc_register_irq_reg phandle_num callback s =
     s\<lparr>irq_reg_map := hashmap_put hash_code_uint32 hash_eq_uint32 irq_phandle_num (irq_reg_map s)
        \<lparr>irq_phandle_num = phandle_num, irq_reg_callback = callback\<rparr>\<rparr>"

text \<open>A device is its predicate and its probe function; the devices are probed in the order of their priorities.\<close>

type_synonym 'c device = "(dev_node \<Rightarrow> bool) \<times> (dev_node \<Rightarrow> 'c drivers \<Rightarrow> 'c drivers \<times> unit result)"

fun device_probe :: "'c device list \<Rightarrow> dev_tree \<Rightarrow> 'c drivers \<Rightarrow> 'c drivers \<times> unit result" where
  "device_probe [] dt s = (s, OK ())"
| "device_probe ((d_pred, d_probe) # devs) dt s =
     (case dt_iter dt d_pred d_probe s of (s1, OK _) \<Rightarrow> device_probe devs dt s1 | r \<Rightarrow> r)"

section \<open>The interrupt controller\<close>

definition PLIC_SOURCE_MIN :: u32 where "PLIC_SOURCE_MIN = 1"
definition PLIC_SOURCE_MAX :: u32 where "PLIC_SOURCE_MAX = 1023"
definition PLIC_PRIO_MIN :: u32 where "PLIC_PRIO_MIN = 0"
definition PLIC_PRIO_MAX :: u32 where "PLIC_PRIO_MAX = 7"

text \<open>The controller and its registers, 32 bits each, by address. \<open>pl_int_map\<close> has 1024 entries.\<close>

record 'c plic =
  pl_addr :: u64
  pl_size :: u64
  pl_int_map :: "'c option list"
  pl_lock :: lock
  pl_regs :: "u64 \<Rightarrow> u32"

definition plic_write :: "'c plic \<Rightarrow> u64 \<Rightarrow> u32 \<Rightarrow> 'c plic" where
  "plic_write plic off v = plic\<lparr>pl_regs := (pl_regs plic)(pl_addr plic + off := v)\<rparr>"

definition plic_set_source_prio :: "'c plic \<Rightarrow> u32 \<Rightarrow> u32 \<Rightarrow> 'c plic" where
  "plic_set_source_prio plic source_id priority = plic_write plic (ucast (4 * source_id)) priority"

definition plic_ctx_base :: "u32 \<Rightarrow> u64" where
  "plic_ctx_base context_id = 0x2000 + ucast (context_id * 0x80)"

definition plic_source_set_en :: "'c plic \<Rightarrow> u32 \<Rightarrow> u32 \<Rightarrow> bool \<Rightarrow> 'c plic" where
  "plic_source_set_en plic context_id source_id enable =
     (let quo = source_id div 32; rm = source_id mod 32; off = plic_ctx_base context_id + ucast (quo * 4);
          bits = pl_regs plic (pl_addr plic + off);
          bits' = (if enable then bits OR push_bit (unat rm) 1 else bits AND NOT (push_bit (unat rm) 1))
      in plic_write plic off bits')"

text \<open>\<open>memset\<close> over the 128 bytes of a context.\<close>

definition plic_source_disable_all :: "'c plic \<Rightarrow> u32 \<Rightarrow> 'c plic" where
  "plic_source_disable_all plic context_id = fold (\<lambda>i p. plic_write p (plic_ctx_base context_id + of_nat (4 * i)) 0) [0..<32] plic"

definition plic_set_context_prio_threshold :: "'c plic \<Rightarrow> u32 \<Rightarrow> u32 \<Rightarrow> 'c plic" where
  "plic_set_context_prio_threshold plic context_id threshold = plic_write plic (0x200000 + ucast (0x1000 * context_id)) threshold"

definition plic_complete :: "'c plic \<Rightarrow> u32 \<Rightarrow> u32 \<Rightarrow> 'c plic" where
  "plic_complete plic context_id int_num = plic_write plic (0x200004 + ucast (0x1000 * context_id)) int_num"

text \<open>
  \<open>claim\<close> is what the claim register reads. The callback works on a state of its own; invoking \<^verbatim>\<open>NULL\<close> stops the kernel. \<open>h\<close> is the
  hart.
\<close>

definition plic_handle_int :: "u64 \<Rightarrow> u32 \<Rightarrow> u32 \<Rightarrow> ('c \<Rightarrow> u32 \<Rightarrow> 's \<Rightarrow> 's \<times> unit result) \<Rightarrow> 'c plic \<Rightarrow> 's \<Rightarrow> 'c plic \<times> 's \<times> unit result" where
  "plic_handle_int h external_int_ctx claim invoke plic s =
     (case lk_acquire h (pl_lock plic) of
        OK l \<Rightarrow>
          (let plic1 = plic\<lparr>pl_lock := l\<rparr>;
               release = (\<lambda>p s r. case lk_release h (pl_lock p) of OK l' \<Rightarrow> (p\<lparr>pl_lock := l'\<rparr>, s, r) | _ \<Rightarrow> (p, s, PANIC));
               int_num = claim
           in if int_num < PLIC_SOURCE_MIN \<or> int_num > PLIC_SOURCE_MAX then release plic1 s (ERR KER_INT_ER)
              else case pl_int_map plic1 ! unat int_num of
                     None \<Rightarrow> (plic1, s, PANIC)
                   | Some cb \<Rightarrow>
                       (case invoke cb int_num s of
                          (s', OK _) \<Rightarrow> release (plic_complete plic1 external_int_ctx int_num) s' (OK ())
                        | (s', ERR e) \<Rightarrow> release plic1 s' (ERR e)
                        | (s', PANIC) \<Rightarrow> (plic1, s', PANIC)))
      | _ \<Rightarrow> (plic, s, PANIC))"

definition plic_register_irq :: "u64 \<Rightarrow> u32 \<Rightarrow> u64 \<Rightarrow> 'c \<Rightarrow> 'c plic \<Rightarrow> 'c plic \<times> unit result" where
  "plic_register_irq h external_int_ctx source_id callback plic =
     (if source_id < ucast PLIC_SOURCE_MIN \<or> source_id > ucast PLIC_SOURCE_MAX then (plic, ERR KER_INT_ER)
      else case lk_acquire h (pl_lock plic) of
             OK l \<Rightarrow>
               (let p1 = plic_source_set_en (plic\<lparr>pl_lock := l\<rparr>) external_int_ctx (ucast source_id) True;
                    p2 = plic_set_source_prio p1 (ucast source_id) PLIC_PRIO_MAX;
                    p3 = p2\<lparr>pl_int_map := (pl_int_map p2)[unat source_id := Some callback]\<rparr>
                in case lk_release h (pl_lock p3) of OK l' \<Rightarrow> (p3\<lparr>pl_lock := l'\<rparr>, OK ()) | _ \<Rightarrow> (p3, PANIC))
           | _ \<Rightarrow> (plic, PANIC))"

definition plic_init :: "u32 \<Rightarrow> 'c plic \<Rightarrow> 'c plic \<times> unit result" where
  "plic_init external_int_ctx plic =
     (let p1 = fold (\<lambda>i p. plic_set_source_prio p (of_nat i) PLIC_PRIO_MIN) [unat PLIC_SOURCE_MIN..<unat PLIC_SOURCE_MAX] plic;
          context_max_id = ucast ((pl_size p1 - 0x200000) div 0x1000 - 1) :: u32
      in if context_max_id < external_int_ctx then (p1, PANIC)
         else let p2 = fold (\<lambda>i p. plic_set_context_prio_threshold (plic_source_disable_all p (of_nat i)) (of_nat i) PLIC_PRIO_MAX)
                         [0..<unat context_max_id + 1] p1
              in (plic_set_context_prio_threshold p2 external_int_ctx PLIC_PRIO_MIN, OK ()))"

definition plic_pred :: "dev_node \<Rightarrow> bool" where
  "plic_pred node =
     (case dt_node_prop_extract node ''compatible'' of
        None \<Rightarrow> False
      | Some prop \<Rightarrow>
          (let vs = (case pr_values prop of Some vs \<Rightarrow> vs | None \<Rightarrow> [])
           in dt_match_strlist vs ''sifive,plic-1.0.0'' \<noteq> 0 \<or> dt_match_strlist vs ''riscv,plic0'' \<noteq> 0))"
section \<open>Memory banks of a flattened tree\<close>

definition bank_bytes :: "(u64 \<times> u64) list \<Rightarrow> u8 list" where
  "bank_bytes banks = concat (map (\<lambda>(a, n). be_bytes 8 a @ be_bytes 8 n) banks)"

lemma length_bank_bytes: "length (bank_bytes banks) = 16 * length banks"
  by (induction banks) (auto simp: bank_bytes_def)

lemma be64_at_bank:
  "be64_at (be_bytes 8 a @ be_bytes 8 n @ rest) 0 = a" "be64_at (be_bytes 8 a @ be_bytes 8 n @ rest) 1 = n"
  "be64_at (be_bytes 8 a @ be_bytes 8 n @ rest) (k + 2) = be64_at rest k"
  by (simp_all add: be64_at_def bswap64_be_bytes)

lemma banks_read: "map (\<lambda>i. (be64_at (bank_bytes banks) (i * 2), be64_at (bank_bytes banks) (i * 2 + 1))) [0..<length banks] = banks"
proof (induction banks)
  case (Cons b banks)
  obtain a n where b: "b = (a, n)" by force
  have e: "bank_bytes (b # banks) = be_bytes 8 a @ be_bytes 8 n @ bank_bytes banks" by (simp add: bank_bytes_def b)
  have s: "be64_at (bank_bytes (b # banks)) (Suc i * 2) = be64_at (bank_bytes banks) (i * 2)"
    "be64_at (bank_bytes (b # banks)) (Suc i * 2 + 1) = be64_at (bank_bytes banks) (i * 2 + 1)" for i
    unfolding e using be64_at_bank(3) [of a n "bank_bytes banks" "i * 2"] be64_at_bank(3) [of a n "bank_bytes banks" "i * 2 + 1"]
    by (simp_all add: add.commute)
  have z: "be64_at (bank_bytes (b # banks)) (0 * 2) = a" "be64_at (bank_bytes (b # banks)) (0 * 2 + 1) = n"
    unfolding e using be64_at_bank(1,2) by simp_all
  show ?case by (simp only: length_Cons map_upt_Suc s z Cons.IH) (simp only: b)
qed simp

text \<open>The nodes of a tree in document order, and those of memory.\<close>

fun fdt_nodes :: "fdt \<Rightarrow> fdt list" where
  "fdt_nodes (Fdt name props children) = Fdt name props children # concat (map fdt_nodes children)"

fun fdt_memory :: "fdt \<Rightarrow> bool" where
  "fdt_memory (Fdt name props children) \<longleftrightarrow> Option.bind (map_of (rev props) ''device_type'') bytes_str = Some ''memory''"

lemma preorder_append: "preorder (xs @ ys) = preorder xs @ preorder ys"
  by (induction xs rule: preorder.induct) auto

lemma preorder_node_of: "preorder [node_of t] = map node_of (fdt_nodes t)"
proof (induction t)
  case (Fdt name props children)
  have "preorder (map node_of ts) = map node_of (concat (map fdt_nodes ts))" if "set ts \<subseteq> set children" for ts
    using that
  proof (induction ts)
    case (Cons t ts)
    then show ?case using Fdt [of t] preorder_append [of "[node_of t]" "map node_of ts"] by simp
  qed simp
  then show ?case by simp
qed

lemma mem_pred_node_of: "mem_pred (node_of t) = fdt_memory t"
proof (cases t)
  case (Fdt name props children)
  show ?thesis
    unfolding Fdt mem_pred_def node_of_extract
    by (cases "map_of (rev props) ''device_type''") (auto simp: val_str_def prop_of_def)
qed

lemma mem_probe_banks:
  assumes "map_of (rev props) ''reg'' = Some (bank_bytes banks)" "length banks < 2 ^ 28"
  shows "mem_probe (node_of (Fdt name props children)) s = (s\<lparr>dv_mems := banks\<rparr>, OK ())"
proof -
  have len: "unat (of_nat (length (bank_bytes banks)) :: u32) = 16 * length banks"
    using assms(2) by (simp only: length_bank_bytes unat_of_nat) simp
  have "(case pr_values (prop_of (k, bank_bytes banks)) of Some vs \<Rightarrow> vs | None \<Rightarrow> []) = bank_bytes banks" for k
    by (simp add: prop_of_def)
  then show ?thesis
    unfolding mem_probe_def node_of_extract assms(1) using banks_read [of banks] len
    by (simp add: prop_of_def Let_def)
qed

section \<open>Names of devices\<close>

lemma last_slash_none: "CHR ''/'' \<notin> set p \<Longrightarrow> last_slash p i j = j"
  by (induction p arbitrary: i) auto

lemma last_slash_name: "CHR ''/'' \<notin> set name \<Longrightarrow> name \<noteq> [] \<Longrightarrow> last_slash (dir @ CHR ''/'' # name) i j = i + length dir"
  by (induction dir arbitrary: i j) (auto simp: last_slash_none)

lemma bytes_str_str_bytes: "name_ok s \<Longrightarrow> bytes_str (str_bytes s @ rest) = Some s"
proof (induction s)
  case (Cons c s)
  have "of_char c \<noteq> (0 :: u8)" using name_ok_bytes [OF Cons.prems] by auto
  moreover have "name_ok s" using Cons.prems by (simp add: name_ok_def)
  ultimately show ?case using Cons.IH by (simp add: str_bytes_def unat_of_char)
qed (simp add: str_bytes_def)

text \<open>
  The last component of a path is the name of the device; a path without a slash that is no alias loses its first
  character.
\<close>

lemma chosen_get_dev_name_path:
  assumes "name_ok (dir @ CHR ''/'' # name)" "CHR ''/'' \<notin> set name" "name \<noteq> []" "aliases_get (dir @ CHR ''/'' # name) s = None"
  shows "chosen_get_dev_name s (Some (str_bytes (dir @ CHR ''/'' # name))) = Some (Some name)"
  using bytes_str_str_bytes [OF assms(1), of "[]"] last_slash_name [OF assms(2,3), of dir 0 0] assms(4)
  by (simp add: chosen_get_dev_name_def)

lemma chosen_get_dev_name_no_slash:
  assumes "name_ok path" "CHR ''/'' \<notin> set path" "aliases_get path s = None"
  shows "chosen_get_dev_name s (Some (str_bytes path)) = Some (Some (tl path))"
  using bytes_str_str_bytes [OF assms(1), of "[]"] last_slash_none [OF assms(2)] assms(3)
  by (simp add: chosen_get_dev_name_def drop_Suc)

section \<open>Registered handlers\<close>

definition intc_ok :: "'c drivers \<Rightarrow> bool" where
  "intc_ok s \<longleftrightarrow> hashmap_ok hash_code_uint64 exc_trap_num (exc_map s) \<and> hashmap_ok hash_code_uint32 irq_phandle_num (irq_reg_map s)"

lemma intc_ok_drivers0: "intc_ok drivers0"
  by (simp add: intc_ok_def drivers0_def HASHMAP_ALLOC_ok)

lemma intc_register_handler_get:
  assumes "intc_ok s"
  shows "intc_ok (fst (intc_register_handler n cb s))"
    "intc_get_handler k (fst (intc_register_handler n cb s)) = (if k = n then Some cb else intc_get_handler k s)"
    "intc_get_irq_reg p (fst (intc_register_handler n cb s)) = intc_get_irq_reg p s"
  using assms
  by (auto simp: intc_ok_def intc_register_handler_def intc_get_handler_def intc_get_irq_reg_def hm64.hashmap_put_ok hm64.hashmap_get_put)

lemma intc_register_irq_reg_get:
  assumes "intc_ok s"
  shows "intc_ok (intc_register_irq_reg n cb s)"
    "intc_get_irq_reg k (intc_register_irq_reg n cb s) = (if k = n then Some cb else intc_get_irq_reg k s)"
    "intc_get_handler p (intc_register_irq_reg n cb s) = intc_get_handler p s"
  using assms
  by (auto simp: intc_ok_def intc_register_irq_reg_def intc_get_handler_def intc_get_irq_reg_def hm32.hashmap_put_ok hm32.hashmap_get_put)

section \<open>Enabled sources\<close>

definition plic_enabled :: "'c plic \<Rightarrow> u32 \<Rightarrow> u32 \<Rightarrow> bool" where
  "plic_enabled plic ctx src = bit (pl_regs plic (pl_addr plic + (plic_ctx_base ctx + ucast (src div 32 * 4)))) (unat (src mod 32))"

definition source_ok :: "u32 \<Rightarrow> bool" where
  "source_ok src \<longleftrightarrow> unat src < 1024"

text \<open>The contexts whose enable registers lie below the threshold registers.\<close>

definition context_ok :: "u32 \<Rightarrow> bool" where
  "context_ok ctx \<longleftrightarrow> unat ctx < 0x3fc0"

lemma unat_mult32: "unat a * unat b < 2 ^ 32 \<Longrightarrow> unat (a * b :: u32) = unat a * unat b"
  by (simp add: unat_word_ariths)

lemma unat_add64: "unat a + unat b < 2 ^ 64 \<Longrightarrow> unat (a + b :: u64) = unat a + unat b"
  by (simp add: unat_word_ariths)

lemma unat_ctx_base:
  assumes "context_ok ctx"
  shows "unat (plic_ctx_base ctx) = 0x2000 + unat ctx * 128"
proof -
  have "unat (ctx * 0x80) = unat ctx * 128" using assms by (subst unat_mult32) (simp_all add: context_ok_def)
  then have "unat (ucast (ctx * 0x80) :: u64) = unat ctx * 128" by (simp add: unat_ucast_up)
  then show ?thesis using assms by (simp add: plic_ctx_base_def context_ok_def unat_add64)
qed

lemma unat_enable_off:
  assumes "context_ok ctx" "source_ok src"
  shows "unat (plic_ctx_base ctx + ucast (src div 32 * 4)) = 0x2000 + unat ctx * 128 + unat src div 32 * 4"
proof -
  have q: "unat (src div 32) = unat src div 32" by (simp add: unat_div_distrib)
  have "unat src div 32 < 32" using assms(2) by (simp add: source_ok_def less_mult_imp_div_less)
  then have "unat (src div 32 * 4) = unat src div 32 * 4" by (subst unat_mult32) (simp_all add: q)
  then have "unat (ucast (src div 32 * 4) :: u64) = unat src div 32 * 4" by (simp add: unat_ucast_up)
  then show ?thesis
    using unat_ctx_base [OF assms(1)] assms(1) \<open>unat src div 32 < 32\<close> by (simp add: unat_add64 context_ok_def)
qed

lemma enable_off_eq:
  assumes "context_ok ctx" "source_ok src" "context_ok ctx'" "source_ok src'"
  shows "plic_ctx_base ctx + ucast (src div 32 * 4) = plic_ctx_base ctx' + ucast (src' div 32 * 4) \<longleftrightarrow> ctx = ctx' \<and> src div 32 = src' div 32"
proof
  assume "plic_ctx_base ctx + ucast (src div 32 * 4) = plic_ctx_base ctx' + ucast (src' div 32 * 4)"
  then have e: "unat ctx * 128 + unat src div 32 * 4 = unat ctx' * 128 + unat src' div 32 * 4"
    using unat_enable_off [OF assms(1,2)] unat_enable_off [OF assms(3,4)] by simp
  moreover have "unat src div 32 < 32" "unat src' div 32 < 32" using assms by (simp_all add: source_ok_def less_mult_imp_div_less)
  ultimately have "unat ctx = unat ctx'" by linarith
  moreover from this have "unat (src div 32) = unat (src' div 32)" using e by (simp add: unat_div_distrib)
  ultimately show "ctx = ctx' \<and> src div 32 = src' div 32" using word_unat_eq_iff by blast
qed simp

lemma prio_off_ne:
  assumes "context_ok ctx" "source_ok src" "source_ok src'"
  shows "ucast (4 * src') \<noteq> plic_ctx_base ctx + ucast (src div 32 * 4)"
proof
  assume e: "ucast (4 * src') = plic_ctx_base ctx + ucast (src div 32 * 4)"
  have "unat (4 * src') = 4 * unat src'" using assms(3) by (subst unat_mult32) (simp_all add: source_ok_def)
  then have "unat (ucast (4 * src') :: u64) < 0x2000" using assms(3) by (simp add: unat_ucast_up source_ok_def)
  then show False using e unat_enable_off [OF assms(1,2)] by simp
qed

lemma plic_enabled_write_prio:
  assumes "context_ok ctx" "source_ok src" "source_ok src'"
  shows "plic_enabled (plic_set_source_prio plic src' prio) ctx src = plic_enabled plic ctx src"
  using prio_off_ne [OF assms] by (simp add: plic_enabled_def plic_set_source_prio_def plic_write_def)

lemma word32_div_mod: "src div 32 = src' div 32 \<Longrightarrow> unat (src mod 32) = unat (src' mod 32) \<Longrightarrow> src = (src' :: u32)"
  by (metis div_mult_mod_eq word_unat_eq_iff)

lemma plic_enabled_set_en:
  assumes "context_ok ctx" "source_ok src" "context_ok ctx'" "source_ok src'"
  shows "plic_enabled (plic_source_set_en plic ctx' src' en) ctx src = (if ctx = ctx' \<and> src = src' then en else plic_enabled plic ctx src)"
proof (cases "ctx = ctx' \<and> src div 32 = src' div 32")
  case True
  have "unat (x mod 32 :: u32) < 32" for x by (simp add: unat_mod_distrib)
  then have "bit (push_bit (unat (src' mod 32)) (1 :: u32)) (unat (src mod 32)) \<longleftrightarrow> src = src'"
    using True word32_div_mod [of src src'] by (auto simp: bit_exp_iff)
  then show ?thesis
    using True \<open>\<And>x. unat (x mod 32 :: u32) < 32\<close>
    by (auto simp: plic_enabled_def plic_source_set_en_def plic_write_def Let_def bit_or_iff bit_and_iff bit_not_iff)
next
  case False
  then have "plic_ctx_base ctx + ucast (src div 32 * 4) \<noteq> plic_ctx_base ctx' + ucast (src' div 32 * 4)"
    using enable_off_eq [OF assms] by simp
  then show ?thesis using False by (auto simp: plic_enabled_def plic_source_set_en_def plic_write_def Let_def)
qed

section \<open>Properties\<close>

text \<open>
  C22 (functional). From the flattened device tree to the memory banks: loading a tree with one memory node and probing the memory
  device on it succeeds, and the banks that the physical allocator then asks for are exactly those of the node's \<^verbatim>\<open>reg\<close>
  property, in order; a bank beyond them is an error.
\<close>

theorem memory_banks_probed:
  assumes "mem_at m dtb (fdt_blob rs strings soff t)" "length (fdt_blob rs strings soff t) < 2 ^ 32"
    "fdt_ok n t" "strings_ok strings soff t" "(0, 0) \<notin> set rs" "length (fdt_blob rs strings soff t) + n < fuel"
    "filter fdt_memory (fdt_nodes t) = [Fdt name props children]" "map_of (rev props) ''reg'' = Some (bank_bytes banks)" "length banks < 2 ^ 28"
  shows "\<exists>dt s'. dt_load fuel m dtb = Some (OK dt) \<and> dt_iter dt mem_pred mem_probe s = (s', OK ())
    \<and> mem_get_num s' = of_nat (length banks)
    \<and> (\<forall>i. mem_get_addr i s' = (if unat i < length banks then OK (fst (banks ! unat i)) else ERR KER_MEM_ER)
        \<and> mem_get_size i s' = (if unat i < length banks then OK (snd (banks ! unat i)) else ERR KER_MEM_ER))"
proof -
  obtain dt where dt: "dt_load fuel m dtb = Some (OK dt)" "dt_node_list dt = [node_of t]"
    using dt_load_blob [OF assms(1-6)] by auto
  have "filter mem_pred (preorder [node_of t]) = map node_of (filter fdt_memory (fdt_nodes t))"
    unfolding preorder_node_of filter_map by (simp add: comp_def mem_pred_node_of)
  then have "dt_iter dt mem_pred mem_probe s = (s\<lparr>dv_mems := banks\<rparr>, OK ())"
    using mem_probe_banks [OF assms(8,9), of name children s]
    by (simp add: dt_iter_def dt_iter_nodes_preorder dt(2) assms(7) del: node_of.simps preorder.simps)
  then show ?thesis using dt(1) by (auto simp: mem_get_num_def mem_get_addr_def mem_get_size_def)
qed

theorem memory_banks_probed_witness:
  "\<exists>blob dt s'. dt_load 400 (mem_write (\<lambda>_. 0) 0x82200000 blob) 0x82200000 = Some (OK dt)
     \<and> dt_iter dt mem_pred mem_probe (drivers0 :: nat drivers) = (s', OK ()) \<and> mem_get_num s' = 1
     \<and> mem_get_addr 0 s' = OK 0x80000000 \<and> mem_get_size 0 s' = OK 0x8000000 \<and> mem_get_addr 1 s' = ERR KER_MEM_ER"
proof -
  let ?banks = "[(0x80000000, 0x8000000)] :: (u64 \<times> u64) list" and ?a = "0x82200000"
  let ?props = "[(''device_type'', str_bytes ''memory''), (''reg'', bank_bytes ?banks)]"
  let ?t = "Fdt [] [] [Fdt ''memory'' ?props []]"
  let ?strings = "str_bytes ''device_type'' @ str_bytes ''reg''" and ?soff = "\<lambda>k. if k = ''reg'' then 12 else (0 :: u32)"
  define blob where "blob = fdt_blob [] ?strings ?soff ?t"
  have len: "length blob < 300"
    by (simp add: blob_def fdt_blob_def rsv_bytes_def flat_prop_def length_pad4 Let_def length_bank_bytes)
  then have "mem_at (mem_write (\<lambda>_. 0) ?a blob) ?a blob" unfolding mem_at_def by (intro mem_read_write_same) simp_all
  moreover have "fdt_ok 12 ?t" by (simp add: name_ok_def length_bank_bytes)
  moreover have "strings_ok ?strings ?soff ?t" by (simp add: strings_ok_def)
  moreover have "bytes_str (str_bytes ''memory'') = Some ''memory''" using bytes_str_str_bytes [of "''memory''" "[]"] by (simp add: name_ok_def)
  then have "filter fdt_memory (fdt_nodes ?t) = [Fdt ''memory'' ?props []]" by simp
  ultimately obtain dt s' where "dt_load 400 (mem_write (\<lambda>_. 0) ?a blob) ?a = Some (OK dt)"
    "dt_iter dt mem_pred mem_probe (drivers0 :: nat drivers) = (s', OK ())" "mem_get_num s' = of_nat (length ?banks)"
    "\<forall>i. mem_get_addr i s' = (if unat i < length ?banks then OK (fst (?banks ! unat i)) else ERR KER_MEM_ER)
        \<and> mem_get_size i s' = (if unat i < length ?banks then OK (snd (?banks ! unat i)) else ERR KER_MEM_ER)"
    using memory_banks_probed [of "mem_write (\<lambda>_. 0) ?a blob" ?a "[]" ?strings ?soff ?t 12 400 "''memory''" ?props "[]" ?banks drivers0] len
    unfolding blob_def by auto
  then show ?thesis by (intro exI [of _ blob] exI [of _ dt] exI [of _ s']) simp
qed

text \<open>
  Registering a handler with the interrupt controller, with the lock free: outside the range of sources it
  fails and changes nothing; otherwise the source is enabled for the context that takes external interrupts, every other pair of
  source and context is enabled as before, the handler is entered for the source and the lock is free again.
\<close>

theorem plic_register_irq_enables:
  assumes "lk_state (pl_lock plic) = LK_UNLOCKED" "context_ok ext" "length (pl_int_map plic) = 1024"
  shows "case plic_register_irq h ext src cb plic of (plic', r) \<Rightarrow>
    (if 1 \<le> unat src \<and> unat src \<le> 1023
     then r = OK () \<and> pl_int_map plic' = (pl_int_map plic)[unat src := Some cb] \<and> lk_state (pl_lock plic') = LK_UNLOCKED
       \<and> (\<forall>ctx s. context_ok ctx \<longrightarrow> source_ok s \<longrightarrow>
            plic_enabled plic' ctx s = (ctx = ext \<and> s = ucast src \<or> plic_enabled plic ctx s))
     else plic' = plic \<and> r = ERR KER_INT_ER)"
proof -
  have range: "(src < ucast PLIC_SOURCE_MIN \<or> src > ucast PLIC_SOURCE_MAX) = (\<not> (1 \<le> unat src \<and> unat src \<le> 1023))"
    by (auto simp: PLIC_SOURCE_MIN_def PLIC_SOURCE_MAX_def word_less_nat_alt)
  show ?thesis
  proof (cases "1 \<le> unat src \<and> unat src \<le> 1023")
    case False
    then show ?thesis unfolding plic_register_irq_def range by simp
  next
    case True
    define l where "l = (pl_lock plic)\<lparr>lk_state := LK_LOCKED, lk_hartid := h\<rparr>"
    define p2 where "p2 = plic_set_source_prio (plic_source_set_en (plic\<lparr>pl_lock := l\<rparr>) ext (ucast src) True) (ucast src) PLIC_PRIO_MAX"
    have acq: "lk_acquire h (pl_lock plic) = OK l" using assms(1) by (simp add: lk_acquire_def l_def)
    have p2: "pl_lock p2 = l" "pl_int_map p2 = pl_int_map plic"
      by (simp_all add: p2_def plic_set_source_prio_def plic_source_set_en_def plic_write_def Let_def)
    have "unat (ucast src :: u32) = unat src" using True by (simp add: unsigned_ucast_eq take_bit_nat_eq_self)
    then have so: "source_ok (ucast src)" using True by (simp add: source_ok_def)
    have en: "plic_enabled p2 ctx s = (ctx = ext \<and> s = ucast src \<or> plic_enabled plic ctx s)" if "context_ok ctx" "source_ok s" for ctx s
    proof -
      have "plic_enabled (plic\<lparr>pl_lock := l\<rparr>) ctx s = plic_enabled plic ctx s" by (simp add: plic_enabled_def)
      then show ?thesis
        unfolding p2_def plic_enabled_write_prio [OF that so] plic_enabled_set_en [OF that assms(2) so] by auto
    qed
    have r: "plic_register_irq h ext src cb plic
      = (p2\<lparr>pl_int_map := (pl_int_map plic)[unat src := Some cb], pl_lock := l\<lparr>lk_state := LK_UNLOCKED, lk_hartid := HARTID_MAX\<rparr>\<rparr>, OK ())"
      unfolding plic_register_irq_def range using True acq p2
      by (simp add: Let_def lk_release_def l_def flip: p2_def [unfolded l_def])
    show ?thesis unfolding r using True en by (simp add: plic_enabled_def)
  qed
qed

theorem plic_register_irq_enables_witness:
  "\<exists>plic' r. plic_register_irq 0 1 10 (7 :: nat) \<lparr>pl_addr = 0xc000000, pl_size = 0x600000, pl_int_map = replicate 1024 None,
       pl_lock = spinlock_init, pl_regs = (\<lambda>_. 0)\<rparr> = (plic', r) \<and> r = OK () \<and> plic_enabled plic' 1 10 \<and> \<not> plic_enabled plic' 3 10"
proof -
  let ?plic = "\<lparr>pl_addr = 0xc000000, pl_size = 0x600000, pl_int_map = replicate 1024 (None :: nat option),
       pl_lock = spinlock_init, pl_regs = (\<lambda>_. 0)\<rparr>"
  obtain plic' r where p: "plic_register_irq 0 1 10 7 ?plic = (plic', r)" by force
  have "context_ok 1" "context_ok 3" "source_ok 10" by (simp_all add: context_ok_def source_ok_def)
  moreover have "\<not> plic_enabled ?plic 3 10" by (simp add: plic_enabled_def)
  ultimately show ?thesis
    using plic_register_irq_enables [where plic = ?plic and ext = 1 and h = 0 and src = 10 and cb = 7] p by (auto simp: spinlock_init_def)
qed

end
