(* ===== verification/Services.thy ===== *)
theory Services
  imports Syscalls
begin

text \<open>
  The user side of the system calls: the wrappers of \<^verbatim>\<open>include/user/sys/syscalls.h\<close>, which put a number
  and seven arguments into registers and execute \<open>ecall\<close>, and the ARINC 653 services of
  \<^verbatim>\<open>include/user/sys/services.h\<close>, which call a wrapper and store its result at \<open>return_code\<close>. An \<open>ecall\<close>
  is the number with the argument registers; a service is its \<open>ecall\<close> with the place for the result.
  Enumerations are unsigned 32-bit values, times are 64-bit two's complement.
\<close>

section \<open>Wrappers\<close>

type_synonym ecall = "u64 \<times> u64 list"
type_synonym service = "ecall \<times> u64 option"

definition syscall :: "u64 \<Rightarrow> u64 \<Rightarrow> u64 \<Rightarrow> u64 \<Rightarrow> u64 \<Rightarrow> u64 \<Rightarrow> u64 \<Rightarrow> u64 \<Rightarrow> ecall" where
  "syscall sysno arg0 arg1 arg2 arg3 arg4 arg5 arg6 = (sysno, [arg0, arg1, arg2, arg3, arg4, arg5, arg6])"

definition sys_cons_write_char :: "u32 \<Rightarrow> ecall" where
  "sys_cons_write_char ch =
     syscall SYS_CONS_WRITE_CHAR (scast ch) 0 0 0 0 0 0"

definition sys_cons_read_char :: "ecall" where
  "sys_cons_read_char =
     syscall SYS_CONS_READ_CHAR 0 0 0 0 0 0 0"

definition sys_cons_write_buf :: "u64 \<Rightarrow> u64 \<Rightarrow> ecall" where
  "sys_cons_write_buf buf len =
     syscall SYS_CONS_WRITE_BUF buf len 0 0 0 0 0"

definition sys_halt :: "ecall" where
  "sys_halt =
     syscall SYS_HALT 0 0 0 0 0 0 0"

definition sys_get_partition_status :: "u64 \<Rightarrow> ecall" where
  "sys_get_partition_status partition_status =
     syscall SYS_GET_PARTITION_STATUS partition_status 0 0 0 0 0 0"

definition sys_set_partition_mode :: "u32 \<Rightarrow> ecall" where
  "sys_set_partition_mode operating_mode =
     syscall SYS_SET_PARTITION_MODE (ucast operating_mode) 0 0 0 0 0 0"

definition sys_get_process_id :: "u64 \<Rightarrow> u64 \<Rightarrow> ecall" where
  "sys_get_process_id process_name process_id =
     syscall SYS_GET_PROCESS_ID process_name process_id 0 0 0 0 0"

definition sys_get_process_status :: "u64 \<Rightarrow> u64 \<Rightarrow> ecall" where
  "sys_get_process_status process_id process_status =
     syscall SYS_GET_PROCESS_STATUS process_id process_status 0 0 0 0 0"

definition sys_create_process :: "u64 \<Rightarrow> u64 \<Rightarrow> ecall" where
  "sys_create_process attributes process_id =
     syscall SYS_CREATE_PROCESS attributes process_id 0 0 0 0 0"

definition sys_set_priority :: "u64 \<Rightarrow> u64 \<Rightarrow> ecall" where
  "sys_set_priority process_id priority =
     syscall SYS_SET_PRIORITY process_id priority 0 0 0 0 0"

definition sys_suspend_self :: "sys_time \<Rightarrow> ecall" where
  "sys_suspend_self time_out =
     syscall SYS_SUSPEND_SELF (word_of_int time_out) 0 0 0 0 0 0"

definition sys_suspend :: "u64 \<Rightarrow> ecall" where
  "sys_suspend process_id =
     syscall SYS_SUSPEND process_id 0 0 0 0 0 0"

definition sys_resume :: "u64 \<Rightarrow> ecall" where
  "sys_resume process_id =
     syscall SYS_RESUME process_id 0 0 0 0 0 0"

definition sys_stop_self :: "ecall" where
  "sys_stop_self =
     syscall SYS_STOP_SELF 0 0 0 0 0 0 0"

definition sys_stop :: "u64 \<Rightarrow> ecall" where
  "sys_stop process_id =
     syscall SYS_STOP process_id 0 0 0 0 0 0"

definition sys_start :: "u64 \<Rightarrow> ecall" where
  "sys_start process_id =
     syscall SYS_START process_id 0 0 0 0 0 0"

definition sys_delayed_start :: "u64 \<Rightarrow> sys_time \<Rightarrow> ecall" where
  "sys_delayed_start process_id delay_time =
     syscall SYS_DELAYED_START process_id (word_of_int delay_time) 0 0 0 0 0"

definition sys_lock_preemption :: "u64 \<Rightarrow> ecall" where
  "sys_lock_preemption lock_level =
     syscall SYS_LOCK_PREEMPTION lock_level 0 0 0 0 0 0"

definition sys_unlock_preemption :: "u64 \<Rightarrow> ecall" where
  "sys_unlock_preemption lock_level =
     syscall SYS_UNLOCK_PREEMPTION lock_level 0 0 0 0 0 0"

definition sys_get_my_id :: "u64 \<Rightarrow> ecall" where
  "sys_get_my_id process_id =
     syscall SYS_GET_MY_ID process_id 0 0 0 0 0 0"

definition sys_initialize_process_core_affinity :: "u64 \<Rightarrow> u64 \<Rightarrow> ecall" where
  "sys_initialize_process_core_affinity process_id processor_core_id =
     syscall SYS_INITIALIZE_PROCESS_CORE_AFFINITY process_id processor_core_id 0 0 0 0 0"

definition sys_get_my_processor_core_id :: "u64 \<Rightarrow> ecall" where
  "sys_get_my_processor_core_id processor_core_id =
     syscall SYS_GET_MY_PROCESSOR_CORE_ID processor_core_id 0 0 0 0 0 0"

definition sys_get_my_index :: "u64 \<Rightarrow> ecall" where
  "sys_get_my_index process_index =
     syscall SYS_GET_MY_INDEX process_index 0 0 0 0 0 0"

definition sys_timed_wait :: "sys_time \<Rightarrow> ecall" where
  "sys_timed_wait delay_time =
     syscall SYS_TIMED_WAIT (word_of_int delay_time) 0 0 0 0 0 0"

definition sys_periodic_wait :: "ecall" where
  "sys_periodic_wait =
     syscall SYS_PERIODIC_WAIT 0 0 0 0 0 0 0"

definition sys_get_time :: "u64 \<Rightarrow> ecall" where
  "sys_get_time system_time =
     syscall SYS_GET_TIME system_time 0 0 0 0 0 0"

definition sys_replenish :: "sys_time \<Rightarrow> ecall" where
  "sys_replenish budget_time =
     syscall SYS_REPLENISH (word_of_int budget_time) 0 0 0 0 0 0"

definition sys_create_sampling_port :: "u64 \<Rightarrow> u64 \<Rightarrow> u32 \<Rightarrow> sys_time \<Rightarrow> u64 \<Rightarrow> ecall" where
  "sys_create_sampling_port sampling_port_name max_message_size port_direction refresh_period sampling_port_id =
     syscall SYS_CREATE_SAMPLING_PORT sampling_port_name max_message_size (ucast port_direction) (word_of_int refresh_period) sampling_port_id 0 0"

definition sys_write_sampling_message :: "u64 \<Rightarrow> u64 \<Rightarrow> u64 \<Rightarrow> ecall" where
  "sys_write_sampling_message sampling_port_id message_addr len =
     syscall SYS_WRITE_SAMPLING_MESSAGE sampling_port_id message_addr len 0 0 0 0"

definition sys_read_sampling_message :: "u64 \<Rightarrow> u64 \<Rightarrow> u64 \<Rightarrow> u64 \<Rightarrow> ecall" where
  "sys_read_sampling_message sampling_port_id message_addr len validity =
     syscall SYS_READ_SAMPLING_MESSAGE sampling_port_id message_addr 0 len validity 0 0"

definition sys_get_sampling_port_id :: "u64 \<Rightarrow> u64 \<Rightarrow> ecall" where
  "sys_get_sampling_port_id sampling_port_name sampling_port_id =
     syscall SYS_GET_SAMPLING_PORT_ID sampling_port_name sampling_port_id 0 0 0 0 0"

definition sys_get_sampling_port_status :: "u64 \<Rightarrow> u64 \<Rightarrow> ecall" where
  "sys_get_sampling_port_status sampling_port_id sampling_port_status =
     syscall SYS_GET_SAMPLING_PORT_STATUS sampling_port_id sampling_port_status 0 0 0 0 0"

definition sys_create_queuing_port :: "u64 \<Rightarrow> u64 \<Rightarrow> u64 \<Rightarrow> u32 \<Rightarrow> u32 \<Rightarrow> u64 \<Rightarrow> ecall" where
  "sys_create_queuing_port queuing_port_name max_message_size max_nb_message port_direction queuing_discipline queuing_port_id =
     syscall SYS_CREATE_QUEUING_PORT queuing_port_name max_message_size max_nb_message (ucast port_direction) (ucast queuing_discipline) queuing_port_id 0"

definition sys_send_queuing_message :: "u64 \<Rightarrow> u64 \<Rightarrow> u64 \<Rightarrow> sys_time \<Rightarrow> ecall" where
  "sys_send_queuing_message queuing_port_id message_addr len time_out =
     syscall SYS_SEND_QUEUING_MESSAGE queuing_port_id message_addr len (word_of_int time_out) 0 0 0"

definition sys_receive_queuing_message :: "u64 \<Rightarrow> sys_time \<Rightarrow> u64 \<Rightarrow> u64 \<Rightarrow> ecall" where
  "sys_receive_queuing_message queuing_port_id time_out message_addr len =
     syscall SYS_RECEIVE_QUEUING_MESSAGE queuing_port_id (word_of_int time_out) message_addr len 0 0 0"

definition sys_get_queuing_port_id :: "u64 \<Rightarrow> u64 \<Rightarrow> ecall" where
  "sys_get_queuing_port_id queuing_port_name queuing_port_id =
     syscall SYS_GET_QUEUING_PORT_ID queuing_port_name queuing_port_id 0 0 0 0 0"

definition sys_get_queuing_port_status :: "u64 \<Rightarrow> u64 \<Rightarrow> ecall" where
  "sys_get_queuing_port_status queuing_port_id queuing_port_status =
     syscall SYS_GET_QUEUING_PORT_STATUS queuing_port_id queuing_port_status 0 0 0 0 0"

definition sys_clear_queuing_port :: "u64 \<Rightarrow> ecall" where
  "sys_clear_queuing_port queuing_port_id =
     syscall SYS_CLEAR_QUEUING_PORT queuing_port_id 0 0 0 0 0 0"

definition sys_create_buffer :: "u64 \<Rightarrow> u64 \<Rightarrow> u64 \<Rightarrow> u32 \<Rightarrow> u64 \<Rightarrow> ecall" where
  "sys_create_buffer buffer_name max_message_size max_nb_message queuing_discipline buffer_id =
     syscall SYS_CREATE_BUFFER buffer_name max_message_size max_nb_message (ucast queuing_discipline) buffer_id 0 0"

definition sys_send_buffer :: "u64 \<Rightarrow> u64 \<Rightarrow> u64 \<Rightarrow> sys_time \<Rightarrow> ecall" where
  "sys_send_buffer buffer_id message_addr len time_out =
     syscall SYS_SEND_BUFFER buffer_id message_addr len (word_of_int time_out) 0 0 0"

definition sys_receive_buffer :: "u64 \<Rightarrow> sys_time \<Rightarrow> u64 \<Rightarrow> u64 \<Rightarrow> ecall" where
  "sys_receive_buffer buffer_id time_out message_addr len =
     syscall SYS_RECEIVE_BUFFER buffer_id (word_of_int time_out) message_addr len 0 0 0"

definition sys_get_buffer_id :: "u64 \<Rightarrow> u64 \<Rightarrow> ecall" where
  "sys_get_buffer_id buffer_name buffer_id =
     syscall SYS_GET_BUFFER_ID buffer_name buffer_id 0 0 0 0 0"

definition sys_get_buffer_status :: "u64 \<Rightarrow> u64 \<Rightarrow> ecall" where
  "sys_get_buffer_status buffer_id buffer_status =
     syscall SYS_GET_BUFFER_STATUS buffer_id buffer_status 0 0 0 0 0"

definition sys_create_blackboard :: "u64 \<Rightarrow> u64 \<Rightarrow> u64 \<Rightarrow> ecall" where
  "sys_create_blackboard blackboard_name max_message_size blackboard_id =
     syscall SYS_CREATE_BLACKBOARD blackboard_name max_message_size blackboard_id 0 0 0 0"

definition sys_display_blackboard :: "u64 \<Rightarrow> u64 \<Rightarrow> u64 \<Rightarrow> ecall" where
  "sys_display_blackboard blackboard_id message_addr len =
     syscall SYS_DISPLAY_BLACKBOARD blackboard_id message_addr len 0 0 0 0"

definition sys_read_blackboard :: "u64 \<Rightarrow> sys_time \<Rightarrow> u64 \<Rightarrow> u64 \<Rightarrow> ecall" where
  "sys_read_blackboard blackboard_id time_out message_addr len =
     syscall SYS_READ_BLACKBOARD blackboard_id (word_of_int time_out) message_addr len 0 0 0"

definition sys_clear_blackboard :: "u64 \<Rightarrow> ecall" where
  "sys_clear_blackboard blackboard_id =
     syscall SYS_CLEAR_BLACKBOARD blackboard_id 0 0 0 0 0 0"

definition sys_get_blackboard_id :: "u64 \<Rightarrow> u64 \<Rightarrow> ecall" where
  "sys_get_blackboard_id blackboard_name blackboard_id =
     syscall SYS_GET_BLACKBOARD_ID blackboard_name blackboard_id 0 0 0 0 0"

definition sys_get_blackboard_status :: "u64 \<Rightarrow> u64 \<Rightarrow> ecall" where
  "sys_get_blackboard_status blackboard_id blackboard_status =
     syscall SYS_GET_BLACKBOARD_STATUS blackboard_id blackboard_status 0 0 0 0 0"

definition sys_create_semaphore :: "u64 \<Rightarrow> u64 \<Rightarrow> u64 \<Rightarrow> u32 \<Rightarrow> u64 \<Rightarrow> ecall" where
  "sys_create_semaphore semaphore_name current_value maximum_value queuing_discipline semaphore_id =
     syscall SYS_CREATE_SEMAPHORE semaphore_name current_value maximum_value (ucast queuing_discipline) semaphore_id 0 0"

definition sys_wait_semaphore :: "u64 \<Rightarrow> sys_time \<Rightarrow> ecall" where
  "sys_wait_semaphore semaphore_id time_out =
     syscall SYS_WAIT_SEMAPHORE semaphore_id (word_of_int time_out) 0 0 0 0 0"

definition sys_signal_semaphore :: "u64 \<Rightarrow> ecall" where
  "sys_signal_semaphore semaphore_id =
     syscall SYS_SIGNAL_SEMAPHORE semaphore_id 0 0 0 0 0 0"

definition sys_get_semaphore_id :: "u64 \<Rightarrow> u64 \<Rightarrow> ecall" where
  "sys_get_semaphore_id semaphore_name semaphore_id =
     syscall SYS_GET_SEMAPHORE_ID semaphore_name semaphore_id 0 0 0 0 0"

definition sys_get_semaphore_status :: "u64 \<Rightarrow> u64 \<Rightarrow> ecall" where
  "sys_get_semaphore_status semaphore_id semaphore_status =
     syscall SYS_GET_SEMAPHORE_STATUS semaphore_id semaphore_status 0 0 0 0 0"

definition sys_create_event :: "u64 \<Rightarrow> u64 \<Rightarrow> ecall" where
  "sys_create_event event_name event_id =
     syscall SYS_CREATE_EVENT event_name event_id 0 0 0 0 0"

definition sys_set_event :: "u64 \<Rightarrow> ecall" where
  "sys_set_event event_id =
     syscall SYS_SET_EVENT event_id 0 0 0 0 0 0"

definition sys_reset_event :: "u64 \<Rightarrow> ecall" where
  "sys_reset_event event_id =
     syscall SYS_RESET_EVENT event_id 0 0 0 0 0 0"

definition sys_wait_event :: "u64 \<Rightarrow> sys_time \<Rightarrow> ecall" where
  "sys_wait_event event_id time_out =
     syscall SYS_WAIT_EVENT event_id (word_of_int time_out) 0 0 0 0 0"

definition sys_get_event_id :: "u64 \<Rightarrow> u64 \<Rightarrow> ecall" where
  "sys_get_event_id event_name event_id =
     syscall SYS_GET_EVENT_ID event_name event_id 0 0 0 0 0"

definition sys_get_event_status :: "u64 \<Rightarrow> u64 \<Rightarrow> ecall" where
  "sys_get_event_status event_id event_status =
     syscall SYS_GET_EVENT_STATUS event_id event_status 0 0 0 0 0"

definition sys_create_mutex :: "u64 \<Rightarrow> u64 \<Rightarrow> u32 \<Rightarrow> u64 \<Rightarrow> ecall" where
  "sys_create_mutex mutex_name mutex_priority queuing_discipline mutex_id =
     syscall SYS_CREATE_MUTEX mutex_name mutex_priority (ucast queuing_discipline) mutex_id 0 0 0"

definition sys_acquire_mutex :: "u64 \<Rightarrow> sys_time \<Rightarrow> ecall" where
  "sys_acquire_mutex mutex_id time_out =
     syscall SYS_ACQUIRE_MUTEX mutex_id (word_of_int time_out) 0 0 0 0 0"

definition sys_release_mutex :: "u64 \<Rightarrow> ecall" where
  "sys_release_mutex mutex_id =
     syscall SYS_RELEASE_MUTEX mutex_id 0 0 0 0 0 0"

definition sys_reset_mutex :: "u64 \<Rightarrow> u64 \<Rightarrow> ecall" where
  "sys_reset_mutex mutex_id process_id =
     syscall SYS_RESET_MUTEX mutex_id process_id 0 0 0 0 0"

definition sys_get_mutex_id :: "u64 \<Rightarrow> u64 \<Rightarrow> ecall" where
  "sys_get_mutex_id mutex_name mutex_id =
     syscall SYS_GET_MUTEX_ID mutex_name mutex_id 0 0 0 0 0"

definition sys_get_mutex_status :: "u64 \<Rightarrow> u64 \<Rightarrow> ecall" where
  "sys_get_mutex_status mutex_id mutex_status =
     syscall SYS_GET_MUTEX_STATUS mutex_id mutex_status 0 0 0 0 0"

definition sys_get_process_mutex_state :: "u64 \<Rightarrow> u64 \<Rightarrow> ecall" where
  "sys_get_process_mutex_state process_id mutex_id =
     syscall SYS_GET_PROCESS_MUTEX_STATE process_id mutex_id 0 0 0 0 0"

section \<open>Services\<close>

definition GET_PARTITION_STATUS :: "u64 \<Rightarrow> u64 \<Rightarrow> service" where
  "GET_PARTITION_STATUS partition_status return_code = (sys_get_partition_status partition_status, Some return_code)"

definition SET_PARTITION_MODE :: "u32 \<Rightarrow> u64 \<Rightarrow> service" where
  "SET_PARTITION_MODE operating_mode return_code = (sys_set_partition_mode operating_mode, Some return_code)"

definition GET_PROCESS_ID :: "u64 \<Rightarrow> u64 \<Rightarrow> u64 \<Rightarrow> service" where
  "GET_PROCESS_ID process_name process_id return_code = (sys_get_process_id process_name process_id, Some return_code)"

definition GET_PROCESS_STATUS :: "u64 \<Rightarrow> u64 \<Rightarrow> u64 \<Rightarrow> service" where
  "GET_PROCESS_STATUS process_id process_status return_code = (sys_get_process_status process_id process_status, Some return_code)"

definition CREATE_PROCESS :: "u64 \<Rightarrow> u64 \<Rightarrow> u64 \<Rightarrow> service" where
  "CREATE_PROCESS attributes process_id return_code = (sys_create_process attributes process_id, Some return_code)"

definition SET_PRIORITY :: "u64 \<Rightarrow> u64 \<Rightarrow> u64 \<Rightarrow> service" where
  "SET_PRIORITY process_id priority return_code = (sys_set_priority process_id priority, Some return_code)"

definition SUSPEND_SELF :: "sys_time \<Rightarrow> u64 \<Rightarrow> service" where
  "SUSPEND_SELF time_out return_code = (sys_suspend_self time_out, Some return_code)"

definition SUSPEND :: "u64 \<Rightarrow> u64 \<Rightarrow> service" where
  "SUSPEND process_id return_code = (sys_suspend process_id, Some return_code)"

definition RESUME :: "u64 \<Rightarrow> u64 \<Rightarrow> service" where
  "RESUME process_id return_code = (sys_resume process_id, Some return_code)"

definition STOP_SELF :: "service" where
  "STOP_SELF = (sys_stop_self, None)"

definition STOP :: "u64 \<Rightarrow> u64 \<Rightarrow> service" where
  "STOP process_id return_code = (sys_stop process_id, Some return_code)"

definition START :: "u64 \<Rightarrow> u64 \<Rightarrow> service" where
  "START process_id return_code = (sys_start process_id, Some return_code)"

definition DELAYED_START :: "u64 \<Rightarrow> sys_time \<Rightarrow> u64 \<Rightarrow> service" where
  "DELAYED_START process_id delay_time return_code = (sys_delayed_start process_id delay_time, Some return_code)"

definition LOCK_PREEMPTION :: "u64 \<Rightarrow> u64 \<Rightarrow> service" where
  "LOCK_PREEMPTION lock_level return_code = (sys_lock_preemption lock_level, Some return_code)"

definition UNLOCK_PREEMPTION :: "u64 \<Rightarrow> u64 \<Rightarrow> service" where
  "UNLOCK_PREEMPTION lock_level return_code = (sys_unlock_preemption lock_level, Some return_code)"

definition GET_MY_ID :: "u64 \<Rightarrow> u64 \<Rightarrow> service" where
  "GET_MY_ID process_id return_code = (sys_get_my_id process_id, Some return_code)"

definition INITIALIZE_PROCESS_CORE_AFFINITY :: "u64 \<Rightarrow> u64 \<Rightarrow> u64 \<Rightarrow> service" where
  "INITIALIZE_PROCESS_CORE_AFFINITY process_id processor_core_id return_code = (sys_initialize_process_core_affinity process_id processor_core_id, Some return_code)"

definition GET_MY_PROCESSOR_CORE_ID :: "u64 \<Rightarrow> u64 \<Rightarrow> service" where
  "GET_MY_PROCESSOR_CORE_ID processor_core_id return_code = (sys_get_my_processor_core_id processor_core_id, Some return_code)"

definition GET_MY_INDEX :: "u64 \<Rightarrow> u64 \<Rightarrow> service" where
  "GET_MY_INDEX process_index return_code = (sys_get_my_index process_index, Some return_code)"

definition TIMED_WAIT :: "sys_time \<Rightarrow> u64 \<Rightarrow> service" where
  "TIMED_WAIT delay_time return_code = (sys_timed_wait delay_time, Some return_code)"

definition PERIODIC_WAIT :: "u64 \<Rightarrow> service" where
  "PERIODIC_WAIT return_code = (sys_periodic_wait, Some return_code)"

definition GET_TIME :: "u64 \<Rightarrow> u64 \<Rightarrow> service" where
  "GET_TIME system_time return_code = (sys_get_time system_time, Some return_code)"

definition REPLENISH :: "sys_time \<Rightarrow> u64 \<Rightarrow> service" where
  "REPLENISH budget_time return_code = (sys_replenish budget_time, Some return_code)"

definition CREATE_SAMPLING_PORT :: "u64 \<Rightarrow> u64 \<Rightarrow> u32 \<Rightarrow> sys_time \<Rightarrow> u64 \<Rightarrow> u64 \<Rightarrow> service" where
  "CREATE_SAMPLING_PORT sampling_port_name max_message_size port_direction refresh_period sampling_port_id return_code = (sys_create_sampling_port sampling_port_name max_message_size port_direction refresh_period sampling_port_id, Some return_code)"

definition WRITE_SAMPLING_MESSAGE :: "u64 \<Rightarrow> u64 \<Rightarrow> u64 \<Rightarrow> u64 \<Rightarrow> service" where
  "WRITE_SAMPLING_MESSAGE sampling_port_id message_addr len return_code = (sys_write_sampling_message sampling_port_id message_addr len, Some return_code)"

definition READ_SAMPLING_MESSAGE :: "u64 \<Rightarrow> u64 \<Rightarrow> u64 \<Rightarrow> u64 \<Rightarrow> u64 \<Rightarrow> service" where
  "READ_SAMPLING_MESSAGE sampling_port_id message_addr len validity return_code = (sys_read_sampling_message sampling_port_id message_addr len validity, Some return_code)"

definition GET_SAMPLING_PORT_ID :: "u64 \<Rightarrow> u64 \<Rightarrow> u64 \<Rightarrow> service" where
  "GET_SAMPLING_PORT_ID sampling_port_name sampling_port_id return_code = (sys_get_sampling_port_id sampling_port_name sampling_port_id, Some return_code)"

definition GET_SAMPLING_PORT_STATUS :: "u64 \<Rightarrow> u64 \<Rightarrow> u64 \<Rightarrow> service" where
  "GET_SAMPLING_PORT_STATUS sampling_port_id sampling_port_status return_code = (sys_get_sampling_port_status sampling_port_id sampling_port_status, Some return_code)"

definition CREATE_QUEUING_PORT :: "u64 \<Rightarrow> u64 \<Rightarrow> u64 \<Rightarrow> u32 \<Rightarrow> u32 \<Rightarrow> u64 \<Rightarrow> u64 \<Rightarrow> service" where
  "CREATE_QUEUING_PORT queuing_port_name max_message_size max_nb_message port_direction queuing_discipline queuing_port_id return_code = (sys_create_queuing_port queuing_port_name max_message_size max_nb_message port_direction queuing_discipline queuing_port_id, Some return_code)"

definition SEND_QUEUING_MESSAGE :: "u64 \<Rightarrow> u64 \<Rightarrow> u64 \<Rightarrow> sys_time \<Rightarrow> u64 \<Rightarrow> service" where
  "SEND_QUEUING_MESSAGE queuing_port_id message_addr len time_out return_code = (sys_send_queuing_message queuing_port_id message_addr len time_out, Some return_code)"

definition RECEIVE_QUEUING_MESSAGE :: "u64 \<Rightarrow> sys_time \<Rightarrow> u64 \<Rightarrow> u64 \<Rightarrow> u64 \<Rightarrow> service" where
  "RECEIVE_QUEUING_MESSAGE queuing_port_id time_out message_addr len return_code = (sys_receive_queuing_message queuing_port_id time_out message_addr len, Some return_code)"

definition GET_QUEUING_PORT_ID :: "u64 \<Rightarrow> u64 \<Rightarrow> u64 \<Rightarrow> service" where
  "GET_QUEUING_PORT_ID queuing_port_name queuing_port_id return_code = (sys_get_queuing_port_id queuing_port_name queuing_port_id, Some return_code)"

definition GET_QUEUING_PORT_STATUS :: "u64 \<Rightarrow> u64 \<Rightarrow> u64 \<Rightarrow> service" where
  "GET_QUEUING_PORT_STATUS queuing_port_id queuing_port_status return_code = (sys_get_queuing_port_status queuing_port_id queuing_port_status, Some return_code)"

definition CLEAR_QUEUING_PORT :: "u64 \<Rightarrow> u64 \<Rightarrow> service" where
  "CLEAR_QUEUING_PORT queuing_port_id return_code = (sys_clear_queuing_port queuing_port_id, Some return_code)"

definition CREATE_BUFFER :: "u64 \<Rightarrow> u64 \<Rightarrow> u64 \<Rightarrow> u32 \<Rightarrow> u64 \<Rightarrow> u64 \<Rightarrow> service" where
  "CREATE_BUFFER buffer_name max_message_size max_nb_message queuing_discipline buffer_id return_code = (sys_create_buffer buffer_name max_message_size max_nb_message queuing_discipline buffer_id, Some return_code)"

definition SEND_BUFFER :: "u64 \<Rightarrow> u64 \<Rightarrow> u64 \<Rightarrow> sys_time \<Rightarrow> u64 \<Rightarrow> service" where
  "SEND_BUFFER buffer_id message_addr len time_out return_code = (sys_send_buffer buffer_id message_addr len time_out, Some return_code)"

definition RECEIVE_BUFFER :: "u64 \<Rightarrow> sys_time \<Rightarrow> u64 \<Rightarrow> u64 \<Rightarrow> u64 \<Rightarrow> service" where
  "RECEIVE_BUFFER buffer_id time_out message_addr len return_code = (sys_receive_buffer buffer_id time_out message_addr len, Some return_code)"

definition GET_BUFFER_ID :: "u64 \<Rightarrow> u64 \<Rightarrow> u64 \<Rightarrow> service" where
  "GET_BUFFER_ID buffer_name buffer_id return_code = (sys_get_buffer_id buffer_name buffer_id, Some return_code)"

definition GET_BUFFER_STATUS :: "u64 \<Rightarrow> u64 \<Rightarrow> u64 \<Rightarrow> service" where
  "GET_BUFFER_STATUS buffer_id buffer_status return_code = (sys_get_buffer_status buffer_id buffer_status, Some return_code)"

definition CREATE_BLACKBOARD :: "u64 \<Rightarrow> u64 \<Rightarrow> u64 \<Rightarrow> u64 \<Rightarrow> service" where
  "CREATE_BLACKBOARD blackboard_name max_message_size blackboard_id return_code = (sys_create_blackboard blackboard_name max_message_size blackboard_id, Some return_code)"

definition DISPLAY_BLACKBOARD :: "u64 \<Rightarrow> u64 \<Rightarrow> u64 \<Rightarrow> u64 \<Rightarrow> service" where
  "DISPLAY_BLACKBOARD blackboard_id message_addr len return_code = (sys_display_blackboard blackboard_id message_addr len, Some return_code)"

definition READ_BLACKBOARD :: "u64 \<Rightarrow> sys_time \<Rightarrow> u64 \<Rightarrow> u64 \<Rightarrow> u64 \<Rightarrow> service" where
  "READ_BLACKBOARD blackboard_id time_out message_addr len return_code = (sys_read_blackboard blackboard_id time_out message_addr len, Some return_code)"

definition CLEAR_BLACKBOARD :: "u64 \<Rightarrow> u64 \<Rightarrow> service" where
  "CLEAR_BLACKBOARD blackboard_id return_code = (sys_clear_blackboard blackboard_id, Some return_code)"

definition GET_BLACKBOARD_ID :: "u64 \<Rightarrow> u64 \<Rightarrow> u64 \<Rightarrow> service" where
  "GET_BLACKBOARD_ID blackboard_name blackboard_id return_code = (sys_get_blackboard_id blackboard_name blackboard_id, Some return_code)"

definition GET_BLACKBOARD_STATUS :: "u64 \<Rightarrow> u64 \<Rightarrow> u64 \<Rightarrow> service" where
  "GET_BLACKBOARD_STATUS blackboard_id blackboard_status return_code = (sys_get_blackboard_status blackboard_id blackboard_status, Some return_code)"

definition CREATE_SEMAPHORE :: "u64 \<Rightarrow> u64 \<Rightarrow> u64 \<Rightarrow> u32 \<Rightarrow> u64 \<Rightarrow> u64 \<Rightarrow> service" where
  "CREATE_SEMAPHORE semaphore_name current_value maximum_value queuing_discipline semaphore_id return_code = (sys_create_semaphore semaphore_name current_value maximum_value queuing_discipline semaphore_id, Some return_code)"

definition WAIT_SEMAPHORE :: "u64 \<Rightarrow> sys_time \<Rightarrow> u64 \<Rightarrow> service" where
  "WAIT_SEMAPHORE semaphore_id time_out return_code = (sys_wait_semaphore semaphore_id time_out, Some return_code)"

definition SIGNAL_SEMAPHORE :: "u64 \<Rightarrow> u64 \<Rightarrow> service" where
  "SIGNAL_SEMAPHORE semaphore_id return_code = (sys_signal_semaphore semaphore_id, Some return_code)"

definition GET_SEMAPHORE_ID :: "u64 \<Rightarrow> u64 \<Rightarrow> u64 \<Rightarrow> service" where
  "GET_SEMAPHORE_ID semaphore_name semaphore_id return_code = (sys_get_semaphore_id semaphore_name semaphore_id, Some return_code)"

definition GET_SEMAPHORE_STATUS :: "u64 \<Rightarrow> u64 \<Rightarrow> u64 \<Rightarrow> service" where
  "GET_SEMAPHORE_STATUS semaphore_id semaphore_status return_code = (sys_get_semaphore_status semaphore_id semaphore_status, Some return_code)"

definition CREATE_EVENT :: "u64 \<Rightarrow> u64 \<Rightarrow> u64 \<Rightarrow> service" where
  "CREATE_EVENT event_name event_id return_code = (sys_create_event event_name event_id, Some return_code)"

definition SET_EVENT :: "u64 \<Rightarrow> u64 \<Rightarrow> service" where
  "SET_EVENT event_id return_code = (sys_set_event event_id, Some return_code)"

definition RESET_EVENT :: "u64 \<Rightarrow> u64 \<Rightarrow> service" where
  "RESET_EVENT event_id return_code = (sys_reset_event event_id, Some return_code)"

definition WAIT_EVENT :: "u64 \<Rightarrow> sys_time \<Rightarrow> u64 \<Rightarrow> service" where
  "WAIT_EVENT event_id time_out return_code = (sys_wait_event event_id time_out, Some return_code)"

definition GET_EVENT_ID :: "u64 \<Rightarrow> u64 \<Rightarrow> u64 \<Rightarrow> service" where
  "GET_EVENT_ID event_name event_id return_code = (sys_get_event_id event_name event_id, Some return_code)"

definition GET_EVENT_STATUS :: "u64 \<Rightarrow> u64 \<Rightarrow> u64 \<Rightarrow> service" where
  "GET_EVENT_STATUS event_id event_status return_code = (sys_get_event_status event_id event_status, Some return_code)"

definition CREATE_MUTEX :: "u64 \<Rightarrow> u64 \<Rightarrow> u32 \<Rightarrow> u64 \<Rightarrow> u64 \<Rightarrow> service" where
  "CREATE_MUTEX mutex_name mutex_priority queuing_discipline mutex_id return_code = (sys_create_mutex mutex_name mutex_priority queuing_discipline mutex_id, Some return_code)"

definition ACQUIRE_MUTEX :: "u64 \<Rightarrow> sys_time \<Rightarrow> u64 \<Rightarrow> service" where
  "ACQUIRE_MUTEX mutex_id time_out return_code = (sys_acquire_mutex mutex_id time_out, Some return_code)"

definition RELEASE_MUTEX :: "u64 \<Rightarrow> u64 \<Rightarrow> service" where
  "RELEASE_MUTEX mutex_id return_code = (sys_release_mutex mutex_id, Some return_code)"

definition RESET_MUTEX :: "u64 \<Rightarrow> u64 \<Rightarrow> u64 \<Rightarrow> service" where
  "RESET_MUTEX mutex_id process_id return_code = (sys_reset_mutex mutex_id process_id, Some return_code)"

definition GET_MUTEX_ID :: "u64 \<Rightarrow> u64 \<Rightarrow> u64 \<Rightarrow> service" where
  "GET_MUTEX_ID mutex_name mutex_id return_code = (sys_get_mutex_id mutex_name mutex_id, Some return_code)"

definition GET_MUTEX_STATUS :: "u64 \<Rightarrow> u64 \<Rightarrow> u64 \<Rightarrow> service" where
  "GET_MUTEX_STATUS mutex_id mutex_status return_code = (sys_get_mutex_status mutex_id mutex_status, Some return_code)"

definition GET_PROCESS_MUTEX_STATE :: "u64 \<Rightarrow> u64 \<Rightarrow> u64 \<Rightarrow> service" where
  "GET_PROCESS_MUTEX_STATE process_id mutex_id return_code = (sys_get_process_mutex_state process_id mutex_id, Some return_code)"

lemmas wrapper_defs =
  sys_cons_write_char_def sys_cons_read_char_def sys_cons_write_buf_def sys_halt_def
  sys_get_partition_status_def sys_set_partition_mode_def sys_get_process_id_def sys_get_process_status_def
  sys_create_process_def sys_set_priority_def sys_suspend_self_def sys_suspend_def
  sys_resume_def sys_stop_self_def sys_stop_def sys_start_def
  sys_delayed_start_def sys_lock_preemption_def sys_unlock_preemption_def sys_get_my_id_def
  sys_initialize_process_core_affinity_def sys_get_my_processor_core_id_def sys_get_my_index_def sys_timed_wait_def
  sys_periodic_wait_def sys_get_time_def sys_replenish_def sys_create_sampling_port_def
  sys_write_sampling_message_def sys_read_sampling_message_def sys_get_sampling_port_id_def sys_get_sampling_port_status_def
  sys_create_queuing_port_def sys_send_queuing_message_def sys_receive_queuing_message_def sys_get_queuing_port_id_def
  sys_get_queuing_port_status_def sys_clear_queuing_port_def sys_create_buffer_def sys_send_buffer_def
  sys_receive_buffer_def sys_get_buffer_id_def sys_get_buffer_status_def sys_create_blackboard_def
  sys_display_blackboard_def sys_read_blackboard_def sys_clear_blackboard_def sys_get_blackboard_id_def
  sys_get_blackboard_status_def sys_create_semaphore_def sys_wait_semaphore_def sys_signal_semaphore_def
  sys_get_semaphore_id_def sys_get_semaphore_status_def sys_create_event_def sys_set_event_def
  sys_reset_event_def sys_wait_event_def sys_get_event_id_def sys_get_event_status_def
  sys_create_mutex_def sys_acquire_mutex_def sys_release_mutex_def sys_reset_mutex_def
  sys_get_mutex_id_def sys_get_mutex_status_def sys_get_process_mutex_state_def

lemmas service_defs =
  GET_PARTITION_STATUS_def SET_PARTITION_MODE_def GET_PROCESS_ID_def GET_PROCESS_STATUS_def
  CREATE_PROCESS_def SET_PRIORITY_def SUSPEND_SELF_def SUSPEND_def
  RESUME_def STOP_SELF_def STOP_def START_def
  DELAYED_START_def LOCK_PREEMPTION_def UNLOCK_PREEMPTION_def GET_MY_ID_def
  INITIALIZE_PROCESS_CORE_AFFINITY_def GET_MY_PROCESSOR_CORE_ID_def GET_MY_INDEX_def TIMED_WAIT_def
  PERIODIC_WAIT_def GET_TIME_def REPLENISH_def CREATE_SAMPLING_PORT_def
  WRITE_SAMPLING_MESSAGE_def READ_SAMPLING_MESSAGE_def GET_SAMPLING_PORT_ID_def GET_SAMPLING_PORT_STATUS_def
  CREATE_QUEUING_PORT_def SEND_QUEUING_MESSAGE_def RECEIVE_QUEUING_MESSAGE_def GET_QUEUING_PORT_ID_def
  GET_QUEUING_PORT_STATUS_def CLEAR_QUEUING_PORT_def CREATE_BUFFER_def SEND_BUFFER_def
  RECEIVE_BUFFER_def GET_BUFFER_ID_def GET_BUFFER_STATUS_def CREATE_BLACKBOARD_def
  DISPLAY_BLACKBOARD_def READ_BLACKBOARD_def CLEAR_BLACKBOARD_def GET_BLACKBOARD_ID_def
  GET_BLACKBOARD_STATUS_def CREATE_SEMAPHORE_def WAIT_SEMAPHORE_def SIGNAL_SEMAPHORE_def
  GET_SEMAPHORE_ID_def GET_SEMAPHORE_STATUS_def CREATE_EVENT_def SET_EVENT_def
  RESET_EVENT_def WAIT_EVENT_def GET_EVENT_ID_def GET_EVENT_STATUS_def
  CREATE_MUTEX_def ACQUIRE_MUTEX_def RELEASE_MUTEX_def RESET_MUTEX_def
  GET_MUTEX_ID_def GET_MUTEX_STATUS_def GET_PROCESS_MUTEX_STATE_def

section \<open>From the services to the handlers\<close>

text \<open>
  The registers as the wrapper leaves them, the state in which the handler runs (\<open>ctx_sepc\<close> is past the
  \<open>ecall\<close>), and the call of a service from the context \<open>c\<close>.
\<close>

definition load_ecall :: "ecall \<Rightarrow> trap_context \<Rightarrow> trap_context" where
  "load_ecall e x = fold (\<lambda>i. set_reg_a i (snd e ! i)) [0..<7] (set_reg_a 7 (fst e) x)"

definition user_call :: "clock \<Rightarrow> nat \<Rightarrow> service \<Rightarrow> kst \<Rightarrow> kst \<times> outcome" where
  "user_call clk c sv s = do_syscall clk c (upd_ctx c (load_ecall (fst sv)) s)"

definition reaches :: "clock \<Rightarrow> nat \<Rightarrow> kst \<Rightarrow> service \<Rightarrow> (kst \<Rightarrow> kst \<times> outcome) \<Rightarrow> bool" where
  "reaches clk c s sv h \<longleftrightarrow> user_call clk c sv s =
     syscall_return c (h (upd_ctx c (\<lambda>x. x\<lparr>ctx_sepc := ctx_sepc x + 4\<rparr>) (upd_ctx c (load_ecall (fst sv)) s)))"

lemma sint_of_time: "- (2 ^ 63) \<le> t \<Longrightarrow> t < 2 ^ 63 \<Longrightarrow> sint (word_of_int t :: u64) = t"
  by (simp add: sint_sbintrunc' signed_take_bit_int_eq_self)

lemma enum_register: "ucast (ucast d :: u64) = (d :: u32)"
  by (rule bit_word_eqI) (simp add: bit_simps)

lemma reg_a_load:
  assumes "length (ctx_regs x) = 32" "length (snd e) = 7"
  shows "reg_a (load_ecall e x) 7 = fst e" and "i < 7 \<Longrightarrow> reg_a (load_ecall e x) i = snd e ! i"
proof -
  have l: "[0..<7] = [0, 1, 2, 3, 4, 5, 6 :: nat]" by (simp add: upt_rec)
  show "reg_a (load_ecall e x) 7 = fst e" using assms by (simp add: load_ecall_def l reg_a_def set_reg_a_def)
  assume "i < 7"
  then have "i \<in> {0, 1, 2, 3, 4, 5, 6}" by auto
  then show "reg_a (load_ecall e x) i = snd e ! i" using assms by (auto simp: load_ecall_def l reg_a_def set_reg_a_def)
qed

text \<open>The dispatch looks at six arguments only.\<close>

lemma syscall_switch_args:
  assumes "\<And>i. i < 6 \<Longrightarrow> a i = b i"
  shows "syscall_switch clk n a s = syscall_switch clk n b s"
proof -
  have "a 0 = b 0" "a 1 = b 1" "a 2 = b 2" "a 3 = b 3" "a 4 = b 4" "a 5 = b 5" by (simp_all add: assms)
  then show ?thesis unfolding syscall_switch_def by (simp only: )
qed

lemma reachesI:
  assumes "c < length (k_contexts s)" "length (ctx_regs (k_contexts s ! c)) = 32" "length (snd (fst sv)) = 7"
    and "\<And>t. syscall_switch clk (fst (fst sv)) (\<lambda>i. snd (fst sv) ! i) t = h t"
  shows "reaches clk c s sv h"
proof -
  let ?x = "load_ecall (fst sv) (k_contexts s ! c)"
  let ?t = "upd_ctx c (\<lambda>x. x\<lparr>ctx_sepc := ctx_sepc x + 4\<rparr>) (upd_ctx c (load_ecall (fst sv)) s)"
  have regs: "reg_a (k_contexts ?t ! c) = reg_a ?x" using assms(1) by (simp add: upd_ctx_def reg_a_def fun_eq_iff)
  have "syscall_switch clk (reg_a ?x 7) (reg_a ?x) ?t = syscall_switch clk (fst (fst sv)) (\<lambda>i. snd (fst sv) ! i) ?t"
    unfolding reg_a_load(1) [OF assms(2,3)] by (rule syscall_switch_args) (simp add: reg_a_load(2) [OF assms(2,3)])
  then show ?thesis by (simp add: reaches_def user_call_def do_syscall_def Let_def regs assms(4))
qed

text \<open>
  C6 (equivalence). Every ARINC 653 service the kernel implements reaches its handler, from the C function
  the user calls over the register convention of the wrappers and the number of the call to the dispatch in
  the kernel, with the arguments the user gave: no number, no argument position and no width is mixed up, and
  times, which go through registers as two's complement, arrive with their sign.
\<close>

theorem services_reach_handlers:
  assumes "c < length (k_contexts s)" "length (ctx_regs (k_contexts s ! c)) = 32" "- (2 ^ 63) \<le> t" "t < 2 ^ 63"
  shows "reaches clk c s (GET_PARTITION_STATUS st rc) (do_get_partition_status st)
     \<and> reaches clk c s (SET_PARTITION_MODE m rc) (do_set_partition_mode (ucast m))
     \<and> reaches clk c s (GET_PROCESS_ID nm p rc) (do_get_process_id nm p)
     \<and> reaches clk c s (GET_PROCESS_STATUS i st rc) (do_get_process_status i st)
     \<and> reaches clk c s (CREATE_PROCESS at p rc) (do_create_process at p)
     \<and> reaches clk c s (SET_PRIORITY i pri rc) (do_set_priority i pri)
     \<and> reaches clk c s (SUSPEND_SELF t rc) (do_suspend_self clk t)
     \<and> reaches clk c s (SUSPEND i rc) (do_suspend i)
     \<and> reaches clk c s (RESUME i rc) (do_resume clk i)
     \<and> reaches clk c s STOP_SELF do_stop_self
     \<and> reaches clk c s (STOP i rc) (do_stop clk i)
     \<and> reaches clk c s (START i rc) (do_start clk i)
     \<and> reaches clk c s (DELAYED_START i t rc) (do_delayed_start clk i t)
     \<and> reaches clk c s (GET_MY_ID p rc) (do_get_my_id p)
     \<and> reaches clk c s (GET_MY_INDEX p rc) (do_get_my_index p)
     \<and> reaches clk c s (TIMED_WAIT t rc) (do_timed_wait clk t)
     \<and> reaches clk c s (GET_TIME p rc) (do_get_time clk p)
     \<and> reaches clk c s (CREATE_QUEUING_PORT nm sz nb dir disc p rc) (do_create_queuing_port nm sz nb dir disc p)
     \<and> reaches clk c s (SEND_QUEUING_MESSAGE i a l t rc) (do_send_queuing_message clk i a l t)
     \<and> reaches clk c s (RECEIVE_QUEUING_MESSAGE i t a l rc) (do_receive_queuing_message clk i t a l)
     \<and> reaches clk c s (GET_QUEUING_PORT_ID nm p rc) (do_get_queuing_port_id nm p)
     \<and> reaches clk c s (GET_QUEUING_PORT_STATUS i st rc) (do_get_queuing_port_status i st)
     \<and> reaches clk c s (CLEAR_QUEUING_PORT i rc) (do_clear_queuing_port clk i)
     \<and> reaches clk c s (CREATE_BUFFER nm sz nb disc p rc) (do_create_buffer nm sz nb disc p)
     \<and> reaches clk c s (SEND_BUFFER i a l t rc) (do_send_buffer clk i a l t)
     \<and> reaches clk c s (RECEIVE_BUFFER i t a l rc) (do_receive_buffer clk i t a l)
     \<and> reaches clk c s (GET_BUFFER_ID nm p rc) (do_get_buffer_id nm p)
     \<and> reaches clk c s (GET_BUFFER_STATUS i st rc) (do_get_buffer_status i st)
     \<and> reaches clk c s (CREATE_BLACKBOARD nm sz p rc) (do_create_blackboard nm sz p)
     \<and> reaches clk c s (DISPLAY_BLACKBOARD i a l rc) (do_display_blackboard clk i a l)
     \<and> reaches clk c s (READ_BLACKBOARD i t a l rc) (do_read_blackboard clk i t a l)
     \<and> reaches clk c s (CLEAR_BLACKBOARD i rc) (do_clear_blackboard i)
     \<and> reaches clk c s (GET_BLACKBOARD_ID nm p rc) (do_get_blackboard_id nm p)
     \<and> reaches clk c s (GET_BLACKBOARD_STATUS i st rc) (do_get_blackboard_status i st)"
proof -
  note r = reachesI [OF assms(1,2)]
  have st: "sint (word_of_int t :: u64) = t" by (rule sint_of_time [OF assms(3,4)])
  note e = syscall_def wrapper_defs service_defs
  show ?thesis
    by (intro conjI; rule r) (simp_all add: e syscall_switch_def sysno_simps st enum_register)
qed

theorem services_reach_handlers_witness:
  "reaches (\<lambda>_. 5) 0 kst_sched (TIMED_WAIT (- 3) 0x1000) (do_timed_wait (\<lambda>_. 5) (- 3))"
proof -
  have "0 < length (k_contexts kst_sched)" "length (ctx_regs (k_contexts kst_sched ! 0)) = 32"
    by (simp_all add: kst_sched_def zero_context_def)
  then show ?thesis using services_reach_handlers [of 0 kst_sched "- 3" "\<lambda>_. 5" _ "0x1000"] by simp
qed

end
