(* ===== verification/Messages.thy ===== *)
theory Messages
  imports Syscalls
begin

text \<open>
  What the buffer services promise their callers: a buffer is a first-in first-out queue of messages, a
  transfer wakes the process its queuing discipline selects, and what happens when a waiting process has
  been stopped. The slots of the ring and the messages in them are those of theory \<open>Circbuf\<close>.
\<close>

section \<open>The queue of a buffer\<close>

definition buf_queue :: "kst \<Rightarrow> nat \<Rightarrow> u8 list list" where
  "buf_queue s b = circ_msgs (umem s) (buf_body (k_bufs s ! b))"

definition buf_region :: "kst \<Rightarrow> nat \<Rightarrow> u64 set" where
  "buf_region s b = range_of (cc_buf (buf_body (k_bufs s ! b))) (circ_bytes (buf_body (k_bufs s ! b)))"

text \<open>A well-formed buffer: its ring is in order and a slot has room for the header and a message.\<close>

definition buf_inv :: "kst \<Rightarrow> nat \<Rightarrow> bool" where
  "buf_inv s b \<longleftrightarrow> b < length (k_bufs s) \<and> circ_msgs_ok (umem s) (buf_body (k_bufs s ! b))
     \<and> unat (cc_ele_size (buf_body (k_bufs s ! b))) = unat (buf_max_msg_size (k_bufs s ! b)) + 8"

lemma circ_enqu_size: "comm_msg_send m cc a n = Some (m', cc') \<Longrightarrow> cc_ele_size cc' = cc_ele_size cc \<and> cc_buf cc' = cc_buf cc \<and> circ_bytes cc' = circ_bytes cc"
  by (auto simp: comm_msg_send_def circbuf_enqu_st_def circbuf_enqu_ed_def circ_bytes_def Let_def)

lemma nth_upd_buf [simp]: "b < length (k_bufs s) \<Longrightarrow> k_bufs (upd_buf b f s) ! b = f (k_bufs s ! b)"
  by (simp add: upd_buf_def)

lemma upd_buf_fields [simp]: "length (k_bufs (upd_buf b f s)) = length (k_bufs s)" "umem (upd_buf b f s) = umem s"
  "k_procs (upd_buf b f s) = k_procs s" "k_tes (upd_buf b f s) = k_tes s" "k_te_queue (upd_buf b f s) = k_te_queue s"
  by (simp_all add: upd_buf_def umem_def cong: if_cong)

lemma buffer_send_appends:
  assumes "buf_inv s b" "\<not> buffer_is_full s b" "len \<le> buf_max_msg_size (k_bufs s ! b)" "buf_region s b \<inter> range_of a (unat len) = {}"
  shows "\<exists>s'. buffer_send b a len s = OK s' \<and> buf_inv s' b \<and> buf_queue s' b = buf_queue s b @ [mem_read (umem s) a (unat len)]
     \<and> k_procs s' = k_procs s \<and> buf_waiting_procs (k_bufs s' ! b) = buf_waiting_procs (k_bufs s ! b)
     \<and> buf_que_disc (k_bufs s' ! b) = buf_que_disc (k_bufs s ! b)
     \<and> (\<forall>x. x \<notin> buf_region s b \<longrightarrow> umem s' x = umem s x)"
proof -
  let ?cc = "buf_body (k_bufs s ! b)"
  have "8 + unat len \<le> unat (cc_ele_size ?cc)" using assms(1,3) by (simp add: buf_inv_def word_le_nat_alt)
  then obtain m' cc' where r: "comm_msg_send (umem s) ?cc a len = Some (m', cc')" "circ_msgs_ok m' cc'"
    "circ_msgs m' cc' = circ_msgs (umem s) ?cc @ [mem_read (umem s) a (unat len)]"
    "\<forall>x. x \<notin> range_of (cc_buf ?cc) (circ_bytes ?cc) \<longrightarrow> m' x = umem s x"
    using comm_msg_send_appends [of "umem s" ?cc len a] assms by (auto simp: buf_inv_def buffer_is_full_def buf_region_def)
  moreover have "b < length (k_bufs s)" using assms(1) by (simp add: buf_inv_def)
  ultimately show ?thesis
    using assms(1,2) circ_enqu_size [OF r(1)]
    by (simp add: buffer_send_def buf_inv_def buf_queue_def buf_region_def)
qed

text \<open>Storing the length does not disturb a ring it does not point into.\<close>

lemma recv_store_takes:
  assumes "circ_msgs_ok (umem s) cc" "\<not> circbuf_is_empty cc"
    and out: "range_of a (unat (cc_ele_size cc)) \<inter> range_of (cc_buf cc) (circ_bytes cc) = {}" "range_of l 8 \<inter> range_of (cc_buf cc) (circ_bytes cc) = {}"
      "range_of a (unat (cc_ele_size cc)) \<inter> range_of l 8 = {}"
    and len: "unat a + unat (cc_ele_size cc) < 2 ^ 64"
  shows "\<exists>m' cc'. recv_store cc a l s = Some (set_umem m' (store64 l (slot_len (hd (circ_contents (umem s) cc))) s), cc')
     \<and> circ_msgs_ok m' cc' \<and> circ_msgs (umem s) cc = mem_read m' a (unat (slot_len (hd (circ_contents (umem s) cc)))) # circ_msgs m' cc'
     \<and> word_of (mem_read m' l 8) = slot_len (hd (circ_contents (umem s) cc))
     \<and> cc_ele_size cc' = cc_ele_size cc \<and> cc_buf cc' = cc_buf cc \<and> circ_bytes cc' = circ_bytes cc
     \<and> (\<forall>x. x \<notin> range_of a (unat (cc_ele_size cc)) \<longrightarrow> x \<notin> range_of l 8 \<longrightarrow> m' x = umem s x)"
proof -
  have ok: "circ_ok cc" using assms(1) by (simp add: circ_msgs_ok_def)
  define n where "n = word_of (mem_read (umem s) (cc_buf cc + cc_head cc) 8)"
  define m1 where "m1 = mem_write (umem s) l (bytes_of 8 n)"
  note deq = circ_dequeue_ok [OF ok assms(2) refl]
  have hd: "cc_buf cc + cc_head cc = circ_slot cc 0" using deq(3) by (simp add: circbuf_dequ_st_def)
  have e8: "8 \<le> unat (cc_ele_size cc)" using assms(1) deq(2) [of "umem s"] by (auto simp: circ_msgs_ok_def)
  have n: "slot_len (hd (circ_contents (umem s) cc)) = n"
    using deq(2) [of "umem s"] deq(3) e8 by (simp add: n_def hd slot_len_def take_mem_read)
  have n': "word_of (mem_read (umem s) (circ_slot cc 0) 8) = n" by (simp add: n_def hd)
  have same: "m1 x = umem s x" if "x \<notin> range_of l 8" for x using that by (simp add: m1_def mem_write_outside)
  have ring: "circ_contents m1 cc = circ_contents (umem s) cc" using out(2) same by (intro circ_contents_outside [OF ok]) auto
  then have "circ_msgs_ok m1 cc" using assms(1) by (simp add: circ_msgs_ok_def)
  then obtain m' cc' k where r: "comm_msg_recv m1 cc a = Some (m', cc', k)" "circ_msgs_ok m' cc'"
    "circ_msgs m1 cc = mem_read m' a (unat k) # circ_msgs m' cc'" "\<forall>x. x \<notin> range_of a (unat k) \<longrightarrow> m' x = m1 x"
    using comm_msg_recv_takes [OF _ assms(2) out(1) len] by blast
  have "mem_read m1 (circ_slot cc 0) 8 = mem_read (umem s) (circ_slot cc 0) 8"
    using out(2) same slot_parts(1) [OF ok, of 0 0] e8 by (intro mem_read_cong) auto
  then have k: "k = n" "memcpy m1 a (circ_slot cc 0 + 8) n = Some m'" "cc' = circbuf_dequ_ed (fst (circbuf_dequ_st cc))"
    using r(1) hd by (auto simp: comm_msg_recv_def circbuf_dequ_st_def n_def Let_def)
  have n_le: "unat n \<le> unat (cc_ele_size cc)" using assms(1) deq(2) [of "umem s"] n by (auto simp: circ_msgs_ok_def)
  have l8: "m' x = m1 x" if "x \<in> range_of l 8" for x
    using r(4) out(3) k(1) n_le that range_of_mono [of "unat n" "unat (cc_ele_size cc)" a] by blast
  have "mem_read m' l 8 = mem_read m1 l 8" using l8 by (intro mem_read_cong) auto
  then have "word_of (mem_read m' l 8) = n" by (simp add: m1_def mem_read_write_same word_of_bytes_of_8)
  moreover have "recv_store cc a l s = Some (set_umem m' (store64 l n s), cc')"
    using k hd n' by (simp add: recv_store_def circbuf_dequ_st_def load64_def store64_def Let_def m1_def mem_read_write_same word_of_bytes_of_8)
  moreover have "m' x = umem s x" if "x \<notin> range_of a (unat (cc_ele_size cc))" "x \<notin> range_of l 8" for x
    using r(4) k(1) n_le that same range_of_mono [of "unat n" "unat (cc_ele_size cc)" a] by auto
  ultimately show ?thesis
    using r(2,3) k(1,3) ring unfolding n by (auto simp: circ_msgs_def circbuf_dequ_st_def circbuf_dequ_ed_def circ_bytes_def)
qed

lemma buffer_recv_takes:
  assumes "buf_inv s b" "\<not> buffer_is_empty s b"
    "(range_of a (unat (buf_max_msg_size (k_bufs s ! b)) + 8) \<union> range_of l 8) \<inter> buf_region s b = {}"
    "range_of a (unat (buf_max_msg_size (k_bufs s ! b)) + 8) \<inter> range_of l 8 = {}"
    "unat a + unat (buf_max_msg_size (k_bufs s ! b)) + 8 < 2 ^ 64"
  shows "\<exists>s' n. buffer_recv b a l s = OK s' \<and> buf_inv s' b \<and> load64 s' l = n
     \<and> buf_queue s b = mem_read (umem s') a (unat n) # buf_queue s' b
     \<and> k_procs s' = k_procs s \<and> buf_waiting_procs (k_bufs s' ! b) = buf_waiting_procs (k_bufs s ! b)
     \<and> buf_que_disc (k_bufs s' ! b) = buf_que_disc (k_bufs s ! b)"
proof -
  let ?cc = "buf_body (k_bufs s ! b)"
  let ?n = "slot_len (hd (circ_contents (umem s) ?cc))"
  have b: "b < length (k_bufs s)" "circ_msgs_ok (umem s) ?cc" and e: "unat (cc_ele_size ?cc) = unat (buf_max_msg_size (k_bufs s ! b)) + 8"
    using assms(1) by (simp_all add: buf_inv_def)
  obtain m' cc' where r: "recv_store ?cc a l s = Some (set_umem m' (store64 l ?n s), cc')" "circ_msgs_ok m' cc'"
    "circ_msgs (umem s) ?cc = mem_read m' a (unat ?n) # circ_msgs m' cc'" "word_of (mem_read m' l 8) = ?n" "cc_ele_size cc' = cc_ele_size ?cc"
    using recv_store_takes [OF b(2), of a l] assms(2-5) unfolding e buffer_is_empty_def buf_region_def by auto
  have f: "k_bufs (store64 l ?n s) = k_bufs s" "k_procs (store64 l ?n s) = k_procs s" by (simp_all add: store64_def)
  show ?thesis
    using b r assms(1,2) f by (simp add: buffer_recv_def buf_inv_def buf_queue_def load64_def e)
qed

section \<open>The queuing discipline\<close>

lemma max_pri_proc_spec:
  assumes "max_pri_proc s ps m = Some p"
  shows "(m = Some p \<and> (\<forall>q \<in> set ps. pr_cur_pri (k_procs s ! q) \<le> pr_cur_pri (k_procs s ! p)))
    \<or> (\<exists>as bs. ps = as @ p # bs \<and> (\<forall>q \<in> set as. pr_cur_pri (k_procs s ! q) < pr_cur_pri (k_procs s ! p))
        \<and> (\<forall>q \<in> set bs. pr_cur_pri (k_procs s ! q) \<le> pr_cur_pri (k_procs s ! p))
        \<and> (\<forall>q. m = Some q \<longrightarrow> pr_cur_pri (k_procs s ! q) < pr_cur_pri (k_procs s ! p)))"
  using assms
proof (induction ps arbitrary: m)
  case (Cons x ps)
  define better where "better = (case m of None \<Rightarrow> True | Some q \<Rightarrow> pr_cur_pri (k_procs s ! x) > pr_cur_pri (k_procs s ! q))"
  have IH: "max_pri_proc s ps (if better then Some x else m) = Some p" using Cons.prems by (simp add: better_def)
  show ?case
  proof (cases better)
    case True
    then consider "x = p" "\<forall>q \<in> set ps. pr_cur_pri (k_procs s ! q) \<le> pr_cur_pri (k_procs s ! p)"
      | as bs where "ps = as @ p # bs" "\<forall>q \<in> set as. pr_cur_pri (k_procs s ! q) < pr_cur_pri (k_procs s ! p)"
        "\<forall>q \<in> set bs. pr_cur_pri (k_procs s ! q) \<le> pr_cur_pri (k_procs s ! p)" "pr_cur_pri (k_procs s ! x) < pr_cur_pri (k_procs s ! p)"
      using Cons.IH [OF IH] by auto
    then show ?thesis
    proof cases
      case 1
      then show ?thesis using True by (intro disjI2 exI [of _ "[]"] exI [of _ ps]) (auto simp: better_def)
    next
      case 2
      then show ?thesis using True by (intro disjI2 exI [of _ "x # as"] exI [of _ bs]) (auto simp: better_def split: option.splits)
    qed
  next
    case False
    then obtain r where r: "m = Some r" "pr_cur_pri (k_procs s ! x) \<le> pr_cur_pri (k_procs s ! r)"
      by (auto simp: better_def split: option.splits)
    from Cons.IH [OF IH] False r(1)
    consider "r = p" "\<forall>q \<in> set ps. pr_cur_pri (k_procs s ! q) \<le> pr_cur_pri (k_procs s ! p)"
      | as bs where "ps = as @ p # bs" "\<forall>q \<in> set as. pr_cur_pri (k_procs s ! q) < pr_cur_pri (k_procs s ! p)"
        "\<forall>q \<in> set bs. pr_cur_pri (k_procs s ! q) \<le> pr_cur_pri (k_procs s ! p)" "pr_cur_pri (k_procs s ! r) < pr_cur_pri (k_procs s ! p)"
      by auto
    then show ?thesis
    proof cases
      case 2
      then show ?thesis using r by (intro disjI2 exI [of _ "x # as"] exI [of _ bs]) auto
    qed (use r in auto)
  qed
qed simp

lemma max_pri_proc_total: "ps \<noteq> [] \<or> m \<noteq> None \<Longrightarrow> max_pri_proc s ps m \<noteq> None"
  by (induction ps arbitrary: m) (auto split: option.splits)

lemma choose_waiting_spec:
  assumes "ps \<noteq> []"
  obtains p as bs where "choose_waiting s disc ps = Some p" "ps = as @ p # bs" "disc = FIFO \<Longrightarrow> as = []"
    "disc \<noteq> FIFO \<Longrightarrow> (\<forall>q \<in> set as. pr_cur_pri (k_procs s ! q) < pr_cur_pri (k_procs s ! p))
      \<and> (\<forall>q \<in> set bs. pr_cur_pri (k_procs s ! q) \<le> pr_cur_pri (k_procs s ! p))"
proof (cases "disc = FIFO")
  case True
  then show ?thesis using assms that [of "hd ps" "[]" "tl ps"] by (simp add: choose_waiting_def)
next
  case False
  then obtain p where p: "max_pri_proc s ps None = Some p" "choose_waiting s disc ps = Some p"
    using assms max_pri_proc_total [of ps None s] by (auto simp: choose_waiting_def)
  then show ?thesis using max_pri_proc_spec [OF p(1)] that False by blast
qed

section \<open>Transfers wake a waiting process\<close>

text \<open>\<open>p\<close> is the one of \<open>as @ p # bs\<close> that the queuing discipline selects.\<close>

definition selected :: "kst \<Rightarrow> u32 \<Rightarrow> nat list \<Rightarrow> nat \<Rightarrow> nat list \<Rightarrow> bool" where
  "selected s disc as p bs \<longleftrightarrow> (if disc = FIFO then as = []
     else (\<forall>q \<in> set as. pr_cur_pri (k_procs s ! q) < pr_cur_pri (k_procs s ! p))
        \<and> (\<forall>q \<in> set bs. pr_cur_pri (k_procs s ! q) \<le> pr_cur_pri (k_procs s ! p)))"

text \<open>Every waiting process exists, occurs once, and has a timer if it waits with a time-out.\<close>

definition waiters_ok :: "kst \<Rightarrow> nat \<Rightarrow> bool" where
  "waiters_ok s b \<longleftrightarrow> distinct (buf_waiting_procs (k_bufs s ! b)) \<and> (\<forall>p \<in> set (buf_waiting_procs (k_bufs s ! b)). p < length (k_procs s)
     \<and> (pr_waiting_reason (k_procs s ! p) = BUFFER_BLOCKED_WITH_TIMEOUT \<longrightarrow> pr_asso_timer (k_procs s ! p) \<noteq> None))"

lemma wake_proc_OK:
  assumes "p < length (k_procs s)" "pr_waiting_reason (k_procs s ! p) = r \<Longrightarrow> pr_asso_timer (k_procs s ! p) \<noteq> None"
  shows "\<exists>s'. wake_proc now r p s = OK s' \<and> pr_state (k_procs s' ! p) = READY \<and> k_bufs s' = k_bufs s \<and> umem s' = umem s"
proof (cases "pr_waiting_reason (k_procs s ! p) = r")
  case True
  then obtain te where te: "pr_asso_timer (k_procs s ! p) = Some te" using assms(2) by auto
  have m: "umem (s\<lparr>k_te_queue := q\<rparr>) = umem s" for q by (simp add: umem_def cong: if_cong)
  have n: "umem (set_asso_timer v ty t) = umem t" for v ty t by (simp add: set_asso_timer_def split: option.split)
  show ?thesis using assms(1) True te by (simp add: wake_proc_def time_event_free_def set_state_def m n)
qed (use assms in \<open>simp add: wake_proc_def set_state_def\<close>)

lemma buf_wake_spec:
  assumes "b < length (k_bufs s)" "waiters_ok s b" "buf_waiting_procs (k_bufs s ! b) \<noteq> []"
  shows "\<exists>s' p as bs. buf_wake clk b s = (s', Yield False (K_Ret NO_ERROR)) \<and> buf_waiting_procs (k_bufs s ! b) = as @ p # bs
     \<and> selected s (buf_que_disc (k_bufs s ! b)) as p bs \<and> pr_state (k_procs s' ! p) = READY
     \<and> k_bufs s' = k_bufs (upd_buf b (\<lambda>x. x\<lparr>buf_waiting_procs := as @ bs\<rparr>) s) \<and> umem s' = umem s"
proof -
  let ?ps = "buf_waiting_procs (k_bufs s ! b)" and ?disc = "buf_que_disc (k_bufs s ! b)"
  obtain p as bs where c: "choose_waiting s ?disc ?ps = Some p" "?ps = as @ p # bs" "selected s ?disc as p bs"
    using choose_waiting_spec [OF assms(3), of s ?disc] unfolding selected_def by metis
  let ?s1 = "buffer_del_waiting_proc b p s"
  have rem: "remove1 p ?ps = as @ bs" using c(2) assms(2) by (simp add: waiters_ok_def remove1_append)
  have "p < length (k_procs ?s1)" "pr_waiting_reason (k_procs ?s1 ! p) = BUFFER_BLOCKED_WITH_TIMEOUT \<Longrightarrow> pr_asso_timer (k_procs ?s1 ! p) \<noteq> None"
    using assms(2) c(2) by (auto simp: waiters_ok_def buffer_del_waiting_proc_def)
  then obtain s' where w: "wake_proc (clk 0) BUFFER_BLOCKED_WITH_TIMEOUT p ?s1 = OK s'" "pr_state (k_procs s' ! p) = READY"
    "k_bufs s' = k_bufs ?s1" "umem s' = umem ?s1"
    using wake_proc_OK by blast
  have "k_bufs ?s1 = k_bufs (upd_buf b (\<lambda>x. x\<lparr>buf_waiting_procs := as @ bs\<rparr>) s)" "umem ?s1 = umem s"
    using rem by (simp_all add: buffer_del_waiting_proc_def upd_buf_def umem_def cong: if_cong)
  moreover have "buf_wake clk b s = (s', Yield False (K_Ret NO_ERROR))"
    using c(1) w(1) by (simp add: buf_wake_def buffer_wakeup_waiting_proc_def or_fatal_def)
  ultimately show ?thesis using c(2,3) w(2-4) by auto
qed

lemma buf_wake_none: "buf_waiting_procs (k_bufs s ! b) = [] \<Longrightarrow> buf_wake clk b s = (s, Done NO_ERROR)"
  by (simp add: buf_wake_def buffer_wakeup_waiting_proc_def choose_waiting_def)

text \<open>
  The outcome of a transfer that leads from the queue \<open>q\<close> to the queue \<open>q'\<close> of messages: without waiting
  processes the call returns; otherwise the selected one is taken off the list and made ready, and the
  caller offers the hart.
\<close>

definition transferred :: "kst \<Rightarrow> nat \<Rightarrow> u8 list list \<Rightarrow> kst \<times> outcome \<Rightarrow> bool" where
  "transferred s b q' r \<longleftrightarrow> buf_inv (fst r) b \<and> buf_queue (fst r) b = q'
     \<and> (if buf_waiting_procs (k_bufs s ! b) = [] then snd r = Done NO_ERROR \<and> buf_waiting_procs (k_bufs (fst r) ! b) = []
        else snd r = Yield False (K_Ret NO_ERROR)
          \<and> (\<exists>p as bs. buf_waiting_procs (k_bufs s ! b) = as @ p # bs \<and> selected s (buf_que_disc (k_bufs s ! b)) as p bs
               \<and> pr_state (k_procs (fst r) ! p) = READY \<and> buf_waiting_procs (k_bufs (fst r) ! b) = as @ bs))"

lemma buf_wake_transferred:
  assumes "buf_inv s1 b" "waiters_ok s b" "k_procs s1 = k_procs s" "buf_waiting_procs (k_bufs s1 ! b) = buf_waiting_procs (k_bufs s ! b)"
    "buf_que_disc (k_bufs s1 ! b) = buf_que_disc (k_bufs s ! b)"
  shows "transferred s b (buf_queue s1 b) (buf_wake clk b s1)" and "umem (fst (buf_wake clk b s1)) = umem s1"
proof -
  have sel: "selected s1 d as p bs = selected s d as p bs" for d as p bs using assms(3) by (simp add: selected_def)
  have b: "b < length (k_bufs s1)" using assms(1) by (simp add: buf_inv_def)
  have ok: "waiters_ok s1 b" using assms(2-4) by (simp add: waiters_ok_def)
  consider "buf_waiting_procs (k_bufs s ! b) = []" | "buf_waiting_procs (k_bufs s ! b) \<noteq> []" by blast
  then show "transferred s b (buf_queue s1 b) (buf_wake clk b s1)" "umem (fst (buf_wake clk b s1)) = umem s1"
  proof (atomize (full), cases)
    case 1
    then show "transferred s b (buf_queue s1 b) (buf_wake clk b s1) \<and> umem (fst (buf_wake clk b s1)) = umem s1"
      using assms(1,4) buf_wake_none [of s1 b clk] by (simp add: transferred_def)
  next
    case 2
    then obtain s' p as bs where w: "buf_wake clk b s1 = (s', Yield False (K_Ret NO_ERROR))" "buf_waiting_procs (k_bufs s1 ! b) = as @ p # bs"
      "selected s1 (buf_que_disc (k_bufs s1 ! b)) as p bs" "pr_state (k_procs s' ! p) = READY"
      "k_bufs s' = k_bufs (upd_buf b (\<lambda>x. x\<lparr>buf_waiting_procs := as @ bs\<rparr>) s1)" "umem s' = umem s1"
      using buf_wake_spec [OF b ok] assms(4) by metis
    then have "buf_inv s' b" "buf_queue s' b = buf_queue s1 b" "buf_waiting_procs (k_bufs s' ! b) = as @ bs"
      using assms(1) b by (simp_all add: buf_inv_def buf_queue_def)
    then show "transferred s b (buf_queue s1 b) (buf_wake clk b s1) \<and> umem (fst (buf_wake clk b s1)) = umem s1"
      using w assms(4,5) sel 2 unfolding transferred_def by auto
  qed
qed

section \<open>Properties\<close>

text \<open>
  C3 (refinement). \<open>SEND_BUFFER\<close> implements insertion at the end of a bounded first-in first-out queue of messages. On a
  full buffer without a time-out it changes nothing and says so; otherwise, on a buffer with room, the queue
  has grown by exactly the bytes of the message, the buffer stays well formed, and if processes
  are waiting on the buffer the one its queuing discipline selects (the first one, or the first one of the highest
  priority) is taken off the waiting list and made ready.
\<close>

theorem send_buffer_enqueues:
  assumes "own_buf s i = Some b" "buf_inv s b" "waiters_ok s b" "len \<noteq> 0" "len \<le> buf_max_msg_size (k_bufs s ! b)"
    "buf_region s b \<inter> range_of a (unat len) = {}"
  shows "if buffer_is_full s b then time_out = 0 \<longrightarrow> do_send_buffer clk i a len time_out s = (s, Done NOT_AVAILABLE)
     else transferred s b (buf_queue s b @ [mem_read (umem s) a (unat len)]) (do_send_buffer clk i a len time_out s)"
proof (cases "buffer_is_full s b")
  case True
  then show ?thesis using assms by (simp add: do_send_buffer_def leD)
next
  case False
  obtain s1 where s1: "buffer_send b a len s = OK s1" "buf_inv s1 b" "buf_queue s1 b = buf_queue s b @ [mem_read (umem s) a (unat len)]"
    "k_procs s1 = k_procs s" "buf_waiting_procs (k_bufs s1 ! b) = buf_waiting_procs (k_bufs s ! b)"
    "buf_que_disc (k_bufs s1 ! b) = buf_que_disc (k_bufs s ! b)"
    using buffer_send_appends [OF assms(2) False assms(5,6)] by blast
  have "do_send_buffer clk i a len time_out s = buf_wake clk b s1"
    using assms(1,4,5) False s1(1) by (simp add: do_send_buffer_def send_buf_finish_def or_fatal_def leD)
  then show ?thesis using False buf_wake_transferred(1) [OF s1(2) assms(3) s1(4-6), of clk] s1(3) by simp
qed

text \<open>
  C4 (refinement). \<open>RECEIVE_BUFFER\<close> implements removal of the oldest message: on an empty buffer without a time-out it
  reports length 0; otherwise the bytes at the caller's address are those of the first message of the
  queue, the length at \<open>l\<close> is its length, the queue has lost exactly this message, and a waiting process is
  woken as for a send.
\<close>

theorem receive_buffer_dequeues:
  assumes "own_buf s i = Some b" "buf_inv s b" "waiters_ok s b"
    "(range_of a (unat (buf_max_msg_size (k_bufs s ! b)) + 8) \<union> range_of l 8) \<inter> buf_region s b = {}"
    "range_of a (unat (buf_max_msg_size (k_bufs s ! b)) + 8) \<inter> range_of l 8 = {}"
    "unat a + unat (buf_max_msg_size (k_bufs s ! b)) + 8 < 2 ^ 64"
  shows "let r = do_receive_buffer clk i time_out a l s
     in if buf_queue s b = [] then time_out = 0 \<longrightarrow> snd r = Done NOT_AVAILABLE \<and> load64 (fst r) l = 0
        else mem_read (umem (fst r)) a (unat (load64 (fst r) l)) = hd (buf_queue s b) \<and> transferred s b (tl (buf_queue s b)) r"
proof -
  have empty: "buffer_is_empty s b \<longleftrightarrow> buf_queue s b = []"
    unfolding buffer_is_empty_def buf_queue_def circ_msgs_def using circ_empty_iff [of "buf_body (k_bufs s ! b)" "umem s"] by simp
  show ?thesis
  proof (cases "buffer_is_empty s b")
    case True
    then show ?thesis using assms(1) empty by (simp add: do_receive_buffer_def Let_def)
  next
    case False
    obtain s1 n where s1: "buffer_recv b a l s = OK s1" "buf_inv s1 b" "load64 s1 l = n"
      "buf_queue s b = mem_read (umem s1) a (unat n) # buf_queue s1 b" "k_procs s1 = k_procs s"
      "buf_waiting_procs (k_bufs s1 ! b) = buf_waiting_procs (k_bufs s ! b)" "buf_que_disc (k_bufs s1 ! b) = buf_que_disc (k_bufs s ! b)"
      using buffer_recv_takes [OF assms(2) False assms(4,5,6)] by blast
    have "do_receive_buffer clk i time_out a l s = buf_wake clk b s1"
      using assms(1) False s1(1) by (simp add: do_receive_buffer_def recv_buf_finish_def or_fatal_def)
    then show ?thesis
      using buf_wake_transferred [OF s1(2) assms(3) s1(5-7), of clk] s1(3,4) False empty by (simp add: Let_def load64_def)
  qed
qed

text \<open>
  A buffer of two slots with room for 8 bytes each, owned by the current partition, and a process of
  priority 7 that waits on it; the message is at \<open>0x1000\<close>.
\<close>

definition kst_buf :: kst where
  "kst_buf = kst_sched\<lparr>
     k_procs := [example_proc 1 1 5 RUNNING [], example_proc 2 1 7 WAITING [3]],
     k_bufs := [\<lparr>buf_name = ''b'', buf_id = 1, buf_part_id = 1, buf_que_disc = FIFO, buf_max_msg_size = 8, buf_max_nb_msg = 2,
       buf_body = circbuf_init COMM_BASE 16 2, buf_waiting_procs = [1]\<rparr>],
     buf_id_map := hashmap_put hash_code_uint64 hash_eq_uint64 (\<lambda>_. 1) (HASHMAP_ALLOC 64) 0,
     k_part_mem := (\<lambda>_. mem_write (\<lambda>_. 0) 0x1000 [7, 8, 9])\<rparr>"

lemma kst_buf_facts:
  "own_buf kst_buf 1 = Some 0" "buf_inv kst_buf 0" "waiters_ok kst_buf 0" "buf_queue kst_buf 0 = []" "\<not> buffer_is_full kst_buf 0"
  "buf_region kst_buf 0 = range_of COMM_BASE 32" "buf_max_msg_size (k_bufs kst_buf ! 0) = 8" "buf_waiting_procs (k_bufs kst_buf ! 0) = [1]"
proof -
  note d = kst_buf_def example_defs
  show "own_buf kst_buf 1 = Some 0"
    by (simp add: own_buf_def buffer_from_id_def buf_id_key_of_def sched_cur_part_def d hashmap_get_def hashmap_put_def hashmap_index_def HASHMAP_ALLOC_def hashmap_init_def hash_code_uint64_def hash_eq_uint64_def Let_def)
  have c: "circ_ok (circbuf_init COMM_BASE 16 2)" "circ_contents m (circbuf_init COMM_BASE 16 2) = []" for m
    by (rule circ_init_ok; simp add: layout_simps)+
  show "buf_inv kst_buf 0" "buf_queue kst_buf 0 = []" using c by (simp_all add: buf_inv_def buf_queue_def circ_msgs_ok_def circ_msgs_def d) (simp add: circbuf_init_def)
  show "waiters_ok kst_buf 0" "buf_max_msg_size (k_bufs kst_buf ! 0) = 8" "buf_waiting_procs (k_bufs kst_buf ! 0) = [1]"
    by (simp_all add: waiters_ok_def d)
  show "\<not> buffer_is_full kst_buf 0" "buf_region kst_buf 0 = range_of COMM_BASE 32"
    by (simp_all add: buffer_is_full_def circbuf_is_full_def buf_region_def circ_bytes_def circbuf_init_def d)
qed

lemma kst_buf_msg: "mem_read (umem kst_buf) 0x1000 3 = [7, 8, 9]"
  by (simp add: mem_read_def umem_def in_chan_def layout_simps kst_buf_def mem_write_def upt_conv_Cons)

theorem send_buffer_enqueues_witness:
  "transferred kst_buf 0 [[7, 8, 9]] (do_send_buffer (\<lambda>_. 0) 1 0x1000 3 0 kst_buf)"
proof -
  have "range_of COMM_BASE 32 \<inter> range_of 0x1000 (unat (3 :: u64)) = {}" by (auto simp: range_of_upt upt_conv_Cons layout_simps)
  then show ?thesis
    using send_buffer_enqueues [of kst_buf 1 0 3 "0x1000" 0 "\<lambda>_. 0"] kst_buf_facts kst_buf_msg by simp
qed

text \<open>The same buffer with the message \<open>7, 8, 9\<close> in its first slot.\<close>

definition kst_msg :: kst where
  "kst_msg = kst_buf\<lparr>k_bufs := [(k_bufs kst_buf ! 0)\<lparr>buf_body := (circbuf_init COMM_BASE 16 2)\<lparr>cc_cnt := 1, cc_tail := 0\<rparr>\<rparr>],
     k_part_mem := (\<lambda>_. mem_write (\<lambda>_. 0) COMM_BASE [3, 0, 0, 0, 0, 0, 0, 0, 7, 8, 9])\<rparr>"

lemma kst_msg_facts:
  "own_buf kst_msg 1 = Some 0" "buf_inv kst_msg 0" "waiters_ok kst_msg 0" "buf_queue kst_msg 0 = [[7, 8, 9]]"
  "buf_region kst_msg 0 = range_of COMM_BASE 32" "buf_max_msg_size (k_bufs kst_msg ! 0) = 8"
proof -
  note d = kst_msg_def kst_buf_def example_defs
  show "own_buf kst_msg 1 = Some 0"
    by (simp add: own_buf_def buffer_from_id_def buf_id_key_of_def sched_cur_part_def d hashmap_get_def hashmap_put_def hashmap_index_def HASHMAP_ALLOC_def hashmap_init_def hash_code_uint64_def hash_eq_uint64_def Let_def)
  let ?cc = "(circbuf_init COMM_BASE 16 2)\<lparr>cc_cnt := 1, cc_tail := 0\<rparr>"
  have ok: "circ_ok ?cc" by (simp add: circ_ok_def circbuf_init_def circ_bytes_def circ_hd_def circ_off_def layout_simps)
  have body: "buf_body (k_bufs kst_msg ! 0) = ?cc" by (simp add: d)
  have "circ_contents (umem kst_msg) ?cc = [[3, 0, 0, 0, 0, 0, 0, 0, 7, 8, 9, 0, 0, 0, 0, 0]]"
    by (simp add: circ_contents_def circbuf_init_def circ_slot_def circ_off_def circ_hd_def mem_read_def umem_def in_chan_def layout_simps d mem_write_def upt_conv_Cons)
  then show "buf_inv kst_msg 0" "buf_queue kst_msg 0 = [[7, 8, 9]]"
    using ok unfolding buf_inv_def buf_queue_def body circ_msgs_ok_def circ_msgs_def
    by (simp_all add: slot_len_def slot_msg_def circbuf_init_def d)
  show "waiters_ok kst_msg 0" "buf_max_msg_size (k_bufs kst_msg ! 0) = 8" by (simp_all add: waiters_ok_def d)
  show "buf_region kst_msg 0 = range_of COMM_BASE 32" unfolding buf_region_def body by (simp add: circ_bytes_def circbuf_init_def)
qed

theorem receive_buffer_dequeues_witness:
  "let r = do_receive_buffer (\<lambda>_. 0) 1 0 0x1000 0x2000 kst_msg
   in mem_read (umem (fst r)) 0x1000 (unat (load64 (fst r) 0x2000)) = [7, 8, 9] \<and> transferred kst_msg 0 [] r"
proof -
  have "(range_of 0x1000 (unat (8 :: u64) + 8) \<union> range_of 0x2000 8) \<inter> range_of COMM_BASE 32 = {}"
    "range_of 0x1000 (unat (8 :: u64) + 8) \<inter> range_of 0x2000 8 = {}"
    by (auto simp: range_of_upt upt_conv_Cons layout_simps)
  then show ?thesis
    using receive_buffer_dequeues [of kst_msg 1 0 "0x1000" "0x2000" "\<lambda>_. 0" 0] kst_msg_facts by (simp add: Let_def)
qed

section \<open>A stopped process stays in the queue\<close>

lemma time_event_free_own:
  assumes "pr_asso_timer (k_procs s ! p) = Some te" "te_proc (te_type (k_tes s ! te)) = Some p" "p < length (k_procs s)"
  shows "\<exists>s'. time_event_free now (Some te) s = OK s' \<and> k_procs s' ! p = (k_procs s ! p)\<lparr>pr_asso_timer := None\<rparr>
     \<and> k_bufs s' = k_bufs s \<and> length (k_procs s') = length (k_procs s)"
  using assms by (simp add: time_event_free_def Let_def set_asso_timer_def)

text \<open>
  C38 (error). A process that waits on a buffer with a time-out and is stopped by \<open>STOP\<close> stays in the
  waiting list of the buffer while its timer is freed. The next transfer on the buffer that reaches it, here one
  that takes the head of a first-in first-out list, frees the timer again through a null pointer and stops the kernel: a
  process can bring the whole system down with three ordinary calls.
\<close>

theorem stop_then_transfer_faults:
  assumes "own_proc s i = Some p" "p < length (k_procs s)" "pr_state (k_procs s ! p) = WAITING"
    "pr_waiting_reason (k_procs s ! p) = BUFFER_BLOCKED_WITH_TIMEOUT"
    "pr_asso_timer (k_procs s ! p) = Some te" "te_type (k_tes s ! te) = TE_BUFFER_BLOCK_TIMEOUT p b"
    "buf_waiting_procs (k_bufs s ! b) = p # ps" "buf_que_disc (k_bufs s ! b) = FIFO"
  shows "\<exists>s1. do_stop clk i s = (s1, Yield False (K_Ret NO_ERROR)) \<and> pr_state (k_procs s1 ! p) = DORMANT
     \<and> (\<forall>s2 clk' a l. buffer_recv b a l s1 = OK s2 \<longrightarrow> snd (recv_buf_finish clk' b a l s1) = Fatal)
     \<and> (\<forall>s2 clk' a n. buffer_send b a n s1 = OK s2 \<longrightarrow> snd (send_buf_finish clk' b a n s1) = Fatal)"
proof -
  let ?s0 = "set_state p DORMANT s"
  have s0: "k_procs ?s0 ! p = (k_procs s ! p)\<lparr>pr_state := DORMANT\<rparr>" "k_tes ?s0 = k_tes s" "k_bufs ?s0 = k_bufs s" "length (k_procs ?s0) = length (k_procs s)"
    using assms(2) by (simp_all add: set_state_def)
  obtain s1 where s1: "time_event_free (clk 0) (Some te) ?s0 = OK s1" "k_procs s1 ! p = (k_procs s ! p)\<lparr>pr_state := DORMANT, pr_asso_timer := None\<rparr>"
    "k_bufs s1 = k_bufs s"
    using time_event_free_own [of ?s0 p te "clk 0"] assms(2,5,6) s0 by auto
  have stop: "do_stop clk i s = (s1, Yield False (K_Ret NO_ERROR))"
    using assms(1,3,5) s0(1) s1(1) by (simp add: do_stop_def or_fatal_def Let_def)
  have fatal: "snd (buf_wake clk' b s2) = Fatal"
    if "k_procs s2 = k_procs s1" "buf_waiting_procs (k_bufs s2 ! b) = p # ps" "buf_que_disc (k_bufs s2 ! b) = FIFO" for s2 clk'
    using that s1(2) assms(4)
    by (simp add: buf_wake_def buffer_wakeup_waiting_proc_def choose_waiting_def buffer_del_waiting_proc_def wake_proc_def time_event_free_def or_fatal_def)
  have frame: "k_procs s2 = k_procs s1 \<and> buf_waiting_procs (k_bufs s2 ! b) = p # ps \<and> buf_que_disc (k_bufs s2 ! b) = FIFO"
    if "buffer_recv b a l s1 = OK s2 \<or> buffer_send b a l s1 = OK s2" for s2 a l
  proof -
    have "k_bufs (upd_buf b (\<lambda>x. x\<lparr>buf_body := cc\<rparr>) t) ! b = (k_bufs t ! b)\<lparr>buf_body := cc\<rparr> \<or> k_bufs (upd_buf b (\<lambda>x. x\<lparr>buf_body := cc\<rparr>) t) ! b = k_bufs t ! b" for cc t
      by (cases "b < length (k_bufs t)") (simp_all add: upd_buf_def list_update_beyond)
    then have keep: "buf_waiting_procs (k_bufs (upd_buf b (\<lambda>x. x\<lparr>buf_body := cc\<rparr>) t) ! b) = buf_waiting_procs (k_bufs t ! b)"
      "buf_que_disc (k_bufs (upd_buf b (\<lambda>x. x\<lparr>buf_body := cc\<rparr>) t) ! b) = buf_que_disc (k_bufs t ! b)" for cc t by (metis buffer.select_convs buffer.ext_inject buffer.update_convs(7) buffer.surjective)+
    show ?thesis
      using that assms(7,8) s1(3) keep
      by (auto simp: buffer_recv_def buffer_send_def recv_store_def Let_def store64_def split: if_splits option.splits prod.splits)
  qed
  have "snd (recv_buf_finish clk' b a l s1) = Fatal" if "buffer_recv b a l s1 = OK s2" for s2 clk' a l
    using that frame [of a l s2] fatal by (simp add: recv_buf_finish_def or_fatal_def)
  moreover have "snd (send_buf_finish clk' b a n s1) = Fatal" if "buffer_send b a n s1 = OK s2" for s2 clk' a n
    using that frame [of a n s2] fatal by (simp add: send_buf_finish_def or_fatal_def)
  ultimately show ?thesis using stop s1(2) by auto
qed

text \<open>Process 1 waits, with a timer, for room in the buffer of \<open>kst_msg\<close>.\<close>

definition kst_stop :: kst where
  "kst_stop = kst_msg\<lparr>k_procs := [example_proc 1 1 5 RUNNING [], (example_proc 2 1 7 WAITING [3])\<lparr>pr_waiting_reason := BUFFER_BLOCKED_WITH_TIMEOUT,
       pr_asso_timer := Some 0\<rparr>],
     proc_id_map := hashmap_put hash_code_uint64 hash_eq_uint64 (\<lambda>_. 2) (HASHMAP_ALLOC 128) 1,
     k_tes := [\<lparr>te_time = 50, te_type = TE_BUFFER_BLOCK_TIMEOUT 1 0\<rparr>], k_te_queue := [0]\<rparr>"

theorem stop_then_transfer_faults_witness:
  "\<exists>s1. do_stop (\<lambda>_. 0) 2 kst_stop = (s1, Yield False (K_Ret NO_ERROR)) \<and> pr_state (k_procs s1 ! 1) = DORMANT
     \<and> (\<forall>s2 a l. buffer_recv 0 a l s1 = OK s2 \<longrightarrow> snd (recv_buf_finish (\<lambda>_. 0) 0 a l s1) = Fatal)"
proof -
  note d = kst_stop_def kst_msg_def kst_buf_def example_defs
  have "own_proc kst_stop 2 = Some 1"
    by (simp add: own_proc_def proc_from_id_def proc_id_key_of_def sched_cur_part_def d hashmap_get_def hashmap_put_def hashmap_index_def HASHMAP_ALLOC_def hashmap_init_def hash_code_uint64_def hash_eq_uint64_def Let_def)
  then show ?thesis
    using stop_then_transfer_faults [of kst_stop 2 1 0 0 "[]" "\<lambda>_. 0"] by (auto simp: d)
qed

section \<open>Objects are only created before normal mode\<close>

text \<open>
  C29 (safety). Once a partition is in normal mode, its processes cannot create objects any more: each of the four creation
  services leaves the whole kernel state as it was and does not report success.
\<close>

theorem no_creation_in_normal_mode:
  assumes "pa_op_mode (sched_cur_part s) = NORMAL"
    "r \<in> {do_create_process attributes i s, do_create_buffer name sz nb disc i s, do_create_blackboard name sz i s,
          do_create_queuing_port name sz nb dir disc i s}"
  shows "fst r = s \<and> snd r \<noteq> Done NO_ERROR"
proof -
  have name: "fst (with_name s x f) = s \<and> snd (with_name s x f) \<noteq> Done NO_ERROR"
    if "\<And>n. fst (f n) = s \<and> snd (f n) \<noteq> Done NO_ERROR" for x f
    using that by (simp add: with_name_def split: option.split)
  have "fst (do_create_process attributes i s) = s \<and> snd (do_create_process attributes i s) \<noteq> Done NO_ERROR"
    unfolding do_create_process_def Let_def by (rule name) (simp add: assms(1))
  moreover have "fst (do_create_buffer name sz nb disc i s) = s \<and> snd (do_create_buffer name sz nb disc i s) \<noteq> Done NO_ERROR"
    unfolding do_create_buffer_def Let_def by (rule name) (simp add: assms(1))
  moreover have "fst (do_create_blackboard name sz i s) = s \<and> snd (do_create_blackboard name sz i s) \<noteq> Done NO_ERROR"
    unfolding do_create_blackboard_def Let_def by (rule name) (simp add: assms(1))
  moreover have "fst (do_create_queuing_port name sz nb dir disc i s) = s \<and> snd (do_create_queuing_port name sz nb dir disc i s) \<noteq> Done NO_ERROR"
    unfolding do_create_queuing_port_def Let_def by (rule name) (simp add: assms(1))
  ultimately show ?thesis using assms(2) by auto
qed

theorem no_creation_in_normal_mode_witness:
  "pa_op_mode (sched_cur_part kst_buf) = NORMAL \<and> fst (do_create_buffer 0x1000 8 2 FIFO 0x2000 kst_buf) = kst_buf"
proof -
  have "pa_op_mode (sched_cur_part kst_buf) = NORMAL" by (simp add: sched_cur_part_def kst_buf_def example_defs)
  then show ?thesis using no_creation_in_normal_mode [of kst_buf "do_create_buffer 0x1000 8 2 FIFO 0x2000 kst_buf" 0 "0x2000" "0x1000" 8 2 FIFO 0] by simp
qed

section \<open>The memory of a new buffer\<close>

lemma buffer_alloc_OK:
  assumes "pa_comm_base (k_parts s ! pa) + nb * (sz + 8) < COMM_LIMT" "pa < length (k_parts s)"
  shows "\<exists>s'. buffer_alloc pa name sz nb disc s = (s', OK (length (k_bufs s)))
     \<and> k_bufs s' = k_bufs s @ [\<lparr>buf_name = name, buf_id = buf_nxt_id s, buf_part_id = pa_id (k_parts s ! pa), buf_que_disc = disc, buf_max_msg_size = sz,
           buf_max_nb_msg = nb, buf_body = circbuf_init (pa_comm_base (k_parts s ! pa)) (sz + 8) nb, buf_waiting_procs = []\<rparr>]
     \<and> pa_comm_base (k_parts s' ! pa) = pa_comm_base (k_parts s ! pa) + nb * (sz + 8)"
  using assms
  by (simp add: buffer_alloc_def buf_id_alloc_def part_comm_alloc_def COMM_MSG_HDR_def Let_def leD part_add_buf_name_def upd_part_def)

lemma buffer_alloc_ERR:
  assumes "COMM_LIMT \<le> pa_comm_base (k_parts s ! pa) + nb * (sz + 8)"
  shows "snd (buffer_alloc pa name sz nb disc s) = ERR KER_PART_ER"
  using assms by (simp add: buffer_alloc_def buf_id_alloc_def part_comm_alloc_def COMM_MSG_HDR_def Let_def)

lemma comm_sum:
  assumes "unat nb * (unat sz + 8) < 2 ^ 63" "unat sz + 8 < 2 ^ 64" "unat (base :: u64) < 2 ^ 62"
  shows "unat (sz + 8 :: u64) = unat sz + 8" "unat (base + nb * (sz + 8)) = unat base + unat nb * (unat sz + 8)"
proof -
  show s8: "unat (sz + 8 :: u64) = unat sz + 8" using assms(2) unat_plus_small [of sz 8] by simp
  have "unat (nb * (sz + 8)) = unat nb * (unat sz + 8)" using assms(1) unat_mult_small [of nb "sz + 8"] s8 by simp
  then show "unat (base + nb * (sz + 8)) = unat base + unat nb * (unat sz + 8)"
    using assms(1,3) by (simp add: unat_word_ariths)
qed

text \<open>
  C30 (bounds). As long as the requested size does not wrap around (below \<open>2 ^ 63\<close> bytes), a buffer is created if and only if its
  region fits between the memory already handed out and the end of the communication area: the region starts
  where the previous ones ended, the next one will start where it ends, so the regions of a partition are disjoint,
  and the new buffer is well formed, empty and without waiting processes.
\<close>

theorem buffer_region_reserved:
  assumes "pa < length (k_parts s)" "base = pa_comm_base (k_parts s ! pa)" "COMM_BASE \<le> base" "base \<le> COMM_LIMT" "nb \<noteq> 0"
    "unat sz + 8 < 2 ^ 64" "unat nb * (unat sz + 8) < 2 ^ 63"
  shows "case buffer_alloc pa name sz nb disc s of
       (s', OK b) \<Rightarrow> buf_inv s' b \<and> buf_queue s' b = [] \<and> waiters_ok s' b \<and> buf_region s' b = range_of base (unat nb * (unat sz + 8))
         \<and> unat (pa_comm_base (k_parts s' ! pa)) = unat base + unat nb * (unat sz + 8) \<and> pa_comm_base (k_parts s' ! pa) < COMM_LIMT
     | (s', e) \<Rightarrow> e = ERR KER_PART_ER \<and> unat COMM_LIMT \<le> unat base + unat nb * (unat sz + 8)"
proof -
  have "unat base < 2 ^ 62" using assms(4) by (simp add: word_le_nat_alt layout_simps)
  note sum = comm_sum [OF assms(7,6) this]
  show ?thesis
  proof (cases "base + nb * (sz + 8) < COMM_LIMT")
    case True
    then obtain s' where s': "buffer_alloc pa name sz nb disc s = (s', OK (length (k_bufs s)))"
      "k_bufs s' ! length (k_bufs s) = \<lparr>buf_name = name, buf_id = buf_nxt_id s, buf_part_id = pa_id (k_parts s ! pa), buf_que_disc = disc, buf_max_msg_size = sz,
           buf_max_nb_msg = nb, buf_body = circbuf_init base (sz + 8) nb, buf_waiting_procs = []\<rparr>"
      "length (k_bufs s') = Suc (length (k_bufs s))" "pa_comm_base (k_parts s' ! pa) = base + nb * (sz + 8)"
      using buffer_alloc_OK [of s pa nb sz] assms(1,2) by fastforce
    have "unat base + unat nb * unat (sz + 8) + 4 < 2 ^ 64"
      using True sum by (simp add: word_less_nat_alt layout_simps)
    then have c: "circ_ok (circbuf_init base (sz + 8) nb)" "circ_contents m (circbuf_init base (sz + 8) nb) = []" for m
      using sum(1) assms(5) by (intro circ_init_ok; simp add: unat_gt_0)+
    show ?thesis
      using s' c True sum
      by (simp add: buf_inv_def buf_queue_def waiters_ok_def buf_region_def circ_msgs_ok_def circ_msgs_def)
        (simp add: circbuf_init_def circ_bytes_def)
  next
    case False
    then have "snd (buffer_alloc pa name sz nb disc s) = ERR KER_PART_ER" using buffer_alloc_ERR [of s pa nb sz] assms(2) by simp
    moreover have "unat COMM_LIMT \<le> unat base + unat nb * (unat sz + 8)" using False sum(2) by (simp add: word_less_nat_alt)
    ultimately show ?thesis by (cases "buffer_alloc pa name sz nb disc s") auto
  qed
qed

theorem buffer_region_reserved_witness:
  "\<exists>s'. buffer_alloc 0 ''x'' 24 4 FIFO kst_buf = (s', OK 1) \<and> buf_inv s' 1 \<and> buf_region s' 1 = range_of COMM_BASE 128"
proof -
  have k: "0 < length (k_parts kst_buf)" "pa_comm_base (k_parts kst_buf ! 0) = COMM_BASE" "length (k_bufs kst_buf) = 1"
    by (simp_all add: kst_buf_def example_defs)
  obtain s' where "buffer_alloc 0 ''x'' 24 4 FIFO kst_buf = (s', OK 1)"
    using buffer_alloc_OK [of kst_buf 0 4 24] k by (auto simp: layout_simps)
  then show ?thesis using buffer_region_reserved [of 0 kst_buf COMM_BASE 4 24 "''x''" FIFO] k by (simp add: layout_simps)
qed

text \<open>
  C39 (error). Without that bound the size wraps around: a partition may create a buffer for \<open>2 ^ 24\<close> messages of \<open>2 ^ 40 - 8\<close> bytes; the call succeeds,
  no memory at all is reserved for it, and the next buffer gets the same region.
\<close>

theorem buffer_size_wraps:
  assumes "pa < length (k_parts s)" "pa_comm_base (k_parts s ! pa) < COMM_LIMT"
  shows "\<exists>s' b. buffer_alloc pa name (2 ^ 40 - 8) (2 ^ 24) disc s = (s', OK b)
     \<and> cc_buf (buf_body (k_bufs s' ! b)) = pa_comm_base (k_parts s ! pa) \<and> pa_comm_base (k_parts s' ! pa) = pa_comm_base (k_parts s ! pa)"
proof -
  have z: "(2 ^ 24 * (2 ^ 40 - 8 + 8) :: u64) = 0" by simp
  have "pa_comm_base (k_parts s ! pa) + 2 ^ 24 * (2 ^ 40 - 8 + 8) < COMM_LIMT" unfolding z using assms(2) by simp
  then obtain s' where "buffer_alloc pa name (2 ^ 40 - 8) (2 ^ 24) disc s = (s', OK (length (k_bufs s)))"
    "cc_buf (buf_body (k_bufs s' ! length (k_bufs s))) = pa_comm_base (k_parts s ! pa)"
    "pa_comm_base (k_parts s' ! pa) = pa_comm_base (k_parts s ! pa) + 2 ^ 24 * (2 ^ 40 - 8 + 8)"
    using buffer_alloc_OK [OF _ assms(1), of "2 ^ 24" "2 ^ 40 - 8" name disc] by (auto simp: circbuf_init_def)
  then show ?thesis unfolding z by (intro exI [of _ s'] exI [of _ "length (k_bufs s)"]) simp
qed

theorem buffer_size_wraps_witness:
  "\<exists>s' b. buffer_alloc 0 ''x'' (2 ^ 40 - 8) (2 ^ 24) FIFO kst_buf = (s', OK b) \<and> pa_comm_base (k_parts s' ! 0) = COMM_BASE"
proof -
  have "0 < length (k_parts kst_buf)" "pa_comm_base (k_parts kst_buf ! 0) = COMM_BASE" by (simp_all add: kst_buf_def example_defs)
  then show ?thesis using buffer_size_wraps [of 0 kst_buf "''x''" FIFO] by (auto simp: layout_simps)
qed

end
