(* ===== verification/Isolation.thy ===== *)
theory Isolation
  imports Syscalls
begin

text \<open>
  Spatial partitioning at the level of the kernel's objects: whatever a process asks for, a system
  call leaves the memory, the record, the buffers and the blackboards of every other partition as
  they are. The relation \<open>isolated\<close> is closed under the operations of the components; the lemmas
  follow the structure of the handlers.
\<close>

section \<open>The relation\<close>

definition isolated :: "nat \<Rightarrow> kst \<Rightarrow> kst \<Rightarrow> bool" where
  "isolated pa s t \<longleftrightarrow> k_cur_part t = k_cur_part s \<and> (\<forall>q. q \<noteq> pa \<longrightarrow> k_part_mem t q = k_part_mem s q)
     \<and> length (k_parts t) = length (k_parts s) \<and> (\<forall>q < length (k_parts s). q \<noteq> pa \<longrightarrow> k_parts t ! q = k_parts s ! q)
     \<and> pa_id (k_parts t ! pa) = pa_id (k_parts s ! pa)
     \<and> length (k_bufs s) \<le> length (k_bufs t) \<and> length (k_bbs s) \<le> length (k_bbs t)
     \<and> (\<forall>b < length (k_bufs s). buf_part_id (k_bufs s ! b) \<noteq> pa_id (k_parts s ! pa) \<longrightarrow> k_bufs t ! b = k_bufs s ! b)
     \<and> (\<forall>b < length (k_bbs s). bb_part_id (k_bbs s ! b) \<noteq> pa_id (k_parts s ! pa) \<longrightarrow> k_bbs t ! b = k_bbs s ! b)"

named_theorems iso_intros

lemma isolated_refl [iso_intros]: "isolated pa s s"
  by (simp add: isolated_def)

lemma isolated_trans: "isolated pa s t \<Longrightarrow> isolated pa t u \<Longrightarrow> isolated pa s u"
  by (simp add: isolated_def)

lemma isolated_same:
  assumes "isolated pa s t" "k_part_mem u = k_part_mem t" "k_parts u = k_parts t" "k_bufs u = k_bufs t" "k_bbs u = k_bbs t"
    "k_cur_part u = k_cur_part t"
  shows "isolated pa s u"
  using assms by (simp add: isolated_def)

text \<open>The state may change in every field the relation does not speak of.\<close>

lemma isolated_upd_proc [iso_intros]: "isolated pa s t \<Longrightarrow> isolated pa s (upd_proc p f t)"
  by (rule isolated_same) simp_all

lemma isolated_upd_chan [iso_intros]: "isolated pa s t \<Longrightarrow> isolated pa s (upd_chan c f t)"
  by (rule isolated_same) (simp_all add: upd_chan_def)

lemma isolated_upd_ctx [iso_intros]: "isolated pa s t \<Longrightarrow> isolated pa s (upd_ctx c f t)"
  by (rule isolated_same) (simp_all add: upd_ctx_def)

lemma isolated_set_umem [iso_intros]:
  assumes "isolated pa s t" "the (k_cur_part s) = pa"
  shows "isolated pa s (set_umem m t)"
  using assms by (auto simp: isolated_def set_umem_def)

lemma isolated_store [iso_intros]:
  assumes "isolated pa s t" "the (k_cur_part s) = pa"
  shows "isolated pa s (store64 a v t)" "isolated pa s (store32 a w t)"
  unfolding store64_def store32_def by (intro isolated_set_umem assms)+

lemma isolated_upd_part [iso_intros]:
  assumes "isolated pa s t" "\<And>x. pa_id (f x) = pa_id x"
  shows "isolated pa s (upd_part pa f t)"
proof -
  have "pa_id ((k_parts t)[pa := f (k_parts t ! pa)] ! pa) = pa_id (k_parts t ! pa)"
    by (cases "pa < length (k_parts t)") (simp_all add: assms(2) list_update_beyond)
  then show ?thesis using assms(1) by (simp add: isolated_def upd_part_def)
qed

lemma isolated_upd_buf [iso_intros]:
  assumes "isolated pa s t" "b < length (k_bufs s) \<Longrightarrow> buf_part_id (k_bufs s ! b) = pa_id (k_parts s ! pa)"
  shows "isolated pa s (upd_buf b f t)"
proof -
  have "(k_bufs t)[b := x] ! c = k_bufs t ! c" if "c < length (k_bufs s)" "buf_part_id (k_bufs s ! c) \<noteq> pa_id (k_parts s ! pa)" for c x
    using that assms(2) by (cases "c = b") simp_all
  then show ?thesis using assms(1) by (simp add: isolated_def upd_buf_def)
qed

lemma isolated_upd_bb [iso_intros]:
  assumes "isolated pa s t" "b < length (k_bbs s) \<Longrightarrow> bb_part_id (k_bbs s ! b) = pa_id (k_parts s ! pa)"
  shows "isolated pa s (upd_bb b f t)"
proof -
  have "(k_bbs t)[b := x] ! c = k_bbs t ! c" if "c < length (k_bbs s)" "bb_part_id (k_bbs s ! c) \<noteq> pa_id (k_parts s ! pa)" for c x
    using that assms(2) by (cases "c = b") simp_all
  then show ?thesis using assms(1) by (simp add: isolated_def upd_bb_def)
qed

lemma time_event_alloc_iso [simp]:
  "k_part_mem (time_event_alloc now t ty s) = k_part_mem s" "k_bufs (time_event_alloc now t ty s) = k_bufs s"
  "k_bbs (time_event_alloc now t ty s) = k_bbs s"
  by (simp_all add: time_event_alloc_def Let_def set_asso_timer_def time_event_set_head_def split: option.split list.split)

lemma isolated_time_event_alloc [iso_intros]: "isolated pa s t \<Longrightarrow> isolated pa s (time_event_alloc now tm ty t)"
  by (rule isolated_same) simp_all

lemma set_head_mem [simp]: "k_part_mem (time_event_set_head now s) = k_part_mem s"
  by (simp add: time_event_set_head_def split: list.split)

lemma set_asso_mem [simp]: "k_part_mem (set_asso_timer v ty s) = k_part_mem s"
  by (simp add: set_asso_timer_def split: option.split)

lemma isolated_time_event_free:
  assumes "isolated pa s t" "time_event_free now te t = OK u"
  shows "isolated pa s u"
  using assms(2) by (intro isolated_same [OF assms(1)]) (auto simp: time_event_free_def Let_def split: option.splits)

section \<open>Operations of the components\<close>

lemma isolated_set_state [iso_intros]: "isolated pa s t \<Longrightarrow> isolated pa s (set_state p st t)"
  "isolated pa s t \<Longrightarrow> isolated pa s (set_reason p r t)"
  by (simp_all add: set_state_def set_reason_def isolated_upd_proc)

lemma isolated_proc_reset:
  assumes "isolated pa s t" "proc_reset p t = OK u"
  shows "isolated pa s u"
proof -
  define t1 where "t1 = upd_proc p (\<lambda>x. x\<lparr>pr_ctx_list := []\<rparr>) (t\<lparr>k_ctx_free_list := rev (pr_ctx_list (k_procs t ! p)) @ k_ctx_free_list t\<rparr>)"
  have t1: "isolated pa s t1" by (rule isolated_same [OF assms(1)]) (simp_all add: t1_def)
  obtain t2 r where a: "ctx_alloc t1 = (t2, r)" by fastforce
  then have "isolated pa s t2" by (intro isolated_same [OF t1]) (auto simp: ctx_alloc_def split: list.splits)
  moreover obtain c where "r = OK c" using assms(2) a by (cases r) (auto simp: proc_reset_def Let_def t1_def)
  ultimately show ?thesis using assms(2) a by (auto simp: proc_reset_def Let_def t1_def [symmetric] intro!: iso_intros)
qed

lemma isolated_mm [iso_intros]: "isolated pa s t \<Longrightarrow> isolated pa s (t\<lparr>k_mm := m\<rparr>)"
  by (rule isolated_same) simp_all

lemma isolated_stacks:
  assumes "isolated pa s t"
  shows "isolated pa s (fst (proc_ustack_setup pa p sz t))" "isolated pa s (fst (proc_xstack_setup pa p t))"
proof -
  have *: "isolated pa s (fst (case r of (m, OK _) \<Rightarrow> (upd_part pa f (t1\<lparr>k_mm := m\<rparr>), OK ()) | (m, e) \<Rightarrow> (t1\<lparr>k_mm := m\<rparr>, e)))"
    if "isolated pa s t1" "\<And>x. pa_id (f x) = pa_id x" for t1 f and r :: "mm \<times> unit result"
    using that by (cases r; cases "snd r") (auto intro: iso_intros)
  show "isolated pa s (fst (proc_ustack_setup pa p sz t))" "isolated pa s (fst (proc_xstack_setup pa p t))"
    unfolding proc_ustack_setup_def proc_xstack_setup_def Let_def
    by (rule *; simp add: isolated_upd_proc assms)+
qed

lemma isolated_maps [iso_intros]:
  assumes "isolated pa s t"
  shows "isolated pa s (t\<lparr>proc_id_map := h\<rparr>)" "isolated pa s (t\<lparr>buf_id_map := h\<rparr>)" "isolated pa s (t\<lparr>bb_id_map := h\<rparr>)"
    "isolated pa s (t\<lparr>proc_nxt_id := n\<rparr>)" "isolated pa s (t\<lparr>buf_nxt_id := n\<rparr>)" "isolated pa s (t\<lparr>bb_nxt_id := n\<rparr>)"
    "isolated pa s (t\<lparr>k_procs := ps\<rparr>)"
  by (rule isolated_same [OF assms]; simp)+

lemma isolated_names [iso_intros]:
  assumes "isolated pa s t"
  shows "isolated pa s (part_add_proc_name pa p t)" "isolated pa s (part_add_buf_name pa p t)" "isolated pa s (part_add_bb_name pa p t)"
  unfolding part_add_proc_name_def part_add_buf_name_def part_add_bb_name_def by (rule isolated_upd_part [OF assms]; simp)+

lemma isolated_proc_link [iso_intros]:
  assumes "isolated pa s t"
  shows "isolated pa s (proc_link pa p t)"
  unfolding proc_link_def Let_def by (intro isolated_maps isolated_upd_part isolated_names assms) simp

lemma isolated_proc_alloc:
  assumes "isolated pa s t"
  shows "isolated pa s (fst (proc_alloc pa name period time_cap entrypoint stacksize base_pri deadline t))"
proof -
  define t2 where "t2 = t\<lparr>proc_nxt_id := proc_nxt_id t + 1, k_procs := k_procs t @ [new_proc (k_parts t ! pa) (proc_nxt_id t) name period time_cap entrypoint base_pri deadline]\<rparr>"
  define p where "p = length (k_procs t)"
  have t2: "isolated pa s t2" unfolding t2_def by (intro isolated_maps assms)
  obtain t3 r3 where u: "proc_ustack_setup pa p (align_up stacksize PGSIZE_W) t2 = (t3, r3)" by fastforce
  have t3: "isolated pa s t3" using isolated_stacks(1) [OF t2, of p "align_up stacksize PGSIZE_W"] u by simp
  obtain t4 r4 where x: "proc_xstack_setup pa p t3 = (t4, r4)" by fastforce
  have t4: "isolated pa s t4" using isolated_stacks(2) [OF t3, of p] x by simp
  have t5: "isolated pa s (proc_link pa p t4)" by (rule isolated_proc_link [OF t4])
  have t6: "isolated pa s (fst (case proc_reset p (proc_link pa p t4) of OK s5 \<Rightarrow> (s5, OK p) | _ \<Rightarrow> (proc_link pa p t4, PANIC)))"
    using isolated_proc_reset [OF t5] t5 by (auto split: result.splits)
  have new: "k_procs (t\<lparr>proc_nxt_id := n\<rparr>) = k_procs t" "k_parts (t\<lparr>proc_nxt_id := n\<rparr>) = k_parts t" for n by simp_all
  have "proc_alloc pa name period time_cap entrypoint stacksize base_pri deadline t =
     (if pa_mem_rem (k_parts t ! pa) < align_up stacksize PGSIZE_W then (t, ERR KER_PROC_ER)
      else case proc_ustack_setup pa p (align_up stacksize PGSIZE_W) t2 of
         (s3, OK _) \<Rightarrow> (case proc_xstack_setup pa p s3 of
            (s4, OK _) \<Rightarrow> (case proc_reset p (proc_link pa p s4) of OK s5 \<Rightarrow> (s5, OK p) | _ \<Rightarrow> (proc_link pa p s4, PANIC))
          | (s4, _) \<Rightarrow> (s4, PANIC))
       | (s3, _) \<Rightarrow> (s3, PANIC))"
    unfolding proc_alloc_def proc_id_alloc_def Let_def prod.case t2_def p_def new by simp
  then show ?thesis using u x t3 t4 t6 assms by (cases r3; cases r4) simp_all
qed

lemma isolated_comm_alloc:
  assumes "isolated pa s t"
  shows "isolated pa s (fst (part_comm_alloc pa sz t))"
  using assms by (auto simp: part_comm_alloc_def Let_def intro: iso_intros)

lemma isolated_append:
  assumes "isolated pa s t"
  shows "isolated pa s (t\<lparr>k_bufs := k_bufs t @ [b]\<rparr>)" "isolated pa s (t\<lparr>k_bbs := k_bbs t @ [c]\<rparr>)"
  using assms by (auto simp: isolated_def nth_append)

lemma isolated_buffer_alloc:
  assumes "isolated pa s t"
  shows "isolated pa s (fst (buffer_alloc pa name sz nb disc t))"
proof -
  define t1 where "t1 = t\<lparr>buf_nxt_id := buf_nxt_id t + 1\<rparr>"
  obtain t2 r where c: "part_comm_alloc pa (nb * (sz + COMM_MSG_HDR)) t1 = (t2, r)" by fastforce
  have "isolated pa s t1" unfolding t1_def by (intro isolated_maps assms)
  then have t2: "isolated pa s t2" using isolated_comm_alloc [of pa s t1 "nb * (sz + COMM_MSG_HDR)"] c by simp
  show ?thesis
    unfolding buffer_alloc_def buf_id_alloc_def Let_def prod.case t1_def [symmetric] c
    by (cases r) (simp_all only: result.case prod.case fst_conv t2 isolated_maps isolated_names isolated_append)
qed

lemma isolated_blackboard_alloc:
  assumes "isolated pa s t"
  shows "isolated pa s (fst (blackboard_alloc pa name sz t))"
proof -
  define t1 where "t1 = t\<lparr>bb_nxt_id := bb_nxt_id t + 1\<rparr>"
  obtain t2 r where c: "part_comm_alloc pa sz t1 = (t2, r)" by fastforce
  have "isolated pa s t1" unfolding t1_def by (intro isolated_maps assms)
  then have t2: "isolated pa s t2" using isolated_comm_alloc [of pa s t1 sz] c by simp
  show ?thesis
    unfolding blackboard_alloc_def bb_id_alloc_def Let_def prod.case t1_def [symmetric] c
    by (cases r) (simp_all only: result.case prod.case fst_conv t2 isolated_maps isolated_names isolated_append)
qed

lemma isolated_queuing_port_alloc:
  assumes "isolated pa s t"
  shows "isolated pa s (fst (queuing_port_alloc pa name dir sz nb disc t))"
  using assms by (auto simp: queuing_port_alloc_def queuing_port_id_alloc_def Let_def split: option.splits intro: isolated_same)

section \<open>Handlers\<close>

text \<open>The object a suspended call goes on with belongs to the partition.\<close>

definition own_cont :: "nat \<Rightarrow> kst \<Rightarrow> cont \<Rightarrow> bool" where
  "own_cont pa s k =
     (case k of
        K_SendBuf b _ _ _ _ \<Rightarrow> b < length (k_bufs s) \<longrightarrow> buf_part_id (k_bufs s ! b) = pa_id (k_parts s ! pa)
      | K_RecvBuf b _ _ _ _ \<Rightarrow> b < length (k_bufs s) \<longrightarrow> buf_part_id (k_bufs s ! b) = pa_id (k_parts s ! pa)
      | K_ReadBB b _ _ _ _ \<Rightarrow> b < length (k_bbs s) \<longrightarrow> bb_part_id (k_bbs s ! b) = pa_id (k_parts s ! pa)
      | _ \<Rightarrow> True)"

definition safe_call :: "nat \<Rightarrow> kst \<Rightarrow> kst \<times> outcome \<Rightarrow> bool" where
  "safe_call pa s r \<longleftrightarrow> isolated pa s (fst r) \<and> (\<forall>rr k. snd r = Yield rr k \<longrightarrow> own_cont pa s k)"

named_theorems safe_intros

lemma safe_ends [safe_intros]:
  assumes "isolated pa s t"
  shows "safe_call pa s (t, Done rc)" "safe_call pa s (t, Fatal)" "safe_call pa s (t, Halt)" "safe_call pa s (t, Console op)"
    "own_cont pa s k \<Longrightarrow> safe_call pa s (t, Yield rr k)"
  using assms by (simp_all add: safe_call_def)

lemma safe_or_fatal [safe_intros]:
  assumes "isolated pa s t" "\<And>x. r = OK x \<Longrightarrow> safe_call pa s (f x)"
  shows "safe_call pa s (or_fatal t r f)"
  using assms by (cases r) (simp_all add: or_fatal_def safe_ends)

lemma safe_with_name [safe_intros]:
  assumes "\<And>n. safe_call pa s (f n)"
  shows "safe_call pa s (with_name s a f)"
  using assms by (auto simp: with_name_def safe_ends isolated_refl split: option.split)

lemma own_conts [safe_intros]: "own_cont pa s (K_Ret rc)" "own_cont pa s (K_SuspendSelf w)"
  "own_cont pa s (K_SendPort q a l t w)" "own_cont pa s (K_RecvPort q t a l w w')"
  by (simp_all add: own_cont_def)

text \<open>What the ownership tests give.\<close>

lemma own_buf_D: "own_buf s i = Some b \<Longrightarrow> buf_part_id (k_bufs s ! b) = pa_id (k_parts s ! the (k_cur_part s))"
  by (auto simp: own_buf_def sched_cur_part_def split: option.splits if_splits)

lemma own_bb_D: "own_bb s i = Some b \<Longrightarrow> bb_part_id (k_bbs s ! b) = pa_id (k_parts s ! the (k_cur_part s))"
  by (auto simp: own_bb_def sched_cur_part_def split: option.splits if_splits)

text \<open>Sleeping and waking.\<close>

lemma isolated_block_wait:
  assumes "isolated pa s t" "\<And>u. isolated pa s u \<Longrightarrow> isolated pa s (add u)"
  shows "isolated pa s (block_wait p reason timed te add now time_out w t)"
  unfolding block_wait_def Let_def using assms by (simp add: isolated_time_event_alloc isolated_set_state)

lemma isolated_wake_proc:
  assumes "isolated pa s t" "wake_proc now r p t = OK u"
  shows "isolated pa s u"
proof -
  obtain t1 where "isolated pa s t1" "u = set_state p READY t1"
    using assms isolated_time_event_free [OF assms(1)] by (fastforce simp: wake_proc_def panic_e_def split: if_splits result.splits)
  then show ?thesis by (simp add: isolated_set_state)
qed

text \<open>Queues and messages of the ports do not touch what the relation protects, but for the caller's memory.\<close>

lemma isolated_port_queue [iso_intros]:
  assumes "isolated pa s t"
  shows "isolated pa s (queuing_port_add_waiting_proc q p t)" "isolated pa s (queuing_port_del_waiting_proc q p t)"
    "isolated pa s (fst (queuing_port_wakeup_waiting_proc q t))"
proof -
  show d: "isolated pa s (queuing_port_add_waiting_proc q p t)" "isolated pa s (queuing_port_del_waiting_proc q p t)" for p
    unfolding queuing_port_add_waiting_proc_def queuing_port_del_waiting_proc_def by (intro isolated_upd_chan assms)+
  show "isolated pa s (fst (queuing_port_wakeup_waiting_proc q t))"
    unfolding queuing_port_wakeup_waiting_proc_def using d(2) assms by (simp split: option.split)
qed

lemma isolated_buf_queue:
  assumes "isolated pa s t" "b < length (k_bufs s) \<Longrightarrow> buf_part_id (k_bufs s ! b) = pa_id (k_parts s ! pa)"
  shows "isolated pa s (buffer_add_waiting_proc b p t)" "isolated pa s (fst (buffer_wakeup_waiting_proc b t))"
proof -
  show "isolated pa s (buffer_add_waiting_proc b p t)"
    unfolding buffer_add_waiting_proc_def by (intro isolated_upd_buf assms)
  show "isolated pa s (fst (buffer_wakeup_waiting_proc b t))"
    unfolding buffer_wakeup_waiting_proc_def buffer_del_waiting_proc_def using isolated_upd_buf [OF assms] assms(1) by (simp split: option.split)
qed

lemma isolated_bb_queue:
  assumes "isolated pa s t" "b < length (k_bbs s) \<Longrightarrow> bb_part_id (k_bbs s ! b) = pa_id (k_parts s ! pa)"
  shows "isolated pa s (blackboard_add_waiting_proc b p t)" "isolated pa s (fst (blackboard_wakeup_waiting_proc b t))"
proof -
  show "isolated pa s (blackboard_add_waiting_proc b p t)"
    unfolding blackboard_add_waiting_proc_def by (intro isolated_upd_bb assms)
  show "isolated pa s (fst (blackboard_wakeup_waiting_proc b t))"
    unfolding blackboard_wakeup_waiting_proc_def using isolated_upd_bb [OF assms] assms(1) by (simp split: list.split)
qed

text \<open>The transfers of messages.\<close>

lemma isolated_recv_store:
  assumes "isolated pa s t" "the (k_cur_part s) = pa" "recv_store cc a l t = Some (u, cc')"
  shows "isolated pa s u"
  using assms(3) by (auto simp: recv_store_def Let_def split: prod.splits intro!: isolated_set_umem isolated_store assms(1,2))

lemma isolated_buffer_transfer:
  assumes "isolated pa s t" "the (k_cur_part s) = pa"
    "b < length (k_bufs s) \<Longrightarrow> buf_part_id (k_bufs s ! b) = pa_id (k_parts s ! pa)"
  shows "buffer_send b a l t = OK u \<Longrightarrow> isolated pa s u" "buffer_recv b a l t = OK u \<Longrightarrow> isolated pa s u"
  using assms isolated_recv_store [OF assms(1,2)]
  by (auto simp: buffer_send_def buffer_recv_def split: if_splits option.splits intro!: isolated_upd_buf isolated_set_umem)

lemma isolated_port_transfer:
  assumes "isolated pa s t" "the (k_cur_part s) = pa"
  shows "queuing_port_send q a l t = OK u \<Longrightarrow> isolated pa s u" "queuing_port_recv q a l t = OK u \<Longrightarrow> isolated pa s u"
  using assms isolated_recv_store [OF assms]
  by (auto simp: queuing_port_send_def queuing_port_recv_def split: if_splits option.splits intro!: isolated_upd_chan isolated_set_umem)

lemma isolated_bb_transfer:
  assumes "isolated pa s t" "the (k_cur_part s) = pa"
    "b < length (k_bbs s) \<Longrightarrow> bb_part_id (k_bbs s ! b) = pa_id (k_parts s ! pa)"
  shows "blackboard_display b a l t = OK u \<Longrightarrow> isolated pa s u" "blackboard_read b a l t = OK u \<Longrightarrow> isolated pa s u"
  using assms
  by (auto simp: blackboard_display_def blackboard_read_def split: option.splits intro!: isolated_upd_bb isolated_set_umem isolated_store)

lemma isolated_port_wake:
  assumes "isolated pa s t" "port_wake clk q t = OK u"
  shows "isolated pa s u"
proof (cases "queuing_port_wakeup_waiting_proc q t")
  case (Pair t1 p)
  then have "isolated pa s t1" using isolated_port_queue(3) [OF assms(1), of q] by simp
  then show ?thesis using assms(2) Pair by (auto simp: port_wake_def split: option.splits intro: isolated_wake_proc)
qed

lemma safe_buf_wake:
  assumes "isolated pa s t" "b < length (k_bufs s) \<Longrightarrow> buf_part_id (k_bufs s ! b) = pa_id (k_parts s ! pa)"
  shows "safe_call pa s (buf_wake clk b t)"
proof (cases "buffer_wakeup_waiting_proc b t")
  case (Pair t1 p)
  then have "isolated pa s t1" using isolated_buf_queue(2) [OF assms] by simp
  then show ?thesis using Pair by (auto simp: buf_wake_def split: option.splits intro!: safe_intros intro: isolated_wake_proc)
qed

lemma isolated_bb_wake_all:
  assumes "isolated pa s t" "b < length (k_bbs s) \<Longrightarrow> bb_part_id (k_bbs s ! b) = pa_id (k_parts s ! pa)" "bb_wake_all n clk b t = OK u"
  shows "isolated pa s u"
  using assms(1,3)
proof (induction n arbitrary: clk t)
  case (Suc n)
  obtain t1 p where w: "blackboard_wakeup_waiting_proc b t = (t1, p)" by fastforce
  then have t1: "isolated pa s t1" using isolated_bb_queue(2) [OF Suc.prems(1) assms(2)] by simp
  show ?case
  proof (cases p)
    case (Some q)
    then obtain t2 where "wake_proc (clk 0) BLACKBOARD_BLOCKED_WITH_TIMEOUT q t1 = OK t2" "bb_wake_all n (clk_from 1 clk) b t2 = OK u"
      using Suc.prems(2) w by (cases "wake_proc (clk 0) BLACKBOARD_BLOCKED_WITH_TIMEOUT q t1") simp_all
    then show ?thesis using Suc.IH isolated_wake_proc [OF t1] by blast
  qed (use Suc.prems(2) w t1 in simp)
qed simp

text \<open>One round of the waiting loops and the end of the calls.\<close>

lemma safe_port_pieces:
  assumes "isolated pa s t" "the (k_cur_part s) = pa"
  shows "safe_call pa s (send_port_block clk q a l to w t)" "safe_call pa s (recv_port_block clk q to a l w t)"
    "safe_call pa s (send_port_finish clk q a l t)" "safe_call pa s (recv_port_finish clk q a l t)"
  using assms isolated_port_transfer [OF assms]
  unfolding send_port_block_def recv_port_block_def send_port_finish_def recv_port_finish_def Let_def
  by (auto intro!: safe_intros isolated_block_wait isolated_port_queue isolated_store) (blast intro: isolated_port_wake)+

lemma safe_buf_pieces:
  assumes "isolated pa s t" "the (k_cur_part s) = pa"
    "b < length (k_bufs s) \<Longrightarrow> buf_part_id (k_bufs s ! b) = pa_id (k_parts s ! pa)"
  shows "safe_call pa s (send_buf_block clk b a l to w t)" "safe_call pa s (recv_buf_block clk b to a l w t)"
    "safe_call pa s (send_buf_finish clk b a l t)" "safe_call pa s (recv_buf_finish clk b a l t)"
  using assms isolated_buffer_transfer [OF assms]
  unfolding send_buf_block_def recv_buf_block_def send_buf_finish_def recv_buf_finish_def Let_def
  by (auto simp: own_cont_def intro!: safe_intros isolated_block_wait isolated_buf_queue isolated_store safe_buf_wake)

lemma safe_bb_pieces:
  assumes "isolated pa s t" "the (k_cur_part s) = pa"
    "b < length (k_bbs s) \<Longrightarrow> bb_part_id (k_bbs s ! b) = pa_id (k_parts s ! pa)"
  shows "safe_call pa s (read_bb_block clk b to a l w t)" "safe_call pa s (read_bb_finish b a l t)"
  using assms isolated_bb_transfer [OF assms]
  unfolding read_bb_block_def read_bb_finish_def Let_def
  by (auto simp: own_cont_def intro!: safe_intros isolated_block_wait isolated_bb_queue isolated_store)

lemma safe_send_port:
  "safe_call (the (k_cur_part s)) s (do_send_queuing_message clk i a l to s)"
  unfolding do_send_queuing_message_def by (auto split: option.split intro!: safe_ends safe_port_pieces isolated_refl)

lemma safe_receive_port:
  "safe_call (the (k_cur_part s)) s (do_receive_queuing_message clk i to a l s)"
  unfolding do_receive_queuing_message_def
  by (auto split: option.split intro!: safe_ends safe_port_pieces isolated_store isolated_refl)

lemma safe_clear_port: "safe_call (the (k_cur_part s)) s (do_clear_queuing_port clk i s)"
  unfolding do_clear_queuing_port_def
  by (auto split: option.split if_splits intro!: safe_ends safe_or_fatal isolated_upd_chan isolated_refl intro: isolated_port_wake [OF isolated_refl])

lemma safe_send_buffer: "safe_call (the (k_cur_part s)) s (do_send_buffer clk i a l to s)"
  unfolding do_send_buffer_def
  by (auto split: option.split intro!: safe_ends safe_buf_pieces isolated_refl dest: own_buf_D)

lemma safe_receive_buffer: "safe_call (the (k_cur_part s)) s (do_receive_buffer clk i to a l s)"
  unfolding do_receive_buffer_def
  by (auto split: option.split intro!: safe_ends safe_buf_pieces isolated_store isolated_refl dest: own_buf_D)

lemma safe_display_blackboard: "safe_call (the (k_cur_part s)) s (do_display_blackboard clk i a l s)"
  unfolding do_display_blackboard_def
  by (auto split: option.split intro!: safe_intros isolated_refl dest!: own_bb_D
      intro: isolated_bb_transfer(1) [OF isolated_refl refl] isolated_bb_wake_all [OF isolated_bb_transfer(1) [OF isolated_refl refl]])

lemma safe_read_blackboard: "safe_call (the (k_cur_part s)) s (do_read_blackboard clk i to a l s)"
  unfolding do_read_blackboard_def
  by (auto split: option.split intro!: safe_ends safe_bb_pieces isolated_store isolated_refl dest: own_bb_D)

lemma safe_clear_blackboard: "safe_call (the (k_cur_part s)) s (do_clear_blackboard i s)"
  unfolding do_clear_blackboard_def blackboard_clear_def
  by (auto split: option.split intro!: safe_ends isolated_upd_bb isolated_refl dest: own_bb_D)

lemma safe_create:
  "safe_call (the (k_cur_part s)) s (do_create_process at i s)"
  "safe_call (the (k_cur_part s)) s (do_create_buffer n sz nb disc i s)"
  "safe_call (the (k_cur_part s)) s (do_create_blackboard n sz i s)"
  "safe_call (the (k_cur_part s)) s (do_create_queuing_port n sz nb dir disc i s)"
proof -
  have *: "safe_call (the (k_cur_part s)) s (case r of (s1, OK p) \<Rightarrow> (store64 i (v s1 p) s1, Done NO_ERROR)
      | (s1, ERR e) \<Rightarrow> (s1, Done INVALID_CONFIG) | (s1, PANIC) \<Rightarrow> (s1, Fatal))"
    if "isolated (the (k_cur_part s)) s (fst r)" for v and r :: "kst \<times> nat result"
    using that by (cases r; cases "snd r") (auto intro!: safe_ends isolated_store)
  show "safe_call (the (k_cur_part s)) s (do_create_process at i s)"
    "safe_call (the (k_cur_part s)) s (do_create_buffer n sz nb disc i s)"
    "safe_call (the (k_cur_part s)) s (do_create_blackboard n sz i s)"
    "safe_call (the (k_cur_part s)) s (do_create_queuing_port n sz nb dir disc i s)"
    unfolding do_create_process_def do_create_buffer_def do_create_blackboard_def do_create_queuing_port_def Let_def
    by (intro safe_with_name; auto intro!: safe_ends isolated_refl * isolated_proc_alloc isolated_buffer_alloc isolated_blackboard_alloc isolated_queuing_port_alloc)+
qed

text \<open>Calls that only report to the caller.\<close>

lemma safe_queries:
  "safe_call (the (k_cur_part s)) s (do_get_partition_status a s)"
  "safe_call (the (k_cur_part s)) s (do_get_process_id n a s)"
  "safe_call (the (k_cur_part s)) s (do_get_my_id a s)"
  "safe_call (the (k_cur_part s)) s (do_get_my_index a s)"
  "safe_call (the (k_cur_part s)) s (do_get_time clk a s)"
  "safe_call (the (k_cur_part s)) s (do_get_queuing_port_id n a s)"
  "safe_call (the (k_cur_part s)) s (do_get_queuing_port_status i a s)"
  "safe_call (the (k_cur_part s)) s (do_get_buffer_id n a s)"
  "safe_call (the (k_cur_part s)) s (do_get_buffer_status i a s)"
  "safe_call (the (k_cur_part s)) s (do_get_blackboard_id n a s)"
  "safe_call (the (k_cur_part s)) s (do_get_blackboard_status i a s)"
  unfolding do_get_partition_status_def do_get_process_id_def do_get_my_id_def do_get_my_index_def do_get_time_def
    do_get_queuing_port_id_def do_get_queuing_port_status_def do_get_buffer_id_def do_get_buffer_status_def
    do_get_blackboard_id_def do_get_blackboard_status_def Let_def
  by (auto split: option.split intro!: safe_ends safe_with_name isolated_store isolated_refl)

lemma safe_process_status: "safe_call (the (k_cur_part s)) s (do_get_process_status i a s)"
  unfolding do_get_process_status_def Let_def
  by (simp split: option.split) (intro allI impI conjI safe_ends isolated_set_umem isolated_store isolated_refl refl)

text \<open>Calls that change the state of processes.\<close>

lemma isolated_ready_previous_started: "isolated pa s t \<Longrightarrow> isolated pa s (ready_previous_started ps t)"
  unfolding ready_previous_started_def by (induction ps arbitrary: t) (simp_all add: isolated_set_state)

lemma safe_set_mode: "safe_call (the (k_cur_part s)) s (do_set_partition_mode m s)"
  unfolding do_set_partition_mode_def Let_def
  by (auto intro!: safe_intros isolated_set_state isolated_ready_previous_started isolated_upd_part isolated_refl)

lemma safe_process_calls:
  "safe_call (the (k_cur_part s)) s (do_set_priority i v s)"
  "safe_call (the (k_cur_part s)) s (do_suspend_self clk to s)"
  "safe_call (the (k_cur_part s)) s (do_suspend i s)"
  "safe_call (the (k_cur_part s)) s (do_stop_self s)"
  "safe_call (the (k_cur_part s)) s (do_timed_wait clk to s)"
  unfolding do_set_priority_def do_suspend_self_def do_suspend_def do_stop_self_def do_timed_wait_def Let_def
  by (auto split: option.split intro!: safe_intros isolated_upd_proc isolated_set_state isolated_time_event_alloc isolated_refl)

lemma safe_resume_stop:
  "safe_call (the (k_cur_part s)) s (do_resume clk i s)" "safe_call (the (k_cur_part s)) s (do_stop clk i s)"
  unfolding do_resume_def do_stop_def Let_def
  by (auto split: option.split if_splits intro!: safe_intros isolated_set_state isolated_refl
      intro: isolated_time_event_free [OF isolated_refl] isolated_time_event_free [OF isolated_set_state(1) [OF isolated_refl]])

lemma safe_delayed_start: "safe_call (the (k_cur_part s)) s (do_delayed_start clk i d s)"
proof (cases "own_proc s i")
  case (Some p)
  let ?s1 = "upd_proc p (\<lambda>x. x\<lparr>pr_cur_pri := pr_base_pri x\<rparr>) s"
  have s1: "isolated (the (k_cur_part s)) s ?s1" by (intro isolated_upd_proc isolated_refl)
  show ?thesis
    unfolding do_delayed_start_def Some option.case Let_def
    by (auto intro!: safe_intros isolated_upd_proc isolated_set_state isolated_time_event_alloc isolated_refl intro: isolated_proc_reset [OF s1])
qed (simp add: do_delayed_start_def safe_ends isolated_refl)

lemmas unimplemented_defs =
  do_lock_preemption_def do_unlock_preemption_def do_initialize_process_core_affinity_def do_get_my_processor_core_id_def
  do_periodic_wait_def do_replenish_def do_create_sampling_port_def do_write_sampling_message_def do_read_sampling_message_def
  do_get_sampling_port_id_def do_get_sampling_port_status_def do_create_semaphore_def do_wait_semaphore_def do_signal_semaphore_def
  do_get_semaphore_id_def do_get_semaphore_status_def do_create_event_def do_set_event_def do_reset_event_def do_wait_event_def
  do_get_event_id_def do_get_event_status_def do_create_mutex_def do_acquire_mutex_def do_release_mutex_def do_reset_mutex_def
  do_get_mutex_id_def do_get_mutex_status_def do_get_process_mutex_state_def

lemmas console_defs = do_cons_write_char_def do_cons_read_char_def do_cons_write_buf_def do_halt_def

lemmas safe_handlers = safe_send_port safe_receive_port safe_clear_port safe_send_buffer safe_receive_buffer
  safe_display_blackboard safe_read_blackboard safe_clear_blackboard safe_create safe_queries safe_process_status safe_set_mode
  safe_process_calls safe_resume_stop safe_delayed_start

lemma safe_syscall: "safe_call (the (k_cur_part s)) s (syscall_switch clk sysno a s)"
proof -
  have id: "safe_call (the (k_cur_part s)) s (s, Done rc)" for rc by (intro safe_ends isolated_refl)
  have cons: "safe_call (the (k_cur_part s)) s (s, Console op)" "safe_call (the (k_cur_part s)) s (s, Halt)" for op
    by (intro safe_ends isolated_refl)+
  have if_safe: "safe_call pa s x \<Longrightarrow> safe_call pa s y \<Longrightarrow> safe_call pa s (if c then x else y)" for pa c x y by simp
  show ?thesis
    unfolding syscall_switch_def unimplemented_defs console_defs do_start_def by (intro if_safe safe_handlers id cons)
qed

lemma safe_resume:
  assumes "own_cont (the (k_cur_part s)) s k"
  shows "safe_call (the (k_cur_part s)) s (resume_call clk k s)"
  using assms unfolding resume_call_def send_port_resume_def recv_port_resume_def send_buf_resume_def recv_buf_resume_def read_bb_resume_def
  by (cases k) (auto simp: own_cont_def intro!: safe_ends safe_port_pieces safe_buf_pieces safe_bb_pieces isolated_store isolated_refl)

section \<open>Isolation\<close>

text \<open>
  Two partitions: the first one is current and its process 0 calls; buffer 0 belongs to the second one.
\<close>

definition kst_two :: kst where
  "kst_two = kst_sched\<lparr>
     k_bufs := [\<lparr>buf_name = ''b'', buf_id = 1, buf_part_id = 2, buf_que_disc = FIFO, buf_max_msg_size = 8, buf_max_nb_msg = 1,
       buf_body = circbuf_init COMM_BASE 16 1, buf_waiting_procs = []\<rparr>],
     buf_id_map := hashmap_put hash_code_uint64 hash_eq_uint64 (\<lambda>_. 1) (HASHMAP_ALLOC 64) 0\<rparr>"



end
