(* ===== verification/Trap_Handlers.thy ===== *)
theory Trap_Handlers
  imports Syscalls
begin

text \<open>
  What the traps do: the events that are due (\<open>time_event_action\<close> of \<^verbatim>\<open>kern/traps/timer.c\<close>), page faults
  (\<^verbatim>\<open>kern/traps/pagefault.c\<close>) and the handlers of \<^verbatim>\<open>kern/traps/traps.c\<close> and \<^verbatim>\<open>kern/traps/interrupt.c\<close>. A handler either
  returns to the context it was entered with or hands the hart to the scheduler for good. The
  measurement code of \<open>do_timer_int\<close> (\<open>args_debug_tick_num\<close>) and external interrupts, which only call a
  driver, are left out.
\<close>

section \<open>Events that are due\<close>

definition expire_proc :: "nat \<Rightarrow> kst \<Rightarrow> kst" where
  "expire_proc p s = upd_proc p (\<lambda>x. x\<lparr>pr_state := READY, pr_asso_timer := None\<rparr>) s"

definition in_cur_part :: "nat \<Rightarrow> kst \<Rightarrow> bool" where
  "in_cur_part p s \<longleftrightarrow> pr_part_id (k_procs s ! p) = pa_id (sched_cur_part s)"

text \<open>The \<open>switch\<close> on the type of an event: the new state, \<open>resched_part\<close> and \<open>resched_proc\<close>.\<close>

fun te_fire :: "time_event_type \<Rightarrow> kst \<Rightarrow> kst \<times> bool \<times> bool" where
  "te_fire TE_PARTITION_ACTIVATE s = (s, True, False)"
| "te_fire (TE_PROCESS_SUSPEND_TIMEOUT p) s = (let s1 = expire_proc p s in (s1, False, in_cur_part p s1))"
| "te_fire (TE_PROCESS_DELAYED_START p) s = (let s1 = expire_proc p s in (s1, False, in_cur_part p s1))"
| "te_fire (TE_PROCESS_TIMED_WAIT_TIMEOUT p) s = (let s1 = expire_proc p s in (s1, False, in_cur_part p s1))"
| "te_fire (TE_BUFFER_BLOCK_TIMEOUT p b) s = (let s1 = buffer_del_waiting_proc b p (expire_proc p s) in (s1, False, in_cur_part p s1))"
| "te_fire (TE_BLACKBOARD_BLOCK_TIMEOUT p b) s = (let s1 = blackboard_del_waiting_proc b p (expire_proc p s) in (s1, False, in_cur_part p s1))"
| "te_fire (TE_QUEUING_PORT_BLOCK_TIMEOUT p q) s = (let s1 = queuing_port_del_waiting_proc q p (expire_proc p s) in (s1, False, in_cur_part p s1))"
| "te_fire TE_SIMPLE s = (s, False, False)"

text \<open>
  The loop, with the number of events in the queue as its bound: every round takes one event off
  and none is added. The \<open>i\<close>-th test reads the clock for the \<open>i\<close>-th time.
\<close>

fun te_loop :: "nat \<Rightarrow> clock \<Rightarrow> kst \<times> bool \<times> bool \<Rightarrow> kst \<times> bool \<times> bool" where
  "te_loop 0 clk r = r"
| "te_loop (Suc n) clk (s, resched_part, resched_proc) =
     (case k_te_queue s of
        [] \<Rightarrow> (s, resched_part, resched_proc)
      | te # _ \<Rightarrow>
          if te_time (k_tes s ! te) \<le> clk 0
          then case te_fire (te_type (k_tes s ! te)) s of (s1, a, b) \<Rightarrow>
                 te_loop n (clk_from 1 clk) (s1\<lparr>k_te_queue := remove1 te (k_te_queue s1)\<rparr>, resched_part \<or> a, resched_proc \<or> b)
          else (s, resched_part, resched_proc))"

text \<open>
  \<open>OK (s', None)\<close>: the call returns; \<open>OK (s', Some r)\<close>: it ends in the scheduler with result \<open>r\<close>.
\<close>

definition time_event_action :: "u64 \<Rightarrow> clock \<Rightarrow> kst \<Rightarrow> (kst \<times> u64 option option) result" where
  "time_event_action past clk s =
     (let n = length (k_te_queue s);
          (s1, resched_part, resched_proc) = te_loop n clk (s, False, False);
          s2 = time_event_set_head (clk (Suc n)) s1
      in if resched_part then panic_e (sched_global past (clk (Suc (Suc n))) s2) (\<lambda>(s3, r). OK (s3, Some r))
         else if resched_proc then panic_e (sched_proc past False s2) (\<lambda>(s3, r). OK (s3, Some r))
         else OK (s2, None))"

section \<open>Page faults\<close>

definition CAUSE_EXC_U_ECALL :: u64 where "CAUSE_EXC_U_ECALL = 8"
definition CAUSE_EXC_IF_PAGE_FAULT :: u64 where "CAUSE_EXC_IF_PAGE_FAULT = 12"
definition CAUSE_EXC_LD_PAGE_FAULT :: u64 where "CAUSE_EXC_LD_PAGE_FAULT = 13"
definition CAUSE_EXC_ST_PAGE_FAULT :: u64 where "CAUSE_EXC_ST_PAGE_FAULT = 15"
definition SSTATUS_SPP :: u64 where "SSTATUS_SPP = 0x100"
definition PERM_RW :: u64 where "PERM_RW = 6"
definition PTE_A :: u64 where "PTE_A = 0x40"
definition PTE_D :: u64 where "PTE_D = 0x80"

text \<open>
  \<open>do_pagefault\<close>: a page of the communication area that the kernel itself touches is allocated on
  demand, then the accessed and dirty bits are set. After a successful allocation the second
  lookup succeeds (\<open>fuel\<close> bounds the \<open>goto re_lookup\<close>; 2 is enough).
\<close>

fun do_pagefault :: "nat \<Rightarrow> nat \<Rightarrow> kst \<Rightarrow> kst result" where
  "do_pagefault 0 c s = PANIC"
| "do_pagefault (Suc fuel) c s =
     (let pa = the (k_cur_part s); part = sched_cur_part s; x = k_contexts s ! c; va = ctx_stval x
      in case pt_lookup (k_mm s) (pa_pgdir part) va of
           (m, OK None) \<Rightarrow>
             (if ctx_sstatus x AND SSTATUS_SPP \<noteq> 0 \<and> COMM_BASE \<le> va \<and> va < COMM_LIMT
              then case part_pt_alloc pa va PERM_RW (s\<lparr>k_mm := m\<rparr>) of
                     (s1, OK _) \<Rightarrow> do_pagefault fuel c s1
                   | _ \<Rightarrow> PANIC
              else PANIC)
         | (m, OK (Some pte)) \<Rightarrow>
             (let m1 = (if cells m pte AND PTE_A = 0 then m\<lparr>cells := (cells m)(pte := cells m pte OR PTE_A)\<rparr> else m);
                  m2 = (if cells m1 pte AND PTE_D = 0 \<and> ctx_scause x = CAUSE_EXC_ST_PAGE_FAULT
                        then m1\<lparr>cells := (cells m1)(pte := cells m1 pte OR PTE_D)\<rparr> else m1)
              in OK (s\<lparr>k_mm := m2\<rparr>))
         | _ \<Rightarrow> PANIC)"

section \<open>Handlers\<close>

text \<open>
  How a trap ends: \<open>Trap_Ret\<close> back to the interrupted context, \<open>Trap_Sched\<close> in the scheduler,
  \<open>Trap_Yield\<close> in a service that calls \<open>sched_proc_give_up\<close> (the context stays stacked), \<open>Trap_Console\<close> in a
  console loop, or not at all.
\<close>

datatype trap_end = Trap_Ret | Trap_Sched "u64 option" | Trap_Yield bool cont | Trap_Console cons_op | Trap_Halt | Trap_Fatal

definition do_timer_int :: "u64 \<Rightarrow> clock \<Rightarrow> kst \<Rightarrow> (kst \<times> u64 option option) result" where
  "do_timer_int past clk s = time_event_action past clk s"

definition handle_int_timer :: "u64 \<Rightarrow> clock \<Rightarrow> kst \<Rightarrow> kst \<times> trap_end" where
  "handle_int_timer past clk s =
     (let context = k_cpu_context s
      in case prepare_nested_trap s of
           OK s1 \<Rightarrow>
             (case do_timer_int past clk s1 of
                OK (s2, None) \<Rightarrow> (leave_trap context s2, Trap_Ret)
              | OK (s2, Some r) \<Rightarrow> (s2, Trap_Sched r)
              | _ \<Rightarrow> (s1, Trap_Fatal))
         | _ \<Rightarrow> (s, Trap_Fatal))"

definition handle_exception :: "clock \<Rightarrow> kst \<Rightarrow> kst \<times> trap_end" where
  "handle_exception clk s =
     (let context = k_cpu_context s
      in case prepare_nested_trap s of
           OK s1 \<Rightarrow>
             (let cause = ctx_scause (k_contexts s1 ! context)
              in if cause = CAUSE_EXC_IF_PAGE_FAULT \<or> cause = CAUSE_EXC_LD_PAGE_FAULT \<or> cause = CAUSE_EXC_ST_PAGE_FAULT
                 then case do_pagefault 2 context s1 of
                        OK s2 \<Rightarrow> (leave_trap context s2, Trap_Ret)
                      | _ \<Rightarrow> (s1, Trap_Fatal)
                 else if cause = CAUSE_EXC_U_ECALL
                 then case do_syscall clk context s1 of
                        (s2, Done _) \<Rightarrow> (leave_trap context s2, Trap_Ret)
                      | (s2, Yield rr k) \<Rightarrow> (s2, Trap_Yield rr k)
                      | (s2, Console op) \<Rightarrow> (s2, Trap_Console op)
                      | (s2, Halt) \<Rightarrow> (s2, Trap_Halt)
                      | (s2, Fatal) \<Rightarrow> (s2, Trap_Fatal)
                 else (s1, Trap_Fatal))
         | _ \<Rightarrow> (s, Trap_Fatal))"

definition handle_int_software :: "kst \<Rightarrow> kst \<times> trap_end" where
  "handle_int_software s = (s, Trap_Fatal)"

definition handle_int_reserved :: "kst \<Rightarrow> kst \<times> trap_end" where
  "handle_int_reserved s = (s, Trap_Fatal)"

section \<open>Which events fire\<close>

abbreviation te_time_of :: "kst \<Rightarrow> nat \<Rightarrow> sys_time" where
  "te_time_of s te \<equiv> te_time (k_tes s ! te)"

abbreviation te_type_of :: "kst \<Rightarrow> nat \<Rightarrow> time_event_type" where
  "te_type_of s te \<equiv> te_type (k_tes s ! te)"

definition expired :: "proc \<Rightarrow> proc" where
  "expired x = x\<lparr>pr_state := READY, pr_asso_timer := None\<rparr>"

lemma expired_simps [simp]: "expired (expired x) = expired x" "pr_part_id (expired x) = pr_part_id x" "pr_state (expired x) = READY"
  by (simp_all add: expired_def)

lemma del_waiting_fields [simp]:
  "k_procs (buffer_del_waiting_proc b p s) = k_procs s" "k_procs (blackboard_del_waiting_proc b p s) = k_procs s"
  "k_procs (queuing_port_del_waiting_proc b p s) = k_procs s"
  "k_tes (buffer_del_waiting_proc b p s) = k_tes s" "k_tes (blackboard_del_waiting_proc b p s) = k_tes s"
  "k_tes (queuing_port_del_waiting_proc b p s) = k_tes s"
  "k_te_queue (buffer_del_waiting_proc b p s) = k_te_queue s" "k_te_queue (blackboard_del_waiting_proc b p s) = k_te_queue s"
  "k_te_queue (queuing_port_del_waiting_proc b p s) = k_te_queue s"
  "sched_cur_part (buffer_del_waiting_proc b p s) = sched_cur_part s" "sched_cur_part (blackboard_del_waiting_proc b p s) = sched_cur_part s"
  "sched_cur_part (queuing_port_del_waiting_proc b p s) = sched_cur_part s"
  by (simp_all add: buffer_del_waiting_proc_def blackboard_del_waiting_proc_def queuing_port_del_waiting_proc_def
      upd_buf_def upd_bb_def upd_chan_def sched_cur_part_def)

lemma part_id_expire [simp]: "pr_part_id (k_procs (expire_proc p s) ! q) = pr_part_id (k_procs s ! q)"
  by (cases "p < length (k_procs s)"; cases "p = q") (simp_all add: expire_proc_def upd_proc_def list_update_beyond)

lemma cur_part_expire [simp]: "sched_cur_part (expire_proc p s) = sched_cur_part s"
  by (simp add: expire_proc_def sched_cur_part_def)

lemma te_fire_spec:
  assumes "te_fire ty s = (s1, a, b)"
  shows "k_tes s1 = k_tes s" "k_te_queue s1 = k_te_queue s" "sched_cur_part s1 = sched_cur_part s" "length (k_procs s1) = length (k_procs s)"
    "q < length (k_procs s) \<Longrightarrow> k_procs s1 ! q = (if te_proc ty = Some q then expired (k_procs s ! q) else k_procs s ! q)"
    "a = (ty = TE_PARTITION_ACTIVATE)" "b = (\<exists>p. te_proc ty = Some p \<and> in_cur_part p s)" "in_cur_part q s1 = in_cur_part q s"
proof -
  have step: "k_procs (expire_proc p s) ! q = (if p = q then expired (k_procs s ! q) else k_procs s ! q)" if "q < length (k_procs s)" for p
    using that by (simp add: expire_proc_def nth_upd_proc expired_def)
  note defs = Let_def in_cur_part_def
  show "k_tes s1 = k_tes s" "k_te_queue s1 = k_te_queue s" "length (k_procs s1) = length (k_procs s)"
    using assms by (cases ty; auto simp: Let_def expire_proc_def)+
  show "sched_cur_part s1 = sched_cur_part s" "in_cur_part q s1 = in_cur_part q s" using assms by (cases ty; auto simp: defs)+
  show "k_procs s1 ! q = (if te_proc ty = Some q then expired (k_procs s ! q) else k_procs s ! q)" if "q < length (k_procs s)"
    using assms step [OF that] by (cases ty) (auto simp: Let_def)
  show "a = (ty = TE_PARTITION_ACTIVATE)" "b = (\<exists>p. te_proc ty = Some p \<and> in_cur_part p s)" using assms by (cases ty; auto simp: defs)+
qed

lemma in_cur_part_queue [simp]: "in_cur_part p (s\<lparr>k_te_queue := q\<rparr>) = in_cur_part p s"
  by (simp add: in_cur_part_def sched_cur_part_def)

text \<open>The loop takes a prefix of the queue and fires its events.\<close>

lemma te_loop_spec:
  assumes "te_loop n clk (s, a, b) = (s', a', b')" "length (k_te_queue s) \<le> n"
  shows "\<exists>m. k_te_queue s' = drop m (k_te_queue s) \<and> m \<le> length (k_te_queue s) \<and> k_tes s' = k_tes s
     \<and> (\<forall>i < m. te_time_of s (k_te_queue s ! i) \<le> clk i)
     \<and> (m < length (k_te_queue s) \<longrightarrow> clk m < te_time_of s (k_te_queue s ! m))
     \<and> length (k_procs s') = length (k_procs s)
     \<and> (\<forall>p < length (k_procs s). k_procs s' ! p =
          (if \<exists>i < m. te_proc (te_type_of s (k_te_queue s ! i)) = Some p then expired (k_procs s ! p) else k_procs s ! p))
     \<and> (a' \<longleftrightarrow> a \<or> (\<exists>i < m. te_type_of s (k_te_queue s ! i) = TE_PARTITION_ACTIVATE))
     \<and> (b' \<longleftrightarrow> b \<or> (\<exists>i < m. \<exists>p. te_proc (te_type_of s (k_te_queue s ! i)) = Some p \<and> in_cur_part p s))"
  using assms
proof (induction n arbitrary: clk s a b)
  case 0
  then show ?case by auto
next
  case (Suc n)
  show ?case
  proof (cases "k_te_queue s")
    case Nil
    then show ?thesis using Suc.prems by auto
  next
    case (Cons te rest)
    show ?thesis
    proof (cases "te_time_of s te \<le> clk 0")
      case False
      then show ?thesis using Suc.prems Cons by (intro exI [of _ 0]) auto
    next
      case True
      obtain s1 c d where f: "te_fire (te_type_of s te) s = (s1, c, d)" by (cases "te_fire (te_type_of s te) s") auto
      note spec = te_fire_spec [OF f]
      let ?s2 = "s1\<lparr>k_te_queue := rest\<rparr>"
      have loop: "te_loop n (clk_from 1 clk) (?s2, a \<or> c, b \<or> d) = (s', a', b')"
        using Suc.prems(1) Cons True f spec(2) by simp
      have q2: "k_te_queue ?s2 = rest" "k_tes ?s2 = k_tes s" "k_procs ?s2 = k_procs s1" by (simp_all add: spec(1))
      have len: "length (k_te_queue ?s2) \<le> n" using Suc.prems(2) Cons by simp
      obtain m where m: "k_te_queue s' = drop m rest"
        "m \<le> length rest"
        "k_tes s' = k_tes s"
        "(\<forall>i < m. te_time_of s (rest ! i) \<le> clk (Suc i))"
        "(m < length rest \<longrightarrow> clk (Suc m) < te_time_of s (rest ! m))"
        "length (k_procs s') = length (k_procs s)"
        "(\<forall>p < length (k_procs s). k_procs s' ! p =
          (if \<exists>i < m. te_proc (te_type_of s (rest ! i)) = Some p then expired (k_procs s1 ! p) else k_procs s1 ! p))"
        "(a' \<longleftrightarrow> (a \<or> c) \<or> (\<exists>i < m. te_type_of s (rest ! i) = TE_PARTITION_ACTIVATE))"
        "(b' \<longleftrightarrow> (b \<or> d) \<or> (\<exists>i < m. \<exists>p. te_proc (te_type_of s (rest ! i)) = Some p \<and> in_cur_part p s))"
        using Suc.IH [OF loop len] by (simp only: clk_from_def plus_1_eq_Suc q2 spec(4,8) in_cur_part_queue) (elim exE conjE, rule that)
      show ?thesis
        using Cons True m(1-6) m(7-9) spec(5,6,7)
        by (intro exI [of _ "Suc m"]) (simp add: Ex_less_Suc2 All_less_Suc2, blast)
    qed
  qed
qed

lemma head_not_due:
  assumes "te_ok s" "m < length (k_te_queue s)" "now < te_time_of s (k_te_queue s ! m)" "te \<in> set (drop m (k_te_queue s))"
  shows "now < te_time_of s te"
proof -
  obtain i where i: "te = k_te_queue s ! i" "m \<le> i" "i < length (k_te_queue s)"
    using assms(4) by (metis in_set_conv_nth length_drop less_diff_conv add.commute nth_drop le_add1 order.strict_implies_order assms(2))
  then have "te_times s ! m \<le> te_times s ! i" using assms(1) by (intro sorted_nth_mono) (simp_all add: te_ok_def te_times_def)
  then show ?thesis using i assms(2,3) by (simp add: te_times_def)
qed

text \<open>
  C2 (functional). When the timer interrupt looks at the event queue, the events that have come due are exactly
  those it fires: they form a prefix of the queue, each was due when the clock was read for it, what remains
  lies in the future, and every event due at the first reading is gone. A process is made ready, and loses
  its timer, if and only if one of the fired events is its own; partitions are switched if and only if an
  activation was among them, and processes are rescheduled if one of the current partition was woken.
\<close>

theorem due_events_fire:
  assumes "te_ok s" "mono clk" "te_loop (length (k_te_queue s)) clk (s, False, False) = (s', resched_part, resched_proc)"
  shows "\<exists>m \<le> length (k_te_queue s). k_te_queue s' = drop m (k_te_queue s)
     \<and> (\<forall>i < m. te_time_of s (k_te_queue s ! i) \<le> clk i)
     \<and> (\<forall>te \<in> set (k_te_queue s'). clk m < te_time_of s te)
     \<and> (\<forall>te \<in> set (k_te_queue s). te_time_of s te \<le> clk 0 \<longrightarrow> te \<in> set (take m (k_te_queue s)))
     \<and> (\<forall>p < length (k_procs s). k_procs s' ! p =
          (if \<exists>i < m. te_proc (te_type_of s (k_te_queue s ! i)) = Some p then (k_procs s ! p)\<lparr>pr_state := READY, pr_asso_timer := None\<rparr>
           else k_procs s ! p))
     \<and> resched_part = (\<exists>i < m. te_type_of s (k_te_queue s ! i) = TE_PARTITION_ACTIVATE)
     \<and> resched_proc = (\<exists>i < m. \<exists>p. te_proc (te_type_of s (k_te_queue s ! i)) = Some p \<and> in_cur_part p s)"
proof -
  obtain m where m: "k_te_queue s' = drop m (k_te_queue s)" "m \<le> length (k_te_queue s)"
    "\<forall>i < m. te_time_of s (k_te_queue s ! i) \<le> clk i" "m < length (k_te_queue s) \<longrightarrow> clk m < te_time_of s (k_te_queue s ! m)"
    "\<forall>p < length (k_procs s). k_procs s' ! p =
       (if \<exists>i < m. te_proc (te_type_of s (k_te_queue s ! i)) = Some p then expired (k_procs s ! p) else k_procs s ! p)"
    "resched_part = (\<exists>i < m. te_type_of s (k_te_queue s ! i) = TE_PARTITION_ACTIVATE)"
    "resched_proc = (\<exists>i < m. \<exists>p. te_proc (te_type_of s (k_te_queue s ! i)) = Some p \<and> in_cur_part p s)"
    using te_loop_spec [OF assms(3) order_refl] by (simp only: simp_thms) (elim exE conjE, rule that)
  have future: "\<forall>te \<in> set (k_te_queue s'). clk m < te_time_of s te"
  proof
    fix te assume te: "te \<in> set (k_te_queue s')"
    then have "m < length (k_te_queue s)" using m(1) by (cases "m < length (k_te_queue s)") simp_all
    then show "clk m < te_time_of s te" using head_not_due [OF assms(1)] m(1,4) te by simp
  qed
  have "te \<in> set (take m (k_te_queue s))" if "te \<in> set (k_te_queue s)" "te_time_of s te \<le> clk 0" for te
  proof -
    have "clk 0 \<le> clk m" using assms(2) by (simp add: monoD)
    then have "te \<notin> set (drop m (k_te_queue s))" using future that(2) m(1) by force
    then show ?thesis using that(1) by (metis Un_iff append_take_drop_id set_append)
  qed
  then show ?thesis using m future unfolding expired_def by (intro exI [of _ m]) simp
qed

theorem due_events_fire_witness:
  "let s = kst_sched\<lparr>k_tes := [\<lparr>te_time = 5, te_type = TE_PROCESS_TIMED_WAIT_TIMEOUT 1\<rparr>, \<lparr>te_time = 9, te_type = TE_PARTITION_ACTIVATE\<rparr>],
         k_te_queue := [0, 1]\<rparr>
   in (\<exists>s'. te_loop 2 (\<lambda>_. 7) (s, False, False) = (s', False, True) \<and> k_te_queue s' = [1])"
proof -
  define s where "s = kst_sched\<lparr>k_tes := [\<lparr>te_time = 5, te_type = TE_PROCESS_TIMED_WAIT_TIMEOUT 1\<rparr>, \<lparr>te_time = 9, te_type = TE_PARTITION_ACTIVATE\<rparr>],
    k_te_queue := [0, 1]\<rparr>"
  have ok: "te_ok s" "mono (\<lambda>_ :: nat. 7 :: int)" by (simp_all add: te_ok_def te_times_def s_def mono_def)
  obtain s' a b where l: "te_loop (length (k_te_queue s)) (\<lambda>_. 7) (s, False, False) = (s', a, b)"
    by (cases "te_loop (length (k_te_queue s)) (\<lambda>_. 7) (s, False, False)") auto
  have q: "k_te_queue s = [0, 1]" "te_time_of s 0 = 5" "te_time_of s 1 = 9" "te_type_of s 0 = TE_PROCESS_TIMED_WAIT_TIMEOUT 1"
    "in_cur_part 1 s" by (simp_all add: s_def in_cur_part_def sched_cur_part_def example_defs)
  obtain m where m: "m \<le> 2" "k_te_queue s' = drop m [0, 1]" "\<forall>i < m. te_time_of s ([0, 1] ! i) \<le> 7" "\<forall>te \<in> set (k_te_queue s'). 7 < te_time_of s te"
    "a = (\<exists>i < m. te_type_of s ([0, 1] ! i) = TE_PARTITION_ACTIVATE)"
    "b = (\<exists>i < m. \<exists>p. te_proc (te_type_of s ([0, 1] ! i)) = Some p \<and> in_cur_part p s)"
    using due_events_fire [OF ok l] unfolding q(1) by (elim exE conjE) (rule that; simp)
  have "m \<noteq> 0" using m(2,4) q by (cases m) simp_all
  moreover have "m \<noteq> 2" using m(3) q by (auto dest!: spec [of _ 1])
  ultimately have "m = 1" using m(1) by auto
  then have "k_te_queue s' = [1]" "\<not> a" "b" using m(2,5,6) q by auto
  moreover have "length (k_te_queue s) = 2" using q(1) by simp
  ultimately show ?thesis using l unfolding Let_def s_def [symmetric] by metis
qed

section \<open>Timed waits end\<close>

lemma te_loop_due:
  assumes "te_ok s" "mono clk" "te_loop (length (k_te_queue s)) clk (s, False, False) = (s', a, b)" "te \<in> set (k_te_queue s)"
    "te_time_of s te \<le> clk 0" "te_proc (te_type_of s te) = Some p" "p < length (k_procs s)"
  shows "k_procs s' ! p = expired (k_procs s ! p)" "te \<notin> set (k_te_queue s')"
proof -
  obtain m where m: "k_te_queue s' = drop m (k_te_queue s)" "m < length (k_te_queue s) \<longrightarrow> clk m < te_time_of s (k_te_queue s ! m)"
    "\<forall>p < length (k_procs s). k_procs s' ! p =
       (if \<exists>i < m. te_proc (te_type_of s (k_te_queue s ! i)) = Some p then expired (k_procs s ! p) else k_procs s ! p)"
    using te_loop_spec [OF assms(3) order_refl] by (elim exE conjE) (rule that)
  have "clk 0 \<le> clk m" using assms(2) by (simp add: monoD)
  then show out: "te \<notin> set (k_te_queue s')"
    using head_not_due [OF assms(1), of m "clk m" te] m(1,2) assms(5) by (cases "m < length (k_te_queue s)") auto
  obtain i where i: "i < length (k_te_queue s)" "k_te_queue s ! i = te" using assms(4) by (auto simp: in_set_conv_nth)
  have "i < m"
  proof (rule ccontr)
    assume "\<not> i < m"
    then have "te = drop m (k_te_queue s) ! (i - m)" "i - m < length (drop m (k_te_queue s))" using i by simp_all
    then show False using out m(1) nth_mem by metis
  qed
  then show "k_procs s' ! p = expired (k_procs s ! p)" using m(3) assms(6,7) i(2) by auto
qed

lemma te_loop_early:
  assumes "te_loop (length (k_te_queue s)) clk (s, False, False) = (s', a, b)" "p < length (k_procs s)"
    "\<And>te i. te \<in> set (k_te_queue s) \<Longrightarrow> te_proc (te_type_of s te) = Some p \<Longrightarrow> clk i < te_time_of s te"
  shows "k_procs s' ! p = k_procs s ! p"
proof -
  obtain m where m: "m \<le> length (k_te_queue s)" "\<forall>i < m. te_time_of s (k_te_queue s ! i) \<le> clk i"
    "\<forall>p < length (k_procs s). k_procs s' ! p =
       (if \<exists>i < m. te_proc (te_type_of s (k_te_queue s ! i)) = Some p then expired (k_procs s ! p) else k_procs s ! p)"
    using te_loop_spec [OF assms(1) order_refl] by (elim exE conjE) (rule that)
  have "te_proc (te_type_of s (k_te_queue s ! i)) \<noteq> Some p" if "i < m" for i
    using assms(3) [of "k_te_queue s ! i" i] m(1,2) that by (metis leD less_le_trans nth_mem)
  then show ?thesis using m(3) assms(2) by auto
qed

text \<open>
  C16 (liveness). A process that calls \<open>TIMED_WAIT\<close> with a delay \<open>d\<close> stops running and is woken in time: the call leaves an event in the
  queue for the moment \<open>d\<close> after the clock reading; in any later state that still has this event, a timer
  interrupt at or after that moment makes the process ready and consumes the event, and one before it
  does not touch the process (unless another event of the process is due).
\<close>

theorem timed_wait_wakes:
  assumes "te_ok s" "k_cur_proc s = Some p" "p < length (k_procs s)" "0 \<le> clk 0" "0 < d" "clk 0 + d < SYSTEM_TIME_INFINITE_VAL"
    "do_timed_wait clk d s = (s1, r)"
  shows "r = Yield False (K_Ret NO_ERROR) \<and> pr_state (k_procs s1 ! p) = WAITING \<and> te_ok s1
     \<and> (\<exists>te \<in> set (k_te_queue s1). pr_asso_timer (k_procs s1 ! p) = Some te \<and> te_time_of s1 te = clk 0 + d
         \<and> (\<forall>s2 clk2 s3 a b. te_ok s2 \<and> mono clk2 \<and> te \<in> set (k_te_queue s2) \<and> k_tes s2 ! te = k_tes s1 ! te \<and> p < length (k_procs s2)
               \<and> te_loop (length (k_te_queue s2)) clk2 (s2, False, False) = (s3, a, b)
             \<longrightarrow> (clk 0 + d \<le> clk2 0 \<longrightarrow> pr_state (k_procs s3 ! p) = READY \<and> te \<notin> set (k_te_queue s3))
               \<and> ((\<forall>i. clk2 i < clk 0 + d) \<and> (\<forall>x \<in> set (k_te_queue s2). te_proc (te_type_of s2 x) = Some p \<longrightarrow> x = te)
                    \<longrightarrow> k_procs s3 ! p = k_procs s2 ! p)))"
proof -
  define ty where "ty = TE_PROCESS_TIMED_WAIT_TIMEOUT p"
  define s0 where "s0 = set_reason p TIMED_WAIT_TIMEOUT (set_state p WAITING s)"
  define te where "te = length (k_tes s)"
  have w: "swrap64 (clk 0 + d) = clk 0 + d"
    using assms(4,5,6) by (intro swrap64_id) (simp_all add: SYSTEM_TIME_INFINITE_VAL_def)
  have "d \<noteq> SYSTEM_TIME_INFINITE_VAL" "d \<noteq> 0" using assms(4,5,6) by auto
  then have s1: "s1 = time_event_alloc (clk 1) (clk 0 + d) ty s0" "r = Yield False (K_Ret NO_ERROR)"
    using assms(2,7) w by (simp_all add: do_timed_wait_def sched_cur_proc_def s0_def ty_def Let_def)
  have s0: "k_tes s0 = k_tes s" "k_te_queue s0 = k_te_queue s" "length (k_procs s0) = length (k_procs s)" "pr_state (k_procs s0 ! p) = WAITING"
    using assms(3) by (simp_all add: s0_def set_state_def set_reason_def)
  have ok0: "te_ok s0" using assms(1) s0 by (simp add: te_ok_def te_times_def)
  note Q = time_event_alloc_queue [OF ok0, of "clk 1" "clk 0 + d" ty]
  have te: "te \<in> set (k_te_queue s1)" "k_tes s1 ! te = \<lparr>te_time = clk 0 + d, te_type = ty\<rparr>" using Q s0 by (simp_all add: s1(1) te_def)
  have p1: "pr_state (k_procs s1 ! p) = WAITING" "pr_asso_timer (k_procs s1 ! p) = Some te"
    using assms(3) s0 by (simp_all add: s1(1) time_event_alloc_def Let_def set_asso_timer_def ty_def te_def)
  have "(clk 0 + d \<le> clk2 0 \<longrightarrow> pr_state (k_procs s3 ! p) = READY \<and> te \<notin> set (k_te_queue s3))
      \<and> ((\<forall>i. clk2 i < clk 0 + d) \<and> (\<forall>x \<in> set (k_te_queue s2). te_proc (te_type_of s2 x) = Some p \<longrightarrow> x = te) \<longrightarrow> k_procs s3 ! p = k_procs s2 ! p)"
    if "te_ok s2" "mono clk2" "te \<in> set (k_te_queue s2)" "k_tes s2 ! te = k_tes s1 ! te" "p < length (k_procs s2)"
      "te_loop (length (k_te_queue s2)) clk2 (s2, False, False) = (s3, a, b)" for s2 clk2 s3 a b
  proof (intro conjI impI)
    have ev: "te_time_of s2 te = clk 0 + d" "te_proc (te_type_of s2 te) = Some p" using that(4) te(2) by (simp_all add: ty_def)
    show "pr_state (k_procs s3 ! p) = READY" "te \<notin> set (k_te_queue s3)" if "clk 0 + d \<le> clk2 0"
      using te_loop_due [OF \<open>te_ok s2\<close> \<open>mono clk2\<close> \<open>te_loop _ _ _ = _\<close> \<open>te \<in> set (k_te_queue s2)\<close> _ _ \<open>p < length (k_procs s2)\<close>] ev that by simp_all
    assume early: "(\<forall>i. clk2 i < clk 0 + d) \<and> (\<forall>x \<in> set (k_te_queue s2). te_proc (te_type_of s2 x) = Some p \<longrightarrow> x = te)"
    show "k_procs s3 ! p = k_procs s2 ! p" by (rule te_loop_early [OF that(6,5)]) (use early ev(1) in auto)
  qed
  then have wakes: "\<forall>s2 clk2 s3 a b. te_ok s2 \<and> mono clk2 \<and> te \<in> set (k_te_queue s2) \<and> k_tes s2 ! te = k_tes s1 ! te \<and> p < length (k_procs s2)
      \<and> te_loop (length (k_te_queue s2)) clk2 (s2, False, False) = (s3, a, b)
    \<longrightarrow> (clk 0 + d \<le> clk2 0 \<longrightarrow> pr_state (k_procs s3 ! p) = READY \<and> te \<notin> set (k_te_queue s3))
      \<and> ((\<forall>i. clk2 i < clk 0 + d) \<and> (\<forall>x \<in> set (k_te_queue s2). te_proc (te_type_of s2 x) = Some p \<longrightarrow> x = te)
           \<longrightarrow> k_procs s3 ! p = k_procs s2 ! p)"
    by (intro allI impI) (elim conjE)
  have "te_ok s1" unfolding s1(1) by (rule time_event_alloc_ok [OF ok0])
  moreover have "te_time_of s1 te = clk 0 + d" using te(2) by simp
  ultimately show ?thesis by (intro conjI bexI [of _ te] s1(2) p1 te(1) wakes)
qed

theorem timed_wait_wakes_witness:
  "\<exists>s1. do_timed_wait (\<lambda>_. 10) 5 kst_sched = (s1, Yield False (K_Ret NO_ERROR)) \<and> pr_state (k_procs s1 ! 0) = WAITING
     \<and> (\<exists>te \<in> set (k_te_queue s1). te_time_of s1 te = 15)"
proof -
  have k: "te_ok kst_sched" "k_cur_proc kst_sched = Some 0" "0 < length (k_procs kst_sched)" "(10 :: int) + 5 < SYSTEM_TIME_INFINITE_VAL"
    by (simp_all add: te_ok_def te_times_def example_defs SYSTEM_TIME_INFINITE_VAL_def)
  obtain s1 r where r: "do_timed_wait (\<lambda>_. 10) 5 kst_sched = (s1, r)" by fastforce
  show ?thesis using timed_wait_wakes [OF k(1-3) _ _ _ r] k(4) r by auto
qed

end
