(* ===== verification/Wellformed.thy ===== *)
theory Wellformed
  imports Isolation Trap_Handlers
begin

text \<open>
  The types of the kernel's data structures: every pointer that one object keeps to another is a
  number below the count of objects of that kind (its \<open>shape\<close>), so no lookup in the tables of the model is
  out of range. Objects are only added, so a well-typed reference stays well-typed; the lemmas follow the
  operations of the components and the handlers, and the relation \<open>kernel_step\<close> runs them in any order.
\<close>

section \<open>Typing\<close>

record shape =
  n_procs :: nat
  n_parts :: nat
  n_bufs :: nat
  n_bbs :: nat
  n_chans :: nat
  n_ports :: nat
  n_tes :: nat
  n_modules :: nat
  n_ctxs :: nat

definition shape_of :: "kst \<Rightarrow> shape" where
  "shape_of s = \<lparr>n_procs = length (k_procs s), n_parts = length (k_parts s), n_bufs = length (k_bufs s), n_bbs = length (k_bbs s),
     n_chans = length (k_chans s), n_ports = length (k_ports s), n_tes = length (k_tes s), n_modules = length (k_modules s),
     n_ctxs = length (k_contexts s)\<rparr>"

definition grows :: "shape \<Rightarrow> shape \<Rightarrow> bool" where
  "grows a b \<longleftrightarrow> n_procs a \<le> n_procs b \<and> n_parts a \<le> n_parts b \<and> n_bufs a \<le> n_bufs b \<and> n_bbs a \<le> n_bbs b
     \<and> n_chans a \<le> n_chans b \<and> n_ports a \<le> n_ports b \<and> n_tes a \<le> n_tes b \<and> n_modules a \<le> n_modules b \<and> n_ctxs a \<le> n_ctxs b"

definition refs :: "nat \<Rightarrow> nat list \<Rightarrow> bool" where
  "refs n xs \<longleftrightarrow> list_all (\<lambda>i. i < n) xs"

definition oref :: "nat \<Rightarrow> nat option \<Rightarrow> bool" where
  "oref n r \<longleftrightarrow> (case r of None \<Rightarrow> True | Some i \<Rightarrow> i < n)"

text \<open>A table has its buckets, and its nodes are references.\<close>

definition table_refs :: "nat \<Rightarrow> nat hashmap \<Rightarrow> bool" where
  "table_refs n hm \<longleftrightarrow> 0 < h_cap hm \<and> length (h_array hm) = unat (h_cap hm) \<and> refs n (hashmap_nodes hm)"

definition proc_typed :: "shape \<Rightarrow> proc \<Rightarrow> bool" where
  "proc_typed sh x \<longleftrightarrow> refs (n_ctxs sh) (pr_ctx_list x) \<and> oref (n_tes sh) (pr_asso_timer x)"

definition part_typed :: "shape \<Rightarrow> part \<Rightarrow> bool" where
  "part_typed sh x \<longleftrightarrow> table_refs (n_procs sh) (pa_proc_name_map x) \<and> table_refs (n_bufs sh) (pa_buf_name_map x)
     \<and> table_refs (n_bbs sh) (pa_bb_name_map x) \<and> refs (n_procs sh) (pa_proc_list x)"

fun te_typed :: "shape \<Rightarrow> time_event_type \<Rightarrow> bool" where
  "te_typed sh TE_SIMPLE = True"
| "te_typed sh TE_PARTITION_ACTIVATE = True"
| "te_typed sh (TE_PROCESS_SUSPEND_TIMEOUT p) = (p < n_procs sh)"
| "te_typed sh (TE_PROCESS_DELAYED_START p) = (p < n_procs sh)"
| "te_typed sh (TE_PROCESS_TIMED_WAIT_TIMEOUT p) = (p < n_procs sh)"
| "te_typed sh (TE_BUFFER_BLOCK_TIMEOUT p b) = (p < n_procs sh \<and> b < n_bufs sh)"
| "te_typed sh (TE_BLACKBOARD_BLOCK_TIMEOUT p b) = (p < n_procs sh \<and> b < n_bbs sh)"
| "te_typed sh (TE_QUEUING_PORT_BLOCK_TIMEOUT p q) = (p < n_procs sh \<and> q < n_ports sh)"

fun cont_typed :: "shape \<Rightarrow> cont \<Rightarrow> bool" where
  "cont_typed sh (K_Ret rc) = True"
| "cont_typed sh (K_SuspendSelf w) = True"
| "cont_typed sh (K_SendPort q a l t w) = (q < n_ports sh)"
| "cont_typed sh (K_RecvPort q t a l w w') = (q < n_ports sh)"
| "cont_typed sh (K_SendBuf b a l t w) = (b < n_bufs sh)"
| "cont_typed sh (K_RecvBuf b t a l w) = (b < n_bufs sh)"
| "cont_typed sh (K_ReadBB b t a l w) = (b < n_bbs sh)"

text \<open>The objects and the tables of a state, against a shape.\<close>

definition objects_typed :: "shape \<Rightarrow> kst \<Rightarrow> bool" where
  "objects_typed sh s \<longleftrightarrow> list_all (proc_typed sh) (k_procs s) \<and> list_all (part_typed sh) (k_parts s)
     \<and> list_all (\<lambda>b. refs (n_procs sh) (buf_waiting_procs b)) (k_bufs s)
     \<and> list_all (\<lambda>b. refs (n_procs sh) (bb_waiting_procs b)) (k_bbs s)
     \<and> list_all (\<lambda>c. refs (n_procs sh) (ch_waiting_procs c)) (k_chans s)
     \<and> list_all (\<lambda>q. qp_channel q < n_chans sh) (k_ports s)
     \<and> list_all (\<lambda>q. oref (n_chans sh) (qpc_channel q)) (k_port_confs s)
     \<and> list_all (\<lambda>t. te_typed sh (te_type t)) (k_tes s)
     \<and> list_all (\<lambda>m. sm_part m < n_parts sh) (k_modules s)"

definition tables_typed :: "shape \<Rightarrow> kst \<Rightarrow> bool" where
  "tables_typed sh s \<longleftrightarrow> refs (n_tes sh) (k_te_queue s) \<and> refs (n_parts sh) (k_sched_parts s) \<and> oref (n_modules sh) (k_cur_mod s)
     \<and> oref (n_parts sh) (k_cur_part s) \<and> oref (n_procs sh) (k_cur_proc s)
     \<and> refs (n_ctxs sh) (k_ctx_free_list s) \<and> k_cpu_context s < n_ctxs sh
     \<and> table_refs (n_procs sh) (proc_id_map s) \<and> table_refs (n_parts sh) (part_id_map s) \<and> table_refs (n_parts sh) (part_name_map s)
     \<and> table_refs (n_bufs sh) (buf_id_map s) \<and> table_refs (n_bbs sh) (bb_id_map s)
     \<and> table_refs (n_ports sh) (queuing_port_id_map s) \<and> table_refs (n_ports sh) (queuing_port_name_map s)"

definition kst_typed :: "kst \<Rightarrow> bool" where
  "kst_typed s \<longleftrightarrow> objects_typed (shape_of s) s \<and> tables_typed (shape_of s) s"

section \<open>References\<close>

named_theorems ref_intros

lemma refs_alt: "refs n xs \<longleftrightarrow> (\<forall>i \<in> set xs. i < n)"
  by (simp add: refs_def list_all_iff)

lemma refs_simps [simp]: "refs n []" "refs n (x # xs) \<longleftrightarrow> x < n \<and> refs n xs" "refs n (xs @ ys) \<longleftrightarrow> refs n xs \<and> refs n ys"
  "refs n (rev xs) \<longleftrightarrow> refs n xs"
  by (auto simp: refs_alt)

lemma oref_simps [simp]: "oref n None" "oref n (Some i) \<longleftrightarrow> i < n"
  by (simp_all add: oref_def)

lemma refs_remove1 [ref_intros]: "refs n xs \<Longrightarrow> refs n (remove1 x xs)"
  by (auto simp: refs_alt dest: notin_set_remove1)

lemma refs_mono [ref_intros]: "refs n xs \<Longrightarrow> n \<le> m \<Longrightarrow> refs m xs"
  by (fastforce simp: refs_alt)

lemma oref_mono [ref_intros]: "oref n r \<Longrightarrow> n \<le> m \<Longrightarrow> oref m r"
  by (auto simp: oref_def split: option.splits)

lemma table_refs_mono [ref_intros]: "table_refs n hm \<Longrightarrow> n \<le> m \<Longrightarrow> table_refs m hm"
  by (auto simp: table_refs_def intro: refs_mono)

lemma table_refs_put [ref_intros]:
  assumes "table_refs n hm" "i < n"
  shows "table_refs n (hashmap_put h_code h_equals key hm i)"
proof -
  have "length (h_array (hashmap_put h_code h_equals key hm i)) = length (h_array hm)" "h_cap (hashmap_put h_code h_equals key hm i) = h_cap hm"
    by (simp_all add: hashmap_put_def Let_def split: prod.split)
  then show ?thesis using assms hashmap_nodes_put [of h_code h_equals key hm i] by (auto simp: table_refs_def refs_alt)
qed

lemma hashmap_find_in: "hashmap_find eq key k ps = Some p \<Longrightarrow> p \<in> set ps"
  by (induction ps) (auto split: if_splits)

lemma table_refs_get:
  assumes "table_refs n hm" "hashmap_get h_code h_equals key hm k = Some i"
  shows "i < n"
proof -
  have "hashmap_index h_code hm k < length (h_array hm)" using assms(1) hashmap_index_bound [of hm h_code k] by (simp add: table_refs_def)
  then have "set (h_array hm ! hashmap_index h_code hm k) \<subseteq> set (hashmap_nodes hm)" unfolding hashmap_nodes_def by force
  then show ?thesis using assms hashmap_find_in by (fastforce simp: hashmap_get_def table_refs_def refs_alt)
qed

lemma table_refs_alloc [simp]: "table_refs n (HASHMAP_ALLOC cap) \<longleftrightarrow> 0 < cap"
  by (simp add: table_refs_def refs_alt) (simp add: HASHMAP_ALLOC_def)

lemma grows_refl [simp]: "grows a a"
  by (simp add: grows_def)

lemma grows_trans: "grows a b \<Longrightarrow> grows b c \<Longrightarrow> grows a c"
  by (auto simp: grows_def)

lemma typed_mono:
  assumes "grows a b"
  shows "proc_typed a x \<Longrightarrow> proc_typed b x" "part_typed a y \<Longrightarrow> part_typed b y" "te_typed a ty \<Longrightarrow> te_typed b ty"
    "cont_typed a k \<Longrightarrow> cont_typed b k"
proof -
  note le = assms [unfolded grows_def]
  show "proc_typed a x \<Longrightarrow> proc_typed b x" "part_typed a y \<Longrightarrow> part_typed b y"
    using le by (auto simp: proc_typed_def part_typed_def intro: ref_intros)
  show "te_typed a ty \<Longrightarrow> te_typed b ty" "cont_typed a k \<Longrightarrow> cont_typed b k"
    using le by (cases ty; auto) (use le in \<open>cases k; auto\<close>)
qed

lemma list_all_weaken: "list_all P xs \<Longrightarrow> (\<And>x. P x \<Longrightarrow> Q x) \<Longrightarrow> list_all Q xs"
  by (auto simp: list_all_iff)

lemma objects_typed_mono:
  assumes "grows a b" "objects_typed a s"
  shows "objects_typed b s"
proof -
  note le = assms(1) [unfolded grows_def]
  show ?thesis using assms(2) unfolding objects_typed_def
    by (elim conjE, intro conjI)
      (erule list_all_weaken, use le in \<open>auto intro: typed_mono [OF assms(1)] ref_intros\<close>)+
qed

lemma tables_typed_mono: "grows a b \<Longrightarrow> tables_typed a s \<Longrightarrow> tables_typed b s"
  by (auto simp: tables_typed_def grows_def intro: ref_intros)

lemma list_all_update: "list_all P xs \<Longrightarrow> (P (xs ! i) \<Longrightarrow> P v) \<Longrightarrow> list_all P (xs[i := v])"
  by (cases "i < length xs") (auto simp: list_all_length nth_list_update list_update_beyond)

section \<open>The invariant\<close>

text \<open>
  References are well-typed, the event queue is sorted and without repetition, and no process but the
  current one is running.
\<close>

definition kinv :: "kst \<Rightarrow> bool" where
  "kinv s \<longleftrightarrow> kst_typed s \<and> te_ok s \<and> running_ok s"

definition evolves :: "kst \<Rightarrow> kst \<Rightarrow> bool" where
  "evolves s t \<longleftrightarrow> kinv t \<and> grows (shape_of s) (shape_of t) \<and> k_cur_part t = k_cur_part s \<and> k_cur_proc t = k_cur_proc s"

named_theorems evo_intros

lemma evolves_refl: "kinv s \<Longrightarrow> evolves s s"
  by (simp add: evolves_def)

lemma evolves_trans: "evolves s t \<Longrightarrow> evolves t u \<Longrightarrow> evolves s u"
  by (auto simp: evolves_def intro: grows_trans)

lemmas evolves_step = evolves_trans [rotated]

lemma kinv_cur:
  assumes "kinv s"
  shows "k_cur_proc s = Some p \<Longrightarrow> p < length (k_procs s)" "k_cur_part s = Some pa \<Longrightarrow> pa < length (k_parts s)"
    "k_cpu_context s < length (k_contexts s)"
  using assms by (auto simp: kinv_def kst_typed_def tables_typed_def shape_of_def)

text \<open>A field that no reference is in may change.\<close>

lemma shape_upd [simp]:
  "shape_of (upd_proc p f s) = shape_of s" "shape_of (upd_part p g s) = shape_of s" "shape_of (upd_buf p h s) = shape_of s"
  "shape_of (upd_bb p j s) = shape_of s" "shape_of (upd_chan p l s) = shape_of s" "shape_of (upd_ctx p o1 s) = shape_of s"
  "shape_of (set_umem m s) = shape_of s"
  by (simp_all add: shape_of_def upd_proc_def upd_part_def upd_buf_def upd_bb_def upd_chan_def upd_ctx_def set_umem_def)

lemma kinv_upd_proc:
  assumes "kinv s" "\<And>x. proc_typed (shape_of s) x \<Longrightarrow> proc_typed (shape_of s) (f x)"
    "\<And>x. pr_state (f x) = RUNNING \<Longrightarrow> pr_state x = RUNNING"
  shows "kinv (upd_proc p f s)"
proof -
  have "list_all (proc_typed (shape_of s)) (k_procs (upd_proc p f s))"
    using assms(1,2) unfolding upd_proc_def by (simp add: kinv_def kst_typed_def objects_typed_def list_all_update)
  then have "kst_typed (upd_proc p f s)"
    using assms(1) unfolding kinv_def kst_typed_def objects_typed_def tables_typed_def shape_upd by (simp add: upd_proc_def)
  moreover have "te_ok (upd_proc p f s)" using assms(1) by (simp add: kinv_def te_ok_def te_times_def)
  moreover have "running_ok (upd_proc p f s)"
    using assms(1,3) by (auto simp: kinv_def running_ok_def nth_upd_proc split: if_splits)
  ultimately show ?thesis by (simp add: kinv_def)
qed

lemma kinv_upd_part:
  assumes "kinv s" "\<And>x. part_typed (shape_of s) x \<Longrightarrow> part_typed (shape_of s) (f x)"
  shows "kinv (upd_part p f s)"
proof -
  have "list_all (part_typed (shape_of s)) (k_parts (upd_part p f s))"
    using assms(1,2) unfolding upd_part_def by (simp add: kinv_def kst_typed_def objects_typed_def list_all_update)
  then have "kst_typed (upd_part p f s)"
    using assms(1) unfolding kinv_def kst_typed_def objects_typed_def tables_typed_def shape_upd by (simp add: upd_part_def)
  then show ?thesis using assms(1) by (simp add: kinv_def te_ok_def te_times_def running_ok_def upd_part_def)
qed

lemma kinv_upd_comm:
  assumes "kinv s"
  shows "(\<And>x. refs (n_procs (shape_of s)) (buf_waiting_procs x) \<Longrightarrow> refs (n_procs (shape_of s)) (buf_waiting_procs (f x))) \<Longrightarrow> kinv (upd_buf b f s)"
    "(\<And>x. refs (n_procs (shape_of s)) (bb_waiting_procs x) \<Longrightarrow> refs (n_procs (shape_of s)) (bb_waiting_procs (g x))) \<Longrightarrow> kinv (upd_bb b g s)"
    "(\<And>x. refs (n_procs (shape_of s)) (ch_waiting_procs x) \<Longrightarrow> refs (n_procs (shape_of s)) (ch_waiting_procs (h x))) \<Longrightarrow> kinv (upd_chan b h s)"
proof -
  note I = assms [unfolded kinv_def kst_typed_def]
  have rest: "te_ok (upd_buf b f s) \<and> running_ok (upd_buf b f s)" "te_ok (upd_bb b g s) \<and> running_ok (upd_bb b g s)"
    "te_ok (upd_chan b h s) \<and> running_ok (upd_chan b h s)"
    using I by (simp_all add: te_ok_def te_times_def running_ok_def upd_buf_def upd_bb_def upd_chan_def)
  show "kinv (upd_buf b f s)"
    if *: "\<And>x. refs (n_procs (shape_of s)) (buf_waiting_procs x) \<Longrightarrow> refs (n_procs (shape_of s)) (buf_waiting_procs (f x))"
  proof -
    have "list_all (\<lambda>b. refs (n_procs (shape_of s)) (buf_waiting_procs b)) (k_bufs (upd_buf b f s))"
      unfolding upd_buf_def using I * by (simp add: objects_typed_def list_all_update)
    then show ?thesis using rest I unfolding kinv_def kst_typed_def objects_typed_def tables_typed_def shape_upd by (simp add: upd_buf_def)
  qed
  show "kinv (upd_bb b g s)"
    if *: "\<And>x. refs (n_procs (shape_of s)) (bb_waiting_procs x) \<Longrightarrow> refs (n_procs (shape_of s)) (bb_waiting_procs (g x))"
  proof -
    have "list_all (\<lambda>b. refs (n_procs (shape_of s)) (bb_waiting_procs b)) (k_bbs (upd_bb b g s))"
      unfolding upd_bb_def using I * by (simp add: objects_typed_def list_all_update)
    then show ?thesis using rest I unfolding kinv_def kst_typed_def objects_typed_def tables_typed_def shape_upd by (simp add: upd_bb_def)
  qed
  show "kinv (upd_chan b h s)"
    if *: "\<And>x. refs (n_procs (shape_of s)) (ch_waiting_procs x) \<Longrightarrow> refs (n_procs (shape_of s)) (ch_waiting_procs (h x))"
  proof -
    have "list_all (\<lambda>b. refs (n_procs (shape_of s)) (ch_waiting_procs b)) (k_chans (upd_chan b h s))"
      unfolding upd_chan_def using I * by (simp add: objects_typed_def list_all_update)
    then show ?thesis using rest I unfolding kinv_def kst_typed_def objects_typed_def tables_typed_def shape_upd by (simp add: upd_chan_def)
  qed
qed

lemma kinv_rest [evo_intros]:
  assumes "kinv s"
  shows "kinv (upd_ctx c f s)" "kinv (set_umem m s)" "kinv (s\<lparr>k_mm := mm\<rparr>)" "kinv (s\<lparr>k_timer := tm\<rparr>)" "kinv (s\<lparr>k_asid := a\<rparr>)"
    "kinv (s\<lparr>proc_nxt_id := n\<rparr>)" "kinv (s\<lparr>buf_nxt_id := n\<rparr>)" "kinv (s\<lparr>bb_nxt_id := n\<rparr>)" "kinv (s\<lparr>qp_nxt_id := n\<rparr>)"
  using assms
  by (simp_all add: kinv_def kst_typed_def objects_typed_def tables_typed_def shape_of_def te_ok_def te_times_def running_ok_def
      upd_ctx_def set_umem_def)
lemma evolves_keep:
  "evolves s t \<Longrightarrow> kinv u \<Longrightarrow> grows (shape_of t) (shape_of u) \<Longrightarrow> k_cur_part u = k_cur_part t \<Longrightarrow> k_cur_proc u = k_cur_proc t \<Longrightarrow> evolves s u"
  by (auto simp: evolves_def intro: grows_trans)

lemma evolves_kinv: "evolves s t \<Longrightarrow> kinv t"
  by (simp add: evolves_def)

lemma evolves_upd_proc:
  assumes "evolves s t" "\<And>x. proc_typed (shape_of t) x \<Longrightarrow> proc_typed (shape_of t) (f x)"
    "\<And>x. pr_state (f x) = RUNNING \<Longrightarrow> pr_state x = RUNNING"
  shows "evolves s (upd_proc p f t)"
  using assms by (intro evolves_keep [OF assms(1)] kinv_upd_proc) (simp_all add: evolves_kinv)

text \<open>Updates of members that are neither references nor the state of the process.\<close>

lemma evolves_upd_proc_same [evo_intros]:
  assumes "evolves s t" "\<And>x. pr_ctx_list (f x) = pr_ctx_list x" "\<And>x. pr_asso_timer (f x) = pr_asso_timer x" "\<And>x. pr_state (f x) = pr_state x"
  shows "evolves s (upd_proc p f t)"
  using assms by (intro evolves_upd_proc) (simp_all add: proc_typed_def)

lemma evolves_set_state [evo_intros]:
  assumes "evolves s t"
  shows "st \<noteq> RUNNING \<Longrightarrow> evolves s (set_state p st t)" "evolves s (set_reason p r t)"
  unfolding set_state_def set_reason_def using assms by (auto intro!: evolves_upd_proc simp: proc_typed_def)

lemma evolves_upd_part_typed:
  assumes "evolves s t" "\<And>x. part_typed (shape_of t) x \<Longrightarrow> part_typed (shape_of t) (f x)"
  shows "evolves s (upd_part p f t)"
  using assms by (intro evolves_keep [OF assms(1)] kinv_upd_part) (simp_all add: evolves_kinv, simp_all add: upd_part_def)

lemma evolves_upd_part [evo_intros]:
  assumes "evolves s t" "\<And>x. pa_proc_name_map (f x) = pa_proc_name_map x" "\<And>x. pa_buf_name_map (f x) = pa_buf_name_map x"
    "\<And>x. pa_bb_name_map (f x) = pa_bb_name_map x" "\<And>x. pa_proc_list (f x) = pa_proc_list x"
  shows "evolves s (upd_part p f t)"
  using assms by (intro evolves_upd_part_typed) (simp_all add: part_typed_def)

lemma cur_upd_comm [simp]:
  "k_cur_part (upd_buf b f s) = k_cur_part s" "k_cur_proc (upd_buf b f s) = k_cur_proc s"
  "k_cur_part (upd_bb b g s) = k_cur_part s" "k_cur_proc (upd_bb b g s) = k_cur_proc s"
  "k_cur_part (upd_chan b h s) = k_cur_part s" "k_cur_proc (upd_chan b h s) = k_cur_proc s"
  by (simp_all add: upd_buf_def upd_bb_def upd_chan_def)

lemma evolves_upd_comm [evo_intros]:
  assumes "evolves s t"
  shows "(\<And>x. set (buf_waiting_procs (f x)) \<subseteq> set (buf_waiting_procs x)) \<Longrightarrow> evolves s (upd_buf b f t)"
    "(\<And>x. set (bb_waiting_procs (g x)) \<subseteq> set (bb_waiting_procs x)) \<Longrightarrow> evolves s (upd_bb b g t)"
    "(\<And>x. set (ch_waiting_procs (h x)) \<subseteq> set (ch_waiting_procs x)) \<Longrightarrow> evolves s (upd_chan b h t)"
proof -
  note K = evolves_kinv [OF assms]
  show "evolves s (upd_buf b f t)" if "\<And>x. set (buf_waiting_procs (f x)) \<subseteq> set (buf_waiting_procs x)"
    by (rule evolves_keep [OF assms kinv_upd_comm(1) [OF K]]) (use that in \<open>auto simp: refs_alt\<close>)
  show "evolves s (upd_bb b g t)" if "\<And>x. set (bb_waiting_procs (g x)) \<subseteq> set (bb_waiting_procs x)"
    by (rule evolves_keep [OF assms kinv_upd_comm(2) [OF K]]) (use that in \<open>auto simp: refs_alt\<close>)
  show "evolves s (upd_chan b h t)" if "\<And>x. set (ch_waiting_procs (h x)) \<subseteq> set (ch_waiting_procs x)"
    by (rule evolves_keep [OF assms kinv_upd_comm(3) [OF K]]) (use that in \<open>auto simp: refs_alt\<close>)
qed

lemma shape_rest [simp]:
  "shape_of (s\<lparr>k_mm := mm\<rparr>) = shape_of s" "shape_of (s\<lparr>k_timer := tm\<rparr>) = shape_of s" "shape_of (s\<lparr>k_asid := a\<rparr>) = shape_of s"
  "shape_of (s\<lparr>proc_nxt_id := n\<rparr>) = shape_of s" "shape_of (s\<lparr>buf_nxt_id := n\<rparr>) = shape_of s"
  "shape_of (s\<lparr>bb_nxt_id := n\<rparr>) = shape_of s" "shape_of (s\<lparr>qp_nxt_id := n\<rparr>) = shape_of s"
  "shape_of (s\<lparr>k_te_queue := q\<rparr>) = shape_of s" "shape_of (s\<lparr>k_ctx_free_list := cs\<rparr>) = shape_of s"
  "shape_of (s\<lparr>k_cpu_context := c\<rparr>) = shape_of s"
  by (simp_all add: shape_of_def)

lemma evolves_rest [evo_intros]:
  assumes "evolves s t"
  shows "evolves s (upd_ctx c f t)" "evolves s (set_umem m t)" "evolves s (store64 a v t)" "evolves s (store32 a w t)"
    "evolves s (t\<lparr>k_mm := mm\<rparr>)" "evolves s (t\<lparr>k_timer := tm\<rparr>)" "evolves s (t\<lparr>k_asid := asi\<rparr>)" "evolves s (t\<lparr>proc_nxt_id := n\<rparr>)"
    "evolves s (t\<lparr>buf_nxt_id := n\<rparr>)" "evolves s (t\<lparr>bb_nxt_id := n\<rparr>)" "evolves s (t\<lparr>qp_nxt_id := n\<rparr>)"
  unfolding store64_def store32_def
  by (rule evolves_keep [OF assms]; simp add: kinv_rest evolves_kinv [OF assms])+

section \<open>Time events\<close>

lemma evolves_set_head [evo_intros]: "evolves s t \<Longrightarrow> evolves s (time_event_set_head now t)"
  by (simp add: time_event_set_head_def evolves_rest split: list.split)

lemma kinv_queue:
  assumes "kinv s"
  shows "kinv (s\<lparr>k_te_queue := remove1 te (k_te_queue s)\<rparr>)"
proof -
  have "te_ok (s\<lparr>k_te_queue := remove1 te (k_te_queue s)\<rparr>)"
    using assms by (auto simp: kinv_def te_ok_def te_times_def sorted_map_remove1 dest: notin_set_remove1)
  moreover have "kst_typed (s\<lparr>k_te_queue := remove1 te (k_te_queue s)\<rparr>)"
    using assms refs_remove1 by (simp add: kinv_def kst_typed_def objects_typed_def tables_typed_def shape_of_def)
  ultimately show ?thesis using assms by (simp add: kinv_def running_ok_def)
qed

lemma evolves_queue [evo_intros]: "evolves s t \<Longrightarrow> evolves s (t\<lparr>k_te_queue := remove1 te (k_te_queue t)\<rparr>)"
  by (rule evolves_keep [of s t]) (simp_all add: kinv_queue evolves_kinv)

lemma evolves_set_asso:
  assumes "evolves s t" "oref (n_tes (shape_of t)) v"
  shows "evolves s (set_asso_timer v ty t)"
  using assms by (auto simp: set_asso_timer_def proc_typed_def split: option.split intro!: evolves_upd_proc)

lemma evolves_time_event_free:
  assumes "evolves s t" "time_event_free now te t = OK u"
  shows "evolves s u"
  using assms by (auto simp: time_event_free_def Let_def split: option.splits intro!: evolves_set_asso evo_intros)

lemma kinv_te_append:
  fixes time :: sys_time
  assumes "kinv s" "te_typed (shape_of s) ty"
  defines "t \<equiv> s\<lparr>k_tes := k_tes s @ [\<lparr>te_time = time, te_type = ty\<rparr>],
      k_te_queue := te_insert (\<lambda>i. te_time ((k_tes s @ [\<lparr>te_time = time, te_type = ty\<rparr>]) ! i)) (length (k_tes s)) time (k_te_queue s)\<rparr>"
  shows "kinv t" "grows (shape_of s) (shape_of t)"
proof -
  show g: "grows (shape_of s) (shape_of t)" by (simp add: t_def grows_def shape_of_def)
  have "te_ok (time_event_alloc 0 time ty s)" using assms(1) by (simp add: kinv_def time_event_alloc_ok)
  then have te: "te_ok t" by (simp add: te_ok_def te_times_def time_event_alloc_def Let_def t_def)
  have "objects_typed (shape_of t) s" "tables_typed (shape_of t) s"
    using assms(1) objects_typed_mono [OF g] tables_typed_mono [OF g] by (simp_all add: kinv_def kst_typed_def)
  moreover have "refs (n_tes (shape_of t)) (k_te_queue t)" using te by (simp add: te_ok_def refs_alt shape_of_def)
  moreover have "te_typed (shape_of t) ty" by (rule typed_mono(3) [OF g assms(2)])
  ultimately have "kst_typed t" by (simp add: kst_typed_def objects_typed_def tables_typed_def) (simp add: t_def)
  then show "kinv t" using assms(1) te by (simp add: kinv_def running_ok_def t_def)
qed

lemma evolves_time_event_alloc [evo_intros]:
  assumes "evolves s t" "te_typed (shape_of t) ty"
  shows "evolves s (time_event_alloc now time ty t)"
proof -
  note A = kinv_te_append [OF evolves_kinv [OF assms(1)] assms(2), of time]
  show ?thesis unfolding time_event_alloc_def Let_def
    by (intro evolves_set_asso evolves_set_head evolves_keep [OF assms(1)]) (use A in simp_all, simp add: shape_of_def)
qed

section \<open>Contexts\<close>

lemma kinv_ctx:
  assumes "kinv s"
  shows "refs (n_ctxs (shape_of s)) cs \<Longrightarrow> kinv (s\<lparr>k_ctx_free_list := cs\<rparr>)" "c < n_ctxs (shape_of s) \<Longrightarrow> kinv (s\<lparr>k_cpu_context := c\<rparr>)"
  using assms by (simp_all add: kinv_def kst_typed_def objects_typed_def tables_typed_def te_ok_def te_times_def running_ok_def)

lemma evolves_ctx [evo_intros]:
  assumes "evolves s t"
  shows "refs (n_ctxs (shape_of t)) cs \<Longrightarrow> evolves s (t\<lparr>k_ctx_free_list := cs\<rparr>)" "c < n_ctxs (shape_of t) \<Longrightarrow> evolves s (t\<lparr>k_cpu_context := c\<rparr>)"
  by (rule evolves_keep [OF assms]; simp add: kinv_ctx evolves_kinv [OF assms])+

lemma kinv_free_list: "kinv s \<Longrightarrow> refs (n_ctxs (shape_of s)) (k_ctx_free_list s)"
  by (simp add: kinv_def kst_typed_def tables_typed_def)

lemma kinv_proc: "kinv s \<Longrightarrow> p < length (k_procs s) \<Longrightarrow> proc_typed (shape_of s) (k_procs s ! p)"
  by (simp add: kinv_def kst_typed_def objects_typed_def list_all_length)

lemma kinv_part: "kinv s \<Longrightarrow> p < length (k_parts s) \<Longrightarrow> part_typed (shape_of s) (k_parts s ! p)"
  by (simp add: kinv_def kst_typed_def objects_typed_def list_all_length)

lemma evolves_ctx_alloc:
  assumes "evolves s t" "ctx_alloc t = (u, OK c)"
  shows "evolves s u" "c < n_ctxs (shape_of u)" "k_procs u = k_procs t"
  using assms kinv_free_list [OF evolves_kinv [OF assms(1)]] by (auto simp: ctx_alloc_def split: list.splits intro!: evo_intros)

lemma evolves_push_ctx:
  assumes "evolves s t" "c < n_ctxs (shape_of t)"
  shows "evolves s (upd_proc p (\<lambda>x. x\<lparr>pr_ctx_list := c # pr_ctx_list x\<rparr>) t)"
  using assms by (intro evolves_upd_proc) (simp_all add: proc_typed_def)

lemma evolves_proc_reset:
  assumes "evolves s t" "p < length (k_procs t)" "proc_reset p t = OK u"
  shows "evolves s u"
proof -
  define t1 where "t1 = upd_proc p (\<lambda>x. x\<lparr>pr_ctx_list := []\<rparr>) (t\<lparr>k_ctx_free_list := rev (pr_ctx_list (k_procs t ! p)) @ k_ctx_free_list t\<rparr>)"
  note K = evolves_kinv [OF assms(1)]
  have "evolves s t1" unfolding t1_def using kinv_proc [OF K assms(2)] kinv_free_list [OF K]
    by (intro evolves_upd_proc evolves_ctx assms(1)) (simp_all add: proc_typed_def)
  moreover obtain t2 r where a: "ctx_alloc t1 = (t2, r)" by fastforce
  moreover obtain c where "r = OK c" using assms(3) a by (cases r) (auto simp: proc_reset_def Let_def t1_def)
  ultimately have "evolves s t2" "c < n_ctxs (shape_of t2)" "r = OK c" using evolves_ctx_alloc by blast+
  then show ?thesis using assms(3) a
    by (auto simp: proc_reset_def Let_def t1_def [symmetric] intro!: evolves_push_ctx evolves_rest)
qed

section \<open>New objects\<close>

lemma kinv_new_proc:
  assumes "kinv s" "proc_typed (shape_of s) x" "pr_state x \<noteq> RUNNING"
  shows "kinv (s\<lparr>k_procs := k_procs s @ [x]\<rparr>)" "grows (shape_of s) (shape_of (s\<lparr>k_procs := k_procs s @ [x]\<rparr>))"
proof -
  let ?t = "s\<lparr>k_procs := k_procs s @ [x]\<rparr>"
  show g: "grows (shape_of s) (shape_of ?t)" by (simp add: grows_def shape_of_def)
  have "objects_typed (shape_of ?t) s" "tables_typed (shape_of ?t) s"
    using assms(1) objects_typed_mono [OF g] tables_typed_mono [OF g] by (simp_all add: kinv_def kst_typed_def)
  then have "kst_typed ?t" using typed_mono(1) [OF g assms(2)] by (simp add: kst_typed_def objects_typed_def tables_typed_def)
  then show "kinv ?t" using assms(1,3) by (auto simp: kinv_def te_ok_def te_times_def running_ok_def nth_append less_Suc_eq)
qed

lemma kinv_new_comm:
  assumes "kinv s"
  shows "buf_waiting_procs b = [] \<Longrightarrow> kinv (s\<lparr>k_bufs := k_bufs s @ [b]\<rparr>)" "bb_waiting_procs c = [] \<Longrightarrow> kinv (s\<lparr>k_bbs := k_bbs s @ [c]\<rparr>)"
    "qp_channel q < n_chans (shape_of s) \<Longrightarrow> kinv (s\<lparr>k_ports := k_ports s @ [q]\<rparr>)"
    "grows (shape_of s) (shape_of (s\<lparr>k_bufs := k_bufs s @ [b]\<rparr>))" "grows (shape_of s) (shape_of (s\<lparr>k_bbs := k_bbs s @ [c]\<rparr>))"
    "grows (shape_of s) (shape_of (s\<lparr>k_ports := k_ports s @ [q]\<rparr>))"
proof -
  show g: "grows (shape_of s) (shape_of (s\<lparr>k_bufs := k_bufs s @ [b]\<rparr>))" "grows (shape_of s) (shape_of (s\<lparr>k_bbs := k_bbs s @ [c]\<rparr>))"
    "grows (shape_of s) (shape_of (s\<lparr>k_ports := k_ports s @ [q]\<rparr>))"
    by (simp_all add: grows_def shape_of_def)
  have T: "objects_typed sh s \<and> tables_typed sh s" if "grows (shape_of s) sh" for sh
    using assms objects_typed_mono [OF that] tables_typed_mono [OF that] by (simp add: kinv_def kst_typed_def)
  have "n_chans (shape_of (s\<lparr>k_ports := k_ports s @ [q]\<rparr>)) = n_chans (shape_of s)" by (simp add: shape_of_def)
  then show "buf_waiting_procs b = [] \<Longrightarrow> kinv (s\<lparr>k_bufs := k_bufs s @ [b]\<rparr>)"
    "bb_waiting_procs c = [] \<Longrightarrow> kinv (s\<lparr>k_bbs := k_bbs s @ [c]\<rparr>)"
    "qp_channel q < n_chans (shape_of s) \<Longrightarrow> kinv (s\<lparr>k_ports := k_ports s @ [q]\<rparr>)"
    using assms T [OF g(1)] T [OF g(2)] T [OF g(3)]
    by (simp_all add: kinv_def kst_typed_def objects_typed_def tables_typed_def te_ok_def te_times_def running_ok_def)
qed

lemma evolves_new [evo_intros]:
  assumes "evolves s t"
  shows "buf_waiting_procs b = [] \<Longrightarrow> evolves s (t\<lparr>k_bufs := k_bufs t @ [b]\<rparr>)" "bb_waiting_procs c = [] \<Longrightarrow> evolves s (t\<lparr>k_bbs := k_bbs t @ [c]\<rparr>)"
    "qp_channel q < n_chans (shape_of t) \<Longrightarrow> evolves s (t\<lparr>k_ports := k_ports t @ [q]\<rparr>)"
    "proc_typed (shape_of t) x \<Longrightarrow> pr_state x \<noteq> RUNNING \<Longrightarrow> evolves s (t\<lparr>k_procs := k_procs t @ [x]\<rparr>)"
  by (rule evolves_keep [OF assms]; simp add: kinv_new_comm kinv_new_proc evolves_kinv [OF assms])+

lemma kinv_tables:
  assumes "kinv s"
  shows "table_refs (length (k_procs s)) h \<Longrightarrow> kinv (s\<lparr>proc_id_map := h\<rparr>)" "table_refs (length (k_bufs s)) h \<Longrightarrow> kinv (s\<lparr>buf_id_map := h\<rparr>)"
    "table_refs (length (k_bbs s)) h \<Longrightarrow> kinv (s\<lparr>bb_id_map := h\<rparr>)" "table_refs (length (k_ports s)) h \<Longrightarrow> kinv (s\<lparr>queuing_port_id_map := h\<rparr>)"
    "table_refs (length (k_ports s)) h \<Longrightarrow> kinv (s\<lparr>queuing_port_name_map := h\<rparr>)"
  using assms
  by (simp_all add: kinv_def kst_typed_def objects_typed_def tables_typed_def shape_of_def te_ok_def te_times_def running_ok_def)

lemma kinv_table:
  assumes "kinv s"
  shows "table_refs (length (k_procs s)) (proc_id_map s)" "table_refs (length (k_bufs s)) (buf_id_map s)"
    "table_refs (length (k_bbs s)) (bb_id_map s)" "table_refs (length (k_ports s)) (queuing_port_id_map s)"
    "table_refs (length (k_ports s)) (queuing_port_name_map s)" "table_refs (length (k_parts s)) (part_id_map s)"
  using assms by (simp_all add: kinv_def kst_typed_def tables_typed_def shape_of_def)

text \<open>Entering an object into the table of its kind.\<close>

lemma evolves_put [evo_intros]:
  assumes "evolves s t"
  shows "n < length (k_procs t) \<Longrightarrow> evolves s (t\<lparr>proc_id_map := hashmap_put hc he key (proc_id_map t) n\<rparr>)"
    "n < length (k_bufs t) \<Longrightarrow> evolves s (t\<lparr>buf_id_map := hashmap_put hc he key (buf_id_map t) n\<rparr>)"
    "n < length (k_bbs t) \<Longrightarrow> evolves s (t\<lparr>bb_id_map := hashmap_put hc he key (bb_id_map t) n\<rparr>)"
    "n < length (k_ports t) \<Longrightarrow> evolves s (t\<lparr>queuing_port_id_map := hashmap_put hc he key (queuing_port_id_map t) n\<rparr>)"
    "n < length (k_ports t) \<Longrightarrow> evolves s (t\<lparr>queuing_port_name_map := hashmap_put hc2 he2 key2 (queuing_port_name_map t) n\<rparr>)"
  using kinv_table [OF evolves_kinv [OF assms]]
  by (intro evolves_keep [OF assms] kinv_tables evolves_kinv [OF assms] table_refs_put; simp add: shape_of_def)+

lemma evolves_names [evo_intros]:
  assumes "evolves s t"
  shows "p < length (k_procs t) \<Longrightarrow> evolves s (part_add_proc_name pa p t)"
    "b < length (k_bufs t) \<Longrightarrow> evolves s (part_add_buf_name pa b t)"
    "b < length (k_bbs t) \<Longrightarrow> evolves s (part_add_bb_name pa b t)"
    "p < length (k_procs t) \<Longrightarrow> evolves s (upd_part pa (\<lambda>x. x\<lparr>pa_proc_list := pa_proc_list x @ [p]\<rparr>) t)"
  unfolding part_add_proc_name_def part_add_buf_name_def part_add_bb_name_def
  by (rule evolves_upd_part_typed [OF assms]; auto simp: part_typed_def shape_of_def intro: table_refs_put)+

lemma part_fields [simp]:
  "k_procs (upd_part pa f t) = k_procs t" "k_procs (part_add_proc_name pa p t) = k_procs t"
  "k_bufs (part_add_buf_name pa p t) = k_bufs t" "k_bbs (part_add_bb_name pa p t) = k_bbs t"
  by (simp_all add: upd_part_def part_add_proc_name_def part_add_buf_name_def part_add_bb_name_def)

lemma evolves_proc_link [evo_intros]:
  assumes "evolves s t" "p < length (k_procs t)"
  shows "evolves s (proc_link pa p t)"
  unfolding proc_link_def Let_def using assms by (intro evolves_put evolves_names) simp_all

lemma evolves_stacks:
  assumes "evolves s t"
  shows "evolves s (fst (proc_ustack_setup pa p sz t))" "evolves s (fst (proc_xstack_setup pa p t))"
    "length (k_procs (fst (proc_ustack_setup pa p sz t))) = length (k_procs t)"
    "length (k_procs (fst (proc_xstack_setup pa p t))) = length (k_procs t)"
proof -
  have *: "evolves s (fst (case r of (m, OK _) \<Rightarrow> (upd_part pa f (t1\<lparr>k_mm := m\<rparr>), OK ()) | (m, e) \<Rightarrow> (t1\<lparr>k_mm := m\<rparr>, e)))"
    if "evolves s t1" "\<And>t. evolves s t \<Longrightarrow> evolves s (upd_part pa f t)" for t1 f and r :: "mm \<times> unit result"
    using that by (cases r; cases "snd r") (auto intro: evolves_rest)
  show "evolves s (fst (proc_ustack_setup pa p sz t))" "evolves s (fst (proc_xstack_setup pa p t))"
    unfolding proc_ustack_setup_def proc_xstack_setup_def Let_def
    by (rule *; intro evolves_upd_proc_same evolves_upd_part assms; simp)+
  show "length (k_procs (fst (proc_ustack_setup pa p sz t))) = length (k_procs t)"
    "length (k_procs (fst (proc_xstack_setup pa p t))) = length (k_procs t)"
    by (simp_all add: proc_ustack_setup_def proc_xstack_setup_def Let_def split: prod.split result.split)
qed

lemma evolves_proc_alloc:
  assumes "evolves s t"
  shows "evolves s (fst (proc_alloc pa name period time_cap entrypoint stacksize base_pri deadline t))"
proof -
  define t2 where "t2 = t\<lparr>proc_nxt_id := proc_nxt_id t + 1\<rparr>\<lparr>k_procs := k_procs t @ [new_proc (k_parts t ! pa) (proc_nxt_id t) name period time_cap entrypoint base_pri deadline]\<rparr>"
  define p where "p = length (k_procs t)"
  have t1: "evolves s (t\<lparr>proc_nxt_id := proc_nxt_id t + 1\<rparr>)" by (intro evolves_rest assms)
  have t2: "evolves s t2" "p < length (k_procs t2)"
    unfolding t2_def p_def using evolves_new(4) [OF t1, of "new_proc (k_parts t ! pa) (proc_nxt_id t) name period time_cap entrypoint base_pri deadline"]
    by (simp_all add: new_proc_def proc_typed_def)
  obtain t3 r3 where u: "proc_ustack_setup pa p (align_up stacksize PGSIZE_W) t2 = (t3, r3)" by fastforce
  have t3: "evolves s t3" "p < length (k_procs t3)"
    using evolves_stacks(1,3) [OF t2(1), of pa p "align_up stacksize PGSIZE_W"] t2(2) u by simp_all
  obtain t4 r4 where x: "proc_xstack_setup pa p t3 = (t4, r4)" by fastforce
  have t4: "evolves s t4" "p < length (k_procs t4)" using evolves_stacks(2,4) [OF t3(1), of pa p] t3(2) x by simp_all
  have t5: "evolves s (proc_link pa p t4)" "p < length (k_procs (proc_link pa p t4))"
    using t4 by (simp_all add: evolves_proc_link) (simp add: proc_link_def Let_def)
  have t6: "evolves s (fst (case proc_reset p (proc_link pa p t4) of OK s5 \<Rightarrow> (s5, OK p) | _ \<Rightarrow> (proc_link pa p t4, PANIC)))"
    using evolves_proc_reset [OF t5] t5 by (auto split: result.splits)
  have new: "k_procs (t\<lparr>proc_nxt_id := n\<rparr>) = k_procs t" "k_parts (t\<lparr>proc_nxt_id := n\<rparr>) = k_parts t" for n by simp_all
  have "proc_alloc pa name period time_cap entrypoint stacksize base_pri deadline t =
     (if pa_mem_rem (k_parts t ! pa) < align_up stacksize PGSIZE_W then (t, ERR KER_PROC_ER)
      else case proc_ustack_setup pa p (align_up stacksize PGSIZE_W) t2 of
         (s3, OK _) \<Rightarrow> (case proc_xstack_setup pa p s3 of
            (s4, OK _) \<Rightarrow> (case proc_reset p (proc_link pa p s4) of OK s5 \<Rightarrow> (s5, OK p) | _ \<Rightarrow> (proc_link pa p s4, PANIC))
          | (s4, _) \<Rightarrow> (s4, PANIC))
       | (s3, _) \<Rightarrow> (s3, PANIC))"
    unfolding proc_alloc_def proc_id_alloc_def Let_def prod.case t2_def p_def new by simp
  then show ?thesis using u x t3 t4 t6 assms by (cases r3; cases r4) simp_all
qed

lemma evolves_comm_alloc:
  assumes "evolves s t"
  shows "evolves s (fst (part_comm_alloc pa sz t))"
  using assms by (auto simp: part_comm_alloc_def Let_def intro: evolves_upd_part)

lemma evolves_buffer_alloc:
  assumes "evolves s t"
  shows "evolves s (fst (buffer_alloc pa name sz nb disc t))"
proof -
  define t1 where "t1 = t\<lparr>buf_nxt_id := buf_nxt_id t + 1\<rparr>"
  obtain t2 r where c: "part_comm_alloc pa (nb * (sz + COMM_MSG_HDR)) t1 = (t2, r)" by fastforce
  have "evolves s t1" unfolding t1_def by (intro evolves_rest assms)
  then have t2: "evolves s t2" using evolves_comm_alloc [of s t1 pa "nb * (sz + COMM_MSG_HDR)"] c by simp
  show ?thesis
    unfolding buffer_alloc_def buf_id_alloc_def Let_def prod.case t1_def [symmetric] c
    by (cases r) (auto intro!: evolves_put evolves_names evolves_new t2)
qed

lemma evolves_blackboard_alloc:
  assumes "evolves s t"
  shows "evolves s (fst (blackboard_alloc pa name sz t))"
proof -
  define t1 where "t1 = t\<lparr>bb_nxt_id := bb_nxt_id t + 1\<rparr>"
  obtain t2 r where c: "part_comm_alloc pa sz t1 = (t2, r)" by fastforce
  have "evolves s t1" unfolding t1_def by (intro evolves_rest assms)
  then have t2: "evolves s t2" using evolves_comm_alloc [of s t1 pa sz] c by simp
  show ?thesis
    unfolding blackboard_alloc_def bb_id_alloc_def Let_def prod.case t1_def [symmetric] c
    by (cases r) (auto intro!: evolves_put evolves_names evolves_new t2)
qed

lemma conf_index_bound: "conf_index cs n = Some i \<Longrightarrow> i < length cs"
  by (induction cs arbitrary: i) (auto split: if_splits)

lemma evolves_queuing_port_alloc:
  assumes "evolves s t"
  shows "evolves s (fst (queuing_port_alloc pa name dir sz nb disc t))"
proof (cases "case conf_index (k_port_confs t) name of None \<Rightarrow> None | Some i \<Rightarrow> qpc_channel (k_port_confs t ! i)")
  case (Some chan)
  then obtain i where i: "conf_index (k_port_confs t) name = Some i" "qpc_channel (k_port_confs t ! i) = Some chan" by (auto split: option.splits)
  have "list_all (\<lambda>q. oref (n_chans (shape_of t)) (qpc_channel q)) (k_port_confs t)"
    using evolves_kinv [OF assms] by (simp add: kinv_def kst_typed_def objects_typed_def)
  then have c: "chan < n_chans (shape_of t)" using i conf_index_bound [OF i(1)] by (auto simp: list_all_length)
  define q where "q = \<lparr>qp_id = qp_nxt_id t, qp_name = name, qp_part_id = pa_id (k_parts t ! pa), qp_dir = dir, qp_disc = disc, qp_channel = chan\<rparr>"
  define t2 where "t2 = t\<lparr>qp_nxt_id := qp_nxt_id t + 1\<rparr>\<lparr>k_ports := k_ports t @ [q]\<rparr>"
  have t2: "evolves s t2" "length (k_ports t) < length (k_ports t2)"
    unfolding t2_def using evolves_new(3) [of s "t\<lparr>qp_nxt_id := qp_nxt_id t + 1\<rparr>" q] c evolves_rest(11) [OF assms] by (simp_all add: q_def)
  have t3: "evolves s (t2\<lparr>queuing_port_id_map := hashmap_put hash_code_uint64 hash_eq_uint64 (queuing_port_id_key_of t2) (queuing_port_id_map t2) (length (k_ports t))\<rparr>)"
    (is "evolves s ?t3") by (rule evolves_put(4) [OF t2])
  have "evolves s (?t3\<lparr>queuing_port_name_map := hashmap_put hash_code_str hash_eq_str (queuing_port_name_key_of ?t3) (queuing_port_name_map ?t3) (length (k_ports t))\<rparr>)"
    using evolves_put(5) [OF t3, of "length (k_ports t)"] t2(2) by simp
  moreover have "fst (queuing_port_alloc pa name dir sz nb disc t) =
      ?t3\<lparr>queuing_port_name_map := hashmap_put hash_code_str hash_eq_str (queuing_port_name_key_of ?t3) (queuing_port_name_map ?t3) (length (k_ports t))\<rparr>"
    unfolding queuing_port_alloc_def Some option.case queuing_port_id_alloc_def Let_def prod.case t2_def q_def by simp
  ultimately show ?thesis by simp
qed (simp add: queuing_port_alloc_def assms)

section \<open>Handlers\<close>

definition typed_call :: "kst \<Rightarrow> kst \<times> outcome \<Rightarrow> bool" where
  "typed_call s r \<longleftrightarrow> evolves s (fst r) \<and> (\<forall>rr k. snd r = Yield rr k \<longrightarrow> cont_typed (shape_of s) k)"

named_theorems typed_intros

lemma typed_ends [typed_intros]:
  assumes "evolves s t"
  shows "typed_call s (t, Done rc)" "typed_call s (t, Fatal)" "typed_call s (t, Halt)" "typed_call s (t, Console op)"
    "cont_typed (shape_of s) k \<Longrightarrow> typed_call s (t, Yield rr k)"
  using assms by (simp_all add: typed_call_def)

lemma typed_or_fatal [typed_intros]:
  assumes "evolves s t" "\<And>x. r = OK x \<Longrightarrow> typed_call s (f x)"
  shows "typed_call s (or_fatal t r f)"
  using assms by (cases r) (simp_all add: or_fatal_def typed_ends)

lemma typed_with_name [typed_intros]:
  assumes "kinv s" "\<And>n. typed_call s (f n)"
  shows "typed_call s (with_name s a f)"
  using assms by (auto simp: with_name_def typed_ends evolves_refl split: option.split)

text \<open>What a lookup finds exists.\<close>

lemma own_bound:
  assumes "kinv s"
  shows "own_proc s i = Some p \<Longrightarrow> p < n_procs (shape_of s)" "own_port s i = Some q \<Longrightarrow> q < n_ports (shape_of s)"
    "own_buf s i = Some b \<Longrightarrow> b < n_bufs (shape_of s)" "own_bb s i = Some c \<Longrightarrow> c < n_bbs (shape_of s)"
  using kinv_table [OF assms]
  by (auto simp: own_proc_def own_port_def own_buf_def own_bb_def proc_from_id_def queuing_port_from_id_def buffer_from_id_def
      blackboard_from_id_def shape_of_def split: option.splits if_splits intro: table_refs_get)

lemma cur_proc_bound: "kinv s \<Longrightarrow> k_cur_proc s \<noteq> None \<Longrightarrow> sched_cur_proc s < n_procs (shape_of s)"
  using kinv_cur(1) by (auto simp: sched_cur_proc_def shape_of_def)

lemma evolves_cur: "evolves s t \<Longrightarrow> sched_cur_proc t = sched_cur_proc s"
  by (simp add: evolves_def sched_cur_proc_def)

lemma evolves_bound:
  assumes "evolves s t"
  shows "p < n_procs (shape_of s) \<Longrightarrow> p < n_procs (shape_of t)" "te_typed (shape_of s) ty \<Longrightarrow> te_typed (shape_of t) ty"
    "cont_typed (shape_of s) k \<Longrightarrow> cont_typed (shape_of t) k"
  using assms typed_mono unfolding evolves_def by (auto simp: grows_def)

text \<open>Sleeping and waking.\<close>

lemma evolves_add_waiting:
  assumes "evolves s t" "p < n_procs (shape_of s)"
  shows "evolves s (buffer_add_waiting_proc b p t)" "evolves s (blackboard_add_waiting_proc b p t)" "evolves s (queuing_port_add_waiting_proc b p t)"
  unfolding buffer_add_waiting_proc_def blackboard_add_waiting_proc_def queuing_port_add_waiting_proc_def
  using evolves_bound(1) [OF assms]
  by (auto intro!: evolves_keep [OF assms(1)] kinv_upd_comm evolves_kinv [OF assms(1)])

lemma evolves_block_wait:
  assumes "evolves s t" "\<And>u. evolves s u \<Longrightarrow> evolves s (add u)" "te_typed (shape_of s) te"
  shows "evolves s (block_wait p reason timed te add now time_out w t)"
  unfolding block_wait_def Let_def using assms
  by (auto intro!: evolves_time_event_alloc evolves_set_state intro: evolves_bound(2) [rotated])

lemma evolves_wake_proc:
  assumes "evolves s t" "wake_proc now r p t = OK u"
  shows "evolves s u"
proof -
  obtain t1 where "evolves s t1" "u = set_state p READY t1"
    using assms evolves_time_event_free [OF assms(1)] by (fastforce simp: wake_proc_def panic_e_def split: if_splits result.splits)
  then show ?thesis by (simp add: evolves_set_state)
qed

lemma evolves_del_waiting [evo_intros]:
  assumes "evolves s t"
  shows "evolves s (buffer_del_waiting_proc b p t)" "evolves s (blackboard_del_waiting_proc b p t)" "evolves s (queuing_port_del_waiting_proc b p t)"
  unfolding buffer_del_waiting_proc_def blackboard_del_waiting_proc_def queuing_port_del_waiting_proc_def
  by (rule evolves_upd_comm [OF assms]; simp add: set_remove1_subset)+

lemma evolves_wakeup:
  assumes "evolves s t"
  shows "evolves s (fst (buffer_wakeup_waiting_proc b t))" "evolves s (fst (queuing_port_wakeup_waiting_proc b t))"
  unfolding buffer_wakeup_waiting_proc_def queuing_port_wakeup_waiting_proc_def
  using assms by (simp_all add: evolves_del_waiting split: option.split)

lemma evolves_bb_wakeup:
  assumes "evolves s t"
  shows "evolves s (fst (blackboard_wakeup_waiting_proc b t))"
proof (cases "bb_waiting_procs (k_bbs t ! b)")
  case (Cons p ps)
  then have "fst (blackboard_wakeup_waiting_proc b t) = upd_bb b (\<lambda>x. x\<lparr>bb_waiting_procs := tl (bb_waiting_procs x)\<rparr>) t"
    by (simp add: blackboard_wakeup_waiting_proc_def upd_bb_def)
  moreover have "set (tl xs) \<subseteq> set xs" for xs :: "nat list" by (cases xs) auto
  ultimately show ?thesis by (simp add: evolves_upd_comm [OF assms])
qed (simp add: blackboard_wakeup_waiting_proc_def assms)

lemma evolves_port_wake:
  assumes "evolves s t" "port_wake clk q t = OK u"
  shows "evolves s u"
proof (cases "queuing_port_wakeup_waiting_proc q t")
  case (Pair t1 p)
  then have "evolves s t1" using evolves_wakeup(2) [OF assms(1), of q] by simp
  then show ?thesis using assms(2) Pair by (auto simp: port_wake_def split: option.splits intro: evolves_wake_proc)
qed

lemma typed_buf_wake:
  assumes "evolves s t"
  shows "typed_call s (buf_wake clk b t)"
proof (cases "buffer_wakeup_waiting_proc b t")
  case (Pair t1 p)
  then have "evolves s t1" using evolves_wakeup(1) [OF assms, of b] by simp
  then show ?thesis using Pair by (auto simp: buf_wake_def split: option.splits intro!: typed_intros intro: evolves_wake_proc)
qed

text \<open>The transfers of messages.\<close>

lemma evolves_recv_store:
  assumes "evolves s t" "recv_store cc a l t = Some (u, cc')"
  shows "evolves s u"
  using assms by (auto simp: recv_store_def Let_def split: prod.splits intro!: evolves_rest)

lemma evolves_transfer:
  assumes "evolves s t"
  shows "buffer_send b a l t = OK u \<Longrightarrow> evolves s u" "buffer_recv b a l t = OK u \<Longrightarrow> evolves s u"
    "queuing_port_send q a l t = OK u \<Longrightarrow> evolves s u" "queuing_port_recv q a l t = OK u \<Longrightarrow> evolves s u"
    "blackboard_display b a l t = OK u \<Longrightarrow> evolves s u" "blackboard_read b a l t = OK u \<Longrightarrow> evolves s u"
  using assms evolves_recv_store [OF assms]
  by (auto simp: buffer_send_def buffer_recv_def queuing_port_send_def queuing_port_recv_def blackboard_display_def blackboard_read_def
      split: if_splits option.splits intro!: evolves_upd_comm evolves_rest)

lemma evolves_bb_wake_all:
  assumes "evolves s t" "bb_wake_all n clk b t = OK u"
  shows "evolves s u"
  using assms
proof (induction n arbitrary: clk t)
  case (Suc n)
  obtain t1 p where w: "blackboard_wakeup_waiting_proc b t = (t1, p)" by fastforce
  then have t1: "evolves s t1" using evolves_bb_wakeup [OF Suc.prems(1), of b] by simp
  show ?case
  proof (cases p)
    case (Some q)
    then obtain t2 where "wake_proc (clk 0) BLACKBOARD_BLOCKED_WITH_TIMEOUT q t1 = OK t2" "bb_wake_all n (clk_from 1 clk) b t2 = OK u"
      using Suc.prems(2) w by (cases "wake_proc (clk 0) BLACKBOARD_BLOCKED_WITH_TIMEOUT q t1") simp_all
    then show ?thesis using Suc.IH evolves_wake_proc [OF t1] by blast
  qed (use Suc.prems(2) w t1 in simp)
qed simp

text \<open>A call of the current process; its pieces leave the hart's process as it is.\<close>

definition calling :: "kst \<Rightarrow> bool" where
  "calling s \<longleftrightarrow> kinv s \<and> k_cur_part s \<noteq> None \<and> k_cur_proc s \<noteq> None"

lemma calling_evolves: "calling s \<Longrightarrow> evolves s s"
  by (simp add: calling_def evolves_refl)

lemma caller_bound: "calling s \<Longrightarrow> evolves s t \<Longrightarrow> sched_cur_proc t < n_procs (shape_of s)"
  by (simp add: calling_def cur_proc_bound evolves_cur)

lemma typed_port_pieces:
  assumes "calling s" "evolves s t" "q < n_ports (shape_of s)"
  shows "typed_call s (send_port_block clk q a l to w t)" "typed_call s (recv_port_block clk q to a l w t)"
    "typed_call s (send_port_finish clk q a l t)" "typed_call s (recv_port_finish clk q a l t)"
  using assms caller_bound [OF assms(1,2)] evolves_transfer [OF assms(2)]
  unfolding send_port_block_def recv_port_block_def send_port_finish_def recv_port_finish_def Let_def
  by (auto intro!: typed_intros evolves_block_wait evolves_add_waiting evolves_rest) (blast intro: evolves_port_wake)+

lemma typed_buf_pieces:
  assumes "calling s" "evolves s t" "b < n_bufs (shape_of s)"
  shows "typed_call s (send_buf_block clk b a l to w t)" "typed_call s (recv_buf_block clk b to a l w t)"
    "typed_call s (send_buf_finish clk b a l t)" "typed_call s (recv_buf_finish clk b a l t)"
  using assms caller_bound [OF assms(1,2)] evolves_transfer [OF assms(2)]
  unfolding send_buf_block_def recv_buf_block_def send_buf_finish_def recv_buf_finish_def Let_def
  by (auto intro!: typed_intros evolves_block_wait evolves_add_waiting evolves_rest typed_buf_wake)

lemma typed_bb_pieces:
  assumes "calling s" "evolves s t" "b < n_bbs (shape_of s)"
  shows "typed_call s (read_bb_block clk b to a l w t)" "typed_call s (read_bb_finish b a l t)"
  using assms caller_bound [OF assms(1,2)] evolves_transfer [OF assms(2)]
  unfolding read_bb_block_def read_bb_finish_def Let_def
  by (auto intro!: typed_intros evolves_block_wait evolves_add_waiting evolves_rest)

lemma typed_message_calls:
  assumes "calling s"
  shows "typed_call s (do_send_queuing_message clk i a l to s)" "typed_call s (do_receive_queuing_message clk i to a l s)"
    "typed_call s (do_send_buffer clk i a l to s)" "typed_call s (do_receive_buffer clk i to a l s)"
    "typed_call s (do_read_blackboard clk i to a l s)"
  unfolding do_send_queuing_message_def do_receive_queuing_message_def do_send_buffer_def do_receive_buffer_def do_read_blackboard_def
  using calling_evolves [OF assms] own_bound [of s] assms
  by (auto simp: calling_def split: option.split
      intro!: typed_ends typed_port_pieces [OF assms] typed_buf_pieces [OF assms] typed_bb_pieces [OF assms] evolves_rest)

lemma typed_clear_calls:
  assumes "calling s"
  shows "typed_call s (do_clear_queuing_port clk i s)" "typed_call s (do_display_blackboard clk i a l s)" "typed_call s (do_clear_blackboard i s)"
  unfolding do_clear_queuing_port_def do_display_blackboard_def do_clear_blackboard_def blackboard_clear_def
  using calling_evolves [OF assms]
  by (auto split: option.split if_splits intro!: typed_intros evolves_upd_comm
      intro: evolves_port_wake evolves_transfer(5) evolves_bb_wake_all [OF evolves_transfer(5)])

lemma typed_create:
  assumes "calling s"
  shows "typed_call s (do_create_process at i s)" "typed_call s (do_create_buffer n sz nb disc i s)"
    "typed_call s (do_create_blackboard n sz i s)" "typed_call s (do_create_queuing_port n sz nb dir disc i s)"
proof -
  note E = calling_evolves [OF assms] and K = assms [unfolded calling_def, THEN conjunct1]
  have *: "typed_call s (case r of (s1, OK p) \<Rightarrow> (store64 i (v s1 p) s1, Done NO_ERROR)
      | (s1, ERR e) \<Rightarrow> (s1, Done INVALID_CONFIG) | (s1, PANIC) \<Rightarrow> (s1, Fatal))"
    if "evolves s (fst r)" for v and r :: "kst \<times> nat result"
    using that by (cases r; cases "snd r") (auto intro!: typed_ends evolves_rest)
  show "typed_call s (do_create_process at i s)" "typed_call s (do_create_buffer n sz nb disc i s)"
    "typed_call s (do_create_blackboard n sz i s)" "typed_call s (do_create_queuing_port n sz nb dir disc i s)"
    unfolding do_create_process_def do_create_buffer_def do_create_blackboard_def do_create_queuing_port_def Let_def
    by (intro typed_with_name K; auto intro!: typed_ends E * evolves_proc_alloc evolves_buffer_alloc evolves_blackboard_alloc evolves_queuing_port_alloc)+
qed

text \<open>Calls that only report to the caller.\<close>

lemma typed_queries:
  assumes "calling s"
  shows "typed_call s (do_get_partition_status a s)" "typed_call s (do_get_process_id n a s)" "typed_call s (do_get_my_id a s)"
    "typed_call s (do_get_my_index a s)" "typed_call s (do_get_time clk a s)" "typed_call s (do_get_queuing_port_id n a s)"
    "typed_call s (do_get_queuing_port_status i a s)" "typed_call s (do_get_buffer_id n a s)" "typed_call s (do_get_buffer_status i a s)"
    "typed_call s (do_get_blackboard_id n a s)" "typed_call s (do_get_blackboard_status i a s)"
  unfolding do_get_partition_status_def do_get_process_id_def do_get_my_id_def do_get_my_index_def do_get_time_def
    do_get_queuing_port_id_def do_get_queuing_port_status_def do_get_buffer_id_def do_get_buffer_status_def
    do_get_blackboard_id_def do_get_blackboard_status_def Let_def
  using calling_evolves [OF assms] assms [unfolded calling_def]
  by (auto split: option.split intro!: typed_ends typed_with_name evolves_rest)

lemma typed_process_status:
  assumes "calling s"
  shows "typed_call s (do_get_process_status i a s)"
  unfolding do_get_process_status_def Let_def
  by (simp split: option.split) (intro allI impI conjI typed_ends evolves_rest calling_evolves [OF assms])

text \<open>Calls that change the state of processes.\<close>

lemma evolves_ready_previous_started: "evolves s t \<Longrightarrow> evolves s (ready_previous_started ps t)"
  unfolding ready_previous_started_def by (induction ps arbitrary: t) (simp_all add: evolves_set_state)

lemma typed_set_mode:
  assumes "calling s"
  shows "typed_call s (do_set_partition_mode m s)"
  unfolding do_set_partition_mode_def Let_def
  by (auto intro!: typed_intros evolves_set_state evolves_ready_previous_started evolves_upd_part calling_evolves [OF assms])

lemma typed_process_calls:
  assumes "calling s"
  shows "typed_call s (do_set_priority i v s)" "typed_call s (do_suspend_self clk to s)" "typed_call s (do_suspend i s)"
    "typed_call s (do_stop_self s)" "typed_call s (do_timed_wait clk to s)"
  using caller_bound [OF assms calling_evolves [OF assms]] calling_evolves [OF assms]
  unfolding do_set_priority_def do_suspend_self_def do_suspend_def do_stop_self_def do_timed_wait_def Let_def
  by (auto simp: set_state_def set_reason_def split: option.split intro!: typed_intros evolves_time_event_alloc
      evolves_upd_proc_same evolves_set_state [unfolded set_state_def set_reason_def])

lemma typed_resume_stop:
  assumes "calling s"
  shows "typed_call s (do_resume clk i s)" "typed_call s (do_stop clk i s)"
  using calling_evolves [OF assms]
  unfolding do_resume_def do_stop_def Let_def
  by (auto split: option.split if_splits intro!: typed_intros evolves_set_state intro: evolves_time_event_free evolves_time_event_free [OF evolves_set_state(1)])

lemma typed_delayed_start:
  assumes "calling s"
  shows "typed_call s (do_delayed_start clk i d s)"
proof (cases "own_proc s i")
  case (Some p)
  let ?s1 = "upd_proc p (\<lambda>x. x\<lparr>pr_cur_pri := pr_base_pri x\<rparr>) s"
  note E = calling_evolves [OF assms]
  have p: "p < n_procs (shape_of s)" using own_bound(1) [OF evolves_kinv [OF E] Some] .
  have s1: "evolves s ?s1" "p < length (k_procs ?s1)" using p by (auto intro!: evolves_upd_proc_same E simp: shape_of_def)
  have te: "te_typed (shape_of u) (TE_PROCESS_DELAYED_START p)" if "evolves s u" for u using evolves_bound(1) [OF that p] by simp
  show ?thesis
    unfolding do_delayed_start_def Some option.case Let_def
    by (auto intro!: typed_intros evolves_upd_proc_same evolves_set_state evolves_time_event_alloc te E s1 intro: evolves_proc_reset [OF s1])
qed (simp add: do_delayed_start_def typed_ends calling_evolves [OF assms])

lemmas typed_handlers = typed_message_calls typed_clear_calls typed_create typed_queries typed_process_status typed_set_mode
  typed_process_calls typed_resume_stop typed_delayed_start

lemma typed_syscall:
  assumes "calling s"
  shows "typed_call s (syscall_switch clk sysno a s)"
proof -
  have ends: "typed_call s (s, Done rc)" "typed_call s (s, Console op)" "typed_call s (s, Halt)" for rc op
    by (intro typed_ends calling_evolves [OF assms])+
  have if_typed: "typed_call s x \<Longrightarrow> typed_call s y \<Longrightarrow> typed_call s (if c then x else y)" for c x y by simp
  show ?thesis
    unfolding syscall_switch_def unimplemented_defs console_defs do_start_def by (intro if_typed typed_handlers [OF assms] ends)
qed

lemma typed_resume:
  assumes "calling s" "cont_typed (shape_of s) k"
  shows "typed_call s (resume_call clk k s)"
  using assms(2) calling_evolves [OF assms(1)]
  unfolding resume_call_def send_port_resume_def recv_port_resume_def send_buf_resume_def recv_buf_resume_def read_bb_resume_def
  by (cases k) (auto intro!: typed_ends typed_port_pieces [OF assms(1)] typed_buf_pieces [OF assms(1)] typed_bb_pieces [OF assms(1)] evolves_rest)

section \<open>Traps\<close>

lemma evolves_calling: "calling s \<Longrightarrow> evolves s t \<Longrightarrow> calling t"
  by (simp add: calling_def evolves_def)

lemma evolves_prepare:
  assumes "calling s" "prepare_nested_trap s = OK t"
  shows "evolves s t"
proof -
  note E = calling_evolves [OF assms(1)]
  let ?s1 = "upd_proc (sched_cur_proc s) (\<lambda>p. p\<lparr>pr_ctx_list := k_cpu_context s # pr_ctx_list p\<rparr>) s"
  obtain s2 r where a: "ctx_alloc ?s1 = (s2, r)" by fastforce
  obtain c where c: "r = OK c" "t = upd_ctx c (\<lambda>x. x\<lparr>ctx_hartid := SYSCORE\<rparr>) (s2\<lparr>k_cpu_context := c\<rparr>)"
    using assms(2) a by (cases r) (auto simp: prepare_nested_trap_def Let_def)
  have "evolves s ?s1" by (intro evolves_push_ctx E) (use kinv_cur(3) [OF evolves_kinv [OF E]] in \<open>simp add: shape_of_def\<close>)
  note s2 = evolves_ctx_alloc [OF this a [unfolded c(1)]]
  show ?thesis unfolding c(2) by (intro evolves_rest evolves_ctx s2)
qed

lemma evolves_leave_trap:
  assumes "evolves s t" "c < n_ctxs (shape_of t)"
  shows "evolves s (leave_trap c t)"
proof -
  note K = evolves_kinv [OF assms(1)]
  have "evolves s (ctx_free (k_cpu_context t) t)" unfolding ctx_free_def
    using kinv_free_list [OF K] kinv_cur(3) [OF K] by (intro evolves_ctx assms(1)) (simp add: shape_of_def)
  moreover have "shape_of (ctx_free (k_cpu_context t) t) = shape_of t" by (simp add: ctx_free_def)
  ultimately show ?thesis unfolding leave_trap_def Let_def using assms(2) refs_remove1
    by (intro evolves_ctx evolves_upd_proc) (simp_all add: proc_typed_def)
qed

lemma evolves_te_fire:
  assumes "evolves s t" "te_fire ty t = (u, a, b)"
  shows "evolves s u"
proof -
  have "evolves s (expire_proc p t)" for p unfolding expire_proc_def by (rule evolves_upd_proc [OF assms(1)]) (simp_all add: proc_typed_def)
  then show ?thesis using assms by (cases ty) (auto simp: Let_def intro!: evolves_del_waiting)
qed

lemma evolves_te_loop:
  assumes "evolves s t" "te_loop n clk (t, a, b) = (u, a', b')"
  shows "evolves s u"
  using assms
proof (induction n arbitrary: clk t a b)
  case (Suc n)
  then show ?case
    by (auto split: list.splits if_splits prod.splits intro: Suc.IH evolves_queue evolves_te_fire)
qed simp

lemma evolves_part_pt_alloc:
  assumes "evolves s t" "part_pt_alloc pa va perm t = (u, OK x)"
  shows "evolves s u"
  using assms(2) unfolding part_pt_alloc_def Let_def
  by (auto split: if_splits prod.splits result.splits intro!: evolves_rest evolves_upd_part assms(1))

lemma evolves_pagefault:
  assumes "evolves s t" "do_pagefault n c t = OK u"
  shows "evolves s u"
  using assms
proof (induction n arbitrary: t)
  case (Suc n)
  obtain m r where l: "pt_lookup (k_mm t) (pa_pgdir (sched_cur_part t)) (ctx_stval (k_contexts t ! c)) = (m, r)" by fastforce
  show ?case
  proof (cases r)
    case (OK o1)
    show ?thesis
    proof (cases o1)
      case None
      then obtain s1 x where "part_pt_alloc (the (k_cur_part t)) (ctx_stval (k_contexts t ! c)) PERM_RW (t\<lparr>k_mm := m\<rparr>) = (s1, OK x)"
        "do_pagefault n c s1 = OK u"
        using Suc.prems(2) l OK by (auto simp: Let_def split: if_splits prod.splits result.splits)
      then show ?thesis using Suc.IH evolves_part_pt_alloc [OF evolves_rest(5) [OF Suc.prems(1)]] by blast
    next
      case (Some pte)
      then show ?thesis using Suc.prems(2) l OK by (simp add: Let_def) (erule subst, rule evolves_rest(5) [OF Suc.prems(1)])
    qed
  qed (use Suc.prems(2) l in \<open>simp_all add: Let_def\<close>)
qed simp

lemma typed_do_syscall:
  assumes "calling s"
  shows "typed_call s (do_syscall clk c s)"
proof -
  let ?s1 = "upd_ctx c (\<lambda>x. x\<lparr>ctx_sepc := ctx_sepc x + 4\<rparr>) s" and ?x = "\<lambda>t. k_contexts t ! c"
  have s1: "evolves s ?s1" by (intro evolves_rest calling_evolves [OF assms])
  have "typed_call ?s1 (syscall_switch clk (reg_a (?x ?s1) 7) (reg_a (?x ?s1)) ?s1)" (is "typed_call _ ?r")
    by (rule typed_syscall [OF evolves_calling [OF assms s1]])
  then have "evolves s (fst ?r)" "\<forall>rr k. snd ?r = Yield rr k \<longrightarrow> cont_typed (shape_of s) k"
    using evolves_trans [OF s1] by (auto simp: typed_call_def)
  then show ?thesis unfolding do_syscall_def Let_def syscall_return_def
    by (cases ?r; cases "snd ?r") (auto simp: typed_call_def intro: evolves_rest)
qed

section \<open>The scheduler\<close>

text \<open>Here the partition and the process on the hart change.\<close>

definition moves :: "kst \<Rightarrow> kst \<Rightarrow> bool" where
  "moves s t \<longleftrightarrow> kinv t \<and> grows (shape_of s) (shape_of t) \<and> k_cur_part t \<noteq> None"

lemma evolves_moves: "evolves s t \<Longrightarrow> k_cur_part s \<noteq> None \<Longrightarrow> moves s t"
  by (simp add: evolves_def moves_def)

lemma moves_trans: "moves s t \<Longrightarrow> moves t u \<Longrightarrow> moves s u"
  by (auto simp: moves_def intro: grows_trans)

lemma moves_part:
  assumes "kinv s" "pa < n_parts (shape_of s)"
  shows "moves s (s\<lparr>k_cur_part := Some pa\<rparr>)"
  using assms by (simp add: moves_def kinv_def kst_typed_def objects_typed_def tables_typed_def shape_of_def te_ok_def te_times_def running_ok_def)

lemma kinv_modules:
  assumes "kinv s"
  shows "i < n_modules (shape_of s) \<Longrightarrow> evolves s (s\<lparr>k_cur_mod := Some i\<rparr>)"
    "sm_part m < n_parts (shape_of s) \<Longrightarrow> evolves s (s\<lparr>k_modules := (k_modules s)[i := m]\<rparr>)"
  using assms by (simp_all add: evolves_def kinv_def kst_typed_def objects_typed_def tables_typed_def shape_of_def te_ok_def
      te_times_def running_ok_def list_all_update)

lemma moves_next_part:
  assumes "kinv s" "sched_next_part now s = OK t"
  shows "moves s t"
proof (cases "k_modules s = []")
  case True
  then have "t = s\<lparr>k_cur_part := Some (hd (k_sched_parts s))\<rparr>" "hd (k_sched_parts s) < n_parts (shape_of s)"
    using assms by (cases "k_sched_parts s"; auto simp: sched_next_part_def kinv_def kst_typed_def tables_typed_def)+
  then show ?thesis using moves_part [OF assms(1)] by simp
next
  case False
  define i where "i = (case k_cur_mod s of None \<Rightarrow> 0 | Some i \<Rightarrow> if Suc i = length (k_modules s) then 0 else Suc i)"
  define m where "m = k_modules s ! i"
  define at where "at = swrap64 (sm_prev_act_time m + k_major_frame s)"
  define s1 where "s1 = time_event_alloc now at TE_PARTITION_ACTIVATE (s\<lparr>k_cur_mod := Some i\<rparr>)"
  have "oref (length (k_modules s)) (k_cur_mod s)" "list_all (\<lambda>m. sm_part m < n_parts (shape_of s)) (k_modules s)"
    using assms(1) by (simp_all add: kinv_def kst_typed_def tables_typed_def objects_typed_def shape_of_def)
  then have i: "i < n_modules (shape_of s)" and m: "sm_part m < n_parts (shape_of s)"
    using False by (auto simp: i_def m_def shape_of_def list_all_length split: option.splits)
  have s1: "evolves s s1" unfolding s1_def using kinv_modules(1) [OF assms(1) i] by (intro evolves_time_event_alloc) simp_all
  then have sh: "n_parts (shape_of s) \<le> n_parts (shape_of s1)" by (simp add: evolves_def grows_def)
  have mods: "k_modules s1 = k_modules s" by (simp add: s1_def time_event_alloc_def Let_def)
  have "evolves s1 (s1\<lparr>k_modules := (k_modules s1)[i := m\<lparr>sm_prev_act_time := at\<rparr>]\<rparr>)" (is "evolves _ ?s2")
    using m sh by (intro kinv_modules(2) [OF evolves_kinv [OF s1]]) simp
  then have s2: "evolves s ?s2" by (rule evolves_trans [OF s1])
  have "sm_part m < n_parts (shape_of ?s2)" using m sh by (simp add: shape_of_def)
  then have "moves ?s2 (?s2\<lparr>k_cur_part := Some (sm_part m)\<rparr>)" by (rule moves_part [OF evolves_kinv [OF s2]])
  moreover have "t = ?s2\<lparr>k_cur_part := Some (sm_part m)\<rparr>"
    using assms(2) False mods by (simp add: sched_next_part_def Let_def i_def [symmetric] m_def [symmetric] at_def [symmetric] s1_def [symmetric])
  ultimately show ?thesis using s2 by (auto simp: moves_def evolves_def intro: grows_trans)
qed

lemma evolves_demoted: "kinv s \<Longrightarrow> evolves s (demoted s)"
  unfolding demoted_def using evolves_set_state(1) [OF evolves_refl, of s READY] by (simp add: set_state_def evolves_refl split: option.split)

lemma moves_proc_run:
  assumes "kinv s" "k_cur_part s \<noteq> None" "p < length (k_procs s)" "proc_run past p s = OK (t, satp)"
  shows "evolves s t"
proof -
  note K = assms(1)
  obtain c cs where c: "pr_ctx_list (k_procs s ! p) = c # cs" using assms(4) by (cases "pr_ctx_list (k_procs s ! p)") (simp_all add: proc_run_def)
  define s1 where "s1 = ctx_free (k_cpu_context s) s"
  have "refs (n_ctxs (shape_of s)) (c # cs)" using kinv_proc [OF K assms(3)] c by (simp add: proc_typed_def)
  moreover have s1: "evolves s s1" "shape_of s1 = shape_of s" unfolding s1_def ctx_free_def
    using kinv_free_list [OF K] kinv_cur(3) [OF K] by (auto intro!: evolves_ctx evolves_refl K) (simp add: shape_of_def)
  ultimately have "evolves s (upd_ctx c (\<lambda>x. x\<lparr>ctx_hartid := SYSCORE\<rparr>) (upd_proc p (\<lambda>x. x\<lparr>pr_ctx_list := cs\<rparr>) (s1\<lparr>k_cpu_context := c\<rparr>)))"
    by (intro evolves_rest evolves_upd_proc evolves_ctx) (simp_all add: proc_typed_def)
  then show ?thesis using assms(4) unfolding proc_run_def c list.case Let_def s1_def [symmetric]
    by (auto split: option.splits if_splits prod.splits intro!: evolves_rest evolves_upd_part)
qed

lemma kinv_dispatch:
  assumes "kinv s" "p < length (k_procs s)" "\<And>q. q < length (k_procs s) \<Longrightarrow> pr_state (k_procs s ! q) \<noteq> RUNNING"
  shows "kinv (upd_proc p (\<lambda>x. x\<lparr>pr_state := RUNNING\<rparr>) (s\<lparr>k_cur_proc := Some p\<rparr>))" (is "kinv ?t")
proof -
  have sh: "shape_of (s\<lparr>k_cur_proc := Some p\<rparr>) = shape_of s" by (simp add: shape_of_def)
  have "list_all (proc_typed (shape_of s)) (k_procs ?t)"
    using assms(1) by (auto simp: upd_proc_def kinv_def kst_typed_def objects_typed_def intro!: list_all_update) (simp add: proc_typed_def)
  then have "kst_typed ?t"
    using assms(1,2) unfolding kinv_def kst_typed_def objects_typed_def tables_typed_def shape_upd sh by (simp add: upd_proc_def shape_of_def)
  moreover have "te_ok ?t" using assms(1) by (simp add: kinv_def te_ok_def te_times_def)
  moreover have "running_ok ?t" using assms(3) by (auto simp: running_ok_def nth_upd_proc)
  ultimately show ?thesis by (simp add: kinv_def)
qed

lemma moves_sched_proc:
  assumes "kinv s" "k_cur_part s \<noteq> None" "sched_proc past rr s = OK (t, r)"
  shows "moves s t" "r \<noteq> None \<Longrightarrow> k_cur_proc t \<noteq> None" "k_cur_proc s \<noteq> None \<Longrightarrow> k_cur_proc t \<noteq> None"
proof -
  have d: "evolves s (demoted s)" by (rule evolves_demoted [OF assms(1)])
  have "moves s t \<and> (r \<noteq> None \<longrightarrow> k_cur_proc t \<noteq> None) \<and> (k_cur_proc s \<noteq> None \<longrightarrow> k_cur_proc t \<noteq> None)"
  proof (cases "sched_elect_next_proc rr (demoted s)")
    case None
    then show ?thesis using assms(2,3) d evolves_moves by (auto simp: sched_proc_unfold)
  next
    case (Some p)
    let ?u = "upd_proc p (\<lambda>x. x\<lparr>pr_state := RUNNING\<rparr>) ((demoted s)\<lparr>k_cur_proc := Some p\<rparr>)"
    have "the (k_cur_part s) < length (k_parts s)" using kinv_cur(2) [OF assms(1)] assms(2) by auto
    then have "refs (n_procs (shape_of s)) (pa_proc_list (sched_cur_part s))"
      using kinv_part [OF assms(1)] by (simp add: part_typed_def sched_cur_part_def)
    moreover have "sched_cur_part (demoted s) = sched_cur_part s" by (simp add: sched_cur_part_def)
    ultimately have p: "p < length (k_procs (demoted s))"
      using elect_in_list [OF Some] by (auto simp: refs_alt shape_of_def)
    have u: "kinv ?u" using assms(1) by (intro kinv_dispatch evolves_kinv [OF d] p demoted_none_running) (simp_all add: kinv_def)
    obtain satp where run: "proc_run past p ?u = OK (t, satp)" using assms(3) Some by (auto simp: sched_proc_unfold split: result.splits)
    have "evolves ?u t" by (rule moves_proc_run [OF u _ _ run]) (use assms(2) p in simp_all)
    moreover have "shape_of ?u = shape_of (demoted s)" by (simp add: shape_of_def upd_proc_def)
    ultimately have "kinv t" "grows (shape_of (demoted s)) (shape_of t)" "k_cur_part t = k_cur_part s" "k_cur_proc t = Some p"
      by (simp_all add: evolves_def)
    then show ?thesis using d assms(2) by (auto simp: moves_def evolves_def intro: grows_trans)
  qed
  then show "moves s t" "r \<noteq> None \<Longrightarrow> k_cur_proc t \<noteq> None" "k_cur_proc s \<noteq> None \<Longrightarrow> k_cur_proc t \<noteq> None" by auto
qed

lemma next_part_proc: "sched_next_part now s = OK t \<Longrightarrow> k_cur_proc t = k_cur_proc s"
  by (auto simp: sched_next_part_def Let_def time_event_alloc_def split: if_splits)

lemma moves_sched_global:
  assumes "kinv s" "sched_global past now s = OK (t, r)"
  shows "moves s t" "r \<noteq> None \<Longrightarrow> k_cur_proc t \<noteq> None" "k_cur_proc s \<noteq> None \<Longrightarrow> k_cur_proc t \<noteq> None"
proof -
  obtain u where u: "sched_next_part now s = OK u" "sched_proc past False u = OK (t, r)"
    using assms(2) by (auto simp: sched_global_def panic_e_eq_OK)
  have "moves s u" by (rule moves_next_part [OF assms(1) u(1)])
  then have U: "kinv u" "k_cur_part u \<noteq> None" "moves s u" by (simp_all add: moves_def)
  show "moves s t" using moves_trans [OF U(3)] moves_sched_proc(1) [OF U(1,2) u(2)] .
  show "r \<noteq> None \<Longrightarrow> k_cur_proc t \<noteq> None" "k_cur_proc s \<noteq> None \<Longrightarrow> k_cur_proc t \<noteq> None"
    using moves_sched_proc(2,3) [OF U(1,2) u(2)] next_part_proc [OF u(1)] by simp_all
qed

lemma moves_give_up:
  assumes "calling s" "sched_proc_give_up past kctx rr s = OK (t, g)"
  shows "moves s t" "k_cur_proc t \<noteq> None"
proof -
  note E = calling_evolves [OF assms(1)] and C = assms(1) [unfolded calling_def]
  have "moves s t \<and> k_cur_proc t \<noteq> None"
  proof (cases "t = s")
    case True
    then show ?thesis using C by (simp add: moves_def)
  next
    case False
    obtain s1 c where a: "ctx_alloc s = (s1, OK c)"
      using assms(2) False by (auto simp: sched_proc_give_up_def Let_def split: option.splits if_splits prod.splits result.splits)
    note s1 = evolves_ctx_alloc [OF E a]
    let ?s2 = "upd_ctx c (\<lambda>_. kctx) (upd_proc (sched_cur_proc s) (\<lambda>x. x\<lparr>pr_ctx_list := c # pr_ctx_list x\<rparr>) s1)"
    have s2: "evolves s ?s2" by (intro evolves_rest evolves_push_ctx s1)
    obtain r where r: "sched_proc past rr ?s2 = OK (t, r)"
      using assms(2) False a by (auto simp: sched_proc_give_up_def Let_def split: option.splits if_splits prod.splits result.splits)
    have "kinv ?s2" "k_cur_part ?s2 \<noteq> None" "k_cur_proc ?s2 \<noteq> None" using s2 C unfolding evolves_def by auto
    note S = moves_sched_proc(1,3) [OF this(1,2) r]
    show ?thesis using moves_trans [OF evolves_moves [OF s2] S(1)] S(2) \<open>k_cur_proc ?s2 \<noteq> None\<close> C by blast
  qed
  then show "moves s t" "k_cur_proc t \<noteq> None" by simp_all
qed

section \<open>Handlers of traps\<close>

lemma moves_time_event_action:
  assumes "calling s" "time_event_action past clk s = OK (t, r)"
  shows "moves s t" "k_cur_proc t \<noteq> None" "r = None \<Longrightarrow> evolves s t"
proof -
  note C = assms(1) [unfolded calling_def]
  obtain s1 a b where l: "te_loop (length (k_te_queue s)) clk (s, False, False) = (s1, a, b)" by (metis prod_cases3)
  define s2 where "s2 = time_event_set_head (clk (Suc (length (k_te_queue s)))) s1"
  have s2: "evolves s s2" unfolding s2_def by (intro evolves_set_head evolves_te_loop [OF calling_evolves [OF assms(1)] l])
  then have I: "kinv s2" "k_cur_part s2 \<noteq> None" "k_cur_proc s2 \<noteq> None" using C by (simp_all add: evolves_def)
  have act: "(if a then panic_e (sched_global past (clk (Suc (Suc (length (k_te_queue s))))) s2) (\<lambda>(s3, r). OK (s3, Some r))
         else if b then panic_e (sched_proc past False s2) (\<lambda>(s3, r). OK (s3, Some r)) else OK (s2, None)) = OK (t, r)"
    using assms(2) unfolding time_event_action_def l Let_def prod.case s2_def .
  then show "r = None \<Longrightarrow> evolves s t" using s2 by (auto simp: panic_e_eq_OK split: if_splits)
  have "moves s2 t \<and> k_cur_proc t \<noteq> None"
    using act I moves_sched_global(1,3) [OF I(1)] moves_sched_proc(1,3) [OF I(1,2)]
    by (auto simp: panic_e_eq_OK moves_def split: if_splits; blast)
  then show "moves s t" "k_cur_proc t \<noteq> None" using moves_trans [OF evolves_moves [OF s2]] C by blast+
qed

lemma typed_handle_int_timer:
  assumes "calling s" "handle_int_timer past clk s = (t, e)"
  shows "moves s t" "k_cur_proc t \<noteq> None"
proof -
  note E = calling_evolves [OF assms(1)] and C = assms(1) [unfolded calling_def]
  have stay: "moves s u \<and> k_cur_proc u \<noteq> None" if "evolves s u" for u using that C evolves_moves [OF that] by (simp add: evolves_def)
  have "moves s t \<and> k_cur_proc t \<noteq> None"
  proof (cases "prepare_nested_trap s")
    case (OK s1)
    have s1: "evolves s s1" by (rule evolves_prepare [OF assms(1) OK])
    have c1: "calling s1" by (rule evolves_calling [OF assms(1) s1])
    show ?thesis
    proof (cases "time_event_action past clk s1")
      case (OK x)
      obtain s2 r where x: "x = (s2, r)" by fastforce
      note A = moves_time_event_action [OF c1, of past clk s2 r, unfolded OK x, OF refl]
      show ?thesis
      proof (cases r)
        case None
        then have s2: "evolves s s2" using A(3) evolves_trans [OF s1] by blast
        have "k_cpu_context s < n_ctxs (shape_of s2)"
          using kinv_cur(3) [OF evolves_kinv [OF E]] s2 by (simp add: evolves_def grows_def shape_of_def)
        then have "evolves s (leave_trap (k_cpu_context s) s2)" by (rule evolves_leave_trap [OF s2])
        moreover have "t = leave_trap (k_cpu_context s) s2"
          using assms(2) \<open>prepare_nested_trap s = OK s1\<close> OK x None by (simp add: handle_int_timer_def Let_def do_timer_int_def)
        ultimately show ?thesis using stay by simp
      next
        case (Some y)
        then have "t = s2" using assms(2) \<open>prepare_nested_trap s = OK s1\<close> OK x by (simp add: handle_int_timer_def Let_def do_timer_int_def)
        then show ?thesis using A(1,2) moves_trans [OF evolves_moves [OF s1]] C by blast
      qed
    qed (use assms(2) OK stay s1 in \<open>simp_all add: handle_int_timer_def Let_def do_timer_int_def\<close>)
  qed (use assms(2) stay E in \<open>simp_all add: handle_int_timer_def Let_def\<close>)
  then show "moves s t" "k_cur_proc t \<noteq> None" by simp_all
qed

lemma typed_handle_exception:
  assumes "calling s" "handle_exception clk s = (t, e)"
  shows "evolves s t" "e = Trap_Yield rr k \<Longrightarrow> cont_typed (shape_of s) k"
proof -
  note E = calling_evolves [OF assms(1)]
  let ?c = "k_cpu_context s"
  have leave: "evolves s (leave_trap ?c u)" if "evolves s u" for u
    using kinv_cur(3) [OF evolves_kinv [OF E]] that by (intro evolves_leave_trap that) (simp add: evolves_def grows_def shape_of_def)
  have "evolves s t \<and> (\<forall>rr k. e = Trap_Yield rr k \<longrightarrow> cont_typed (shape_of s) k)"
  proof (cases "prepare_nested_trap s")
    case (OK s1)
    have s1: "evolves s s1" by (rule evolves_prepare [OF assms(1) OK])
    have "typed_call s1 (do_syscall clk ?c s1)" by (rule typed_do_syscall [OF evolves_calling [OF assms(1) s1]])
    moreover have "shape_of s1 = shape_of s"
      using OK by (auto simp: prepare_nested_trap_def Let_def ctx_alloc_def split: list.splits prod.splits)
    ultimately have call: "evolves s (fst (do_syscall clk ?c s1))"
      "snd (do_syscall clk ?c s1) = Yield rr k \<Longrightarrow> cont_typed (shape_of s) k" for rr k
      using evolves_trans [OF s1] by (auto simp: typed_call_def)
    obtain u o1 where r: "do_syscall clk ?c s1 = (u, o1)" by fastforce
    show ?thesis
      using assms(2) OK r call s1 leave evolves_pagefault [OF s1, of 2 ?c]
      unfolding handle_exception_def Let_def
      by (auto split: if_splits result.splits outcome.splits)
  qed (use assms(2) E in \<open>simp_all add: handle_exception_def Let_def\<close>)
  then show "evolves s t" "e = Trap_Yield rr k \<Longrightarrow> cont_typed (shape_of s) k" by simp_all
qed

section \<open>Runs of the kernel\<close>

text \<open>
  A state with the calls that processes have under way: the context the call returns to and where it goes
  on. One step is one handler, one piece of a call, or one pass of the scheduler. The relation lets any
  suspended call go on at any time and keeps calls that are over, so that every run of the kernel is one
  of its runs; traps are taken once a process has the hart.
\<close>

type_synonym calls = "(nat \<times> cont) list"

definition on_hart :: "kst \<Rightarrow> bool" where
  "on_hart s \<longleftrightarrow> k_cur_part s \<noteq> None \<and> k_cur_proc s \<noteq> None"

text \<open>The end of a call that was suspended: the result goes to register \<open>a0\<close> and the trap is left.\<close>

definition end_call :: "nat \<Rightarrow> ret_code \<Rightarrow> kst \<Rightarrow> kst" where
  "end_call c rc s = leave_trap c (fst (syscall_return c (s, Done rc)))"

inductive kernel_step :: "kst \<times> calls \<Rightarrow> kst \<times> calls \<Rightarrow> bool" where
  Start: "sched_global past now s = OK (t, r) \<Longrightarrow> kernel_step (s, K) (t, K)"
| Elect: "k_cur_part s \<noteq> None \<Longrightarrow> sched_proc past rr s = OK (t, r) \<Longrightarrow> kernel_step (s, K) (t, K)"
| Timer: "on_hart s \<Longrightarrow> handle_int_timer past clk s = (t, e) \<Longrightarrow> kernel_step (s, K) (t, K)"
| Exception: "on_hart s \<Longrightarrow> handle_exception clk s = (t, Trap_Ret) \<Longrightarrow> kernel_step (s, K) (t, K)"
| Console: "on_hart s \<Longrightarrow> handle_exception clk s = (t, Trap_Console op)
     \<Longrightarrow> kernel_step (s, K) (end_call (k_cpu_context s) rc t, K)"
| Call: "on_hart s \<Longrightarrow> handle_exception clk s = (t, Trap_Yield rr k) \<Longrightarrow> kernel_step (s, K) (t, (k_cpu_context s, k) # K)"
| Give_Up: "on_hart s \<Longrightarrow> sched_proc_give_up past kctx rr s = OK (t, g) \<Longrightarrow> kernel_step (s, K) (t, K)"
| Again: "on_hart s \<Longrightarrow> (c, k) \<in> set K \<Longrightarrow> resume_call clk k s = (t, Yield rr k') \<Longrightarrow> kernel_step (s, K) (t, (c, k') # K)"
| Return: "on_hart s \<Longrightarrow> (c, k) \<in> set K \<Longrightarrow> resume_call clk k s = (t, Done rc) \<Longrightarrow> kernel_step (s, K) (end_call c rc t, K)"

definition calls_typed :: "shape \<Rightarrow> calls \<Rightarrow> bool" where
  "calls_typed sh K \<longleftrightarrow> (\<forall>(c, k) \<in> set K. c < n_ctxs sh \<and> cont_typed sh k)"

definition run_ok :: "kst \<times> calls \<Rightarrow> bool" where
  "run_ok x \<longleftrightarrow> kinv (fst x) \<and> calls_typed (shape_of (fst x)) (snd x)"

lemma calls_typed_mono: "calls_typed a K \<Longrightarrow> grows a b \<Longrightarrow> calls_typed b K"
  using typed_mono(4) by (fastforce simp: calls_typed_def grows_def)

lemma run_ok_moves: "run_ok (s, K) \<Longrightarrow> moves s t \<Longrightarrow> run_ok (t, K)"
  by (auto simp: run_ok_def moves_def intro: calls_typed_mono)

lemma run_ok_evolves: "run_ok (s, K) \<Longrightarrow> evolves s t \<Longrightarrow> run_ok (t, K)"
  by (auto simp: run_ok_def evolves_def intro: calls_typed_mono)

lemma run_ok_push:
  assumes "run_ok (s, K)" "evolves s t" "c < n_ctxs (shape_of s)" "cont_typed (shape_of s) k"
  shows "run_ok (t, (c, k) # K)"
proof -
  have "run_ok (s, (c, k) # K)" using assms by (simp add: run_ok_def calls_typed_def)
  then show ?thesis by (rule run_ok_evolves [OF _ assms(2)])
qed

lemma evolves_end_call:
  assumes "evolves s t" "c < n_ctxs (shape_of s)"
  shows "evolves s (end_call c rc t)"
proof -
  have "c < n_ctxs (shape_of (upd_ctx c (set_reg_a 0 (ret_value rc)) t))" using assms by (simp add: evolves_def grows_def)
  then show ?thesis unfolding end_call_def syscall_return_def by (simp add: evolves_leave_trap evolves_rest assms(1))
qed

lemma kernel_step_ok:
  assumes "kernel_step x y" "run_ok x"
  shows "run_ok y"
  using assms
proof (induction rule: kernel_step.induct)
  case (Start past now s t r K)
  then show ?case using run_ok_moves [OF Start.prems] moves_sched_global(1) [OF _ Start.hyps] by (simp add: run_ok_def)
next
  case (Elect s past rr t r K)
  then show ?case using run_ok_moves [OF Elect.prems] moves_sched_proc(1) [OF _ Elect.hyps] by (simp add: run_ok_def)
next
  case (Timer s past clk t e K)
  then show ?case using run_ok_moves [OF Timer.prems] typed_handle_int_timer(1) [OF _ Timer.hyps(2)] by (simp add: run_ok_def on_hart_def calling_def)
next
  case (Exception s clk t K)
  then show ?case using run_ok_evolves [OF Exception.prems] typed_handle_exception(1) [OF _ Exception.hyps(2)]
    by (simp add: run_ok_def on_hart_def calling_def)
next
  case (Console s clk t op K rc)
  then have "evolves s t" "k_cpu_context s < n_ctxs (shape_of s)"
    using typed_handle_exception(1) [OF _ Console.hyps(2)] kinv_cur(3) [of s]
    by (simp_all add: run_ok_def on_hart_def calling_def shape_of_def)
  then show ?case using run_ok_evolves [OF Console.prems] evolves_end_call by blast
next
  case (Call s clk t rr k K)
  then have "evolves s t" "k_cpu_context s < n_ctxs (shape_of s)" "cont_typed (shape_of s) k"
    using typed_handle_exception(1) [OF _ Call.hyps(2)] typed_handle_exception(2) [OF _ Call.hyps(2) refl] kinv_cur(3) [of s]
    by (simp_all add: run_ok_def on_hart_def calling_def shape_of_def)
  then show ?case using run_ok_push [OF Call.prems] by blast
next
  case (Give_Up s past kctx rr t g K)
  then show ?case using run_ok_moves [OF Give_Up.prems] moves_give_up(1) [OF _ Give_Up.hyps(2)] by (simp add: run_ok_def on_hart_def calling_def)
next
  case (Again s c k K clk t rr k')
  then have "c < n_ctxs (shape_of s)" "typed_call s (t, Yield rr k')"
    using typed_resume [of s k clk] by (fastforce simp: run_ok_def on_hart_def calling_def calls_typed_def)+
  then show ?case using run_ok_push [OF Again.prems] by (simp add: typed_call_def)
next
  case (Return s c k K clk t rc)
  then have "c < n_ctxs (shape_of s)" "typed_call s (t, Done rc)"
    using typed_resume [of s k clk] by (fastforce simp: run_ok_def on_hart_def calling_def calls_typed_def)+
  then show ?case using run_ok_evolves [OF Return.prems] evolves_end_call by (simp add: typed_call_def)
qed

lemma kernel_run_ok: "kernel_step\<^sup>*\<^sup>* x y \<Longrightarrow> run_ok x \<Longrightarrow> run_ok y"
  by (induction rule: rtranclp_induct) (blast intro: kernel_step_ok)+

text \<open>
  C5 (type). However traps, system calls, suspended calls that go on and passes of the scheduler follow one
  another, the kernel's data stays well-typed: every reference that a process, partition, buffer, blackboard,
  channel, port, time event, scheduling window, table or suspended call keeps names an object that exists and is
  of the right kind (so none of the lookups of the code goes astray), the queue of time events stays sorted by
  time and without repetition, and no process but the one on the hart is marked as running.
\<close>

theorem kernel_types_preserved:
  assumes "kernel_step\<^sup>*\<^sup>* (s, []) (t, K)" "kst_typed s" "te_ok s" "running_ok s"
  shows "kst_typed t \<and> te_ok t \<and> running_ok t \<and> (\<forall>(c, k) \<in> set K. c < length (k_contexts t) \<and> cont_typed (shape_of t) k)"
proof -
  have "run_ok (s, [])" using assms(2-4) by (simp add: run_ok_def kinv_def calls_typed_def)
  then have "run_ok (t, K)" by (rule kernel_run_ok [OF assms(1)])
  moreover have "n_ctxs (shape_of t) = length (k_contexts t)" by (simp add: shape_of_def)
  ultimately show ?thesis unfolding run_ok_def kinv_def calls_typed_def by simp
qed

text \<open>The process on the hart traps with \<open>SYS_STOP_SELF\<close>.\<close>

definition kst_call :: kst where
  "kst_call = kst_two\<lparr>k_contexts := replicate 8 (zero_context\<lparr>ctx_scause := 8, ctx_regs := (replicate 32 0)[17 := 0x2007]\<rparr>)\<rparr>"

lemma kst_call_ok: "kst_typed kst_call" "te_ok kst_call" "running_ok kst_call"
proof -
  have t: "table_refs (Suc (Suc 0)) (part_id_map kst_call)" "table_refs 1 (buf_id_map kst_call)"
    unfolding kst_call_def kst_two_def kst_sched_def by (simp_all add: table_refs_put)
  then show "kst_typed kst_call"
    by (simp add: kst_typed_def objects_typed_def tables_typed_def shape_of_def)
      (simp add: kst_call_def kst_two_def example_defs proc_typed_def part_typed_def)
  show "te_ok kst_call" "running_ok kst_call"
    by (simp_all add: te_ok_def te_times_def running_ok_def kst_call_def kst_two_def example_defs All_less_Suc2 numeral_eq_Suc nth_Cons')
qed

theorem kernel_types_preserved_witness:
  "\<exists>t. kernel_step\<^sup>*\<^sup>* (kst_call, []) (t, [(0, K_Ret NO_ERROR)]) \<and> kst_typed t \<and> te_ok t \<and> running_ok t
     \<and> pr_state (k_procs t ! 0) = DORMANT"
proof -
  define t where "t = fst (handle_exception (\<lambda>_. 0) kst_call)"
  have h: "handle_exception (\<lambda>_. 0) kst_call = (t, Trap_Yield False (K_Ret NO_ERROR))" "pr_state (k_procs t ! 0) = DORMANT"
    unfolding t_def
    by (simp_all add: handle_exception_def Let_def prepare_nested_trap_def kst_call_def kst_two_def example_defs ctx_alloc_def sched_cur_proc_def
        upd_proc_def upd_ctx_def zero_context_def CAUSE_EXC_U_ECALL_def CAUSE_EXC_IF_PAGE_FAULT_def CAUSE_EXC_LD_PAGE_FAULT_def
        CAUSE_EXC_ST_PAGE_FAULT_def do_syscall_def syscall_switch_def sysno_simps do_stop_self_def set_state_def syscall_return_def reg_a_def)
  have "kernel_step (kst_call, []) (t, [(k_cpu_context kst_call, K_Ret NO_ERROR)])"
    by (rule Call [OF _ h(1)]) (simp add: on_hart_def kst_call_def kst_two_def example_defs)
  moreover have "k_cpu_context kst_call = 0" by (simp add: kst_call_def kst_two_def example_defs)
  ultimately have "kernel_step\<^sup>*\<^sup>* (kst_call, []) (t, [(0, K_Ret NO_ERROR)])" by simp
  from kernel_types_preserved [OF this kst_call_ok] h(2) this show ?thesis by blast
qed

end
