(* ===== verification/Vmm_Boot.thy ===== *)
theory Vmm_Boot
  imports Loader
begin

text \<open>
  The kernel's own address space, set up at boot by \<open>vmm_setup_mmio\<close> and \<open>vmm_setup_kern\<close> of \<^verbatim>\<open>kern/mm/vmm.c\<close>
  (theory \<open>Vmm\<close> has the code): before the frame allocator exists, page tables come from \<open>palloc\<close> and no
  references are counted. The lemmas follow \<open>pt_map\<close> in that mode and the loops over pages, banks and devices.
\<close>

section \<open>Tables from the boot allocator\<close>

text \<open>The end of the memory in use.\<close>

definition fbase :: "mm \<Rightarrow> u64" where
  "fbase s = (if freemem_base s = 0 then kern_end s else freemem_base s)"

definition boot_ok :: "mm \<Rightarrow> u64 \<Rightarrow> bool" where
  "boot_ok s root \<longleftrightarrow> \<not> pt_phy s \<and> tree_ok (cells s) root \<and> (\<forall>p \<in> tables (cells s) root. unat p + 4096 \<le> unat (fbase s))"

text \<open>At most \<open>n\<close> tables were added.\<close>

definition boot_step :: "nat \<Rightarrow> mm \<Rightarrow> mm \<Rightarrow> u64 \<Rightarrow> bool" where
  "boot_step n s s' root \<longleftrightarrow> boot_ok s' root \<and> unat (fbase s) \<le> unat (fbase s') \<and> unat (fbase s') \<le> unat (fbase s) + 8192 * n \<and> mems s' = mems s"

lemma boot_step_refl: "boot_ok s root \<Longrightarrow> boot_step n s s root"
  by (simp add: boot_step_def)

lemma boot_step_trans: "boot_step n s s1 root \<Longrightarrow> boot_step k s1 s2 root \<Longrightarrow> boot_step (n + k) s s2 root"
  by (auto simp: boot_step_def algebra_simps)

lemma boot_step_mono: "boot_step n s s' root \<Longrightarrow> n \<le> k \<Longrightarrow> boot_step k s s' root"
  by (auto simp: boot_step_def)

lemma boot_alloc:
  assumes "boot_ok s root" "unat (fbase s) + 8192 \<le> 2 ^ 56"
  obtains p where "pt_frame_alloc s = (s\<lparr>freemem_base := p + 4096, cells := zero_page (cells s) p\<rparr>, OK p)"
    "page_ok p" "p \<notin> tables (cells s) root" "unat (fbase s) \<le> unat p" "unat (p + 4096) = unat p + 4096" "unat (p + 4096) \<le> unat (fbase s) + 8192"
proof -
  define p where "p = align_up (fbase s) PGSIZE_W"
  have u: "unat p = (unat (fbase s) + 4095) div 4096 * 4096"
    unfolding p_def using assms(2) by (subst unat_align_up) (simp_all add: layout_simps)
  moreover have "unat (fbase s) + 4095 = (unat (fbase s) + 4095) div 4096 * 4096 + (unat (fbase s) + 4095) mod 4096" by simp
  moreover have "(unat (fbase s) + 4095) mod 4096 < 4096" by simp
  ultimately have p: "unat (fbase s) \<le> unat p" "unat p < unat (fbase s) + 4096" "unat p mod 4096 = 0" by (linarith, linarith, simp)
  then have "unat p < 2 ^ 56" using assms(2) by simp
  then have ok: "page_ok p" using p(3) by (intro page_ok_iff)
  have plus: "unat (p + 4096) = unat p + 4096" using \<open>unat p < 2 ^ 56\<close> by (simp add: unat_word_ariths)
  have fresh: "p \<notin> tables (cells s) root" using assms(1) p(1) by (fastforce simp: boot_ok_def)
  have "pt_frame_alloc s = (s\<lparr>freemem_base := p + 4096, cells := zero_page (cells s) p\<rparr>, OK p)"
    using assms(1) by (simp add: pt_frame_alloc_def pt_boot_frame_alloc_def palloc_def Let_def boot_ok_def p_def fbase_def PGSIZE_W_def)
  then show ?thesis using that ok fresh p plus by simp
qed

text \<open>A table entered at a free entry, by \<open>enter_l1\<close> or \<open>enter_l0\<close>.\<close>

lemma boot_enter_table:
  assumes ok: "boot_ok s root" and p: "unat (fbase s) \<le> unat p" "unat (p + 4096) = unat p + 4096" "unat (p + 4096) \<le> unat (fbase s) + 8192"
    and t: "tree_ok m' root" "tables m' root = insert p (tables (cells s) root)"
  shows "boot_step 1 s (s\<lparr>freemem_base := p + 4096, cells := m'\<rparr>) root"
proof -
  have "p + 4096 \<noteq> 0" using p(2) by (metis add_is_0 unat_0 zero_neq_numeral)
  then have f: "fbase (s\<lparr>freemem_base := p + 4096, cells := m'\<rparr>) = p + 4096" by (simp add: fbase_def)
  show ?thesis unfolding boot_step_def boot_ok_def f using ok p t by (auto simp: boot_ok_def)
qed

definition boot_walked :: "nat \<Rightarrow> mm \<Rightarrow> mm \<Rightarrow> u64 \<Rightarrow> u64 \<Rightarrow> bool" where
  "boot_walked n s s' root va \<longleftrightarrow> boot_step n s s' root \<and> v0 (cells s') root (va_vpn 2 va) (va_vpn 1 va)
     \<and> (\<forall>a b x. x < 512 \<longrightarrow> leaf (cells s') root a b x = leaf (cells s) root a b x)"

lemma boot_walk_low:
  assumes ok: "boot_ok s root" and i: "v1 (cells s) root (va_vpn 2 va)" and room: "unat (fbase s) + 8192 \<le> 2 ^ 56"
  shows "\<exists>s'. pt_walk_low s (root + 8 * va_vpn 2 va) va True pa1
      = (s', OK (Some (l0 (cells s') root (va_vpn 2 va) (va_vpn 1 va) + 8 * va_vpn 0 va))) \<and> boot_walked 1 s s' root va"
proof -
  let ?i = "va_vpn 2 va" and ?j = "va_vpn 1 va"
  define ptr where "ptr = l1 (cells s) root ?i + 8 * ?j"
  have v: "v0 (cells s) root ?i ?j \<longleftrightarrow> pte_v (cells s ptr)" using i va_vpn_bound by (simp add: v0_def ptr_def)
  have ptr: "pte2pa (cells s (root + 8 * ?i)) + 8 * ?j = ptr" by (simp add: ptr_def l1_def)
  show ?thesis
  proof (cases "pte_v (cells s ptr)")
    case True
    then have "pt_walk_low s (root + 8 * ?i) va True pa1 = (s, OK (Some (l0 (cells s) root ?i ?j + 8 * va_vpn 0 va)))"
      unfolding pt_walk_low_def Let_def ptr by (simp add: l0_def ptr_def)
    then show ?thesis using v True boot_step_refl [OF ok] unfolding boot_walked_def by blast
  next
    case False
    obtain p where p: "pt_frame_alloc s = (s\<lparr>freemem_base := p + 4096, cells := zero_page (cells s) p\<rparr>, OK p)" "page_ok p"
      "p \<notin> tables (cells s) root" "unat (fbase s) \<le> unat p" "unat (p + 4096) = unat p + 4096" "unat (p + 4096) \<le> unat (fbase s) + 8192"
      using boot_alloc [OF ok room] .
    define m' where "m' = (zero_page (cells s) p)(ptr := pte_table p)"
    define s' where "s' = s\<lparr>freemem_base := p + 4096, cells := m'\<rparr>"
    have t: "tree_ok (cells s) root" using ok by (simp add: boot_ok_def)
    have nv: "\<not> v0 (cells s) root ?i ?j" using v False by simp
    note E = enter_l0 [OF t i va_vpn_bound nv p(2,3) m'_def [unfolded ptr_def]]
    have vv: "v0 m' root ?i ?j" using E(3) by simp
    have new: "pt_new_table s ptr = (s', OK p)" unfolding pt_new_table_def p(1) by (simp add: s'_def m'_def)
    have "pt_walk_low s (root + 8 * ?i) va True pa1 = (s', OK (Some (p + 8 * va_vpn 0 va)))"
      unfolding pt_walk_low_def Let_def ptr using False new pte2pa_table [OF p(2)] by (simp add: s'_def m'_def)
    moreover have "l0 m' root ?i ?j = p" using E(4) [OF vv] by simp
    moreover have "boot_step 1 s s' root" unfolding s'_def by (rule boot_enter_table [OF ok p(4-6) E(6,7)])
    ultimately show ?thesis using vv E(5) by (intro exI [of _ s']) (auto simp: boot_walked_def s'_def)
  qed
qed

lemma boot_walk:
  assumes ok: "boot_ok s root" and room: "unat (fbase s) + 16384 \<le> 2 ^ 56"
  shows "\<exists>s'. pt_walk s root va True = (s', OK (Some (l0 (cells s') root (va_vpn 2 va) (va_vpn 1 va) + 8 * va_vpn 0 va)))
     \<and> boot_walked 2 s s' root va"
proof -
  let ?i = "va_vpn 2 va" and ?ptr = "root + 8 * va_vpn 2 va"
  have t: "tree_ok (cells s) root" using ok by (simp add: boot_ok_def)
  have v: "v1 (cells s) root ?i \<longleftrightarrow> pte_v (cells s ?ptr)" by (simp add: v1_def va_vpn_bound)
  show ?thesis
  proof (cases "pte_v (cells s ?ptr)")
    case True
    then obtain s' where "pt_walk_low s ?ptr va True 0 = (s', OK (Some (l0 (cells s') root ?i (va_vpn 1 va) + 8 * va_vpn 0 va)))"
      "boot_walked 1 s s' root va" using boot_walk_low [OF ok] v room by fastforce
    then show ?thesis using True boot_step_mono [of 1 s s' root 2]
      by (intro exI [of _ s']) (auto simp: pt_walk_def Let_def boot_walked_def)
  next
    case False
    obtain p where p: "pt_frame_alloc s = (s\<lparr>freemem_base := p + 4096, cells := zero_page (cells s) p\<rparr>, OK p)" "page_ok p"
      "p \<notin> tables (cells s) root" "unat (fbase s) \<le> unat p" "unat (p + 4096) = unat p + 4096" "unat (p + 4096) \<le> unat (fbase s) + 8192"
      using boot_alloc [OF ok] room by auto
    define m1 where "m1 = (zero_page (cells s) p)(?ptr := pte_table p)"
    define s1 where "s1 = s\<lparr>freemem_base := p + 4096, cells := m1\<rparr>"
    have nv: "\<not> v1 (cells s) root ?i" using v False by simp
    note E = enter_l1 [OF t va_vpn_bound nv p(2,3) m1_def]
    have st: "boot_step 1 s s1 root" unfolding s1_def by (rule boot_enter_table [OF ok p(4-6) E(6,7)])
    then have ok1: "boot_ok s1 root" "unat (fbase s1) + 8192 \<le> 2 ^ 56" using room by (auto simp: boot_step_def)
    have "v1 (cells s1) root ?i" using E(1) by (simp add: s1_def)
    then obtain s' where s': "pt_walk_low s1 ?ptr va True p = (s', OK (Some (l0 (cells s') root ?i (va_vpn 1 va) + 8 * va_vpn 0 va)))"
      "boot_walked 1 s1 s' root va" using boot_walk_low [OF ok1(1) _ ok1(2)] by blast
    have "pt_new_table s ?ptr = (s1, OK p)" unfolding pt_new_table_def p(1) by (simp add: s1_def m1_def)
    then have "pt_walk s root va True = pt_walk_low s1 ?ptr va True p" using False by (simp add: pt_walk_def Let_def)
    moreover have "leaf m1 root a b x = leaf (cells s) root a b x" if "x < 512" for a b x using E(5) [of a b x] that by simp
    then have "boot_walked 2 s s' root va"
      using s'(2) boot_step_trans [OF st, of 1 s'] by (auto simp: boot_walked_def s1_def numeral_2_eq_2)
    ultimately show ?thesis using s'(1) by (intro exI [of _ s']) simp
  qed
qed

section \<open>Mapping a page\<close>

text \<open>What an entry says: the frame of \<open>pa\<close> with permissions \<open>perm\<close>.\<close>

definition maps_to :: "mm \<Rightarrow> u64 \<Rightarrow> u64 \<Rightarrow> u64 \<Rightarrow> u64 \<Rightarrow> bool" where
  "maps_to s root va pa perm \<longleftrightarrow> (\<exists>w. xlate (cells s) root va = Some w \<and> pte_v w \<and> pte_ppn w = pa_ppn pa
     \<and> take_bit 10 w = take_bit 10 (perm OR 1))"

lemma boot_leaf:
  assumes ok: "boot_ok s root" and v: "v0 (cells s) root (va_vpn 2 va) (va_vpn 1 va)"
    and s': "s' = s\<lparr>cells := (cells s)(l0 (cells s) root (va_vpn 2 va) (va_vpn 1 va) + 8 * va_vpn 0 va := w)\<rparr>"
  shows "boot_step 0 s s' root" "xlate (cells s') root va'
    = (if same_page va va' then (if pte_v w then Some w else None) else xlate (cells s) root va')"
proof -
  have t: "tree_ok (cells s) root" using ok by (simp add: boot_ok_def)
  note L = set_leaf [OF t v va_vpn_bound, where w = w, OF refl]
  have "fbase s' = fbase s" by (simp add: fbase_def s')
  then show "boot_step 0 s s' root" using ok L(2,3) by (simp add: boot_step_def boot_ok_def s')
  show "xlate (cells s') root va' = (if same_page va va' then (if pte_v w then Some w else None) else xlate (cells s) root va')"
    using L(1) [OF va_vpn_bound] unfolding xlate_def same_page_def by (auto simp: s')
qed

lemma boot_enter:
  assumes ok: "boot_ok s root" and room: "unat (fbase s) + 16384 \<le> 2 ^ 56"
  shows "\<exists>s' w. pt_enter s root va pa perm = (s', OK ()) \<and> boot_step 2 s s' root
    \<and> pte_v w \<and> pte_ppn w = pa_ppn pa \<and> take_bit 10 w = take_bit 10 (perm OR 1)
    \<and> (\<forall>va'. xlate (cells s') root va' = (if same_page va va' then Some w else xlate (cells s) root va'))"
proof -
  obtain s1 where s1: "pt_walk s root va True = (s1, OK (Some (l0 (cells s1) root (va_vpn 2 va) (va_vpn 1 va) + 8 * va_vpn 0 va)))"
    "boot_walked 2 s s1 root va" using boot_walk [OF ok room] by blast
  let ?pte = "l0 (cells s1) root (va_vpn 2 va) (va_vpn 1 va) + 8 * va_vpn 0 va"
  define w where "w = pte_set_perm (pte_set_ppn (cells s1 ?pte) (pa_ppn pa)) (perm OR 1)"
  define s2 where "s2 = s1\<lparr>cells := (cells s1)(?pte := w)\<rparr>"
  have ok1: "boot_ok s1 root" "v0 (cells s1) root (va_vpn 2 va) (va_vpn 1 va)" "boot_step 2 s s1 root"
    and same: "\<And>va'. xlate (cells s1) root va' = xlate (cells s) root va'"
    using s1(2) by (auto simp: boot_walked_def boot_step_def xlate_def va_vpn_bound)
  note W = pte_leaf [of "cells s1 ?pte" "pa_ppn pa" perm, folded w_def] and X = boot_leaf [OF ok1(1,2) s2_def]
  have ppn: "take_bit 44 (pa_ppn pa) = pa_ppn pa" by (simp add: pa_ppn_def)
  have "\<not> pt_phy s2" using ok1(1) by (simp add: s2_def boot_ok_def)
  then have "pt_enter s root va pa perm = (s2, OK ())"
    using s1(1) unfolding pt_enter_def s2_def w_def by (simp add: Let_def pt_frame_ref_inc_def)
  moreover have "boot_step 2 s s2 root" using boot_step_trans [OF ok1(3) X(1)] by simp
  ultimately show ?thesis using W ppn X(2) same by (intro exI [of _ s2] exI [of _ w]) auto
qed

lemma boot_map:
  assumes ok: "boot_ok s root" and room: "unat (fbase s) + 16384 \<le> 2 ^ 56"
  shows "\<exists>s' w. pt_map s root va pa perm = (s', OK ()) \<and> boot_step 2 s s' root
    \<and> pte_v w \<and> pte_ppn w = pa_ppn pa \<and> take_bit 10 w = take_bit 10 (perm OR 1)
    \<and> (\<forall>va'. xlate (cells s') root va' = (if same_page va va' then Some w else xlate (cells s) root va'))"
proof (cases "xlate (cells s) root va")
  case None
  have t: "tree_ok (cells s) root" using ok by (simp add: boot_ok_def)
  show ?thesis using boot_enter [OF assms, of "pp_off_clear va" "pp_off_clear pa" perm] unfolding pt_map_fresh [OF t None]
    by (simp add: same_page_def)
next
  case (Some old)
  have t: "tree_ok (cells s) root" using ok by (simp add: boot_ok_def)
  have v: "v0 (cells s) root (va_vpn 2 va) (va_vpn 1 va)" using Some by (auto simp: xlate_def leaf_def split: if_splits)
  let ?pte = "l0 (cells s) root (va_vpn 2 va) (va_vpn 1 va) + 8 * va_vpn 0 va"
  define s1 where "s1 = s\<lparr>cells := (cells s)(?pte := 0)\<rparr>"
  note X = boot_leaf [OF ok v s1_def]
  have s1: "boot_ok s1 root" "unat (fbase s1) + 16384 \<le> 2 ^ 56" using X(1) room by (auto simp: boot_step_def)
  have "pt_unmap s root (pp_off_clear va) = (s1, OK ())"
    using Some ok unfolding pt_unmap_def pt_lookup_xlate [OF t] by (simp add: xlate_def s1_def pt_frame_ref_dec_def boot_ok_def)
  moreover have "pte_v (cells s ?pte)" using Some by (auto simp: xlate_def leaf_def split: if_splits)
  ultimately have "pt_map s root va pa perm = pt_enter s1 root (pp_off_clear va) (pp_off_clear pa) perm"
    unfolding pt_map_def Let_def pt_walk_find [OF t] using v by simp
  moreover obtain s' w where "pt_enter s1 root (pp_off_clear va) (pp_off_clear pa) perm = (s', OK ())" "boot_step 2 s1 s' root"
    "pte_v w" "pte_ppn w = pa_ppn pa" "take_bit 10 w = take_bit 10 (perm OR 1)"
    "\<forall>va'. xlate (cells s') root va' = (if same_page va va' then Some w else xlate (cells s1) root va')"
    using boot_enter [OF s1, of "pp_off_clear va" "pp_off_clear pa" perm] by (auto simp: same_page_def)
  moreover have "boot_step 2 s s' root" using boot_step_trans [OF X(1) calculation(3)] by (simp add: numeral_2_eq_2)
  ultimately show ?thesis using X(2) by (intro exI [of _ s'] exI [of _ w]) auto
qed

section \<open>Mapping a range\<close>

text \<open>A virtual address is translated by its low 39 bits.\<close>

definition low39 :: "u64 \<Rightarrow> nat" where
  "low39 x = unat x mod 2 ^ 39"

lemma low39_bound: "low39 x < 2 ^ 39"
  by (simp add: low39_def)

lemma same_page_low39: "same_page x y \<longleftrightarrow> low39 x div 4096 = low39 y div 4096"
proof -
  have low: "low39 z = unat (take_bit 39 z)" for z unfolding low39_def unsigned_take_bit_eq by (simp add: take_bit_eq_mod)
  have "va_vpn l (take_bit 39 z) = va_vpn l z" if "l < 3" for l z
    using that by (intro bit_word_eqI) (auto simp: va_vpn_def bit_simps)
  then have "same_page x y = same_page (take_bit 39 x) (take_bit 39 y)" by (simp add: same_page_def)
  also have "\<dots> \<longleftrightarrow> low39 x div 4096 = low39 y div 4096" unfolding low 
    by (rule same_page_div) (use low39_bound [of x] low39_bound [of y] in \<open>simp_all add: low\<close>)
  finally show ?thesis .
qed

lemma pa_ppn_unat: "unat (pa_ppn x) = unat x div 4096 mod 2 ^ 44"
  unfolding pa_ppn_def unsigned_take_bit_eq unat_drop_bit_div by (simp add: take_bit_eq_mod)

text \<open>
  The addresses of \<open>R\<close> map to the physical address that is their low 38 bits, with \<open>perm\<close>; others as before.
\<close>

definition range_mapped :: "nat \<Rightarrow> u64 \<Rightarrow> u64 \<Rightarrow> u64 set \<Rightarrow> mm \<Rightarrow> mm \<Rightarrow> bool" where
  "range_mapped n root perm R s s' \<longleftrightarrow> boot_step n s s' root
     \<and> (\<forall>x. if x \<in> R then maps_to s' root x (take_bit 38 x) perm else xlate (cells s') root x = xlate (cells s) root x)"

lemma range_mapped_union:
  assumes "range_mapped n root perm R s s1" "range_mapped k root perm R' s1 s2"
  shows "range_mapped (n + k) root perm (R \<union> R') s s2"
proof -
  have st: "boot_step (n + k) s s2 root" using assms boot_step_trans by (auto simp: range_mapped_def)
  have "if x \<in> R \<union> R' then maps_to s2 root x (take_bit 38 x) perm else xlate (cells s2) root x = xlate (cells s) root x" for x
    using assms unfolding range_mapped_def maps_to_def by (cases "x \<in> R'"; cases "x \<in> R") (metis UnCI Un_iff)+
  then show ?thesis using st by (simp add: range_mapped_def)
qed

lemma range_mapped_refl: "boot_ok s root \<Longrightarrow> range_mapped n root perm {} s s"
  by (simp add: range_mapped_def boot_step_refl)

definition page_range :: "nat \<Rightarrow> nat \<Rightarrow> u64 set" where
  "page_range a b = {x. a \<le> low39 x \<and> low39 x < b}"

lemma page_range_split: "a \<le> c \<Longrightarrow> c \<le> b \<Longrightarrow> page_range a c \<union> page_range c b = page_range a b"
  by (auto simp: page_range_def)

lemma map_page_range:
  assumes ok: "boot_ok s root" "unat (fbase s) + 16384 \<le> 2 ^ 56"
    and a: "unat pa mod 4096 = 0" "unat pa + 4096 \<le> 2 ^ 38" "low39 va = unat pa + c" "c = 0 \<or> c = 2 ^ 38"
  shows "\<exists>s'. pt_map s root va pa perm = (s', OK ()) \<and> range_mapped 2 root perm (page_range (unat pa + c) (unat pa + c + 4096)) s s'"
proof -
  obtain s' w where m: "pt_map s root va pa perm = (s', OK ())" "boot_step 2 s s' root" "pte_v w" "pte_ppn w = pa_ppn pa"
    "take_bit 10 w = take_bit 10 (perm OR 1)"
    "\<forall>va'. xlate (cells s') root va' = (if same_page va va' then Some w else xlate (cells s) root va')"
    using boot_map [OF ok, of va pa perm] by blast
  have c: "c mod 4096 = 0" using a(4) by auto
  have same: "same_page va x \<longleftrightarrow> x \<in> page_range (unat pa + c) (unat pa + c + 4096)" for x
  proof -
    obtain k where k: "unat pa + c = 4096 * k" using a(1) c by (metis dvdE dvd_add mod_0_imp_dvd)
    then show ?thesis unfolding same_page_low39 page_range_def a(3) by auto
  qed
  have "pa_ppn pa = pa_ppn (take_bit 38 x)" if "x \<in> page_range (unat pa + c) (unat pa + c + 4096)" for x
  proof -
    have "unat (take_bit 38 x) = unat x mod 2 ^ 38" unfolding unsigned_take_bit_eq by (simp add: take_bit_eq_mod)
    also have "\<dots> = low39 x mod 2 ^ 38" unfolding low39_def by (simp add: mod_mod_cancel)
    also have "\<dots> = low39 x - c" using that a(2,4) low39_bound [of x] by (auto simp: page_range_def mod_if)
    finally have "unat (take_bit 38 x) = low39 x - c" .
    moreover have "(low39 x - c) div 4096 = unat pa div 4096"
    proof -
      obtain k where "unat pa = 4096 * k" using a(1) by (metis dvdE mod_0_imp_dvd)
      then show ?thesis using that by (auto simp: page_range_def)
    qed
    ultimately show ?thesis by (simp add: word_unat_eq_iff pa_ppn_unat)
  qed
  then have "maps_to s' root x (take_bit 38 x) perm" if "x \<in> page_range (unat pa + c) (unat pa + c + 4096)" for x
    using that same [of x] m(3-6) by (auto simp: maps_to_def)
  then show ?thesis using m(1,2,6) same unfolding range_mapped_def by auto
qed

lemma map_range_maps:
  assumes "boot_ok s root" "unat (fbase s) + 16384 * n \<le> 2 ^ 56" "n < fuel"
    and "unat pa mod 4096 = 0" "unat limit mod 4096 = 0" "unat limit \<le> 2 ^ 38" "unat limit \<le> unat pa + 4096 * n"
    and "low39 va = unat pa + c \<or> unat limit \<le> unat pa" "c = 0 \<or> c = 2 ^ 38"
  shows "\<exists>s'. map_range fuel s root va pa limit perm = Some (OK s')
    \<and> range_mapped (2 * n) root perm (page_range (unat pa + c) (unat limit + c)) s s'"
  using assms
proof (induction n arbitrary: s va pa fuel)
  case 0
  then have "\<not> pa < limit" "page_range (unat pa + c) (unat limit + c) = {}" by (auto simp: word_less_nat_alt page_range_def)
  then show ?case using 0 range_mapped_refl by (cases fuel) auto
next
  case (Suc n)
  obtain f where f: "fuel = Suc f" "n < f" using Suc.prems(3) by (cases fuel) auto
  show ?case
  proof (cases "pa < limit")
    case False
    then have "page_range (unat pa + c) (unat limit + c) = {}" by (auto simp: word_less_nat_alt page_range_def)
    then show ?thesis using False f range_mapped_refl [OF Suc.prems(1)] by simp
  next
    case True
    then have lt: "unat pa < unat limit" by (simp add: word_less_nat_alt)
    obtain k l where kl: "unat pa = 4096 * k" "unat limit = 4096 * l" using Suc.prems(4,5) by (metis dvdE mod_0_imp_dvd)
    then have le: "unat pa + 4096 \<le> unat limit" using lt by simp
    have va: "low39 va = unat pa + c" using Suc.prems(8) lt by auto
    obtain s1 where s1: "pt_map s root va pa perm = (s1, OK ())"
      "range_mapped 2 root perm (page_range (unat pa + c) (unat pa + c + 4096)) s s1"
      using map_page_range [OF Suc.prems(1) _ Suc.prems(4) _ va Suc.prems(9), of perm] Suc.prems(2,6) le by auto
    have ok1: "boot_ok s1 root" "unat (fbase s1) + 16384 * n \<le> 2 ^ 56"
      using s1(2) Suc.prems(2) by (auto simp: range_mapped_def boot_step_def)
    have pa': "unat (pa + PGSIZE_W) = unat pa + 4096" using le Suc.prems(6) by (simp add: PGSIZE_W_def unat_word_ariths)
    have va': "low39 (va + PGSIZE_W) = unat (pa + PGSIZE_W) + c \<or> unat limit \<le> unat (pa + PGSIZE_W)"
    proof (cases "unat limit \<le> unat (pa + PGSIZE_W)")
      case False
      have "low39 (va + PGSIZE_W) = (unat va + 4096) mod 2 ^ 39"
        unfolding low39_def PGSIZE_W_def by (simp add: unat_word_ariths mod_mod_cancel)
      also have "\<dots> = (low39 va + 4096) mod 2 ^ 39" unfolding low39_def by (simp add: mod_add_left_eq)
      also have "\<dots> = low39 va + 4096" using va False pa' Suc.prems(6,9) by (intro mod_less) auto
      finally show ?thesis using va pa' by simp
    qed simp
    obtain s2 where s2: "map_range f s1 root (va + PGSIZE_W) (pa + PGSIZE_W) limit perm = Some (OK s2)"
      "range_mapped (2 * n) root perm (page_range (unat (pa + PGSIZE_W) + c) (unat limit + c)) s1 s2"
      using Suc.IH [OF ok1 f(2) _ Suc.prems(5,6) _ va' Suc.prems(9)] Suc.prems(4,7) pa' kl(1) by auto
    have "page_range (unat pa + c) (unat pa + c + 4096) \<union> page_range (unat (pa + PGSIZE_W) + c) (unat limit + c)
        = page_range (unat pa + c) (unat limit + c)"
      using page_range_split [of "unat pa + c" "unat pa + c + 4096" "unat limit + c"] le pa' by (simp add: add_ac)
    then have "range_mapped (2 * Suc n) root perm (page_range (unat pa + c) (unat limit + c)) s s2"
      using range_mapped_union [OF s1(2) s2(2)] by simp
    then show ?thesis using s1(1) s2(1) f(1) True by simp
  qed
qed

section \<open>Banks and devices\<close>

definition aligned_range :: "u64 \<times> u64 \<Rightarrow> bool" where
  "aligned_range b \<longleftrightarrow> unat (fst b) mod 4096 = 0 \<and> unat (snd b) mod 4096 = 0 \<and> unat (fst b) + unat (snd b) \<le> 2 ^ 38"

text \<open>Where the mapping of a bank starts, and the addresses it covers.\<close>

definition bank_from :: "u64 \<Rightarrow> u64 \<times> u64 \<Rightarrow> u64" where
  "bank_from te b = (if fst b \<le> te \<and> te < fst b + snd b then te else fst b)"

definition bank_range :: "u64 \<Rightarrow> u64 \<times> u64 \<Rightarrow> u64 set" where
  "bank_range te b = page_range (unat (bank_from te b)) (unat (fst b) + unat (snd b))"

definition mmio_range :: "mmio_setup \<Rightarrow> u64 set" where
  "mmio_range io = page_range (unat (mm_addr io) + 2 ^ 38) (unat (mm_addr io) + unat (mm_size io) + 2 ^ 38)"

lemma unat_plus_range: "unat a + unat b \<le> 2 ^ 38 \<Longrightarrow> unat (a + b :: u64) = unat a + unat b"
  by (simp add: unat_word_ariths)

lemma low39_small: "unat x < 2 ^ 39 \<Longrightarrow> low39 x = unat x"
  by (simp add: low39_def)

text \<open>One range of pages, of any size below 2^38 bytes.\<close>

lemma map_range_any:
  assumes "boot_ok s root" "unat (fbase s) + 2 ^ 40 \<le> 2 ^ 56" "unat pa mod 4096 = 0" "unat limit mod 4096 = 0" "unat limit \<le> 2 ^ 38"
    and "low39 va = unat pa + c \<or> unat limit \<le> unat pa" "c = 0 \<or> c = 2 ^ 38"
  shows "\<exists>s'. map_range PG_FUEL s root va pa limit perm = Some (OK s')
    \<and> range_mapped (2 ^ 27) root perm (page_range (unat pa + c) (unat limit + c)) s s'"
proof -
  have "\<exists>s'. map_range PG_FUEL s root va pa limit perm = Some (OK s')
      \<and> range_mapped (2 * 2 ^ 26) root perm (page_range (unat pa + c) (unat limit + c)) s s'"
    by (rule map_range_maps) (use assms in \<open>simp_all add: PG_FUEL_def\<close>)
  then show ?thesis by simp
qed

lemma setup_banks:
  assumes "boot_ok s root" "unat (fbase s) + 2 ^ 40 * length ms \<le> 2 ^ 56" "list_all aligned_range ms" "unat te mod 4096 = 0"
  shows "\<exists>s'. vmm_setup_banks s root te ms = Some (OK s')
    \<and> range_mapped (2 ^ 27 * length ms) root PERM_ADRWG (\<Union> (bank_range te ` set ms)) s s'"
  using assms
proof (induction ms arbitrary: s)
  case Nil
  then show ?case by (simp add: range_mapped_refl)
next
  case (Cons b ms)
  obtain a n where b: "b = (a, n)" by fastforce
  have al: "aligned_range (a, n)" using Cons.prems(3) b by simp
  then have lim: "unat (a + n) = unat a + unat n" "unat (a + n) mod 4096 = 0" "unat (a + n) \<le> 2 ^ 38"
    using unat_plus_range by (auto simp: aligned_range_def mod_add_eq [symmetric])
  have va: "unat (bank_from te b) mod 4096 = 0" "unat (bank_from te b) \<le> 2 ^ 38"
    using al Cons.prems(4) lim by (auto simp: bank_from_def aligned_range_def b word_less_nat_alt)
  then have low: "low39 (bank_from te b) = unat (bank_from te b) + 0 \<or> unat (a + n) \<le> unat (bank_from te b)" using low39_small by simp
  obtain s1 where s1: "map_range PG_FUEL s root (bank_from te b) (bank_from te b) (a + n) PERM_ADRWG = Some (OK s1)"
    "range_mapped (2 ^ 27) root PERM_ADRWG (bank_range te b) s s1"
    using map_range_any [OF Cons.prems(1) _ va(1) lim(2,3) low] Cons.prems(2) lim(1) by (auto simp: bank_range_def b)
  have ok1: "boot_ok s1 root" "unat (fbase s1) + 2 ^ 40 * length ms \<le> 2 ^ 56"
    using s1(2) Cons.prems(2) by (auto simp: range_mapped_def boot_step_def)
  obtain s2 where s2: "vmm_setup_banks s1 root te ms = Some (OK s2)"
    "range_mapped (2 ^ 27 * length ms) root PERM_ADRWG (\<Union> (bank_range te ` set ms)) s1 s2"
    using Cons.IH [OF ok1 _ Cons.prems(4)] Cons.prems(3) by auto
  have "vmm_setup_banks s root te (b # ms) = Some (OK s2)"
    using s1(1) s2(1) by (auto simp: b bank_from_def Let_def split: if_splits)
  moreover have "range_mapped (2 ^ 27 * length (b # ms)) root PERM_ADRWG (\<Union> (bank_range te ` set (b # ms))) s s2"
    using range_mapped_union [OF s1(2) s2(2)] by (simp add: algebra_simps)
  ultimately show ?case by blast
qed

lemma low39_mmio: "unat a < 2 ^ 38 \<Longrightarrow> low39 (a + MMIOBASE) = unat a + 2 ^ 38"
proof -
  assume a: "unat a < 2 ^ 38"
  have "(unat a + unat MMIOBASE) mod 2 ^ 64 mod 2 ^ 39 = (unat a + unat MMIOBASE) mod 2 ^ 39" by (simp add: mod_mod_cancel)
  also have "\<dots> = (unat a + unat MMIOBASE mod 2 ^ 39) mod 2 ^ 39" by (simp add: mod_add_right_eq)
  also have "\<dots> = unat a + 2 ^ 38" using a by (simp add: MMIOBASE_def)
  finally show ?thesis by (simp add: low39_def unat_word_ariths)
qed

lemma setup_mmio:
  assumes "boot_ok s root" "unat (fbase s) + 2 ^ 40 * length ios \<le> 2 ^ 56" "list_all (\<lambda>io. aligned_range (mm_addr io, mm_size io)) ios"
  shows "\<exists>s'. vmm_setup_mmio s root ios = Some (OK (s', map (\<lambda>io. io\<lparr>mm_addr := mm_addr io + MMIOBASE\<rparr>) ios))
    \<and> range_mapped (2 ^ 27 * length ios) root PERM_ADRWG (\<Union> (mmio_range ` set ios)) s s'"
  using assms
proof (induction ios arbitrary: s)
  case Nil
  then show ?case by (simp add: range_mapped_refl)
next
  case (Cons io ios)
  have al: "aligned_range (mm_addr io, mm_size io)" using Cons.prems(3) by simp
  then have lim: "unat (mm_addr io + mm_size io) = unat (mm_addr io) + unat (mm_size io)" "unat (mm_addr io + mm_size io) mod 4096 = 0"
    "unat (mm_addr io + mm_size io) \<le> 2 ^ 38" "unat (mm_addr io) mod 4096 = 0"
    using unat_plus_range by (auto simp: aligned_range_def mod_add_eq [symmetric])
  have low: "low39 (mm_addr io + MMIOBASE) = unat (mm_addr io) + 2 ^ 38 \<or> unat (mm_addr io + mm_size io) \<le> unat (mm_addr io)"
    using low39_mmio [of "mm_addr io"] lim(1,3) by (cases "unat (mm_addr io) < 2 ^ 38") auto
  obtain s1 where s1: "map_range PG_FUEL s root (mm_addr io + MMIOBASE) (mm_addr io) (mm_addr io + mm_size io) PERM_ADRWG = Some (OK s1)"
    "range_mapped (2 ^ 27) root PERM_ADRWG (mmio_range io) s s1"
    using map_range_any [OF Cons.prems(1) _ lim(4,2,3) low, of PERM_ADRWG] Cons.prems(2) lim(1) by (auto simp: mmio_range_def)
  have ok1: "boot_ok s1 root" "unat (fbase s1) + 2 ^ 40 * length ios \<le> 2 ^ 56"
    using s1(2) Cons.prems(2) by (auto simp: range_mapped_def boot_step_def)
  obtain s2 where s2: "vmm_setup_mmio s1 root ios = Some (OK (s2, map (\<lambda>io. io\<lparr>mm_addr := mm_addr io + MMIOBASE\<rparr>) ios))"
    "range_mapped (2 ^ 27 * length ios) root PERM_ADRWG (\<Union> (mmio_range ` set ios)) s1 s2"
    using Cons.IH [OF ok1] Cons.prems(3) by auto
  have "vmm_setup_mmio s root (io # ios) = Some (OK (s2, map (\<lambda>io. io\<lparr>mm_addr := mm_addr io + MMIOBASE\<rparr>) (io # ios)))"
    using s1(1) s2(1) by simp
  moreover have "range_mapped (2 ^ 27 * length (io # ios)) root PERM_ADRWG (\<Union> (mmio_range ` set (io # ios))) s s2"
    using range_mapped_union [OF s1(2) s2(2)] by (simp add: algebra_simps)
  ultimately show ?case by blast
qed

section \<open>The frame allocator takes over\<close>

lemma palloc_fbase:
  assumes "palloc s sz PGSIZE_W = (s1, arr)" "unat (fbase s) + 4096 + unat sz < 2 ^ 64"
  shows "unat (fbase s1) \<le> unat (fbase s) + 4096 + unat sz" "cells s1 = cells s" "mems s1 = mems s" "pt_phy s1 = pt_phy s"
proof -
  define x where "x = unat (fbase s)"
  have arr: "arr = align_up (fbase s) PGSIZE_W" and s1: "s1 = s\<lparr>freemem_base := arr + sz\<rparr>"
    using assms(1) by (auto simp: palloc_def Let_def fbase_def)
  have u: "unat arr = (x + 4095) div 4096 * 4096"
    unfolding arr x_def using assms(2) by (subst unat_align_up) (simp_all add: layout_simps)
  moreover have "x + 4095 = (x + 4095) div 4096 * 4096 + (x + 4095) mod 4096" by simp
  moreover have "(x + 4095) mod 4096 < 4096" by simp
  ultimately have a: "x \<le> unat arr" "unat arr \<le> x + 4095" by linarith+
  then have f: "unat (arr + sz) = unat arr + unat sz" using assms(2) by (simp add: unat_word_ariths x_def)
  then have "unat (fbase s1) \<le> x + 4096 + unat sz"
    using a f unat_gt_0 [of "freemem_base s"] by (cases "arr + sz = 0") (auto simp: s1 fbase_def x_def split: if_splits)
  then show "unat (fbase s1) \<le> unat (fbase s) + 4096 + unat sz" "cells s1 = cells s" "mems s1 = mems s" "pt_phy s1 = pt_phy s"
    by (simp_all add: x_def s1)
qed

lemma pmm_init_banks_frame:
  assumes "list_all aligned_range ms" "unat (fbase s) + 2 ^ 31 * length ms < 2 ^ 63"
  shows "cells (pmm_init_banks ms s) = cells s \<and> mems (pmm_init_banks ms s) = mems s \<and> pt_phy (pmm_init_banks ms s) = pt_phy s
    \<and> unat (fbase (pmm_init_banks ms s)) \<le> unat (fbase s) + 2 ^ 31 * length ms"
  using assms
proof (induction ms arbitrary: s)
  case (Cons b ms)
  obtain a n where b: "b = (a, n)" by fastforce
  have "unat n \<le> 2 ^ 38" using Cons.prems(1) b by (simp add: aligned_range_def)
  then have "unat n div 4096 \<le> 2 ^ 38 div 4096" by (rule div_le_mono)
  then have "unat (n div PGSIZE_W) \<le> 2 ^ 26" by (simp add: unat_div PGSIZE_W_def)
  then have sz: "unat (PF_SIZE * (n div PGSIZE_W)) \<le> 24 * 2 ^ 26" by (simp add: unat_word_ariths PF_SIZE_def)
  obtain s1 arr where p: "palloc s (PF_SIZE * (n div PGSIZE_W)) PGSIZE_W = (s1, arr)" by fastforce
  note P = palloc_fbase [OF p]
  define s2 where "s2 = s1\<lparr>pf_array := pf_array s1 @ [arr], pf_array_len := pf_array_len s1 @ [n div PGSIZE_W],
     pf_free_list := pf_free_list s1 @ [bank_frames arr (n div PGSIZE_W)],
     pf_ref := (\<lambda>f. if f \<in> set (bank_frames arr (n div PGSIZE_W)) then 0 else pf_ref s1 f)\<rparr>"
  have s2: "cells s2 = cells s1" "mems s2 = mems s1" "pt_phy s2 = pt_phy s1" "fbase s2 = fbase s1" by (simp_all add: s2_def fbase_def)
  have "pmm_init_banks (b # ms) s = pmm_init_banks ms s2" unfolding b pmm_init_banks.simps Let_def p prod.case s2_def ..
  moreover have "unat (fbase s1) \<le> unat (fbase s) + 2 ^ 31" using P(1) sz Cons.prems(2) by simp
  moreover have "cells s1 = cells s" "mems s1 = mems s" "pt_phy s1 = pt_phy s" using P(2-4) sz Cons.prems(2) by simp_all
  ultimately show ?case using Cons.IH [of s2] Cons.prems s2 by simp
qed simp

lemma pa2sel_from_result: "pa2sel_from k ms a = ERR KER_MEM_ER \<and> (\<forall>b \<in> set ms. \<not> (fst b \<le> a \<and> a < fst b + snd b)) \<or> (\<exists>i. pa2sel_from k ms a = OK i)"
proof (induction ms arbitrary: k)
  case (Cons b ms)
  then show ?case using Cons.IH [of "Suc k"] by (cases b) auto
qed simp

definition reserve_ends :: "u64 \<Rightarrow> mm \<Rightarrow> mm result option \<Rightarrow> bool" where
  "reserve_ends a s r \<longleftrightarrow> (\<exists>s'. r = Some (OK s') \<and> cells s' = cells s)
     \<or> (r = Some PANIC \<and> (\<exists>x \<ge> a. \<forall>b \<in> set (mems s). \<not> (fst b \<le> x \<and> x < fst b + snd b)))"

lemma pmm_reserve_ends:
  assumes "unat (freemem_base s) + 4096 \<le> 2 ^ 64" "unat (freemem_base s) \<le> unat a + 4096 * n"
  shows "reserve_ends a s (pmm_reserve (Suc n) a s)"
  using assms
proof (induction n arbitrary: s a)
  case 0
  then show ?case by (simp add: reserve_ends_def word_less_nat_alt)
next
  case (Suc n)
  show ?case
  proof (cases "a < freemem_base s")
    case False
    then show ?thesis by (simp add: reserve_ends_def)
  next
    case True
    have a: "unat (a + PGSIZE_W) = unat a + 4096"
      using True Suc.prems(1) by (simp add: PGSIZE_W_def unat_word_ariths word_less_nat_alt)
    show ?thesis
    proof (rule disjE [OF pa2sel_from_result [of 0 "mems s" a]])
      assume e: "pa2sel_from 0 (mems s) a = ERR KER_MEM_ER \<and> (\<forall>b \<in> set (mems s). \<not> (fst b \<le> a \<and> a < fst b + snd b))"
      then have "pmm_reserve (Suc (Suc n)) a s = Some PANIC" using True by (simp add: pa2frame_def pa2sel_def)
      then show ?thesis using e unfolding reserve_ends_def by blast
    next
      assume "\<exists>i. pa2sel_from 0 (mems s) a = OK i"
      then obtain i f where i: "pa2sel s a = OK i" "pa2frame s a = OK f" by (auto simp: pa2sel_def pa2frame_def Let_def)
      define s1 where "s1 = s\<lparr>pf_free_list := (pf_free_list s)[i := remove1 f (pf_free_list s ! i)], pf_ref := (pf_ref s)(f := 1)\<rparr>"
      have "pmm_reserve (Suc (Suc n)) a s = pmm_reserve (Suc n) (a + PGSIZE_W) s1"
        unfolding pmm_reserve.simps(2) [of "Suc n"] using True i by (simp only: if_True result.case s1_def)
      moreover have "reserve_ends (a + PGSIZE_W) s1 (pmm_reserve (Suc n) (a + PGSIZE_W) s1)"
        using Suc.prems a by (intro Suc.IH) (simp_all add: s1_def)
      moreover have "cells s1 = cells s" "mems s1 = mems s" "x \<ge> a + PGSIZE_W \<Longrightarrow> x \<ge> a" for x
        using a by (simp_all add: s1_def word_le_nat_alt)
      ultimately show ?thesis unfolding reserve_ends_def by (metis (no_types, lifting))
    qed
  qed
qed

lemma pmm_init_ends:
  assumes "list_all aligned_range (mems s)" "unat (fbase s) + 2 ^ 31 * length (mems s) < 2 ^ 63"
  shows "reserve_ends SBIBASE s (pmm_init s)"
proof -
  define s0 where "s0 = s\<lparr>pf_array := [], pf_array_len := [], pf_free_list := []\<rparr>"
  define s1 where "s1 = pmm_init_banks (mems s) s0"
  define s2 where "s2 = s1\<lparr>freemem_base := align_up (freemem_base s1) PGSIZE_W\<rparr>"
  have "fbase s0 = fbase s" by (simp add: s0_def fbase_def)
  then have f: "cells s1 = cells s" "mems s1 = mems s" "unat (fbase s1) < 2 ^ 63"
    using pmm_init_banks_frame [OF assms(1), of s0] assms(2) by (auto simp: s1_def) (simp_all add: s0_def)
  have "unat (freemem_base s1) \<le> unat (fbase s1)" by (simp add: fbase_def)
  then have "unat (freemem_base s1) < 2 ^ 63" using f(3) by simp
  then have "unat (align_up (freemem_base s1) PGSIZE_W) = (unat (freemem_base s1) + 4095) div 4096 * 4096"
    by (subst unat_align_up) (simp_all add: layout_simps)
  also have "\<dots> \<le> unat (freemem_base s1) + 4095" by (rule div_times_less_eq_dividend)
  finally have le: "unat (freemem_base s2) + 4096 \<le> 2 ^ 64" using \<open>unat (freemem_base s1) < 2 ^ 63\<close> by (simp add: s2_def)
  have "unat (freemem_base s2) = unat (freemem_base s2) div 4096 * 4096 + unat (freemem_base s2) mod 4096" by simp
  moreover have "unat (freemem_base s2) mod 4096 < 4096" by simp
  moreover have "4096 \<le> unat SBIBASE" by (simp add: SBIBASE_def)
  ultimately have "unat (freemem_base s2) \<le> unat SBIBASE + 4096 * (unat (freemem_base s2) div 4096)" by linarith
  then have "reserve_ends SBIBASE s2 (pmm_reserve (Suc (unat (freemem_base s2) div 4096)) SBIBASE s2)" by (rule pmm_reserve_ends [OF le])
  then show ?thesis using f unfolding pmm_init_def Let_def s0_def [symmetric] s1_def [symmetric] s2_def [symmetric] by (simp add: reserve_ends_def s2_def)
qed

section \<open>Properties\<close>

lemma take38: "unat x < 2 ^ 38 \<Longrightarrow> take_bit 38 x = (x :: u64)"
  by (simp add: word_unat_eq_iff unsigned_take_bit_eq take_bit_nat_eq_self)

lemma take38_mmio: "unat a < 2 ^ 38 \<Longrightarrow> take_bit 38 (a + MMIOBASE) = a"
proof -
  assume a: "unat a < 2 ^ 38"
  have "unat (take_bit 38 (a + MMIOBASE)) = low39 (a + MMIOBASE) mod 2 ^ 38"
    unfolding low39_def unsigned_take_bit_eq by (simp add: take_bit_eq_mod mod_mod_cancel)
  also have "\<dots> = unat a" using a by (simp add: low39_mmio)
  finally show ?thesis by (simp add: word_unat_eq_iff)
qed

lemma range_mapped_in: "range_mapped n root perm R s s' \<Longrightarrow> x \<in> R \<Longrightarrow> maps_to s' root x (take_bit 38 x) perm"
  by (auto simp: range_mapped_def)

lemma range_mapped_out: "range_mapped n root perm R s s' \<Longrightarrow> x \<notin> R \<Longrightarrow> maps_to s' root x y p = maps_to s root x y p"
  by (auto simp: range_mapped_def maps_to_def)

lemma maps_to_cells: "cells s' = cells s \<Longrightarrow> maps_to s' root = maps_to s root"
  by (intro ext) (simp only: maps_to_def)

text \<open>The state in which \<open>pmm_init\<close> starts.\<close>

lemma kernel_mapped:
  fixes te :: u64
  assumes "boot_ok s root" "unat (fbase s) \<le> 2 ^ 54" "length ios \<le> 1000" "length (mems s) \<le> 1000"
    "list_all (\<lambda>io. aligned_range (mm_addr io, mm_size io)) ios" "list_all aligned_range (mems s)" "unat te \<le> 2 ^ 38" "unat te mod 4096 = 0"
    and apart: "\<forall>b \<in> set (mems s). (fst b \<le> te \<and> te < fst b + snd b) \<or> fst b + snd b \<le> KERNBASE \<or> te \<le> fst b"
  obtains s1 s2 s3 where "vmm_setup_mmio s root ios = Some (OK (s1, map (\<lambda>io. io\<lparr>mm_addr := mm_addr io + MMIOBASE\<rparr>) ios))"
    "map_range PG_FUEL s1 root KERNBASE KERNBASE te PERM_ADRXWG = Some (OK s2)" "vmm_setup_banks s2 root te (mems s2) = Some (OK s3)"
    "mems s3 = mems s" "unat (fbase s3) \<le> 2 ^ 55"
    "\<And>x. KERNBASE \<le> x \<Longrightarrow> x < te \<Longrightarrow> maps_to s3 root x x PERM_ADRXWG"
    "\<And>b x. b \<in> set (mems s) \<Longrightarrow> bank_from te b \<le> x \<Longrightarrow> x < fst b + snd b \<Longrightarrow> maps_to s3 root x x PERM_ADRWG"
    "\<And>io d. io \<in> set ios \<Longrightarrow> d < mm_size io \<Longrightarrow> maps_to s3 root (mm_addr io + MMIOBASE + d) (mm_addr io + d) PERM_ADRWG"
proof -
  have room: "unat (fbase s) + 2 ^ 40 * length ios \<le> 2 ^ 56" using assms(2,3) by simp
  obtain s1 where s1: "vmm_setup_mmio s root ios = Some (OK (s1, map (\<lambda>io. io\<lparr>mm_addr := mm_addr io + MMIOBASE\<rparr>) ios))"
    "range_mapped (2 ^ 27 * length ios) root PERM_ADRWG (\<Union> (mmio_range ` set ios)) s s1"
    using setup_mmio [OF assms(1) room assms(5)] by blast
  have b1: "boot_ok s1 root" "unat (fbase s1) \<le> 2 ^ 54 + 2 ^ 50" "mems s1 = mems s"
    using s1(2) assms(2,3) by (auto simp: range_mapped_def boot_step_def)
  have kb: "unat KERNBASE = 0x80200000" "unat KERNBASE mod 4096 = 0" "low39 KERNBASE = unat KERNBASE + 0"
    by (simp_all add: KERNBASE_def low39_def)
  obtain s2 where s2: "map_range PG_FUEL s1 root KERNBASE KERNBASE te PERM_ADRXWG = Some (OK s2)"
    "range_mapped (2 ^ 27) root PERM_ADRXWG (page_range (unat KERNBASE) (unat te)) s1 s2"
    using map_range_any [OF b1(1) _ kb(2) assms(8,7), of KERNBASE 0 PERM_ADRXWG] b1(2) kb(3) by auto
  have b2: "boot_ok s2 root" "unat (fbase s2) \<le> 2 ^ 54 + 2 ^ 51" "mems s2 = mems s"
    using s2(2) b1 by (auto simp: range_mapped_def boot_step_def)
  then have "unat (fbase s2) + 2 ^ 40 * length (mems s2) \<le> 2 ^ 56" using assms(4) by simp
  then obtain s3 where s3: "vmm_setup_banks s2 root te (mems s2) = Some (OK s3)"
    "range_mapped (2 ^ 27 * length (mems s2)) root PERM_ADRWG (\<Union> (bank_range te ` set (mems s2))) s2 s3"
    using setup_banks [OF b2(1) _ _ assms(8), of "mems s2"] assms(6) b2(3) by auto
  have b3: "unat (fbase s3) \<le> 2 ^ 55" "mems s3 = mems s" using s3(2) b2 assms(4) by (auto simp: range_mapped_def boot_step_def)
  have bank: "unat (fst b) + unat (snd b) \<le> 2 ^ 38" "unat (fst b + snd b) = unat (fst b) + unat (snd b)" if "b \<in> set (mems s)" for b
    using assms(6) that unat_plus_range by (auto simp: list_all_iff aligned_range_def)
  note R = range_mapped_in [OF s3(2), unfolded b2(3)] range_mapped_out [OF s3(2), unfolded b2(3)]
  have txt_map: "maps_to s3 root x x PERM_ADRXWG" if x: "KERNBASE \<le> x" "x < te" for x
  proof -
    have ux: "unat KERNBASE \<le> unat x" "unat x < unat te" using x by (simp_all add: word_le_nat_alt word_less_nat_alt)
    then have lx: "unat x < 2 ^ 38" "low39 x = unat x" using assms(7) by (simp_all add: low39_def)
    have "x \<notin> bank_range te b" if b: "b \<in> set (mems s)" for b
      using apart b bank [OF b] ux lx by (auto simp: bank_range_def page_range_def bank_from_def word_le_nat_alt word_less_nat_alt)
    then have "maps_to s3 root x x PERM_ADRXWG = maps_to s2 root x x PERM_ADRXWG" using R(2) by blast
    moreover have "maps_to s2 root x (take_bit 38 x) PERM_ADRXWG"
      using range_mapped_in [OF s2(2)] ux lx by (simp add: page_range_def)
    ultimately show ?thesis using take38 [OF lx(1)] by simp
  qed
  have banks: "maps_to s3 root x x PERM_ADRWG" if b: "b \<in> set (mems s)" and x: "bank_from te b \<le> x" "x < fst b + snd b" for b x
  proof -
    have ux: "unat (bank_from te b) \<le> unat x" "unat x < unat (fst b) + unat (snd b)"
      using x bank(2) [OF b] by (simp_all add: word_le_nat_alt word_less_nat_alt)
    then have lx: "unat x < 2 ^ 38" "low39 x = unat x" using bank(1) [OF b] by (simp_all add: low39_def)
    then have "x \<in> bank_range te b" using ux by (simp add: bank_range_def page_range_def)
    then have "maps_to s3 root x (take_bit 38 x) PERM_ADRWG" using R(1) b by blast
    then show ?thesis using take38 [OF lx(1)] by simp
  qed
  have mmio: "maps_to s3 root (mm_addr io + MMIOBASE + d) (mm_addr io + d) PERM_ADRWG" if io: "io \<in> set ios" and d: "d < mm_size io" for io d
  proof -
    have al: "unat (mm_addr io) + unat (mm_size io) \<le> 2 ^ 38" using assms(5) io by (auto simp: list_all_iff aligned_range_def)
    have ud: "unat d < unat (mm_size io)" using d by (simp add: word_less_nat_alt)
    then have ua: "unat (mm_addr io + d) = unat (mm_addr io) + unat d" "unat (mm_addr io + d) < 2 ^ 38"
      using al unat_plus_range [of "mm_addr io" d] by simp_all
    have e: "mm_addr io + MMIOBASE + d = (mm_addr io + d) + MMIOBASE" by simp
    have low: "low39 (mm_addr io + MMIOBASE + d) = unat (mm_addr io) + unat d + 2 ^ 38" unfolding e low39_mmio [OF ua(2)] ua(1) ..
    then have "mm_addr io + MMIOBASE + d \<in> mmio_range io" using ud by (simp add: mmio_range_def page_range_def)
    then have "maps_to s1 root (mm_addr io + MMIOBASE + d) (take_bit 38 (mm_addr io + MMIOBASE + d)) PERM_ADRWG"
      using range_mapped_in [OF s1(2)] io by blast
    then have m1: "maps_to s1 root (mm_addr io + MMIOBASE + d) (mm_addr io + d) PERM_ADRWG" unfolding e take38_mmio [OF ua(2)] .
    have "mm_addr io + MMIOBASE + d \<notin> page_range (unat KERNBASE) (unat te)" using low assms(7) by (simp add: page_range_def)
    moreover have "mm_addr io + MMIOBASE + d \<notin> bank_range te b" if "b \<in> set (mems s)" for b
      using low bank(1) [OF that] by (simp add: bank_range_def page_range_def)
    ultimately show ?thesis using R(2) range_mapped_out [OF s2(2)] m1 by blast
  qed
  show ?thesis using that s1(1) s2(1) s3(1) b3 txt_map banks mmio by blast
qed


text \<open>One bank of 128 MiB, a UART, two pages of text and an empty root table behind them.\<close>

definition mm_boot :: mm where
  "mm_boot = \<lparr>kern_end = 0x80204000, mems = [(0x80000000, 0x8000000)], freemem_base = 0, pf_array = [], pf_array_len = [],
     pf_free_list = [], pf_ref = (\<lambda>_. 0), cells = (\<lambda>_. 0), pt_phy = False\<rparr>"

lemma tree_ok_zero: "page_ok root \<Longrightarrow> tree_ok (\<lambda>_. 0) root \<and> tables (\<lambda>_. 0) root = {root}"
  by (auto simp: tree_ok_def tables_def v1_def v0_def pte_v_def)


end
