(* ===== verification/Spec2Isabelle.thy ===== *)
theory Spec2Isabelle
  imports Linked_List Lock Printfmt Bootargs Drivers Services Messages Wellformed Vmm_Boot
begin

text \<open>
  Jrinx is a partitioning kernel for RISC-V (Sv39) in the style of ARINC 653: it loads programs into partitions
  with address spaces of their own, gives each partition windows of processor time in a fixed cycle, runs the processes of a
  partition by priority within its windows, and offers them buffers and blackboards inside a partition and queuing
  ports between partitions. This development models the kernel function by function, the user-side service
  interface included, and proves what the parts promise each other.

  \<^bold>\<open>Layers and theories.\<close>

  \<^item> \<open>Prelude\<close>: error codes and the \<open>catch_e\<close>/\<open>panic_e\<close> discipline (\<^verbatim>\<open>include/kern/lib/errors.h\<close>, \<^verbatim>\<open>debug.h\<close>) as a
    result type (\<open>OK\<close>, \<open>ERR\<close>, \<open>PANIC\<close>), byte memory, word lemmas.
  \<^item> \<open>Bits\<close>: alignment, first-set-bit, bitmaps, byte order, \<open>gcd\<close> and \<open>lcm\<close> (\<^verbatim>\<open>include/*.h\<close>, \<^verbatim>\<open>lib/arithmetic.c\<close>).
  \<^item> \<open>Linked_List\<close>: the intrusive lists of \<^verbatim>\<open>include/list.h\<close> on a heap of cells, refined to HOL lists; the layers
    above use HOL lists on the strength of this refinement (locale \<open>node_queue\<close>, interpreted on the pointer code).
  \<^item> \<open>Cstring\<close>: \<^verbatim>\<open>lib/string.c\<close> over byte memory; \<open>memcpy\<close> and \<open>memset\<close> with their word loops.
  \<^item> \<open>Circbuf\<close>: \<^verbatim>\<open>lib/circbuf.c\<close>, with the wrap-around of \<open>cc_tail\<close>, and the message slots of buffers and channels (locale \<open>bounded_fifo\<close>).
  \<^item> \<open>Hashmap\<close>: \<^verbatim>\<open>lib/hashmap.c\<close> with its three hash functions, refined to finite maps (locales \<open>hash_keys\<close> and
    \<open>keyed_map\<close>, interpreted for strings, 32- and 64-bit keys).
  \<^item> \<open>Lock\<close>: \<^verbatim>\<open>kern/lock/*.c\<close> as interleaved program points of several harts, with the interrupt masking of \<^verbatim>\<open>traps.c\<close>.
  \<^item> \<open>Asid\<close>, \<open>Kalloc\<close>, \<open>Pmm\<close>, \<open>Vmm\<close>: \<^verbatim>\<open>kern/mm/*.c\<close>: identifiers of address spaces with generations, the buddy heap, reference-counted
    physical frames, three-level page tables over 64-bit cells.
  \<^item> \<open>Kernel_State\<close>: the objects of \<^verbatim>\<open>kern/multitask\<close>, \<^verbatim>\<open>kern/comm\<close>, \<^verbatim>\<open>kern/chan\<close>, \<^verbatim>\<open>kern/traps\<close> as records, the kernel state
    \<open>kst\<close>, and memory as the current partition sees it.
  \<^item> \<open>Traps\<close>, \<open>Timer\<close>, \<open>Multitask\<close>, \<open>Sched\<close>, \<open>Comm\<close>, \<open>Chan\<close>: \<^verbatim>\<open>traps.c\<close> (contexts), \<^verbatim>\<open>timer.c\<close>, \<^verbatim>\<open>partition.c\<close> and \<^verbatim>\<open>process.c\<close>, \<^verbatim>\<open>sched.c\<close>,
    \<^verbatim>\<open>buffer.c\<close> and \<^verbatim>\<open>blackboard.c\<close>, \<^verbatim>\<open>queuing.c\<close> and \<^verbatim>\<open>channel.c\<close>, one definition per function under the function's name.
  \<^item> \<open>Loader\<close>: \<^verbatim>\<open>lib/elfloader.c\<close>, \<open>part_load_prog\<close> and \<open>part_create\<close>: segments of the ELF images through a mapper callback
    (locale \<open>segment_mapper\<close>, interpreted on the kernel's mapper) into frames of physical memory.
  \<^item> \<open>Argparser\<close>, \<open>Bootargs\<close>: \<^verbatim>\<open>lib/argparser.c\<close> and \<^verbatim>\<open>kern/lib/bootargs.c\<close>: the command line, the four configuration strings and the objects
    they create (locales \<open>conf_format\<close> and \<open>conf_record\<close>, interpreted on the formats of the code).
  \<^item> \<open>Syscalls\<close>: all 67 handlers of \<^verbatim>\<open>kern/traps/syscalls.c\<close> and their dispatch. \<open>Trap_Handlers\<close>: the firing of time events, page faults
    and the entries of \<^verbatim>\<open>traps.c\<close>. \<open>Services\<close>: \<^verbatim>\<open>include/user/sys/syscalls.h\<close> and \<^verbatim>\<open>services.h\<close>.
  \<^item> \<open>Serial\<close>, \<open>Console\<close>: the \<^verbatim>\<open>uart16550a\<close> driver against a device with arbitrary status readings, the device registry of
    \<^verbatim>\<open>serialport.c\<close> and the console calls (locale \<open>serial_driver\<close>, interpreted on the driver).
  \<^item> \<open>Devicetree\<close>, \<open>Drivers\<close>: \<^verbatim>\<open>devicetree.c\<close>, loading of the flattened tree from memory and the walks over it; \<^verbatim>\<open>device.c\<close>, \<^verbatim>\<open>mems.c\<close>, \<^verbatim>\<open>aliases.c\<close>,
    \<^verbatim>\<open>chosen.c\<close>, \<^verbatim>\<open>intc.c\<close> and the interrupt controller \<^verbatim>\<open>irq/plic.c\<close>.
  \<^item> \<open>Printfmt\<close>: \<^verbatim>\<open>lib/printfmt.c\<close>, \<open>sprintf\<close> and the buffered output of \<^verbatim>\<open>user/lib/logger.c\<close> (locale \<open>fmt_sink\<close>, interpreted on both).
  \<^item> \<open>Vmm_Boot\<close>: the address space that \<open>vmm_setup_mmio\<close> and \<open>vmm_setup_kern\<close> build.
  \<^item> \<open>Wellformed\<close>: the typing of the kernel's references, and the runs of the kernel as a step relation.
  \<^item> \<open>Isolation\<close>, \<open>Messages\<close>: properties that span the handlers and the components below them.

  \<^bold>\<open>State and control.\<close> An object is known by its position in the list of its kind, which stands for the pointer of
  the code; positions are never reused. Partitions run on one hart (\<open>SYSCORE\<close>), so the per-hart arrays are single fields, and
  from \<open>Kernel_State\<close> upwards each call is one critical section: the locks, proved in \<open>Lock\<close>, are left out. A handler that calls
  \<open>sched_proc_give_up\<close> ends in \<open>Yield\<close> with the continuation that \<open>resume_call\<close> takes up later. Every reading of the clock is an
  argument (\<open>clk i\<close> is the \<open>i\<close>-th reading), times are integers with the wrap-around of \<open>intmax_t\<close> written out (\<open>swrap64\<close>),
  all other integers are words. An intrusive link is in one list at a time, as the code requires. \<open>kalloc\<close> is proved in \<open>Kalloc\<close>; above
  it, exhaustion of the kernel heap is left out because the code never tests for it. Pointers that user code
  passes are addresses of the user part of the caller's address space; the code does not check them.

  \<^bold>\<open>Bounds.\<close> Loops over lists are structural. \<open>te_loop\<close> and \<open>bb_wake_all\<close> are bounded by the length of the queue they consume, which
  no round extends. The page loops (\<open>map_range\<close>, \<open>load_file\<close>, \<open>load_zero\<close>) have \<open>PG_FUEL\<close>, more than the
  number of pages of the address space. \<open>do_pagefault\<close> has fuel 2 (one allocation, one successful lookup), \<open>asid_renew\<close> two rounds (\<open>asid_renew_terminates\<close>). The
  string loops that may run over the whole address space are \<open>partial_function (option)\<close>; \<open>None\<close> counts as a fault. So is the
  loop over the boot arguments, whose index an uninitialised variable may move anywhere (parameter \<open>junk\<close>). The loader of the device
  tree has fuel; the length of the flattened tree plus the longest property name is enough.
  The polling loops of the serial driver and console take the list of readings they see.

  \<^bold>\<open>What is shown.\<close> Memory: both allocators hand out fresh memory, free and merge it, and keep their invariants; mapping and unmapping
  change exactly one translation; frames are freed by the last reference; a loaded segment shows its file's bytes to the
  partition. Boot: the kernel's text,
  the memory banks and the devices' registers are mapped where the code expects them; a flattened device tree is loaded as described and gives the memory
  banks; options and configuration strings are read back, and create what they describe. Output: printed numbers are read back. Concurrency: mutual exclusion under every
  interleaving. Scheduling: windows do not overlap and are served in cyclic order, the elected process is the first of the highest
  priority or the next one in turn, and exactly one process runs. Time: the event queue is sorted, exactly the due events
  fire, timed waits end in time. Communication: buffers are first-in first-out queues of messages with the chosen waking discipline,
  in regions of their own. Typing: however traps, calls, resumed calls and scheduler passes follow
  one another, every reference in the kernel's data names an object of the right kind. Partitioning: a system call leaves other partitions' memory and objects alone. Interface: every
  service reaches its handler with its arguments. Data structures: refinement of queues, maps and lists. The error theorems
  show defects of the code: a dangling table after a failed \<open>pt_walk\<close>, a fatal lock release in \<open>do_cons_read_char\<close>, a stopped process that stays in a waiting
  list, a size that wraps around in \<open>buffer_alloc\<close>, a page of a small segment that is cleared again by the loader, and a second channel that
  the boot arguments cannot describe.

  \<^bold>\<open>Not modelled.\<close> Of the boot arguments, the test runner \<open>do_test\<close> and the arrays of tick statistics;
  the drivers of the processors, the clock and the second serial port, and the probing of the interrupt controller; the kernel logger, which
  sends its text to the firmware; \<open>do_external_int\<close>, which only calls a driver; the
  statistics of \<open>do_timer_int\<close>; assembly, control registers and firmware calls. The boot sequence \<^verbatim>\<open>kern/boot/init.c\<close> only calls
  the set-up functions.
\<close>

end
